(* ===== verification/Prelude.thy ===== *)
theory Prelude
  imports Main "HOL-Library.Word" "HOL-Library.Monad_Syntax"
begin

section \<open>Shared vocabulary of the OS/161 model\<close>

text \<open>
  What every component theory uses: the kernel's error numbers
  (\<^verbatim>\<open>kern/include/kern/errno.h\<close>), the type of kernel computations that may stop the
  machine, checked array access, the C integer ranges of the 32-bit MIPS target, and the
  generic lemmas on lists and machine integers.

  A computation has type \<open>'a run\<close>: \<open>Some x\<close> is a normal return, \<open>None\<close> is a failed
  \<^verbatim>\<open>assert\<close>, a call of \<^verbatim>\<open>panic\<close>, or an access outside an array or of a word that was
  never written (undefined in C). A pointer result that may be NULL has type \<open>'a ptr\<close>,
  an operation that returns an error number has type \<open>'a res\<close>, \<open>Inl\<close> for the error.
\<close>

datatype errno =
    EINVAL | EFAULT | ENAMETOOLONG | ENOMEM | EIO | ENOENT | ENOTDIR | EISDIR | EEXIST
  | EXDEV | EAGAIN | ESPIPE | EUNIMP | ENXIO | ENODEV | EBUSY | EIOCTL | ENOTEMPTY
  | ERANGE | ENOSPC | EMFILE | ENFILE | ENOSYS | ENOEXEC | E2BIG | EBADF

type_synonym 'a run = "'a option"
type_synonym 'a ptr = "'a option"
type_synonym 'a res = "errno + 'a"

abbreviation (input) NULL :: "'a ptr" where "NULL \<equiv> None"
abbreviation Err :: "errno \<Rightarrow> 'a res" where "Err \<equiv> Inl"
abbreviation Ok :: "'a \<Rightarrow> 'a res" where "Ok \<equiv> Inr"
abbreviation (input) panic :: "'a run" where "panic \<equiv> None"

named_theorems run_simps \<open>unfolding rules for kernel computations\<close>
named_theorems inv_intros \<open>operations preserve their component's invariant\<close>

subsection \<open>Assertions and checked access\<close>

definition kassert :: "bool \<Rightarrow> unit run" where
  "kassert c = (if c then Some () else None)"

lemma kassert_simps [simp]: "kassert True = Some ()" "kassert False = None"
  by (simp_all add: kassert_def)

lemma kassert_bind_eq_Some [simp]: "(Option.bind (kassert c) f = Some x) \<longleftrightarrow> c \<and> f () = Some x"
  by (simp add: kassert_def)

lemma kassert_bind_if: "Option.bind (kassert c) f = (if c then f () else None)"
  by (simp add: kassert_def)

text \<open>
  The pattern \<^verbatim>\<open>result = f(...); if (result) return result;\<close> on a state: \<open>if_ok m f\<close> stops at an
  error of \<open>m\<close> and goes on with \<open>f\<close> otherwise.
\<close>

definition if_ok :: "('a res \<times> 's) run \<Rightarrow> ('a \<Rightarrow> 's \<Rightarrow> ('b res \<times> 's) run) \<Rightarrow> ('b res \<times> 's) run" where
  "if_ok m f = do { (r, s) \<leftarrow> m; case r of Inl e \<Rightarrow> Some (Err e, s) | Inr x \<Rightarrow> f x s }"

lemma if_ok_simps [simp]:
  "if_ok (Some (Err e, s)) f = Some (Err e, s)" "if_ok (Some (Ok x, s)) f = f x s" "if_ok None f = None"
  by (simp_all add: if_ok_def)

definition nth_run :: "'a list \<Rightarrow> nat \<Rightarrow> 'a run" where
  "nth_run xs i = (if i < length xs then Some (xs ! i) else None)"

definition upd_run :: "'a list \<Rightarrow> nat \<Rightarrow> 'a \<Rightarrow> 'a list run" where
  "upd_run xs i x = (if i < length xs then Some (xs[i := x]) else None)"

lemma nth_run_in [simp]: "i < length xs \<Longrightarrow> nth_run xs i = Some (xs ! i)"
  by (simp add: nth_run_def)

lemma nth_run_out [simp]: "length xs \<le> i \<Longrightarrow> nth_run xs i = None"
  by (simp add: nth_run_def)

lemma upd_run_in [simp]: "i < length xs \<Longrightarrow> upd_run xs i x = Some (xs[i := x])"
  by (simp add: upd_run_def)

lemma upd_run_out [simp]: "length xs \<le> i \<Longrightarrow> upd_run xs i x = None"
  by (simp add: upd_run_def)

lemma nth_run_eq_Some: "nth_run xs i = Some x \<longleftrightarrow> i < length xs \<and> xs ! i = x"
  by (auto simp: nth_run_def)

lemma upd_run_eq_Some: "upd_run xs i x = Some ys \<longleftrightarrow> i < length xs \<and> ys = xs[i := x]"
  by (auto simp: upd_run_def)

subsection \<open>C integers\<close>

text \<open>
  Unsigned 32-bit quantities are \<open>nat\<close> with the wrap-around written out (\<open>u32\<close>); signed
  ones are \<open>int\<close> with \<open>s32\<close>, the two's complement reading that the compiler produces.
\<close>

definition u32 :: "nat \<Rightarrow> nat" where
  "u32 n = n mod 2 ^ 32"

definition s32 :: "int \<Rightarrow> int" where
  "s32 x = (x + 2 ^ 31) mod 2 ^ 32 - 2 ^ 31"

definition int_max :: int where "int_max = 2 ^ 31 - 1"

lemma u32_small [simp]: "n < 2 ^ 32 \<Longrightarrow> u32 n = n"
  by (simp add: u32_def)

lemma u32_less: "u32 n < 2 ^ 32"
  by (simp add: u32_def)

lemma s32_small [simp]: "- (2 ^ 31) \<le> x \<Longrightarrow> x < 2 ^ 31 \<Longrightarrow> s32 x = x"
  by (simp add: s32_def)

lemma s32_double_overflow:
  assumes "2 ^ 30 \<le> x" and "x < 2 ^ 31"
  shows "s32 (2 * x) \<le> 0"
proof -
  have "(2 * x + 2 ^ 31) mod 2 ^ 32 = (2 * x - 2 ^ 31) mod 2 ^ 32"
    using mod_add_self2 [of "2 * x - 2 ^ 31" "2 ^ 32"] by (simp add: add.commute)
  also have "\<dots> = 2 * x - 2 ^ 31"
    using assms by (intro mod_pos_pos_trivial) simp_all
  finally show ?thesis using assms by (simp add: s32_def)
qed

text \<open>\<^verbatim>\<open>DIVROUNDUP(a,b)\<close> of \<^verbatim>\<open>kern/include/lib.h\<close>, in 32-bit unsigned arithmetic.\<close>

definition DIVROUNDUP :: "nat \<Rightarrow> nat \<Rightarrow> nat" where
  "DIVROUNDUP a b = u32 (a + b - 1) div b"

definition ROUNDUP :: "nat \<Rightarrow> nat \<Rightarrow> nat" where
  "ROUNDUP a b = u32 (DIVROUNDUP a b * b)"

subsection \<open>Arrays of pointers from \<^verbatim>\<open>kmalloc\<close>\<close>

text \<open>An array of \<open>n\<close> pointers of four bytes each, in 32-bit unsigned arithmetic.\<close>

definition ptr_bytes :: "int \<Rightarrow> nat" where
  "ptr_bytes n = nat (n * 4 mod 2 ^ 32)"

definition fresh_cells :: "int \<Rightarrow> 'a option list" where
  "fresh_cells n = replicate (ptr_bytes n div 4) None"

lemma length_fresh_cells: "0 < n \<Longrightarrow> n < 2 ^ 30 \<Longrightarrow> length (fresh_cells n) = nat n"
  by (simp add: fresh_cells_def ptr_bytes_def nat_mult_distrib)

subsection \<open>Loops that search\<close>

text \<open>
  \<open>List.find P [0..<n]\<close> is \<^verbatim>\<open>for (i=0; i<n; i++) if (P(i)) ...\<close>: it stops at the first hit.
\<close>

lemma find_upt_Some:
  "List.find P [0..<n] = Some i \<longleftrightarrow> i < n \<and> P i \<and> (\<forall>j < i. \<not> P j)"
  by (auto simp: find_Some_iff)

lemma find_upt_None: "List.find P [0..<n] = None \<longleftrightarrow> (\<forall>i < n. \<not> P i)"
  by (auto simp: find_None_iff)

subsection \<open>Positions in a ring\<close>

lemma ring_succ: "0 \<le> w \<Longrightarrow> w < n \<Longrightarrow> (w + 1) mod n = (if w + 1 = n then 0 else w + 1)" for w n :: int
  by auto

lemma ring_diff:
  fixes w r n :: int
  assumes "0 \<le> w" "w < n" "0 \<le> r" "r < n"
  shows "(w - r) mod n = (if r \<le> w then w - r else w - r + n)"
proof (cases "r \<le> w")
  case True
  with assms show ?thesis by simp
next
  case False
  have "(w - r) mod n = (w - r + n) mod n" by simp
  also have "\<dots> = w - r + n" using assms False by (intro mod_pos_pos_trivial) simp_all
  finally show ?thesis using False by simp
qed

lemma ring_add:
  fixes r k n :: int
  assumes "0 \<le> r" "r < n" "0 \<le> k" "k < n"
  shows "(r + k) mod n = (if r + k < n then r + k else r + k - n)"
proof (cases "r + k < n")
  case True
  with assms show ?thesis by simp
next
  case False
  have "(r + k) mod n = (r + k - n) mod n" by simp
  also have "\<dots> = r + k - n" using assms False by (intro mod_pos_pos_trivial) simp_all
  finally show ?thesis using False by simp
qed

end
