(* ===== verification/Bitmap.thy ===== *)
theory Bitmap
  imports Prelude
begin

section \<open>Bitmaps (\<^verbatim>\<open>kern/lib/bitmap.c\<close>)\<close>

text \<open>
  A bitmap is an array of bytes that records which of \<open>bm_nbits\<close> objects are in use. The
  bits of the last byte beyond \<open>bm_nbits\<close> are marked in use at creation, so that
  \<^verbatim>\<open>bitmap_alloc\<close> can skip full bytes without looking at \<open>bm_nbits\<close>. The abstract view is the
  set of marked indices (\<open>marked\<close>); each operation is shown to act on it as documented in
  \<^verbatim>\<open>kern/include/bitmap.h\<close>, and the laws are collected in the locale \<open>index_pool\<close>, the
  interface a storage manager relies on.
\<close>

unbundle bit_operations_syntax

definition BITS_PER_WORD :: nat where [simp]: "BITS_PER_WORD = 8"
definition WORD_ALLBITS :: "8 word" where "WORD_ALLBITS = 0xff"

record bitmap =
  bm_nbits :: nat
  bm_v :: "8 word list"

text \<open>The loop that marks the leftover bits \<open>overbits \<le> j < 8\<close> of the last byte.\<close>

definition bit_mask :: "nat \<Rightarrow> 8 word" where
  "bit_mask offset = push_bit offset 1"

definition mark_leftover :: "nat \<Rightarrow> 8 word \<Rightarrow> 8 word" where
  "mark_leftover overbits w = fold (\<lambda>j w. w OR bit_mask j) [overbits..<BITS_PER_WORD] w"

text \<open>
  \<open>got_b\<close> and \<open>got_v\<close> say whether the two calls of \<^verbatim>\<open>kmalloc\<close> succeed.
\<close>

definition bitmap_create :: "bool \<Rightarrow> bool \<Rightarrow> nat \<Rightarrow> bitmap ptr run" where
  "bitmap_create got_b got_v nb = (
     let words = DIVROUNDUP nb BITS_PER_WORD in
     if \<not> got_b then Some NULL
     else if \<not> got_v then Some NULL
     else let v = replicate words 0 in
       if nb div BITS_PER_WORD < words then do {
         let ix = words - 1;
         let overbits = nb - ix * BITS_PER_WORD;
         kassert (nb div BITS_PER_WORD = words - 1);
         kassert (overbits > 0 \<and> overbits < BITS_PER_WORD);
         w \<leftarrow> nth_run v ix;
         v' \<leftarrow> upd_run v ix (mark_leftover overbits w);
         Some (Some \<lparr>bm_nbits = nb, bm_v = v'\<rparr>)
       } else Some (Some \<lparr>bm_nbits = nb, bm_v = v\<rparr>))"

definition bitmap_getdata :: "bitmap \<Rightarrow> 8 word list" where
  "bitmap_getdata b = bm_v b"

definition bitmap_alloc :: "bitmap \<Rightarrow> (nat res \<times> bitmap) run" where
  "bitmap_alloc b = (
     let maxix = DIVROUNDUP (bm_nbits b) BITS_PER_WORD in
     case List.find (\<lambda>ix. bm_v b ! ix \<noteq> WORD_ALLBITS) [0..<maxix] of
       None \<Rightarrow> Some (Err ENOSPC, b)
     | Some ix \<Rightarrow>
         (case List.find (\<lambda>offset. bm_v b ! ix AND bit_mask offset = 0) [0..<BITS_PER_WORD] of
            None \<Rightarrow> panic
          | Some offset \<Rightarrow> do {
              v' \<leftarrow> upd_run (bm_v b) ix (bm_v b ! ix OR bit_mask offset);
              let index = ix * BITS_PER_WORD + offset;
              kassert (index < bm_nbits b);
              Some (Ok index, b\<lparr>bm_v := v'\<rparr>)
            }))"

definition bitmap_translate :: "nat \<Rightarrow> nat \<times> 8 word" where
  "bitmap_translate bitno =
     (let ix = bitno div BITS_PER_WORD; offset = bitno mod BITS_PER_WORD
      in (ix, bit_mask offset))"

definition bitmap_mark :: "bitmap \<Rightarrow> nat \<Rightarrow> bitmap run" where
  "bitmap_mark b index = do {
     kassert (index < bm_nbits b);
     let (ix, mask) = bitmap_translate index;
     w \<leftarrow> nth_run (bm_v b) ix;
     kassert (w AND mask = 0);
     v' \<leftarrow> upd_run (bm_v b) ix (w OR mask);
     Some (b\<lparr>bm_v := v'\<rparr>)
   }"

definition bitmap_unmark :: "bitmap \<Rightarrow> nat \<Rightarrow> bitmap run" where
  "bitmap_unmark b index = do {
     kassert (index < bm_nbits b);
     let (ix, mask) = bitmap_translate index;
     w \<leftarrow> nth_run (bm_v b) ix;
     kassert (w AND mask \<noteq> 0);
     v' \<leftarrow> upd_run (bm_v b) ix (w AND NOT mask);
     Some (b\<lparr>bm_v := v'\<rparr>)
   }"

definition bitmap_isset :: "bitmap \<Rightarrow> nat \<Rightarrow> 8 word run" where
  "bitmap_isset b index = (
     let (ix, mask) = bitmap_translate index in
     do { w \<leftarrow> nth_run (bm_v b) ix; Some (w AND mask) })"

subsection \<open>Invariant and abstract view\<close>

text \<open>
  Bit \<open>i\<close> of the array, the well-formedness invariant (one byte for every eight bits, the
  leftover bits marked, no wrap-around in the size computation) and the set of marked
  indices.
\<close>

definition bit_at :: "bitmap \<Rightarrow> nat \<Rightarrow> bool" where
  "bit_at b i \<longleftrightarrow> bit (bm_v b ! (i div BITS_PER_WORD)) (i mod BITS_PER_WORD)"

definition bitmap_ok :: "bitmap \<Rightarrow> bool" where
  "bitmap_ok b \<longleftrightarrow>
     bm_nbits b + BITS_PER_WORD \<le> 2 ^ 32 \<and>
     length (bm_v b) = DIVROUNDUP (bm_nbits b) BITS_PER_WORD \<and>
     (\<forall>i \<in> {bm_nbits b..<length (bm_v b) * BITS_PER_WORD}. bit_at b i)"

definition marked :: "bitmap \<Rightarrow> nat set" where
  "marked b = {i. i < bm_nbits b \<and> bit_at b i}"

subsection \<open>Bits of a byte\<close>

lemma and_bit_mask_eq_0 [simp]: "w AND bit_mask k = 0 \<longleftrightarrow> \<not> bit w k"
  by (simp add: bit_mask_def push_bit_eq_mult and_exp_eq_0_iff_not_bit)

lemma bit_bit_mask: "bit (bit_mask k) j \<longleftrightarrow> j = k \<and> k < 8"
  by (auto simp: bit_mask_def bit_simps)

lemma bit_or_mask [simp]: "bit (w OR bit_mask k) j \<longleftrightarrow> bit w j \<or> j = k \<and> k < 8"
  by (simp add: bit_or_iff bit_bit_mask)

lemma bit_and_not_mask [simp]:
  "bit (w AND NOT (bit_mask k)) j \<longleftrightarrow> bit w j \<and> j \<noteq> k" for w :: "8 word"
proof (cases "j < 8")
  case True
  then show ?thesis by (auto simp: bit_and_iff bit_not_iff bit_bit_mask)
next
  case False
  then show ?thesis by (auto dest: bit_imp_le_length simp: bit_and_iff)
qed

lemma bit_mark_leftover:
  "bit (mark_leftover m w) j \<longleftrightarrow> bit w j \<or> m \<le> j \<and> j < 8"
proof -
  have "bit (fold (\<lambda>j w. w OR bit_mask j) js w) j \<longleftrightarrow> bit w j \<or> j \<in> set js \<and> j < 8" for js
    by (induction js arbitrary: w) auto
  then show ?thesis by (auto simp: mark_leftover_def)
qed

lemma not_ALLBITS: "w \<noteq> WORD_ALLBITS \<longleftrightarrow> (\<exists>k < 8. \<not> bit w k)"
proof -
  have all: "bit WORD_ALLBITS k \<longleftrightarrow> k < 8" for k
  proof -
    have "WORD_ALLBITS = (- 1 :: 8 word)" by (simp add: WORD_ALLBITS_def)
    show ?thesis unfolding \<open>WORD_ALLBITS = - 1\<close> by (simp add: bit_minus_1_iff)
  qed
  show ?thesis by (auto simp: bit_eq_iff all dest: bit_imp_le_length)
qed

subsection \<open>Sizes and positions\<close>

lemma DIVROUNDUP_8:
  "n + 8 \<le> 2 ^ 32 \<Longrightarrow> DIVROUNDUP n 8 = (n + 7) div 8"
  by (simp add: DIVROUNDUP_def)

lemma byte_index_less: "i < n \<Longrightarrow> i div 8 < (n + 7) div 8" for n :: nat
proof -
  assume "i < n"
  then have "(i + 8) div 8 \<le> (n + 7) div 8" by (intro div_le_mono) simp
  then show ?thesis by simp
qed

lemma bitmap_ok_length: "bitmap_ok b \<Longrightarrow> length (bm_v b) = (bm_nbits b + 7) div 8"
  by (simp add: bitmap_ok_def DIVROUNDUP_8)

lemma bitmap_ok_byte:
  assumes "bitmap_ok b" and "i < bm_nbits b"
  shows "i div 8 < length (bm_v b)"
  using byte_index_less [OF assms(2)] by (simp add: bitmap_ok_length [OF assms(1)])

lemma bit_at_set:
  assumes "i div 8 < length (bm_v b)"
  shows "bit_at (b\<lparr>bm_v := (bm_v b)[i div 8 := bm_v b ! (i div 8) OR bit_mask (i mod 8)]\<rparr>) j
     \<longleftrightarrow> bit_at b j \<or> j = i"
proof (cases "j div 8 = i div 8")
  case True
  then have "j = i \<longleftrightarrow> j mod 8 = i mod 8" by (metis div_mult_mod_eq)
  with True assms show ?thesis by (auto simp: bit_at_def)
next
  case False
  with assms show ?thesis by (auto simp: bit_at_def)
qed

lemma bit_at_clear:
  assumes "i div 8 < length (bm_v b)"
  shows "bit_at (b\<lparr>bm_v := (bm_v b)[i div 8 := bm_v b ! (i div 8) AND NOT (bit_mask (i mod 8))]\<rparr>) j
     \<longleftrightarrow> bit_at b j \<and> j \<noteq> i"
proof (cases "j div 8 = i div 8")
  case True
  then have "j = i \<longleftrightarrow> j mod 8 = i mod 8" by (metis div_mult_mod_eq)
  with True assms show ?thesis by (auto simp: bit_at_def)
next
  case False
  with assms show ?thesis by (auto simp: bit_at_def)
qed

text \<open>Setting or clearing one bit below \<open>bm_nbits\<close>, in terms of the abstract set.\<close>

definition set_bit_at :: "bitmap \<Rightarrow> nat \<Rightarrow> bitmap" where
  "set_bit_at b i = b\<lparr>bm_v := (bm_v b)[i div 8 := bm_v b ! (i div 8) OR bit_mask (i mod 8)]\<rparr>"

definition clear_bit_at :: "bitmap \<Rightarrow> nat \<Rightarrow> bitmap" where
  "clear_bit_at b i = b\<lparr>bm_v := (bm_v b)[i div 8 := bm_v b ! (i div 8) AND NOT (bit_mask (i mod 8))]\<rparr>"

lemma set_bit_at_ok:
  assumes "bitmap_ok b" and "i < bm_nbits b"
  shows "bitmap_ok (set_bit_at b i)" and "marked (set_bit_at b i) = insert i (marked b)"
    and "bm_nbits (set_bit_at b i) = bm_nbits b"
  using assms bit_at_set [OF bitmap_ok_byte [OF assms]]
  by (auto simp: bitmap_ok_def marked_def set_bit_at_def)

lemma clear_bit_at_ok:
  assumes "bitmap_ok b" and "i < bm_nbits b"
  shows "bitmap_ok (clear_bit_at b i)" and "marked (clear_bit_at b i) = marked b - {i}"
    and "bm_nbits (clear_bit_at b i) = bm_nbits b"
  using assms bit_at_clear [OF bitmap_ok_byte [OF assms]]
  by (auto simp: bitmap_ok_def marked_def clear_bit_at_def)

subsection \<open>The operations on the abstract set\<close>

lemma bitmap_mark_eq:
  "bitmap_ok b \<Longrightarrow>
   bitmap_mark b i = (if i < bm_nbits b \<and> i \<notin> marked b then Some (set_bit_at b i) else None)"
  using bitmap_ok_byte [of b i]
  by (auto simp: bitmap_mark_def bitmap_translate_def set_bit_at_def marked_def bit_at_def
      kassert_bind_if)

lemma bitmap_unmark_eq:
  "bitmap_ok b \<Longrightarrow>
   bitmap_unmark b i = (if i \<in> marked b then Some (clear_bit_at b i) else None)"
  using bitmap_ok_byte [of b i]
  by (auto simp: bitmap_unmark_def bitmap_translate_def clear_bit_at_def marked_def bit_at_def
      kassert_bind_if)

lemma bitmap_isset_iff:
  assumes "bitmap_ok b" and "i < bm_nbits b"
  shows "\<exists>w. bitmap_isset b i = Some w \<and> (w \<noteq> 0 \<longleftrightarrow> i \<in> marked b)"
  using assms bitmap_ok_byte [OF assms]
  by (auto simp: bitmap_isset_def bitmap_translate_def marked_def bit_at_def)

lemma bitmap_create_ok:
  assumes "nb + BITS_PER_WORD \<le> 2 ^ 32"
  shows "\<exists>b. bitmap_create True True nb = Some (Some b) \<and> bitmap_ok b \<and> bm_nbits b = nb \<and> marked b = {}"
proof (cases "nb mod 8 = 0")
  case True
  then have words: "DIVROUNDUP nb 8 = nb div 8" and len: "nb div 8 * 8 = nb"
    using assms by (auto simp: DIVROUNDUP_8 div_add1_eq)
  let ?b = "\<lparr>bm_nbits = nb, bm_v = replicate (nb div 8) (0 :: 8 word)\<rparr>"
  have "bitmap_create True True nb = Some (Some ?b)"
    by (simp add: bitmap_create_def words)
  moreover have "bitmap_ok ?b \<and> marked ?b = {}"
    using assms len by (auto simp: bitmap_ok_def words marked_def bit_at_def
        less_mult_imp_div_less)
  ultimately show ?thesis by fastforce
next
  case False
  define q where "q = nb div 8"
  define r where "r = nb mod 8"
  have nb: "nb = q * 8 + r" and r: "0 < r" "r < 8" and d: "nb div 8 = q" "nb - q * 8 = r"
    using False by (simp_all add: q_def r_def minus_div_mult_eq_mod)
  have words: "DIVROUNDUP nb 8 = Suc q"
    using assms r by (simp add: DIVROUNDUP_8 nb)
  let ?b = "\<lparr>bm_nbits = nb, bm_v = (replicate (Suc q) (0 :: 8 word))[q := mark_leftover r 0]\<rparr>"
  have "bitmap_create True True nb = Some (Some ?b)"
    using r d by (simp add: bitmap_create_def words del: replicate_Suc)
  moreover have "bitmap_ok ?b \<and> marked ?b = {}"
  proof -
    have bits: "bit_at ?b i \<longleftrightarrow> nb \<le> i" if "i < Suc q * 8" for i
    proof (cases "i div 8 = q")
      case True
      have "i = i div 8 * 8 + i mod 8" by simp
      with True have "nb \<le> i \<longleftrightarrow> r \<le> i mod 8" unfolding nb by linarith
      with True show ?thesis by (simp add: bit_at_def bit_mark_leftover del: replicate_Suc)
    next
      case False
      from that have "i div 8 < Suc q" by (rule less_mult_imp_div_less)
      with False have "i div 8 < q" by simp
      moreover from this have "i < nb" unfolding nb by (simp add: div_less_iff_less_mult)
      ultimately show ?thesis by (simp add: bit_at_def del: replicate_Suc)
    qed
    have "nb \<le> Suc q * 8" unfolding nb using r by simp
    with assms bits show ?thesis
      by (auto simp: bitmap_ok_def words marked_def simp del: replicate_Suc)
  qed
  ultimately show ?thesis by fastforce
qed

lemma unmarked_position:
  assumes "bitmap_ok b" and "ix < length (bm_v b)" and "k < 8" and "\<not> bit (bm_v b ! ix) k"
  shows "ix * 8 + k < bm_nbits b" and "ix * 8 + k \<notin> marked b"
proof -
  have n: "\<not> bit_at b (ix * 8 + k)"
    using assms(3,4) by (simp add: bit_at_def)
  have "ix * 8 + k < length (bm_v b) * 8" using assms(2,3) by linarith
  with n assms(1) show "ix * 8 + k < bm_nbits b"
    by (auto simp: bitmap_ok_def not_le [symmetric])
  from n show "ix * 8 + k \<notin> marked b" by (simp add: marked_def)
qed

lemma bitmap_alloc_full:
  assumes "bitmap_ok b" and "marked b = {..<bm_nbits b}"
  shows "bitmap_alloc b = Some (Err ENOSPC, b)"
proof -
  have "bm_v b ! ix = WORD_ALLBITS" if "ix < length (bm_v b)" for ix
    using unmarked_position [OF assms(1) that] assms(2) not_ALLBITS by blast
  then have "List.find (\<lambda>ix. bm_v b ! ix \<noteq> WORD_ALLBITS) [0..<DIVROUNDUP (bm_nbits b) 8] = None"
    using assms(1) by (simp add: find_upt_None bitmap_ok_def)
  then show ?thesis by (simp add: bitmap_alloc_def)
qed

lemma bitmap_alloc_least:
  assumes ok: "bitmap_ok b" and i: "i < bm_nbits b" "i \<notin> marked b" and least: "\<forall>j < i. j \<in> marked b"
  shows "bitmap_alloc b = Some (Ok i, set_bit_at b i)"
proof -
  have byte: "i div 8 < length (bm_v b)" using ok i(1) by (rule bitmap_ok_byte)
  have clear: "\<not> bit (bm_v b ! (i div 8)) (i mod 8)"
    using i by (simp add: marked_def bit_at_def)
  have low: "bit (bm_v b ! ix) k" if "ix * 8 + k < i" and "k < 8" and "ix < length (bm_v b)" for ix k
    using least unmarked_position [OF ok that(3,2)] that(1) by blast
  have pos: "i = i div 8 * 8 + i mod 8" by simp
  have ix: "List.find (\<lambda>ix. bm_v b ! ix \<noteq> WORD_ALLBITS) [0..<DIVROUNDUP (bm_nbits b) BITS_PER_WORD]
            = Some (i div 8)"
  proof -
    have "bm_v b ! ix = WORD_ALLBITS" if "ix < i div 8" for ix
    proof -
      have "bit (bm_v b ! ix) k" if "k < 8" for k
        using \<open>ix < i div 8\<close> that byte pos by (intro low) linarith+
      then show ?thesis using not_ALLBITS by blast
    qed
    moreover have "bm_v b ! (i div 8) \<noteq> WORD_ALLBITS"
      using clear by (auto simp: not_ALLBITS intro!: exI [of _ "i mod 8"])
    ultimately show ?thesis
      using byte ok by (simp add: find_upt_Some bitmap_ok_def)
  qed
  have off: "List.find (\<lambda>offset. bm_v b ! (i div 8) AND bit_mask offset = 0) [0..<BITS_PER_WORD]
            = Some (i mod 8)"
  proof -
    have "i div 8 * 8 + k < i" if "k < i mod 8" for k using that pos by linarith
    with clear byte show ?thesis by (auto simp: find_upt_Some intro!: low)
  qed
  show ?thesis
    unfolding bitmap_alloc_def Let_def ix option.case off
    using byte i(1) by (simp add: set_bit_at_def)
qed

subsection \<open>The interface of a pool of indices\<close>

text \<open>
  What a storage manager relies on: \<open>alloc\<close> hands out the least free index of a pool of
  fixed capacity or reports \<^const>\<open>ENOSPC\<close>, \<open>release\<close> gives an index back and stops the
  machine when the index is not in use.
\<close>

locale index_pool =
  fixes ok :: "'b \<Rightarrow> bool"
    and capacity :: "'b \<Rightarrow> nat"
    and used :: "'b \<Rightarrow> nat set"
    and alloc :: "'b \<Rightarrow> (nat res \<times> 'b) run"
    and release :: "'b \<Rightarrow> nat \<Rightarrow> 'b run"
  assumes used_range: "used b \<subseteq> {..<capacity b}"
    and alloc_full: "ok b \<Longrightarrow> used b = {..<capacity b} \<Longrightarrow> alloc b = Some (Err ENOSPC, b)"
    and alloc_free: "ok b \<Longrightarrow> i < capacity b \<Longrightarrow> i \<notin> used b \<Longrightarrow> \<forall>j < i. j \<in> used b \<Longrightarrow>
      \<exists>b'. alloc b = Some (Ok i, b') \<and> ok b' \<and> capacity b' = capacity b \<and> used b' = insert i (used b)"
    and release_used: "ok b \<Longrightarrow> i \<in> used b \<Longrightarrow>
      \<exists>b'. release b i = Some b' \<and> ok b' \<and> capacity b' = capacity b \<and> used b' = used b - {i}"
    and release_unused: "ok b \<Longrightarrow> i \<notin> used b \<Longrightarrow> release b i = None"
begin

text \<open>\<open>alloc_many n b\<close> allocates \<open>n\<close> times and stops at the first failure.\<close>

fun alloc_many :: "nat \<Rightarrow> 'b \<Rightarrow> (nat list \<times> 'b) run" where
  "alloc_many 0 b = Some ([], b)"
| "alloc_many (Suc n) b =
     (case alloc b of
        Some (Inr i, b') \<Rightarrow> map_option (apfst (Cons i)) (alloc_many n b')
      | _ \<Rightarrow> None)"

lemma finite_used: "finite (used b)"
  using used_range by (rule finite_subset) simp

lemma alloc_cases:
  assumes "ok b"
  shows "(\<exists>i b'. alloc b = Some (Ok i, b') \<and> i < capacity b \<and> i \<notin> used b \<and> (\<forall>j < i. j \<in> used b)
            \<and> ok b' \<and> capacity b' = capacity b \<and> used b' = insert i (used b))
       \<or> (alloc b = Some (Err ENOSPC, b) \<and> used b = {..<capacity b})"
proof (cases "used b = {..<capacity b}")
  case True
  with alloc_full assms show ?thesis by blast
next
  case False
  with used_range have ex: "\<exists>i. i < capacity b \<and> i \<notin> used b" by blast
  from exists_least_iff [THEN iffD1, OF this]
  obtain i where i: "i < capacity b" "i \<notin> used b"
    and min: "\<forall>j < i. \<not> (j < capacity b \<and> j \<notin> used b)"
    by blast
  from i(1) min have "\<forall>j < i. j \<in> used b" by auto
  with alloc_free [OF assms i] i show ?thesis by blast
qed

lemma alloc_many_distinct:
  assumes "ok b" and "card (used b) + n \<le> capacity b"
  shows "\<exists>is b'. alloc_many n b = Some (is, b') \<and> length is = n \<and> distinct is
           \<and> set is \<inter> used b = {} \<and> used b' = used b \<union> set is \<and> ok b' \<and> capacity b' = capacity b"
  using assms
proof (induction n arbitrary: b)
  case 0
  then show ?case by simp
next
  case (Suc n)
  have "used b \<noteq> {..<capacity b}"
  proof
    assume "used b = {..<capacity b}"
    then have "card (used b) = capacity b" by simp
    with Suc.prems(2) show False by simp
  qed
  with alloc_cases [OF Suc.prems(1)] obtain i b' where
    i: "alloc b = Some (Ok i, b')" "i \<notin> used b" "ok b'" "capacity b' = capacity b"
       "used b' = insert i (used b)" by blast
  from i Suc.prems finite_used have "card (used b') + n \<le> capacity b'" by simp
  with Suc.IH [OF i(3)] obtain "is" b'' where
    "alloc_many n b' = Some (is, b'')" "length is = n" "distinct is" "set is \<inter> used b' = {}"
    "used b'' = used b' \<union> set is" "ok b''" "capacity b'' = capacity b'" by blast
  with i show ?case by auto
qed

lemma alloc_release:
  assumes "ok b" and "alloc b = Some (Ok i, b')"
  shows "\<exists>b''. release b' i = Some b'' \<and> ok b'' \<and> used b'' = used b \<and> capacity b'' = capacity b"
proof -
  from alloc_cases [OF assms(1)] assms(2) have "i \<notin> used b" "ok b'" "capacity b' = capacity b"
    "used b' = insert i (used b)" by auto
  with release_used [of b' i] show ?thesis by fastforce
qed

end

lemma marked_less: "i \<in> marked b \<Longrightarrow> i < bm_nbits b"
  by (simp add: marked_def)

interpretation bm: index_pool bitmap_ok bm_nbits marked bitmap_alloc bitmap_unmark
  by unfold_locales
    (auto simp: bitmap_alloc_full bitmap_alloc_least bitmap_unmark_eq set_bit_at_ok clear_bit_at_ok
      dest: marked_less)

subsection \<open>Properties\<close>

text \<open>
  C25. \<^verbatim>\<open>bitmap_alloc\<close> on a well-formed bitmap never fails an assertion. It returns the least
  unmarked index and marks exactly that one, or it reports \<^const>\<open>ENOSPC\<close>, changes nothing, and
  every bit is marked.
\<close>

theorem bitmap_alloc_spec:
  assumes "bitmap_ok b"
  shows "(\<exists>i b'. bitmap_alloc b = Some (Ok i, b') \<and> i < bm_nbits b \<and> i \<notin> marked b \<and> (\<forall>j < i. j \<in> marked b)
            \<and> bitmap_ok b' \<and> bm_nbits b' = bm_nbits b \<and> marked b' = insert i (marked b))
       \<or> (bitmap_alloc b = Some (Err ENOSPC, b) \<and> marked b = {..<bm_nbits b})"
  using assms by (rule bm.alloc_cases)

definition sample_bitmap :: bitmap where
  "sample_bitmap = \<lparr>bm_nbits = 10, bm_v = [0xff, 0xfd]\<rparr>"

lemma sample_bitmap_ok: "bitmap_ok sample_bitmap"
  by (simp add: bitmap_ok_def sample_bitmap_def DIVROUNDUP_def bit_at_def atLeastLessThan_upt upt_rec)

theorem bitmap_alloc_spec_witness:
  "bitmap_ok sample_bitmap \<and> (\<exists>b'. bitmap_alloc sample_bitmap = Some (Ok 9, b') \<and> 9 \<in> marked b')"
proof -
  have a: "bitmap_alloc sample_bitmap = Some (Ok 9, \<lparr>bm_nbits = 10, bm_v = [0xff, 0xff]\<rparr>)"
    by (simp add: bitmap_alloc_def sample_bitmap_def DIVROUNDUP_def WORD_ALLBITS_def bit_mask_def
        upt_rec)
  with bitmap_alloc_spec [OF sample_bitmap_ok] show ?thesis
    by (auto simp: sample_bitmap_ok)
qed

end
