(* ===== verification/Queue.thy ===== *)
theory Queue
  imports Prelude
begin

section \<open>Queues of pointers (\<^verbatim>\<open>kern/lib/queue.c\<close>)\<close>

text \<open>
  A ring buffer that doubles when it is full. A cell of the data array is \<open>None\<close> until it
  is written (memory from \<^verbatim>\<open>kmalloc\<close> is not cleared), and reading such a cell is an
  undefined access. The argument \<open>mem\<close> of the operations that allocate says for which
  numbers of bytes \<^verbatim>\<open>kmalloc\<close> succeeds at that call.
\<close>

record 'a queue =
  qsize :: int
  nextwrite :: int
  nextread :: int
  qdata :: "'a option list"

text \<open>The size computation of \<^verbatim>\<open>q_grow\<close>: double (in 32-bit arithmetic) until large enough.\<close>

function q_newsize :: "int \<Rightarrow> int \<Rightarrow> int run" where
  "q_newsize nsize targetsize =
     (if nsize < targetsize
      then (let n = s32 (nsize * 2) in if n > 0 then q_newsize n targetsize else panic)
      else Some nsize)"
  by pat_completeness auto
termination
proof (relation "measure (\<lambda>(n, t). if 0 < n \<and> n < 2 ^ 31 then nat (2 ^ 31 - n) else 2 ^ 32)")
  fix nsize targetsize n :: int
  assume n: "n = s32 (nsize * 2)" "n > 0"
  have "n < 2 ^ 31" unfolding n(1) s32_def using pos_mod_bound [of "2 ^ 32" "nsize * 2 + 2 ^ 31"] by simp
  moreover have "nsize < n" if "0 < nsize" "nsize < 2 ^ 31"
  proof (cases "nsize < 2 ^ 30")
    case True
    with that n(1) show ?thesis by simp
  next
    case False
    with s32_double_overflow [of nsize] that n show ?thesis by (simp add: mult.commute)
  qed
  ultimately show "((n, targetsize), (nsize, targetsize))
      \<in> measure (\<lambda>(n, t). if 0 < n \<and> n < 2 ^ 31 then nat (2 ^ 31 - n) else 2 ^ 32)"
    using n(2) by auto
qed auto

declare q_newsize.simps [simp del]

text \<open>The empty queue on a new array of \<open>n\<close> cells.\<close>

definition fresh_queue :: "int \<Rightarrow> 'a queue" where
  "fresh_queue n = \<lparr>qsize = n, nextwrite = 0, nextread = 0, qdata = fresh_cells n\<rparr>"

text \<open>
  The copying loop of \<^verbatim>\<open>q_grow\<close>, with \<open>add\<close> for the \<^verbatim>\<open>q_addtail\<close> it calls. The fuel
  is the number of cells of the old array, the most steps the index can take before it meets
  \<open>onw\<close>.
\<close>

fun q_copy :: "('a queue \<Rightarrow> 'a \<Rightarrow> (unit res \<times> 'a queue) run) \<Rightarrow> nat \<Rightarrow>
    'a option list \<Rightarrow> int \<Rightarrow> int \<Rightarrow> int \<Rightarrow> 'a queue \<Rightarrow> 'a queue run" where
  "q_copy add fuel olddata osize onw i q =
     (if i = onw then Some q
      else case fuel of 0 \<Rightarrow> panic
      | Suc f \<Rightarrow> do {
          cell \<leftarrow> nth_run olddata (nat i);
          x \<leftarrow> cell;
          (result, q') \<leftarrow> add q x;
          kassert (result = Ok ());
          q_copy add f olddata osize onw ((i + 1) mod osize) q'
        })"

declare q_copy.simps [simp del]

definition q_grow :: "('a queue \<Rightarrow> 'a \<Rightarrow> (unit res \<times> 'a queue) run) \<Rightarrow> (nat \<Rightarrow> bool) \<Rightarrow>
    'a queue \<Rightarrow> int \<Rightarrow> (unit res \<times> 'a queue) run" where
  "q_grow add mem q targetsize = do {
     nsize \<leftarrow> q_newsize (qsize q) targetsize;
     (if \<not> mem (ptr_bytes nsize) then Some (Err ENOMEM, q)
      else do {
        q' \<leftarrow> q_copy add (length (qdata q)) (qdata q) (qsize q) (nextwrite q) (nextread q)
               (fresh_queue nsize);
        Some (Ok (), q')
      })
   }"

definition q_create :: "bool \<Rightarrow> (nat \<Rightarrow> bool) \<Rightarrow> int \<Rightarrow> 'a queue ptr" where
  "q_create got_q mem sz =
     (if \<not> got_q then NULL
      else if \<not> mem (ptr_bytes sz) then NULL
      else Some (fresh_queue sz))"

definition q_empty :: "'a queue \<Rightarrow> bool" where
  "q_empty q \<longleftrightarrow> nextwrite q = nextread q"

text \<open>The two stores at the end of \<^verbatim>\<open>q_addtail\<close>.\<close>

definition q_store :: "'a queue \<Rightarrow> 'a \<Rightarrow> int \<Rightarrow> (unit res \<times> 'a queue) run" where
  "q_store q x nextnext = do {
     d \<leftarrow> upd_run (qdata q) (nat (nextwrite q)) (Some x);
     Some (Ok (), q\<lparr>qdata := d, nextwrite := nextnext\<rparr>)
   }"

text \<open>
  \<^verbatim>\<open>q_addtail\<close> and \<^verbatim>\<open>q_grow\<close> call each other; the first argument bounds the depth of the
  nesting. \<open>q_addtail_depth\<close> below shows that depth 2 is enough: the queue that is being
  filled by \<^verbatim>\<open>q_grow\<close> never needs to grow itself.
\<close>

fun q_addtail_d :: "nat \<Rightarrow> (nat \<Rightarrow> bool) \<Rightarrow> 'a queue \<Rightarrow> 'a \<Rightarrow> (unit res \<times> 'a queue) run" where
  "q_addtail_d 0 mem q x = panic"
| "q_addtail_d (Suc d) mem q x = do {
     kassert (qsize q > 0);
     let nextnext = (nextwrite q + 1) mod qsize q;
     (if nextnext = nextread q
      then do {
        (result, q') \<leftarrow> q_grow (q_addtail_d d mem) mem q (s32 (qsize q + 1));
        (case result of
           Inl e \<Rightarrow> Some (Err e, q')
         | Inr _ \<Rightarrow> q_store q' x ((nextwrite q' + 1) mod qsize q'))
      }
      else q_store q x nextnext)
   }"

definition q_addtail :: "(nat \<Rightarrow> bool) \<Rightarrow> 'a queue \<Rightarrow> 'a \<Rightarrow> (unit res \<times> 'a queue) run" where
  "q_addtail = q_addtail_d 2"

definition q_preallocate :: "(nat \<Rightarrow> bool) \<Rightarrow> 'a queue \<Rightarrow> int \<Rightarrow> (unit res \<times> 'a queue) run" where
  "q_preallocate mem q sz = do {
     kassert (qsize q > 0);
     if sz > qsize q then q_grow (q_addtail mem) mem q sz else Some (Ok (), q)
   }"

definition q_remhead :: "'a queue \<Rightarrow> ('a \<times> 'a queue) run" where
  "q_remhead q = do {
     kassert (qsize q > 0);
     kassert (\<not> q_empty q);
     cell \<leftarrow> nth_run (qdata q) (nat (nextread q));
     ret \<leftarrow> cell;
     Some (ret, q\<lparr>nextread := (nextread q + 1) mod qsize q\<rparr>)
   }"

definition q_destroy :: "'a queue \<Rightarrow> unit run" where
  "q_destroy q = kassert (q_empty q)"

definition q_getstart :: "'a queue \<Rightarrow> int" where "q_getstart q = nextread q"
definition q_getend :: "'a queue \<Rightarrow> int" where "q_getend q = nextwrite q"
definition q_getsize :: "'a queue \<Rightarrow> int" where "q_getsize q = qsize q"

definition q_getguy :: "'a queue \<Rightarrow> int \<Rightarrow> 'a option run" where
  "q_getguy q index = do {
     kassert (index \<ge> 0 \<and> index < qsize q);
     nth_run (qdata q) (nat index)
   }"

subsection \<open>Invariant and contents\<close>

text \<open>
  The size stays below \<open>2 ^ 30\<close>, so that the byte count of the array does not wrap around.
\<close>

definition qcount :: "'a queue \<Rightarrow> nat" where
  "qcount q = nat ((nextwrite q - nextread q) mod qsize q)"

definition qpos :: "'a queue \<Rightarrow> nat \<Rightarrow> nat" where
  "qpos q k = nat ((nextread q + int k) mod qsize q)"

definition queue_ok :: "'a queue \<Rightarrow> bool" where
  "queue_ok q \<longleftrightarrow>
     0 < qsize q \<and> qsize q < 2 ^ 30 \<and> length (qdata q) = nat (qsize q) \<and>
     0 \<le> nextwrite q \<and> nextwrite q < qsize q \<and> 0 \<le> nextread q \<and> nextread q < qsize q \<and>
     (\<forall>k < qcount q. qdata q ! qpos q k \<noteq> None)"

definition q_list :: "'a queue \<Rightarrow> 'a list" where
  "q_list q = map (\<lambda>k. the (qdata q ! qpos q k)) [0..<qcount q]"

definition q_full :: "'a queue \<Rightarrow> bool" where
  "q_full q \<longleftrightarrow> qcount q = nat (qsize q) - 1"

lemma length_q_list [simp]: "length (q_list q) = qcount q"
  by (simp add: q_list_def)

lemma queue_okD:
  assumes "queue_ok q"
  shows "0 < qsize q" "qsize q < 2 ^ 30" "length (qdata q) = nat (qsize q)"
    "0 \<le> nextwrite q" "nextwrite q < qsize q" "0 \<le> nextread q" "nextread q < qsize q"
    "int (qcount q) < qsize q" "qpos q k < length (qdata q)"
  using assms by (auto simp: queue_ok_def qcount_def qpos_def nat_less_eq_zless)

text \<open>The positions by case distinction instead of \<open>mod\<close>: linear arithmetic does the rest.\<close>

lemma qcount_eq: "queue_ok q \<Longrightarrow> int (qcount q) =
    (if nextread q \<le> nextwrite q then nextwrite q - nextread q else nextwrite q - nextread q + qsize q)"
  by (auto simp: qcount_def queue_ok_def ring_diff)

lemma qpos_eq: "queue_ok q \<Longrightarrow> k < qcount q \<Longrightarrow> int (qpos q k) =
    (if nextread q + int k < qsize q then nextread q + int k else nextread q + int k - qsize q)"
  using queue_okD [of q] by (simp add: qpos_def ring_add)

lemma q_empty_iff: "queue_ok q \<Longrightarrow> q_empty q \<longleftrightarrow> q_list q = []"
  using qcount_eq [of q] queue_okD [of q] length_0_conv [of "q_list q"]
  by (auto simp: q_empty_def split: if_splits)

lemma q_full_iff:
  assumes "queue_ok q"
  shows "(nextwrite q + 1) mod qsize q = nextread q \<longleftrightarrow> q_full q"
  using qcount_eq [OF assms] queue_okD [OF assms]
  by (auto simp: q_full_def ring_succ split: if_splits)

subsection \<open>Adding and removing without growth\<close>

definition q_push :: "'a queue \<Rightarrow> 'a \<Rightarrow> 'a queue" where
  "q_push q x = q\<lparr>qdata := (qdata q)[nat (nextwrite q) := Some x],
                 nextwrite := (nextwrite q + 1) mod qsize q\<rparr>"

lemma qpos_unwritten:
  assumes "queue_ok q"
  shows "qpos q (qcount q) = nat (nextwrite q)" and "k < qcount q \<Longrightarrow> qpos q k \<noteq> nat (nextwrite q)"
proof -
  have "(nextread q + int (qcount q)) mod qsize q = nextwrite q"
    using queue_okD [OF assms] qcount_eq [OF assms]
    by (simp add: ring_add split: if_splits)
  then show "qpos q (qcount q) = nat (nextwrite q)" by (simp add: qpos_def)
  show "qpos q k \<noteq> nat (nextwrite q)" if "k < qcount q"
    using queue_okD [OF assms] qcount_eq [OF assms] qpos_eq [OF assms that] that
    by (auto split: if_splits)
qed

lemma q_push_count:
  assumes "queue_ok q" and "\<not> q_full q"
  shows "qcount (q_push q x) = Suc (qcount q)"
proof -
  note ok = queue_okD [OF assms(1)]
  have "nat ((w - nextread q) mod qsize q) = Suc (qcount q)"
    if "w = (nextwrite q + 1) mod qsize q" for w
    using ok assms(2) qcount_eq [OF assms(1)]
    by (auto simp: that ring_succ ring_diff q_full_def split: if_splits)
  then show ?thesis by (simp add: q_push_def qcount_def)
qed

lemma q_push_ok:
  assumes "queue_ok q" and "\<not> q_full q"
  shows "queue_ok (q_push q x)" and "q_list (q_push q x) = q_list q @ [x]"
    and "qsize (q_push q x) = qsize q"
proof -
  note ok = queue_okD [OF assms(1)] and count = q_push_count [OF assms, of x]
  have pos: "qpos (q_push q x) k = qpos q k" for k by (simp add: qpos_def q_push_def)
  have cell: "qdata (q_push q x) ! qpos q k = (if k = qcount q then Some x else qdata q ! qpos q k)"
    if "k < Suc (qcount q)" for k
    using qpos_unwritten [OF assms(1)] qpos_unwritten(2) [OF assms(1), symmetric] ok that
    by (auto simp: q_push_def less_Suc_eq)
  show "qsize (q_push q x) = qsize q" by (simp add: q_push_def)
  have "\<forall>k < qcount (q_push q x). qdata (q_push q x) ! qpos (q_push q x) k \<noteq> None"
    using assms(1) by (auto simp: count pos cell queue_ok_def)
  with ok show "queue_ok (q_push q x)" unfolding queue_ok_def by (simp add: q_push_def)
  show "q_list (q_push q x) = q_list q @ [x]"
    by (simp add: q_list_def count pos cell)
qed

lemma q_store_push:
  "queue_ok q \<Longrightarrow> q_store q x ((nextwrite q + 1) mod qsize q) = Some (Ok (), q_push q x)"
  using queue_okD [of q] by (simp add: q_store_def q_push_def)

lemma q_addtail_d_room:
  "queue_ok q \<Longrightarrow> \<not> q_full q \<Longrightarrow> q_addtail_d (Suc d) mem q x = Some (Ok (), q_push q x)"
  using queue_okD [of q] q_full_iff [of q] q_store_push [of q x] by simp

declare q_addtail_d.simps [simp del]

lemma q_remhead_empty: "queue_ok q \<Longrightarrow> q_list q = [] \<Longrightarrow> q_remhead q = None"
  using q_empty_iff [of q] by (simp add: q_remhead_def kassert_bind_if)

lemma q_remhead_ok:
  assumes ok: "queue_ok q" and ne: "q_list q \<noteq> []"
  shows "\<exists>q'. q_remhead q = Some (hd (q_list q), q') \<and> queue_ok q' \<and> q_list q' = tl (q_list q)
           \<and> qsize q' = qsize q"
proof -
  note okd = queue_okD [OF ok]
  from ne have pos: "0 < qcount q" by (metis length_greater_0_conv length_q_list)
  let ?q = "q\<lparr>nextread := (nextread q + 1) mod qsize q\<rparr>"
  have count: "qcount q = Suc (qcount ?q)"
    using okd pos qcount_eq [OF ok] by (auto simp: qcount_def ring_succ ring_diff split: if_splits)
  have next_pos: "qpos ?q k = qpos q (Suc k)" for k
    by (simp add: qpos_def mod_simps algebra_simps)
  have head: "qdata q ! nat (nextread q) = Some (hd (q_list q))"
  proof -
    have "qpos q 0 = nat (nextread q)" using okd by (simp add: qpos_def)
    moreover have "qdata q ! qpos q 0 \<noteq> None" using ok pos by (simp add: queue_ok_def)
    moreover have "hd (q_list q) = the (qdata q ! qpos q 0)"
      using pos by (simp add: q_list_def hd_map upt_conv_Cons)
    ultimately show ?thesis by auto
  qed
  have "q_remhead q = Some (hd (q_list q), ?q)"
    using okd head q_empty_iff [OF ok] ne by (simp add: q_remhead_def)
  moreover have "queue_ok ?q"
  proof -
    have "\<forall>k < qcount ?q. qdata q ! qpos ?q k \<noteq> None"
      using ok unfolding queue_ok_def next_pos by (auto simp: count)
    with okd show ?thesis unfolding queue_ok_def by simp
  qed
  moreover have "q_list ?q = tl (q_list q)"
    by (simp add: q_list_def count next_pos upt_conv_Cons map_Suc_upt [symmetric] del: upt_Suc)
  ultimately show ?thesis by fastforce
qed

subsection \<open>Growth\<close>

lemma q_newsize_ok:
  assumes "0 < n" and "n < 2 ^ 30" and "t \<le> 2 ^ 29"
  shows "\<exists>ns. q_newsize n t = Some ns \<and> n \<le> ns \<and> t \<le> ns \<and> ns < 2 ^ 30"
  using assms
proof (induction n t rule: q_newsize.induct)
  case (1 n t)
  show ?case
  proof (cases "n < t")
    case True
    with "1.prems" have "s32 (n * 2) = n * 2" and "n * 2 < 2 ^ 30" by simp_all
    with "1.IH" [OF True refl] True "1.prems" show ?thesis
      by (auto simp: q_newsize.simps [of n t])
  next
    case False
    with "1.prems" show ?thesis by (simp add: q_newsize.simps [of n t])
  qed
qed

lemma q_newsize_double:
  assumes "0 < n" and "n < 2 ^ 29"
  shows "q_newsize n (s32 (n + 1)) = Some (n * 2)"
  using assms by (simp add: q_newsize.simps [of n] q_newsize.simps [of "n * 2"])

lemma fresh_queue_empty [simp]:
  "qcount (fresh_queue n) = 0" "q_list (fresh_queue n) = []" "qsize (fresh_queue n) = n"
  by (simp_all add: fresh_queue_def qcount_def q_list_def)

lemma fresh_queue_ok: "0 < n \<Longrightarrow> n < 2 ^ 30 \<Longrightarrow> queue_ok (fresh_queue n)"
  unfolding queue_ok_def fresh_queue_empty by (simp add: fresh_queue_def length_fresh_cells)

text \<open>What the copying loop needs of the \<^verbatim>\<open>q_addtail\<close> it calls: it works while there is room.\<close>

definition adds_in_room :: "('a queue \<Rightarrow> 'a \<Rightarrow> (unit res \<times> 'a queue) run) \<Rightarrow> bool" where
  "adds_in_room add \<longleftrightarrow> (\<forall>q x. queue_ok q \<longrightarrow> \<not> q_full q \<longrightarrow> add q x = Some (Ok (), q_push q x))"

lemma q_copy_step:
  assumes "queue_ok q" and "k < qcount q"
  shows "q_copy add (Suc f) (qdata q) (qsize q) (nextwrite q) (int (qpos q k)) q0 = do {
     (result, q') \<leftarrow> add q0 (q_list q ! k);
     kassert (result = Ok ());
     q_copy add f (qdata q) (qsize q) (nextwrite q) (int (qpos q (Suc k))) q'
   }"
proof -
  note ok = queue_okD [OF assms(1)]
  have ne: "int (qpos q k) \<noteq> nextwrite q"
    using qpos_unwritten(2) [OF assms] ok by linarith
  have cell: "qdata q ! qpos q k = Some (q_list q ! k)"
    using assms by (auto simp: queue_ok_def q_list_def)
  have step: "(int (qpos q k) + 1) mod qsize q = int (qpos q (Suc k))"
    using ok by (simp add: qpos_def mod_simps algebra_simps)
  show ?thesis
    using ok ne cell step by (subst q_copy.simps) simp
qed

text \<open>The result of the loop: the remaining elements pushed one after the other.\<close>

lemma q_pushes_ok:
  assumes "queue_ok q" and "qcount q + length xs < nat (qsize q)"
  shows "queue_ok (foldl q_push q xs) \<and> q_list (foldl q_push q xs) = q_list q @ xs
    \<and> qsize (foldl q_push q xs) = qsize q"
  using assms
proof (induction xs arbitrary: q)
  case Nil
  then show ?case by simp
next
  case (Cons x xs)
  then have nf: "\<not> q_full q" by (simp add: q_full_def)
  note p = q_push_ok [OF Cons.prems(1) nf] and c = q_push_count [OF Cons.prems(1) nf]
  from Cons.IH [of "q_push q x"] Cons.prems show ?case by (simp add: p c)
qed

lemma q_copy_eq:
  assumes ok: "queue_ok q" and add: "adds_in_room add"
    and k: "k \<le> qcount q" and fuel: "qcount q - k \<le> fuel"
    and q0: "queue_ok q0" and room: "qcount q0 + (qcount q - k) < nat (qsize q0)"
  shows "q_copy add fuel (qdata q) (qsize q) (nextwrite q) (int (qpos q k)) q0
           = Some (foldl q_push q0 (drop k (q_list q)))"
  using k fuel q0 room
proof (induction "qcount q - k" arbitrary: k fuel q0)
  case 0
  then have "k = qcount q" by simp
  with qpos_unwritten(1) [OF ok] queue_okD [OF ok] have "int (qpos q k) = nextwrite q" by simp
  with 0 \<open>k = qcount q\<close> show ?case by (subst q_copy.simps) simp
next
  case (Suc m)
  from Suc.hyps(2) have less: "k < qcount q" by simp
  from Suc obtain f where f: "fuel = Suc f" by (cases fuel) auto
  have nf: "\<not> q_full q0" using Suc.prems Suc.hyps(2) by (simp add: q_full_def)
  let ?q0 = "q_push q0 (q_list q ! k)"
  have push: "add q0 (q_list q ! k) = Some (Ok (), ?q0)"
    using add Suc.prems(3) nf by (simp add: adds_in_room_def)
  have drop_k: "drop k (q_list q) = q_list q ! k # drop (Suc k) (q_list q)"
    using less by (simp add: Cons_nth_drop_Suc)
  have "q_copy add f (qdata q) (qsize q) (nextwrite q) (int (qpos q (Suc k))) ?q0
      = Some (foldl q_push ?q0 (drop (Suc k) (q_list q)))"
    using Suc.prems Suc.hyps(2) f q_push_ok [OF Suc.prems(3) nf] q_push_count [OF Suc.prems(3) nf]
    by (intro Suc.hyps(1)) auto
  then show ?case
    using push by (simp add: f q_copy_step [OF ok less] drop_k)
qed

lemma q_grow_eq:
  assumes ok: "queue_ok q" and add: "adds_in_room add"
    and ns: "q_newsize (qsize q) t = Some ns" "qsize q \<le> ns" "ns < 2 ^ 30"
  shows "q_grow add mem q t =
     (if mem (ptr_bytes ns) then Some (Ok (), foldl q_push (fresh_queue ns) (q_list q))
      else Some (Err ENOMEM, q))"
proof -
  note okd = queue_okD [OF ok]
  have q0: "queue_ok (fresh_queue ns :: 'a queue)"
    using okd(1) ns(2,3) by (intro fresh_queue_ok) linarith+
  have start: "int (qpos q 0) = nextread q" using okd by (simp add: qpos_def)
  have "qcount q \<le> length (qdata q)" and "qcount q < nat ns"
    using okd ns by linarith+
  with q_copy_eq [OF ok add, of 0 "length (qdata q)" "fresh_queue ns"] q0
  have "q_copy add (length (qdata q)) (qdata q) (qsize q) (nextwrite q) (nextread q) (fresh_queue ns)
      = Some (foldl q_push (fresh_queue ns) (q_list q))"
    by (simp add: start)
  then show ?thesis by (simp add: q_grow_def ns)
qed

lemma q_grown_ok:
  assumes "queue_ok q" and "qsize q \<le> ns" "ns < 2 ^ 30"
  shows "queue_ok (foldl q_push (fresh_queue ns) (q_list q))"
    and "q_list (foldl q_push (fresh_queue ns) (q_list q)) = q_list q"
    and "qsize (foldl q_push (fresh_queue ns) (q_list q)) = ns"
proof -
  have "0 < ns" and "qcount q < nat ns" using queue_okD [OF assms(1)] assms(2) by linarith+
  with q_pushes_ok [OF fresh_queue_ok, of ns "q_list q"] assms(3)
  show "queue_ok (foldl q_push (fresh_queue ns) (q_list q))"
    and "q_list (foldl q_push (fresh_queue ns) (q_list q)) = q_list q"
    and "qsize (foldl q_push (fresh_queue ns) (q_list q)) = ns"
    by auto
qed

subsection \<open>The whole operations\<close>

lemma adds_in_room_d: "adds_in_room (q_addtail_d (Suc d) mem)"
  using q_addtail_d_room by (auto simp: adds_in_room_def)

lemma q_addtail_full:
  assumes "queue_ok q" and "q_full q" and "qsize q < 2 ^ 29"
  shows "q_addtail_d (Suc (Suc d)) mem q x =
     (if mem (ptr_bytes (qsize q * 2))
      then Some (Ok (), q_push (foldl q_push (fresh_queue (qsize q * 2)) (q_list q)) x)
      else Some (Err ENOMEM, q))"
proof -
  note okd = queue_okD [OF assms(1)]
  have grow: "q_grow (q_addtail_d (Suc d) mem) mem q (s32 (qsize q + 1)) =
     (if mem (ptr_bytes (qsize q * 2))
      then Some (Ok (), foldl q_push (fresh_queue (qsize q * 2)) (q_list q))
      else Some (Err ENOMEM, q))"
    using q_newsize_double [OF okd(1) assms(3)] okd assms(3)
    by (intro q_grow_eq [OF assms(1) adds_in_room_d]) simp_all
  have "queue_ok (foldl q_push (fresh_queue (qsize q * 2)) (q_list q))"
    using okd assms(3) by (intro q_grown_ok [OF assms(1)]) simp_all
  then show ?thesis
    using okd q_full_iff [OF assms(1)] assms(2)
    by (simp only: q_addtail_d.simps grow) (simp add: q_store_push)
qed

lemma q_addtail_depth:
  assumes "queue_ok q" and "qsize q < 2 ^ 29"
  shows "q_addtail_d (Suc (Suc d)) mem q x = q_addtail mem q x"
  unfolding q_addtail_def numeral_2_eq_2
  using q_addtail_full [OF assms(1) _ assms(2), of _ mem x] q_addtail_d_room [OF assms(1), of _ mem x]
  by (cases "q_full q") simp_all

lemma q_addtail_room:
  "queue_ok q \<Longrightarrow> \<not> q_full q \<Longrightarrow> q_addtail mem q x = Some (Ok (), q_push q x)"
  unfolding q_addtail_def numeral_2_eq_2 by (rule q_addtail_d_room)

lemma q_addtail_cases:
  assumes "queue_ok q" and "qsize q < 2 ^ 29"
  shows "q_full q \<and> \<not> mem (ptr_bytes (qsize q * 2)) \<and> q_addtail mem q x = Some (Err ENOMEM, q)
    \<or> (\<not> q_full q \<or> mem (ptr_bytes (qsize q * 2))) \<and>
      (\<exists>q'. q_addtail mem q x = Some (Ok (), q') \<and> queue_ok q' \<and> q_list q' = q_list q @ [x] \<and>
        qsize q' = (if q_full q then qsize q * 2 else qsize q))"
proof (cases "q_full q")
  case False
  then show ?thesis by (simp add: q_addtail_room q_push_ok assms(1))
next
  case True
  note okd = queue_okD [OF assms(1)]
  let ?g = "foldl q_push (fresh_queue (qsize q * 2)) (q_list q)"
  have g: "queue_ok ?g" "q_list ?g = q_list q" "qsize ?g = qsize q * 2"
    using okd assms(2) by (intro q_grown_ok [OF assms(1)]; simp)+
  have "int (qcount ?g) = int (qcount q)" using g(2) length_q_list by metis
  then have "\<not> q_full ?g" using okd g(3) by (simp add: q_full_def)
  note p = q_push_ok [OF g(1) this]
  from q_addtail_full [OF assms(1) True assms(2), of 0 mem x]
  have "q_addtail mem q x = (if mem (ptr_bytes (qsize q * 2)) then Some (Ok (), q_push ?g x)
      else Some (Err ENOMEM, q))"
    by (simp add: q_addtail_def numeral_2_eq_2)
  with True p g show ?thesis by simp
qed

lemma q_addtail_small:
  assumes "queue_ok q" and "qcount q < 2 ^ 28"
  shows "q_full q \<and> (\<exists>n. \<not> mem n) \<and> q_addtail mem q x = Some (Err ENOMEM, q)
    \<or> (\<exists>q'. q_addtail mem q x = Some (Ok (), q') \<and> queue_ok q' \<and> q_list q' = q_list q @ [x]
         \<and> qsize q \<le> qsize q')"
proof (cases "q_full q")
  case False
  then show ?thesis using q_addtail_room [OF assms(1) False] q_push_ok [OF assms(1) False]
    by (auto simp: q_push_def)
next
  case True
  have "0 < qsize q" using queue_okD [OF assms(1)] by simp
  moreover have "qsize q < 2 ^ 29" using True assms(2) by (simp add: q_full_def)
  ultimately show ?thesis using q_addtail_cases [OF assms(1), of mem x] True by auto
qed

lemma q_preallocate_cases:
  assumes "queue_ok q" and "n \<le> 2 ^ 29"
  shows "q_preallocate mem q n = Some (Err ENOMEM, q) \<and> n > qsize q
    \<or> (\<exists>q'. q_preallocate mem q n = Some (Ok (), q') \<and> queue_ok q' \<and> q_list q' = q_list q
         \<and> n \<le> qsize q' \<and> qsize q \<le> qsize q')"
proof (cases "n > qsize q")
  case False
  then show ?thesis using assms(1) queue_okD [OF assms(1)] by (simp add: q_preallocate_def)
next
  case True
  note okd = queue_okD [OF assms(1)]
  obtain ns where ns: "q_newsize (qsize q) n = Some ns" "qsize q \<le> ns" "n \<le> ns" "ns < 2 ^ 30"
    using q_newsize_ok [OF okd(1,2) assms(2)] by blast
  have add: "adds_in_room (q_addtail mem)"
    using q_addtail_room by (auto simp: adds_in_room_def)
  from q_grow_eq [OF assms(1) add ns(1,2,4), of mem] q_grown_ok [OF assms(1) ns(2,4)] True ns okd
  show ?thesis by (cases "mem (ptr_bytes ns)") (auto simp: q_preallocate_def)
qed

subsection \<open>The interface of a queue\<close>

text \<open>
  The promises of \<^verbatim>\<open>kern/include/queue.h\<close>: elements leave in the order they came, adding does
  not fail while fewer than \<open>space\<close> elements are held, and \<open>reserve n\<close> makes room for \<open>n - 1\<close>
  elements (the ring buffer keeps one cell free). \<open>growable\<close> says that the size is far enough
  from the range of \<^verbatim>\<open>int\<close> for another doubling.
\<close>

locale fifo =
  fixes ok :: "'q \<Rightarrow> bool"
    and contents :: "'q \<Rightarrow> 'a list"
    and space :: "'q \<Rightarrow> nat"
    and growable :: "'q \<Rightarrow> bool"
    and is_empty :: "'q \<Rightarrow> bool"
    and add :: "'q \<Rightarrow> 'a \<Rightarrow> (unit res \<times> 'q) run"
    and remove :: "'q \<Rightarrow> ('a \<times> 'q) run"
    and reserve :: "'q \<Rightarrow> int \<Rightarrow> (unit res \<times> 'q) run"
  assumes empty_iff: "ok q \<Longrightarrow> is_empty q \<longleftrightarrow> contents q = []"
    and contents_space: "ok q \<Longrightarrow> length (contents q) \<le> space q"
    and add_room: "ok q \<Longrightarrow> length (contents q) < space q \<Longrightarrow>
      \<exists>q'. add q x = Some (Ok (), q') \<and> ok q' \<and> contents q' = contents q @ [x] \<and> space q' = space q"
    and add_grow: "ok q \<Longrightarrow> growable q \<Longrightarrow>
      add q x = Some (Err ENOMEM, q) \<or>
      (\<exists>q'. add q x = Some (Ok (), q') \<and> ok q' \<and> contents q' = contents q @ [x] \<and> space q \<le> space q')"
    and remove_empty: "ok q \<Longrightarrow> contents q = [] \<Longrightarrow> remove q = None"
    and remove_cons: "ok q \<Longrightarrow> contents q = x # xs \<Longrightarrow>
      \<exists>q'. remove q = Some (x, q') \<and> ok q' \<and> contents q' = xs \<and> space q' = space q"
    and reserve: "ok q \<Longrightarrow> n \<le> 2 ^ 29 \<Longrightarrow>
      reserve q n = Some (Err ENOMEM, q) \<or>
      (\<exists>q'. reserve q n = Some (Ok (), q') \<and> ok q' \<and> contents q' = contents q \<and>
         n - 1 \<le> int (space q') \<and> space q \<le> space q')"
begin

fun add_all :: "'q \<Rightarrow> 'a list \<Rightarrow> 'q run" where
  "add_all q [] = Some q"
| "add_all q (x # xs) = (case add q x of Some (Inr _, q') \<Rightarrow> add_all q' xs | _ \<Rightarrow> None)"

fun drain :: "nat \<Rightarrow> 'q \<Rightarrow> ('a list \<times> 'q) run" where
  "drain 0 q = Some ([], q)"
| "drain (Suc n) q =
     (case remove q of None \<Rightarrow> None | Some (x, q') \<Rightarrow> map_option (apfst (Cons x)) (drain n q'))"

lemma add_all_room:
  assumes "ok q" and "length (contents q) + length xs \<le> space q"
  shows "\<exists>q'. add_all q xs = Some q' \<and> ok q' \<and> contents q' = contents q @ xs \<and> space q' = space q"
  using assms
proof (induction xs arbitrary: q)
  case Nil
  then show ?case by simp
next
  case (Cons x xs)
  from Cons.prems add_room [of q x] obtain q' where
    q': "add q x = Some (Ok (), q')" "ok q'" "contents q' = contents q @ [x]" "space q' = space q"
    by auto
  with Cons.IH [of q'] Cons.prems show ?case by auto
qed

lemma drain_prefix:
  assumes "ok q" and "n \<le> length (contents q)"
  shows "\<exists>q'. drain n q = Some (take n (contents q), q') \<and> ok q' \<and> contents q' = drop n (contents q)"
  using assms
proof (induction n arbitrary: q)
  case 0
  then show ?case by simp
next
  case (Suc n)
  then obtain x xs where c: "contents q = x # xs" by (cases "contents q") auto
  with remove_cons [OF Suc.prems(1)] obtain q' where
    q': "remove q = Some (x, q')" "ok q'" "contents q' = xs" by blast
  with Suc.IH [of q'] Suc.prems c show ?case by auto
qed

text \<open>First in, first out: what was queued comes out in order, behind what was there before.\<close>

lemma fifo_order:
  assumes "ok q" and "length (contents q) + length xs \<le> space q"
  shows "\<exists>q' q''. add_all q xs = Some q' \<and>
    drain (length (contents q) + length xs) q' = Some (contents q @ xs, q'') \<and> contents q'' = []"
proof -
  from add_all_room [OF assms] obtain q' where
    q': "add_all q xs = Some q'" "ok q'" "contents q' = contents q @ xs" by blast
  with drain_prefix [of q' "length (contents q) + length xs"] show ?thesis by auto
qed

end

interpretation rq: fifo queue_ok q_list "\<lambda>q. nat (qsize q) - 1" "\<lambda>q. qsize q < 2 ^ 29"
    q_empty "q_addtail mem" q_remhead "q_preallocate mem" for mem
proof unfold_locales
  fix q :: "'a queue" and x xs n
  assume ok: "queue_ok q"
  show "q_empty q = (q_list q = [])" by (rule q_empty_iff [OF ok])
  show "length (q_list q) \<le> nat (qsize q) - 1" using queue_okD [OF ok] by simp
  show "\<exists>q'. q_addtail mem q x = Some (Ok (), q') \<and> queue_ok q' \<and> q_list q' = q_list q @ [x]
      \<and> nat (qsize q') - 1 = nat (qsize q) - 1" if "length (q_list q) < nat (qsize q) - 1"
    using that q_addtail_room [OF ok] q_push_ok [OF ok] by (simp add: q_full_def)
  show "q_addtail mem q x = Some (Err ENOMEM, q) \<or>
      (\<exists>q'. q_addtail mem q x = Some (Ok (), q') \<and> queue_ok q' \<and> q_list q' = q_list q @ [x]
        \<and> nat (qsize q) - 1 \<le> nat (qsize q') - 1)" if "qsize q < 2 ^ 29"
    using q_addtail_cases [OF ok that, of mem x] queue_okD [OF ok] by (auto split: if_splits)
  show "q_remhead q = None" if "q_list q = []" by (rule q_remhead_empty [OF ok that])
  show "\<exists>q'. q_remhead q = Some (x, q') \<and> queue_ok q' \<and> q_list q' = xs
      \<and> nat (qsize q') - 1 = nat (qsize q) - 1" if "q_list q = x # xs"
    using q_remhead_ok [OF ok] that by auto
  show "q_preallocate mem q n = Some (Err ENOMEM, q) \<or>
      (\<exists>q'. q_preallocate mem q n = Some (Ok (), q') \<and> queue_ok q' \<and> q_list q' = q_list q
        \<and> n - 1 \<le> int (nat (qsize q') - 1) \<and> nat (qsize q) - 1 \<le> nat (qsize q') - 1)"
    if "n \<le> 2 ^ 29"
    using q_preallocate_cases [OF ok that, of mem] by (force simp: of_nat_diff)
qed

subsection \<open>Properties\<close>

text \<open>
  C26. \<^verbatim>\<open>q_addtail\<close> on a well-formed queue appends the pointer; a full ring is first doubled.
  When the larger array cannot be allocated it reports \<^const>\<open>ENOMEM\<close> and the queue is unchanged.
  No assertion fails and no cell is read before it is written.
\<close>

theorem q_addtail_spec:
  assumes "queue_ok q" and "qsize q < 2 ^ 29"
  shows "q_full q \<and> \<not> mem (ptr_bytes (qsize q * 2)) \<and> q_addtail mem q x = Some (Err ENOMEM, q)
    \<or> (\<not> q_full q \<or> mem (ptr_bytes (qsize q * 2))) \<and>
      (\<exists>q'. q_addtail mem q x = Some (Ok (), q') \<and> queue_ok q' \<and> q_list q' = q_list q @ [x] \<and>
        qsize q' = (if q_full q then qsize q * 2 else qsize q))"
  using assms by (rule q_addtail_cases)

definition sample_queue :: "nat queue" where
  "sample_queue = \<lparr>qsize = 3, nextwrite = 1, nextread = 2, qdata = [Some 8, None, Some 7]\<rparr>"

lemma sample_queue_ok: "queue_ok sample_queue" "q_full sample_queue" "q_list sample_queue = [7, 8]"
  by code_simp+

theorem q_addtail_spec_witness:
  "queue_ok sample_queue \<and> qsize sample_queue < 2 ^ 29 \<and>
   (\<exists>q'. q_addtail (\<lambda>_. True) sample_queue 9 = Some (Ok (), q') \<and> q_list q' = [7, 8, 9] \<and> qsize q' = 6)"
proof -
  have s: "qsize sample_queue < 2 ^ 29" by (simp add: sample_queue_def)
  have "qsize sample_queue = 3" by (simp add: sample_queue_def)
  with q_addtail_spec [OF sample_queue_ok(1) s, of "\<lambda>_. True" 9] s show ?thesis
    by (auto simp: sample_queue_ok)
qed

end
