(* ===== verification/Array.thy ===== *)
theory Array
  imports Prelude
begin

section \<open>Resizeable arrays of pointers (\<^verbatim>\<open>kern/lib/array.c\<close>)\<close>

text \<open>
  The array has \<open>anum\<close> visible elements in a block of \<open>amax\<close> cells; the block pointer is NULL
  before the first allocation. As in the queue a cell is \<open>None\<close> until it is written. The
  contents are the first \<open>anum\<close> cells (\<open>cells\<close>).
\<close>

record 'a parray =
  anum :: int
  amax :: int
  av :: "'a option list ptr"

definition array_create :: "bool \<Rightarrow> 'a parray ptr" where
  "array_create got = (if got then Some \<lparr>anum = 0, amax = 0, av = NULL\<rparr> else NULL)"

definition array_getnum :: "'a parray \<Rightarrow> int" where
  "array_getnum a = anum a"

definition block :: "'a parray \<Rightarrow> 'a option list" where
  "block a = (case av a of None \<Rightarrow> [] | Some cs \<Rightarrow> cs)"

definition array_getguy :: "'a parray \<Rightarrow> int \<Rightarrow> 'a run" where
  "array_getguy a index = do {
     kassert (anum a \<le> amax a);
     kassert (index \<ge> 0 \<and> index < anum a);
     cell \<leftarrow> nth_run (block a) (nat index);
     cell
   }"

text \<open>
  The growth loop \<^verbatim>\<open>while (nguys > newmax) newmax = (newmax+1)*2\<close> in 32-bit arithmetic. It
  does not return for every argument (at \<open>newmax = - 2\<close> it stays where it is), so it is a partial
  function; \<open>array_newmax_ok\<close> shows that it returns for the sizes that occur.
\<close>

partial_function (option) array_newmax :: "int \<Rightarrow> int \<Rightarrow> int run" where
  "array_newmax nguys newmax =
     (if nguys > newmax then array_newmax nguys (s32 ((newmax + 1) * 2)) else Some newmax)"

definition array_preallocate :: "(nat \<Rightarrow> bool) \<Rightarrow> 'a parray \<Rightarrow> int \<Rightarrow> (unit res \<times> 'a parray) run" where
  "array_preallocate mem a nguys = do {
     kassert (anum a \<ge> 0 \<and> anum a \<le> amax a);
     newmax \<leftarrow> array_newmax nguys (amax a);
     (if \<not> mem (ptr_bytes newmax) then Some (Err ENOMEM, a)
      else do {
        let newv = fresh_cells newmax;
        kassert (nat (anum a) \<le> length newv \<and> nat (anum a) \<le> length (block a));
        Some (Ok (), a\<lparr>amax := newmax, av := Some (take (nat (anum a)) (block a) @ drop (nat (anum a)) newv)\<rparr>)
      })
   }"

definition array_setsize :: "(nat \<Rightarrow> bool) \<Rightarrow> 'a parray \<Rightarrow> int \<Rightarrow> (unit res \<times> 'a parray) run" where
  "array_setsize mem a nguys = do {
     kassert (anum a \<ge> 0 \<and> anum a \<le> amax a);
     (if nguys > amax a then do {
        (result, a') \<leftarrow> array_preallocate mem a nguys;
        (case result of
           Inl e \<Rightarrow> Some (Err e, a')
         | Inr _ \<Rightarrow> Some (Ok (), a'\<lparr>anum := nguys\<rparr>))
      }
      else if nguys = 0 \<and> amax a > 16 then do {
        kassert (av a \<noteq> NULL);
        Some (Ok (), a\<lparr>av := NULL, amax := 0, anum := nguys\<rparr>)
      }
      else Some (Ok (), a\<lparr>anum := nguys\<rparr>))
   }"

definition array_setguy :: "'a parray \<Rightarrow> int \<Rightarrow> 'a \<Rightarrow> 'a parray run" where
  "array_setguy a index p = do {
     kassert (anum a \<le> amax a);
     kassert (index \<ge> 0 \<and> index < anum a);
     v \<leftarrow> upd_run (block a) (nat index) (Some p);
     Some (a\<lparr>av := Some v\<rparr>)
   }"

definition array_add :: "(nat \<Rightarrow> bool) \<Rightarrow> 'a parray \<Rightarrow> 'a \<Rightarrow> (unit res \<times> 'a parray) run" where
  "array_add mem a guy = do {
     let ix = anum a;
     (result, a') \<leftarrow> array_setsize mem a (s32 (ix + 1));
     (case result of
        Inl e \<Rightarrow> Some (Err e, a')
      | Inr _ \<Rightarrow> do {
          v \<leftarrow> upd_run (block a') (nat ix) (Some guy);
          Some (Ok (), a'\<lparr>av := Some v\<rparr>)
        })
   }"

text \<open>\<^verbatim>\<open>memmove(v+index, v+index+1, nmove)\<close> on the cells.\<close>

definition move_down :: "nat \<Rightarrow> nat \<Rightarrow> 'b list \<Rightarrow> 'b list run" where
  "move_down i n xs =
     (if i + 1 + n \<le> length xs
      then Some (take i xs @ take n (drop (i + 1) xs) @ drop (i + n) xs) else None)"

definition array_remove :: "'a parray \<Rightarrow> int \<Rightarrow> 'a parray run" where
  "array_remove a index = do {
     kassert (anum a \<le> amax a);
     kassert (index \<ge> 0 \<and> index < anum a);
     let nmove = anum a - (index + 1);
     v \<leftarrow> move_down (nat index) (nat nmove) (block a);
     Some (a\<lparr>av := Some v, anum := anum a - 1\<rparr>)
   }"

subsection \<open>Invariant and contents\<close>

definition array_ok :: "'a parray \<Rightarrow> bool" where
  "array_ok a \<longleftrightarrow> 0 \<le> anum a \<and> anum a \<le> amax a \<and> amax a < 2 ^ 30 \<and> length (block a) = nat (amax a)
     \<and> (\<forall>i < nat (anum a). block a ! i \<noteq> None)"

definition a_list :: "'a parray \<Rightarrow> 'a list" where
  "a_list a = map the (take (nat (anum a)) (block a))"

lemma array_okD:
  assumes "array_ok a"
  shows "0 \<le> anum a" "anum a \<le> amax a" "amax a < 2 ^ 30" "length (block a) = nat (amax a)"
    "nat (anum a) \<le> length (block a)"
  using assms by (auto simp: array_ok_def)

lemma length_a_list: "array_ok a \<Longrightarrow> length (a_list a) = nat (anum a)"
  using array_okD [of a] by (simp add: a_list_def)

lemma anum_eq: "array_ok a \<Longrightarrow> anum a = int (length (a_list a))"
  using array_okD [of a] by (simp add: a_list_def)

lemma block_nth:
  assumes "array_ok a" and "i < nat (anum a)"
  shows "block a ! i = Some (a_list a ! i)"
proof -
  have "block a ! i \<noteq> None" using assms by (simp only: array_ok_def) blast
  moreover have "a_list a ! i = the (block a ! i)"
    using assms(2) array_okD(5) [OF assms(1)] by (simp add: a_list_def)
  ultimately show ?thesis by simp
qed

lemma block_simps [simp]:
  "block (a\<lparr>av := Some v\<rparr>) = v" "block (a\<lparr>av := None\<rparr>) = []"
  "block (a\<lparr>anum := n\<rparr>) = block a" "block (a\<lparr>amax := n\<rparr>) = block a"
  by (simp_all add: block_def)

text \<open>A well-formed array is determined by its block; its contents can be read off.\<close>

lemma array_ok_intro:
  assumes "map Some xs @ rest = block a" and "anum a = int (length xs)"
    and "amax a = int (length (block a))" and "amax a < 2 ^ 30"
  shows "array_ok a" and "a_list a = xs"
proof -
  have "\<forall>i < length xs. block a ! i = Some (xs ! i)"
    by (simp add: assms(1) [symmetric] nth_append)
  then show "array_ok a" unfolding array_ok_def using assms(2-4) arg_cong [OF assms(1), of length] by auto
  show "a_list a = xs" using assms(2) by (simp add: a_list_def assms(1) [symmetric] comp_def)
qed

lemma block_split:
  assumes "array_ok a"
  shows "block a = map Some (a_list a) @ drop (nat (anum a)) (block a)"
proof -
  note ok = array_okD [OF assms]
  have "take (nat (anum a)) (block a) = map Some (a_list a)"
    by (rule nth_equalityI) (use ok block_nth [OF assms] length_a_list [OF assms] in auto)
  then show ?thesis using append_take_drop_id [of "nat (anum a)" "block a"] by simp
qed

lemma array_create_ok:
  "\<exists>a. array_create True = Some a \<and> array_ok a \<and> a_list a = [] \<and> amax a = 0"
  by (auto simp: array_create_def array_ok_def a_list_def block_def)

lemma array_getguy_eq:
  assumes "array_ok a"
  shows "array_getguy a i =
    (if 0 \<le> i \<and> i < int (length (a_list a)) then Some (a_list a ! nat i) else None)"
  using array_okD [OF assms] block_nth [OF assms, of "nat i"] length_a_list [OF assms]
  by (auto simp: array_getguy_def kassert_bind_if)

lemma array_setguy_out:
  "array_ok a \<Longrightarrow> \<not> (0 \<le> i \<and> i < int (length (a_list a))) \<Longrightarrow> array_setguy a i p = None"
  using length_a_list [of a] array_okD [of a] by (auto simp: array_setguy_def kassert_bind_if)

lemma array_setguy_ok:
  assumes "array_ok a" and "0 \<le> i" "i < int (length (a_list a))"
  shows "\<exists>a'. array_setguy a i p = Some a' \<and> array_ok a' \<and> a_list a' = (a_list a)[nat i := p]
    \<and> amax a' = amax a"
proof -
  note ok = array_okD [OF assms(1)] and len = anum_eq [OF assms(1)]
  define rest where "rest = drop (nat (anum a)) (block a)"
  have b: "block a = map Some (a_list a) @ rest"
    unfolding rest_def by (rule block_split [OF assms(1)])
  have k: "nat i < length (a_list a)" using assms(2,3) by linarith
  let ?a = "a\<lparr>av := Some ((block a)[nat i := Some p])\<rparr>"
  have "array_setguy a i p = Some ?a"
    using assms(2,3) ok len k by (simp add: array_setguy_def b)
  moreover have "map Some ((a_list a)[nat i := p]) @ rest = block ?a"
    using k by (simp add: b list_update_append map_update)
  then have "array_ok ?a \<and> a_list ?a = (a_list a)[nat i := p]"
    using ok len array_ok_intro [of "(a_list a)[nat i := p]" rest ?a] by simp
  ultimately show ?thesis by auto
qed

lemma array_remove_ok:
  assumes "array_ok a" and "0 \<le> i" "i < int (length (a_list a))"
  shows "\<exists>a'. array_remove a i = Some a' \<and> array_ok a'
    \<and> a_list a' = take (nat i) (a_list a) @ drop (Suc (nat i)) (a_list a) \<and> amax a' = amax a"
proof -
  note ok = array_okD [OF assms(1)] and len = length_a_list [OF assms(1)]
  define xs where "xs = a_list a"
  define rest where "rest = drop (nat (anum a)) (block a)"
  define k where "k = nat i"
  define m where "m = nat (anum a - (i + 1))"
  have b: "block a = map Some xs @ rest" and lx: "length xs = nat (anum a)" and k: "k < length xs"
    and m: "k + 1 + m = length xs"
    using block_split [OF assms(1)] anum_eq [OF assms(1)] assms(2,3)
    by (simp_all add: xs_def rest_def k_def m_def nat_less_iff)
  let ?v = "map Some (take k xs @ drop (Suc k) xs) @ (drop (k + m) (map Some xs) @ rest)"
  have mv: "move_down k m (block a) = Some ?v"
    using k m by (auto simp: move_down_def b take_map drop_map)
  let ?a = "a\<lparr>av := Some ?v, anum := anum a - 1\<rparr>"
  have "array_remove a i = Some ?a"
    using assms ok len mv by (simp add: array_remove_def k_def m_def)
  moreover have "array_ok ?a \<and> a_list ?a = take k xs @ drop (Suc k) xs"
  proof -
    have "length ?v = length (block a)" using m by (simp add: b)
    moreover have "anum a - 1 = int (length (take k xs @ drop (Suc k) xs))"
      using k lx ok by auto
    ultimately show ?thesis
      using ok array_ok_intro [of "take k xs @ drop (Suc k) xs" "drop (k + m) (map Some xs) @ rest" ?a]
      by simp
  qed
  ultimately show ?thesis by (auto simp: xs_def k_def)
qed

subsection \<open>Growth\<close>

lemma array_newmax_ok:
  assumes "0 \<le> m" and "n \<le> 2 ^ 28"
  shows "\<exists>m'. array_newmax n m = Some m' \<and> m \<le> m' \<and> n \<le> m' \<and> (m' = m \<or> m' < 2 ^ 30)"
  using assms(1)
proof (induction "nat (n - m)" arbitrary: m rule: less_induct)
  case less
  show ?case
  proof (cases "n > m")
    case True
    with less.prems assms(2) have eq: "s32 ((m + 1) * 2) = (m + 1) * 2" by simp
    have "nat (n - (m + 1) * 2) < nat (n - m)" using True less.prems by simp
    with less.hyps [of "(m + 1) * 2"] less.prems obtain m' where
      "array_newmax n ((m + 1) * 2) = Some m'" "(m + 1) * 2 \<le> m'" "n \<le> m'"
      "m' = (m + 1) * 2 \<or> m' < 2 ^ 30" by auto
    with True less.prems assms(2) eq show ?thesis
      by (subst array_newmax.simps) (auto simp: algebra_simps)
  next
    case False
    then show ?thesis by (subst array_newmax.simps) simp
  qed
qed

lemma array_preallocate_cases:
  assumes "array_ok a" and "n \<le> 2 ^ 28"
  shows "array_preallocate mem a n = Some (Err ENOMEM, a)
    \<or> (\<exists>a'. array_preallocate mem a n = Some (Ok (), a') \<and> array_ok a' \<and> a_list a' = a_list a
         \<and> n \<le> amax a' \<and> amax a \<le> amax a')"
proof -
  note ok = array_okD [OF assms(1)] and len = anum_eq [OF assms(1)]
  define rest where "rest = drop (nat (anum a)) (block a)"
  have b: "block a = map Some (a_list a) @ rest"
    unfolding rest_def by (rule block_split [OF assms(1)])
  have "0 \<le> amax a" using ok by linarith
  then obtain m where m: "array_newmax n (amax a) = Some m" "amax a \<le> m" "n \<le> m" "m < 2 ^ 30"
    using array_newmax_ok [of "amax a" n] assms(2) ok(3) by auto
  show ?thesis
  proof (cases "mem (ptr_bytes m)")
    case False
    then show ?thesis using ok m by (simp add: array_preallocate_def)
  next
    case True
    let ?fresh = "fresh_cells m :: 'a option list"
    have len_fresh: "length ?fresh = nat m"
    proof (cases "m = 0")
      case True
      then show ?thesis by (simp add: fresh_cells_def ptr_bytes_def)
    next
      case False
      with ok m show ?thesis by (intro length_fresh_cells) linarith+
    qed
    let ?v = "map Some (a_list a) @ drop (length (a_list a)) ?fresh"
    let ?a = "a\<lparr>amax := m, av := Some ?v\<rparr>"
    have le: "length (a_list a) \<le> nat m" using ok m len by linarith
    have "array_preallocate mem a n = Some (Ok (), ?a)"
      using ok m True le len_fresh by (simp add: array_preallocate_def len b)
    moreover have "array_ok ?a \<and> a_list ?a = a_list a"
      using array_ok_intro [of "a_list a" "drop (length (a_list a)) ?fresh" ?a] len m le len_fresh ok
      by simp
    ultimately show ?thesis using m by auto
  qed
qed

lemma array_setsize_0:
  assumes "array_ok a"
  shows "\<exists>a'. array_setsize mem a 0 = Some (Ok (), a') \<and> array_ok a' \<and> a_list a' = []
    \<and> amax a' = (if amax a > 16 then 0 else amax a)"
proof (cases "amax a > 16")
  case True
  note ok = array_okD [OF assms]
  have "av a \<noteq> None" using True ok(4) by (cases "av a") (simp_all add: block_def)
  with True ok show ?thesis
    by (simp add: array_setsize_def array_ok_def a_list_def block_def)
next
  case False
  with array_okD [OF assms] show ?thesis
    by (simp add: array_setsize_def array_ok_def a_list_def)
qed

lemma array_add_room:
  assumes "array_ok a" and "anum a < amax a"
  shows "\<exists>a'. array_add mem a x = Some (Ok (), a') \<and> array_ok a' \<and> a_list a' = a_list a @ [x]
    \<and> amax a' = amax a"
proof -
  note ok = array_okD [OF assms(1)] and len = anum_eq [OF assms(1)]
  define rest where "rest = drop (nat (anum a)) (block a)"
  have b: "block a = map Some (a_list a) @ rest"
    unfolding rest_def by (rule block_split [OF assms(1)])
  have "length (a_list a) + length rest = nat (amax a)" using ok(4) b by simp
  with assms(2) len have "length rest \<noteq> 0" by linarith
  then obtain r rest' where r: "rest = r # rest'" by (cases rest) auto
  let ?a = "a\<lparr>anum := anum a + 1, av := Some (map Some (a_list a @ [x]) @ rest')\<rparr>"
  have "array_add mem a x = Some (Ok (), ?a)"
    using ok assms(2) len by (simp add: array_add_def array_setsize_def b r list_update_append)
  moreover have "array_ok ?a \<and> a_list ?a = a_list a @ [x]"
    using array_ok_intro [of "a_list a @ [x]" rest' ?a] ok len b r by simp
  ultimately show ?thesis by auto
qed

lemma array_add_cases:
  assumes "array_ok a" and "anum a < 2 ^ 28"
  shows "array_add mem a x = Some (Err ENOMEM, a) \<and> anum a = amax a
    \<or> (\<exists>a'. array_add mem a x = Some (Ok (), a') \<and> array_ok a' \<and> a_list a' = a_list a @ [x]
         \<and> amax a \<le> amax a')"
proof (cases "anum a < amax a")
  case True
  then show ?thesis using array_add_room [OF assms(1)] by fastforce
next
  case False
  note ok = array_okD [OF assms(1)]
  have full: "anum a = amax a" using False ok by linarith
  have n: "s32 (anum a + 1) = anum a + 1" using ok assms(2) by simp
  have n28: "anum a + 1 \<le> 2 ^ 28" using assms(2) by simp
  from array_preallocate_cases [OF assms(1) n28, of mem] show ?thesis
  proof
    assume "array_preallocate mem a (anum a + 1) = Some (Err ENOMEM, a)"
    then show ?thesis using ok full n by (simp add: array_add_def array_setsize_def)
  next
    assume "\<exists>a'. array_preallocate mem a (anum a + 1) = Some (Ok (), a') \<and> array_ok a'
      \<and> a_list a' = a_list a \<and> anum a + 1 \<le> amax a' \<and> amax a \<le> amax a'"
    then obtain a' where a': "array_preallocate mem a (anum a + 1) = Some (Ok (), a')" "array_ok a'"
      "a_list a' = a_list a" "anum a + 1 \<le> amax a'" "amax a \<le> amax a'" by blast
    have same: "anum a' = anum a" using anum_eq [OF assms(1)] anum_eq [OF a'(2)] a'(3) by simp
    have "array_add mem a x = array_add mem a' x"
      using ok full n a' same array_okD [OF a'(2)] by (simp add: array_add_def array_setsize_def)
    with array_add_room [OF a'(2), of mem x] a' same show ?thesis by fastforce
  qed
qed

subsection \<open>The interface of a growable array\<close>

lemma array_add_fails: "array_add mem a x = Some (Inl e, a') \<Longrightarrow> \<exists>n. \<not> mem n"
  by (auto simp: array_add_def array_setsize_def array_preallocate_def bind_eq_Some_conv Let_def
      split: if_splits sum.splits prod.splits)


text \<open>
  The promises of \<^verbatim>\<open>kern/include/array.h\<close>. \<open>capacity\<close> is the number of elements that fit
  without asking for memory; \<open>reserve\<close> (\<^verbatim>\<open>array_preallocate\<close>) raises it, so that the
  following additions cannot fail.
\<close>

locale vector =
  fixes ok :: "'v \<Rightarrow> bool"
    and contents :: "'v \<Rightarrow> 'a list"
    and capacity :: "'v \<Rightarrow> nat"
    and num :: "'v \<Rightarrow> int"
    and get :: "'v \<Rightarrow> int \<Rightarrow> 'a run"
    and add :: "'v \<Rightarrow> 'a \<Rightarrow> (unit res \<times> 'v) run"
    and remove :: "'v \<Rightarrow> int \<Rightarrow> 'v run"
    and reserve :: "'v \<Rightarrow> int \<Rightarrow> (unit res \<times> 'v) run"
  assumes num_eq: "ok v \<Longrightarrow> num v = int (length (contents v))"
    and contents_capacity: "ok v \<Longrightarrow> length (contents v) \<le> capacity v"
    and get_eq: "ok v \<Longrightarrow>
      get v i = (if 0 \<le> i \<and> i < int (length (contents v)) then Some (contents v ! nat i) else None)"
    and add_room: "ok v \<Longrightarrow> length (contents v) < capacity v \<Longrightarrow>
      \<exists>v'. add v x = Some (Ok (), v') \<and> ok v' \<and> contents v' = contents v @ [x] \<and> capacity v' = capacity v"
    and add_grow: "ok v \<Longrightarrow> length (contents v) < 2 ^ 28 \<Longrightarrow>
      add v x = Some (Err ENOMEM, v) \<or>
      (\<exists>v'. add v x = Some (Ok (), v') \<and> ok v' \<and> contents v' = contents v @ [x] \<and> capacity v \<le> capacity v')"
    and remove_at: "ok v \<Longrightarrow> k < length (contents v) \<Longrightarrow>
      \<exists>v'. remove v (int k) = Some v' \<and> ok v' \<and> capacity v' = capacity v
        \<and> contents v' = take k (contents v) @ drop (Suc k) (contents v)"
    and reserve: "ok v \<Longrightarrow> n \<le> 2 ^ 28 \<Longrightarrow>
      reserve v n = Some (Err ENOMEM, v) \<or>
      (\<exists>v'. reserve v n = Some (Ok (), v') \<and> ok v' \<and> contents v' = contents v
         \<and> n \<le> int (capacity v') \<and> capacity v \<le> capacity v')"
begin

fun add_all :: "'v \<Rightarrow> 'a list \<Rightarrow> 'v run" where
  "add_all v [] = Some v"
| "add_all v (x # xs) = (case add v x of Some (Inr _, v') \<Rightarrow> add_all v' xs | _ \<Rightarrow> None)"

lemma add_all_room:
  assumes "ok v" and "length (contents v) + length xs \<le> capacity v"
  shows "\<exists>v'. add_all v xs = Some v' \<and> ok v' \<and> contents v' = contents v @ xs"
  using assms
proof (induction xs arbitrary: v)
  case Nil
  then show ?case by simp
next
  case (Cons x xs)
  from Cons.prems add_room [of v x] obtain v' where
    v': "add v x = Some (Ok (), v')" "ok v'" "contents v' = contents v @ [x]" "capacity v' = capacity v"
    by auto
  with Cons.IH [of v'] Cons.prems show ?case by auto
qed

text \<open>After a successful reservation of \<open>n\<close> cells no addition up to \<open>n\<close> elements can fail.\<close>

lemma reserve_guarantees:
  assumes "ok v" and "n \<le> 2 ^ 28" and "reserve v n = Some (Ok (), v')"
    and "int (length (contents v) + length xs) \<le> n"
  shows "\<exists>v''. add_all v' xs = Some v'' \<and> ok v'' \<and> contents v'' = contents v @ xs"
proof -
  from reserve [OF assms(1,2)] assms(3) have "ok v'" "contents v' = contents v" "n \<le> int (capacity v')"
    by auto
  with add_all_room [of v' xs] assms(4) show ?thesis by auto
qed

text \<open>A read-only loop over the elements: the first index from \<open>i\<close> on whose element satisfies \<open>P\<close>.\<close>

fun scan :: "('a \<Rightarrow> bool) \<Rightarrow> 'v \<Rightarrow> nat list \<Rightarrow> nat option run" where
  "scan P v [] = Some None"
| "scan P v (i # is) = do { x \<leftarrow> get v (int i); if P x then Some (Some i) else scan P v is }"

lemma scan_eq:
  assumes "ok v" and "set is \<subseteq> {..<length (contents v)}"
  shows "scan P v is = Some (List.find (\<lambda>i. P (contents v ! i)) is)"
  using assms(2) by (induction "is") (auto simp: get_eq [OF assms(1)])

lemma scan_all:
  assumes "ok v"
  shows "scan P v [0..<nat (num v)] = Some (List.find (\<lambda>i. P (contents v ! i)) [0..<length (contents v)])"
  by (simp add: num_eq [OF assms] scan_eq [OF assms] lessThan_atLeast0)

end

interpretation pa: vector array_ok a_list "\<lambda>a. nat (amax a)" array_getnum array_getguy
    "array_add mem" array_remove "array_preallocate mem" for mem
proof unfold_locales
  fix a :: "'a parray" and x i n
  assume ok: "array_ok a"
  note okd = array_okD [OF ok] and len = anum_eq [OF ok]
  show "array_getnum a = int (length (a_list a))" using len by (simp add: array_getnum_def)
  show "length (a_list a) \<le> nat (amax a)" using okd len by linarith
  show "array_getguy a i = (if 0 \<le> i \<and> i < int (length (a_list a)) then Some (a_list a ! nat i) else None)"
    by (rule array_getguy_eq [OF ok])
  show "\<exists>a'. array_add mem a x = Some (Ok (), a') \<and> array_ok a' \<and> a_list a' = a_list a @ [x]
      \<and> nat (amax a') = nat (amax a)" if "length (a_list a) < nat (amax a)"
  proof -
    have "anum a < amax a" using that len by linarith
    then show ?thesis using array_add_room [OF ok, of mem x] by auto
  qed
  show "array_add mem a x = Some (Err ENOMEM, a) \<or>
      (\<exists>a'. array_add mem a x = Some (Ok (), a') \<and> array_ok a' \<and> a_list a' = a_list a @ [x]
        \<and> nat (amax a) \<le> nat (amax a'))" if "length (a_list a) < 2 ^ 28"
  proof -
    have "anum a < 2 ^ 28" using that len by simp
    then show ?thesis using array_add_cases [OF ok, of mem x] by auto
  qed
  show "array_preallocate mem a n = Some (Err ENOMEM, a) \<or>
      (\<exists>a'. array_preallocate mem a n = Some (Ok (), a') \<and> array_ok a' \<and> a_list a' = a_list a
        \<and> n \<le> int (nat (amax a')) \<and> nat (amax a) \<le> nat (amax a'))" if "n \<le> 2 ^ 28"
    using array_preallocate_cases [OF ok that, of mem] okd by auto
next
  fix a :: "'a parray" and i
  assume ok: "array_ok a" and i: "i < length (a_list a)"
  show "\<exists>a'. array_remove a (int i) = Some a' \<and> array_ok a' \<and> nat (amax a') = nat (amax a)
      \<and> a_list a' = take i (a_list a) @ drop (Suc i) (a_list a)"
    using array_remove_ok [OF ok, of "int i"] i by auto
qed

end
