(* ===== verification/Filetable.thy ===== *)
theory Filetable
  imports Array
begin

section \<open>Per-process file tables (\<^verbatim>\<open>kern/userprog/filetable.c\<close>)\<close>

text \<open>
  A file table is an array of pointers to file descriptors with a hint \<open>next\<close> for the next free
  slot; a closed slot is meant to hold NULL. Descriptors live in the kernel heap (\<open>fdescs\<close>), since
  copies of a table share them. \<open>vclosed\<close> records the vnodes passed to \<^verbatim>\<open>vfs_close\<close>, in order.
\<close>

record filedesc =
  fd_vn :: nat
  fd_offset :: nat
  fd_mode :: nat

record filetable =
  ft_handles :: "nat ptr parray"
  ft_next :: int

record fheap =
  fdescs :: "nat \<Rightarrow> filedesc option"
  vclosed :: "nat list"

definition filetable_create :: "bool \<Rightarrow> bool \<Rightarrow> filetable ptr" where
  "filetable_create got_ft got_arr =
     (if \<not> got_ft then NULL
      else case array_create got_arr of
        None \<Rightarrow> NULL
      | Some h \<Rightarrow> Some \<lparr>ft_handles = h, ft_next = 0\<rparr>)"

definition filetable_size :: "filetable \<Rightarrow> int" where
  "filetable_size ft = array_getnum (ft_handles ft)"

definition filetable_get :: "filetable \<Rightarrow> int \<Rightarrow> nat ptr run" where
  "filetable_get ft i =
     (if i \<ge> filetable_size ft then Some NULL else array_getguy (ft_handles ft) i)"

definition filetable_set :: "filetable \<Rightarrow> int \<Rightarrow> nat ptr \<Rightarrow> filetable run" where
  "filetable_set ft i val = do {
     kassert (val \<noteq> NULL);
     kassert (i \<ge> 0 \<and> i < filetable_size ft);
     let ft' = (if val = NULL \<and> ft_next ft > i then ft\<lparr>ft_next := i\<rparr> else ft);
     h \<leftarrow> array_setguy (ft_handles ft') i val;
     Some (ft'\<lparr>ft_handles := h\<rparr>)
   }"

text \<open>\<^verbatim>\<open>for(i = ft->next; i < size && filetable_get(ft, i); i++);\<close> over the remaining indices.\<close>

fun next_free :: "filetable \<Rightarrow> int \<Rightarrow> nat \<Rightarrow> int run" where
  "next_free ft i 0 = Some i"
| "next_free ft i (Suc n) = do {
     h \<leftarrow> filetable_get ft i;
     if h = NULL then Some i else next_free ft (i + 1) n
   }"

definition filetable_add :: "(nat \<Rightarrow> bool) \<Rightarrow> filetable \<Rightarrow> nat ptr \<Rightarrow> (int \<times> filetable) run" where
  "filetable_add mem ft val = do {
     kassert (val \<noteq> NULL);
     (if ft_next ft < filetable_size ft then do {
        ft' \<leftarrow> filetable_set ft (ft_next ft) val;
        let ret = ft_next ft';
        i \<leftarrow> next_free ft' (ft_next ft') (nat (filetable_size ft' - ft_next ft'));
        Some (ret, ft'\<lparr>ft_next := i\<rparr>)
      }
      else do {
        (result, h) \<leftarrow> array_add mem (ft_handles ft) val;
        (case result of
           Inl _ \<Rightarrow> Some (- 1, ft\<lparr>ft_handles := h\<rparr>)
         | Inr _ \<Rightarrow> do {
             let ft' = ft\<lparr>ft_handles := h\<rparr>;
             Some (ft_next ft, ft'\<lparr>ft_next := filetable_size ft'\<rparr>)
           })
      })
   }"

definition filetable_remove :: "filetable \<Rightarrow> fheap \<Rightarrow> int \<Rightarrow> (int \<times> filetable \<times> fheap) run" where
  "filetable_remove ft h i = do {
     kassert (i \<ge> 0 \<and> i < filetable_size ft);
     fd \<leftarrow> filetable_get ft i;
     (case fd of
        Some p \<Rightarrow> do {
          d \<leftarrow> fdescs h p;
          let h' = h\<lparr>vclosed := vclosed h @ [fd_vn d], fdescs := (fdescs h)(p := None)\<rparr>;
          ft' \<leftarrow> filetable_set ft i NULL;
          (if i = filetable_size ft' - 1 then do {
             a \<leftarrow> array_remove (ft_handles ft') i;
             Some (1, ft'\<lparr>ft_handles := a\<rparr>, h')
           }
           else Some (0, ft', h'))
        }
      | None \<Rightarrow> Some (- 1, ft, h))
   }"

fun filetable_remove_upto :: "filetable \<Rightarrow> fheap \<Rightarrow> nat list \<Rightarrow> (filetable \<times> fheap) run" where
  "filetable_remove_upto ft h [] = Some (ft, h)"
| "filetable_remove_upto ft h (i # is) = do {
     (_, ft', h') \<leftarrow> filetable_remove ft h (int i);
     filetable_remove_upto ft' h' is
   }"

definition filetable_destroy :: "filetable ptr \<Rightarrow> fheap \<Rightarrow> fheap run" where
  "filetable_destroy ftp h = do {
     ft \<leftarrow> ftp;
     (_, h') \<leftarrow> filetable_remove_upto ft h [0..<nat (filetable_size ft)];
     Some h'
   }"

fun filetable_add_all :: "(nat \<Rightarrow> bool) \<Rightarrow> filetable \<Rightarrow> filetable \<Rightarrow> nat list \<Rightarrow> filetable run" where
  "filetable_add_all mem ft c [] = Some c"
| "filetable_add_all mem ft c (i # is) = do {
     v \<leftarrow> filetable_get ft (int i);
     (_, c') \<leftarrow> filetable_add mem c v;
     filetable_add_all mem ft c' is
   }"

definition filetable_copy :: "bool \<Rightarrow> bool \<Rightarrow> (nat \<Rightarrow> bool) \<Rightarrow> filetable \<Rightarrow> filetable ptr run" where
  "filetable_copy got_ft got_arr mem ft =
     (case filetable_create got_ft got_arr of
        None \<Rightarrow> Some NULL
      | Some c \<Rightarrow> do {
          c' \<leftarrow> filetable_add_all mem ft (c\<lparr>ft_next := ft_next ft\<rparr>) [0..<nat (filetable_size ft)];
          Some (Some c')
        })"

text \<open>
  \<^verbatim>\<open>filetable_init\<close>: \<open>got\<close> is the allocation of the three descriptor pointers, which are not
  initialised, and \<open>opened\<close> the three results of \<^verbatim>\<open>vfs_open\<close>. On a failed open the code closes
  the variable \<^verbatim>\<open>v\<close>, which has no value before the first successful open.
\<close>

definition O_RDONLY :: nat where "O_RDONLY = 0"
definition O_WRONLY :: nat where "O_WRONLY = 1"
definition O_RDWR :: nat where "O_RDWR = 2"
definition O_ACCMODE :: nat where "O_ACCMODE = 3"

definition init_slot :: "(nat \<Rightarrow> bool) \<Rightarrow> nat option list \<Rightarrow> nat \<Rightarrow> nat \<Rightarrow> nat \<Rightarrow> filetable \<Rightarrow> fheap \<Rightarrow>
    (filetable \<times> fheap) run" where
  "init_slot mem fds k vnode md ft h = do {
     cell \<leftarrow> nth_run fds k;
     p \<leftarrow> cell;
     d \<leftarrow> fdescs h p;
     cell0 \<leftarrow> nth_run fds 0;
     p0 \<leftarrow> cell0;
     let h1 = h\<lparr>fdescs := (fdescs h)(p \<mapsto> d\<lparr>fd_vn := vnode, fd_offset := 0\<rparr>)\<rparr>;
     d0 \<leftarrow> fdescs h1 p0;
     let h2 = h1\<lparr>fdescs := (fdescs h1)(p0 \<mapsto> d0\<lparr>fd_mode := md\<rparr>)\<rparr>;
     (_, ft') \<leftarrow> filetable_add mem ft (Some p);
     Some (ft', h2)
   }"

fun init_slots :: "(nat \<Rightarrow> bool) \<Rightarrow> nat option list \<Rightarrow> nat option \<Rightarrow> (nat \<times> nat \<times> nat res) list \<Rightarrow>
    filetable \<Rightarrow> fheap \<Rightarrow> (int \<times> filetable ptr \<times> fheap) run" where
  "init_slots mem fds v [] ft h = Some (0, Some ft, h)"
| "init_slots mem fds v ((k, md, Inr v') # rest) ft h = do {
     (ft', h') \<leftarrow> init_slot mem fds k v' md ft h;
     init_slots mem fds (Some v') rest ft' h'
   }"
| "init_slots mem fds v ((k, md, Inl e) # rest) ft h = do {
     w \<leftarrow> v;
     h' \<leftarrow> filetable_destroy (Some ft) (h\<lparr>vclosed := vclosed h @ [w]\<rparr>);
     Some (1, NULL, h')
   }"

definition filetable_init :: "bool \<Rightarrow> (nat \<Rightarrow> bool) \<Rightarrow> nat res \<Rightarrow> nat res \<Rightarrow> nat res \<Rightarrow>
    filetable \<Rightarrow> fheap \<Rightarrow> (int \<times> filetable ptr \<times> fheap) run" where
  "filetable_init got mem o1 o2 o3 ft h =
     (if \<not> got then do { h' \<leftarrow> filetable_destroy (Some ft) h; Some (1, NULL, h') }
      else init_slots mem [None, None, None] None
             [(0, O_WRONLY, o1), (1, O_RDONLY, o2), (2, O_WRONLY, o3)] ft h)"

subsection \<open>Invariant\<close>

text \<open>
  \<open>slots\<close> is the table as a list. The hint \<open>ft_next\<close> is the least free slot, or the size when
  there is none.
\<close>

definition slots :: "filetable \<Rightarrow> nat ptr list" where
  "slots ft = a_list (ft_handles ft)"

definition ft_ok :: "filetable \<Rightarrow> bool" where
  "ft_ok ft \<longleftrightarrow> array_ok (ft_handles ft) \<and> 0 \<le> ft_next ft \<and> ft_next ft \<le> int (length (slots ft))
     \<and> (\<forall>i < nat (ft_next ft). slots ft ! i \<noteq> NULL)
     \<and> (ft_next ft < int (length (slots ft)) \<longrightarrow> slots ft ! nat (ft_next ft) = NULL)"

lemma slots_upd [simp]: "slots (ft\<lparr>ft_next := n\<rparr>) = slots ft" "slots (ft\<lparr>ft_handles := a\<rparr>) = a_list a"
  by (simp_all add: slots_def)

lemma filetable_size_eq: "array_ok (ft_handles ft) \<Longrightarrow> filetable_size ft = int (length (slots ft))"
  by (simp add: filetable_size_def slots_def pa.num_eq)

lemma filetable_get_eq:
  assumes "array_ok (ft_handles ft)"
  shows "filetable_get ft i = (if i \<ge> int (length (slots ft)) then Some NULL
     else if i \<ge> 0 then Some (slots ft ! nat i) else None)"
  using filetable_size_eq [OF assms] pa.get_eq [OF assms] by (simp add: filetable_get_def slots_def)

lemma filetable_set_ok:
  assumes "array_ok (ft_handles ft)" and "0 \<le> i" "i < int (length (slots ft))" and "val \<noteq> NULL"
  shows "\<exists>ft'. filetable_set ft i val = Some ft' \<and> array_ok (ft_handles ft')
    \<and> slots ft' = (slots ft)[nat i := val] \<and> ft_next ft' = ft_next ft"
proof -
  obtain a where "array_setguy (ft_handles ft) i val = Some a" "array_ok a"
    "a_list a = (slots ft)[nat i := val]"
    using array_setguy_ok [OF assms(1,2), of val] assms(3) by (auto simp: slots_def)
  then show ?thesis
    using assms filetable_size_eq [OF assms(1)] by (auto simp: filetable_set_def slots_def)
qed

lemma next_free_ok:
  assumes "array_ok (ft_handles ft)" and "k + n = length (slots ft)"
  shows "\<exists>j. next_free ft (int k) n = Some (int j) \<and> k \<le> j \<and> j \<le> length (slots ft)
    \<and> (\<forall>i. k \<le> i \<and> i < j \<longrightarrow> slots ft ! i \<noteq> NULL) \<and> (j < length (slots ft) \<longrightarrow> slots ft ! j = NULL)"
  using assms(2)
proof (induction n arbitrary: k)
  case 0
  then show ?case by auto
next
  case (Suc n)
  then have get: "filetable_get ft (int k) = Some (slots ft ! k)"
    by (simp add: filetable_get_eq [OF assms(1)])
  show ?case
  proof (cases "slots ft ! k")
    case None
    with get Suc.prems show ?thesis by (auto intro!: exI [of _ k])
  next
    case (Some p)
    from Suc.IH [of "Suc k"] Suc.prems obtain j where
      j: "next_free ft (int k + 1) n = Some (int j)" "Suc k \<le> j" "j \<le> length (slots ft)"
      "\<forall>i. Suc k \<le> i \<and> i < j \<longrightarrow> slots ft ! i \<noteq> NULL" "j < length (slots ft) \<longrightarrow> slots ft ! j = NULL"
      by (auto simp: algebra_simps)
    have "\<forall>i. k \<le> i \<and> i < j \<longrightarrow> slots ft ! i \<noteq> NULL"
      using j(4) Some by (metis Suc_leI le_neq_implies_less option.distinct(1))
    with get Some j show ?thesis by (auto intro!: exI [of _ j])
  qed
qed

lemma filetable_create_ok:
  "\<exists>ft. filetable_create True True = Some ft \<and> ft_ok ft \<and> slots ft = []"
proof -
  obtain a :: "nat ptr parray" where "array_create True = Some a" "array_ok a" "a_list a = []"
    using array_create_ok by blast
  then show ?thesis by (auto simp: filetable_create_def ft_ok_def slots_def)
qed

lemma filetable_add_hole:
  assumes ok: "ft_ok ft" and hole: "ft_next ft < int (length (slots ft))" and val: "val \<noteq> NULL"
  shows "\<exists>ft'. filetable_add mem ft val = Some (ft_next ft, ft') \<and> ft_ok ft'
    \<and> slots ft' = (slots ft)[nat (ft_next ft) := val]"
proof -
  have arr: "array_ok (ft_handles ft)" and n0: "0 \<le> ft_next ft"
    and low: "\<forall>i < nat (ft_next ft). slots ft ! i \<noteq> NULL" using ok by (auto simp: ft_ok_def)
  define k where "k = nat (ft_next ft)"
  have k: "ft_next ft = int k" "k < length (slots ft)" using n0 hole by (simp_all add: k_def)
  obtain ft' where s: "filetable_set ft (int k) val = Some ft'" "array_ok (ft_handles ft')"
    "slots ft' = (slots ft)[k := val]" "ft_next ft' = int k"
    using filetable_set_ok [OF arr n0 hole val] by (auto simp: k)
  have len: "length (slots ft') = length (slots ft)" by (simp add: s(3))
  have fuel: "k + nat (filetable_size ft' - int k) = length (slots ft')"
    using k(2) len filetable_size_eq [OF s(2)] by simp
  from next_free_ok [OF s(2) fuel] obtain j where
    j: "next_free ft' (int k) (nat (filetable_size ft' - int k)) = Some (int j)" "k \<le> j"
    "j \<le> length (slots ft')" "\<forall>i. k \<le> i \<and> i < j \<longrightarrow> slots ft' ! i \<noteq> NULL"
    "j < length (slots ft') \<longrightarrow> slots ft' ! j = NULL" by blast
  let ?ft = "ft'\<lparr>ft_next := int j\<rparr>"
  have sl: "slots ?ft = slots ft'" by (simp add: slots_def)
  have "filetable_add mem ft val = Some (int k, ?ft)"
    using s j(1) val hole filetable_size_eq [OF arr] by (simp add: filetable_add_def k)
  moreover have "ft_ok ?ft"
  proof -
    have "slots ft' ! i \<noteq> NULL" if "i < j" for i
      using that j(4) low s(3) k by (cases "i < k") auto
    with j s(2) show ?thesis by (simp add: ft_ok_def sl)
  qed
  ultimately show ?thesis using s(3) by (auto simp: k sl)
qed

lemma filetable_add_end:
  assumes ok: "ft_ok ft" and full: "ft_next ft = int (length (slots ft))" and val: "val \<noteq> NULL"
    and small: "length (slots ft) < 2 ^ 28"
  shows "filetable_add mem ft val = Some (- 1, ft) \<or>
    (\<exists>ft'. filetable_add mem ft val = Some (ft_next ft, ft') \<and> ft_ok ft' \<and> slots ft' = slots ft @ [val])"
proof -
  have arr: "array_ok (ft_handles ft)" and low: "\<forall>i < length (slots ft). slots ft ! i \<noteq> NULL"
    using ok full by (auto simp: ft_ok_def)
  have grow: "array_add mem (ft_handles ft) val = Some (Err ENOMEM, ft_handles ft) \<or>
    (\<exists>a. array_add mem (ft_handles ft) val = Some (Ok (), a) \<and> array_ok a \<and> a_list a = slots ft @ [val])"
    using pa.add_grow [OF arr, of mem val] small by (auto simp: slots_def)
  then show ?thesis
  proof (elim disjE exE conjE)
    assume "array_add mem (ft_handles ft) val = Some (Err ENOMEM, ft_handles ft)"
    then show ?thesis using val full filetable_size_eq [OF arr] by (simp add: filetable_add_def)
  next
    fix a
    assume a: "array_add mem (ft_handles ft) val = Some (Ok (), a)" "array_ok a"
      "a_list a = slots ft @ [val]"
    let ?ft = "ft\<lparr>ft_handles := a, ft_next := int (length (slots ft @ [val]))\<rparr>"
    have "filetable_size (ft\<lparr>ft_handles := a\<rparr>) = int (length (slots ft @ [val]))"
      using a by (simp add: filetable_size_eq)
    then have "filetable_add mem ft val = Some (ft_next ft, ?ft)"
      using val full a filetable_size_eq [OF arr] by (simp add: filetable_add_def)
    moreover have "ft_ok ?ft"
      using a low val by (auto simp: ft_ok_def nth_append)
    ultimately show ?thesis using a by auto
  qed
qed

lemma filetable_remove_open:
  assumes "array_ok (ft_handles ft)" and "0 \<le> i" "i < int (length (slots ft))"
    and "slots ft ! nat i = Some p"
  shows "filetable_remove ft h i = None"
  using assms by (auto simp: filetable_remove_def filetable_size_eq filetable_get_eq filetable_set_def
      split: option.splits)

subsection \<open>Properties\<close>

text \<open>
  C27. On a well-formed table \<^verbatim>\<open>filetable_add\<close> stores the descriptor in the lowest free slot, which
  it returns, and keeps the table well formed, so that looking the returned number up gives the
  descriptor back and every other slot is as before; the one failure is \<open>-1\<close> with the table
  unchanged, when every slot is in use and the array cannot grow.
\<close>

theorem filetable_add_lowest:
  assumes "ft_ok ft" and "val \<noteq> NULL" and "length (slots ft) < 2 ^ 28"
  shows "(filetable_add mem ft val = Some (- 1, ft) \<and> NULL \<notin> set (slots ft)) \<or>
    (\<exists>n ft'. filetable_add mem ft val = Some (int n, ft') \<and> ft_ok ft' \<and>
       (\<forall>i < n. filetable_get ft (int i) \<noteq> Some NULL) \<and> filetable_get ft (int n) = Some NULL \<and>
       filetable_get ft' (int n) = Some val \<and>
       (\<forall>i. i \<noteq> n \<longrightarrow> filetable_get ft' (int i) = filetable_get ft (int i)))"
proof (cases "ft_next ft < int (length (slots ft))")
  case True
  from filetable_add_hole [OF assms(1) True assms(2), of mem] obtain ft' where
    "filetable_add mem ft val = Some (ft_next ft, ft')" "ft_ok ft'"
    "slots ft' = (slots ft)[nat (ft_next ft) := val]" by blast
  with assms(1) True show ?thesis
    by (intro disjI2 exI [of _ "nat (ft_next ft)"] exI [of _ ft'])
       (auto simp: ft_ok_def filetable_get_eq nth_list_update)
next
  case False
  with assms(1) have full: "ft_next ft = int (length (slots ft))" by (simp add: ft_ok_def)
  with assms(1) have nonull: "NULL \<notin> set (slots ft)" by (auto simp: ft_ok_def in_set_conv_nth)
  from filetable_add_end [OF assms(1) full assms(2,3), of mem] show ?thesis
  proof (elim disjE exE conjE)
    assume "filetable_add mem ft val = Some (- 1, ft)"
    with nonull show ?thesis by blast
  next
    fix ft'
    assume "filetable_add mem ft val = Some (ft_next ft, ft')" "ft_ok ft'" "slots ft' = slots ft @ [val]"
    with assms(1) full show ?thesis
      by (intro disjI2 exI [of _ "length (slots ft)"] exI [of _ ft'])
         (auto simp: ft_ok_def filetable_get_eq nth_append)
  qed
qed

definition sample_ft :: filetable where
  "sample_ft = \<lparr>ft_handles = \<lparr>anum = 3, amax = 3, av = Some [Some (Some 7), Some NULL, Some (Some 8)]\<rparr>,
     ft_next = 1\<rparr>"

lemma sample_ft_ok: "ft_ok sample_ft" "slots sample_ft = [Some 7, NULL, Some 8]"
  by (auto simp: ft_ok_def slots_def sample_ft_def array_ok_def a_list_def block_def less_Suc_eq
      numeral_3_eq_3)

theorem filetable_add_lowest_witness:
  "(filetable_add (\<lambda>_. True) sample_ft (Some 9) = Some (- 1, sample_ft) \<and> NULL \<notin> set (slots sample_ft)) \<or>
    (\<exists>n ft'. filetable_add (\<lambda>_. True) sample_ft (Some 9) = Some (int n, ft') \<and> ft_ok ft' \<and>
       (\<forall>i < n. filetable_get sample_ft (int i) \<noteq> Some NULL) \<and> filetable_get sample_ft (int n) = Some NULL \<and>
       filetable_get ft' (int n) = Some (Some 9) \<and>
       (\<forall>i. i \<noteq> n \<longrightarrow> filetable_get ft' (int i) = filetable_get sample_ft (int i)))"
  by (rule filetable_add_lowest) (simp_all add: sample_ft_ok)

text \<open>
  \<^verbatim>\<open>filetable_remove\<close> of an open descriptor never returns: it clears the slot through
  \<^verbatim>\<open>filetable_set\<close>, which asserts that the value it is given is not NULL.
\<close>

theorem filetable_remove_open_panics:
  assumes "ft_ok ft" and "filetable_get ft i = Some (Some p)"
  shows "filetable_remove ft h i = panic"
proof -
  have "array_ok (ft_handles ft)" using assms(1) by (simp add: ft_ok_def)
  moreover from this assms(2) have "0 \<le> i" "i < int (length (slots ft))" "slots ft ! nat i = Some p"
    by (auto simp: filetable_get_eq split: if_splits)
  ultimately show ?thesis by (rule filetable_remove_open)
qed

theorem filetable_remove_open_panics_witness:
  "filetable_remove sample_ft \<lparr>fdescs = (\<lambda>_. Some \<lparr>fd_vn = 1, fd_offset = 0, fd_mode = 0\<rparr>), vclosed = []\<rparr> 2 = panic"
  by (rule filetable_remove_open_panics [where p = 8, OF sample_ft_ok(1)])
     (simp add: filetable_get_eq sample_ft_ok [unfolded ft_ok_def])

end
