(* ===== verification/Spl.thy ===== *)
theory Spl
  imports Prelude
begin

section \<open>Interrupt levels (\<^verbatim>\<open>kern/arch/mips/mips/spl.c\<close>)\<close>

text \<open>
  The part of the machine state that the interrupt code owns: \<open>curspl\<close>, \<open>in_interrupt\<close> and the
  interrupt-enable bit IEc of the status register (\<open>iec\<close>). Later theories extend the record
  with the scheduler's and the thread system's variables; every operation here is polymorphic
  in the extension.
\<close>

record kcpu =
  curspl :: int
  in_interrupt :: int
  iec :: bool

definition SPL_HIGH :: int where "SPL_HIGH = 15"

definition interrupts_on :: "'a kcpu_scheme \<Rightarrow> 'a kcpu_scheme" where
  "interrupts_on k = k\<lparr>iec := True\<rparr>"

definition interrupts_off :: "'a kcpu_scheme \<Rightarrow> 'a kcpu_scheme" where
  "interrupts_off k = k\<lparr>iec := False\<rparr>"

definition splx :: "int \<Rightarrow> 'a kcpu_scheme \<Rightarrow> int \<times> 'a kcpu_scheme" where
  "splx newspl k =
     (let k1 = (if newspl > 0 then interrupts_off k
                else if newspl = 0 then interrupts_on k
                else k);
          oldspl = curspl k1
      in (oldspl, k1\<lparr>curspl := newspl\<rparr>))"

definition splhigh :: "'a kcpu_scheme \<Rightarrow> int \<times> 'a kcpu_scheme" where
  "splhigh k = splx SPL_HIGH k"

definition spl0 :: "'a kcpu_scheme \<Rightarrow> int \<times> 'a kcpu_scheme" where
  "spl0 k = splx 0 k"

text \<open>
  \<^verbatim>\<open>cpu_idle\<close> waits and then opens the interrupt gate once: \<open>irq\<close> is the effect of the handler
  that runs in between, with interrupts disabled by the processor.
\<close>

definition cpu_idle :: "('a kcpu_scheme \<Rightarrow> 'a kcpu_scheme run) \<Rightarrow> 'a kcpu_scheme \<Rightarrow> 'a kcpu_scheme run" where
  "cpu_idle irq k = do {
     kassert (curspl k > 0);
     k1 \<leftarrow> irq (interrupts_on k);
     Some (interrupts_off k1)
   }"

text \<open>
  Taking an interrupt: the part of \<^verbatim>\<open>mips_trap\<close> (\<^verbatim>\<open>trap.c\<close>) for \<^verbatim>\<open>EX_IRQ\<close> and \<^verbatim>\<open>mips_interrupt\<close>
  (\<^verbatim>\<open>interrupt.c\<close>), with \<open>handler\<close> for the device code below \<^verbatim>\<open>mips_lamebus_interrupt\<close>. The
  processor clears the enable bit on entry and the return from exception restores it.
\<close>

definition LAMEBUS_IRQ_BIT :: "32 word" where "LAMEBUS_IRQ_BIT = 0x400"

definition mips_interrupt :: "32 word \<Rightarrow> ('a kcpu_scheme \<Rightarrow> 'a kcpu_scheme run) \<Rightarrow>
    'a kcpu_scheme \<Rightarrow> 'a kcpu_scheme run" where
  "mips_interrupt cause handler k = do {
     let old_in = in_interrupt k;
     let k1 = k\<lparr>in_interrupt := 1\<rparr>;
     kassert (curspl k1 > 0);
     k2 \<leftarrow> (if and cause LAMEBUS_IRQ_BIT \<noteq> 0 then handler k1 else panic);
     Some (k2\<lparr>in_interrupt := old_in\<rparr>)
   }"

definition trap_irq :: "32 word \<Rightarrow> ('a kcpu_scheme \<Rightarrow> 'a kcpu_scheme run) \<Rightarrow>
    'a kcpu_scheme \<Rightarrow> 'a kcpu_scheme run" where
  "trap_irq cause handler k = do {
     let savespl = curspl k;
     k1 \<leftarrow> mips_interrupt cause handler (k\<lparr>curspl := SPL_HIGH, iec := False\<rparr>);
     let (_, k2) = splhigh k1;
     Some (k2\<lparr>curspl := savespl, iec := iec k\<rparr>)
   }"

text \<open>
  The accounting is sound when the interrupt-enable bit is what \<open>curspl\<close> says.
\<close>

definition spl_ok :: "'a kcpu_scheme \<Rightarrow> bool" where
  "spl_ok k \<longleftrightarrow> curspl k \<ge> 0 \<and> (iec k \<longleftrightarrow> curspl k = 0)"

lemma splx_eq:
  "splx s k = (curspl k, k\<lparr>iec := (if s > 0 then False else if s = 0 then True else iec k), curspl := s\<rparr>)"
  by (simp add: splx_def interrupts_on_def interrupts_off_def Let_def)

lemma splhigh_eq: "splhigh k = (curspl k, k\<lparr>iec := False, curspl := 15\<rparr>)"
  by (simp add: splhigh_def splx_eq SPL_HIGH_def)

lemma spl0_eq: "spl0 k = (curspl k, k\<lparr>iec := True, curspl := 0\<rparr>)"
  by (simp add: spl0_def splx_eq)

lemma splx_ok [inv_intros]: "0 \<le> s \<Longrightarrow> spl_ok (snd (splx s k))"
  by (auto simp: splx_eq spl_ok_def)

lemma splhigh_splx: "spl_ok k \<Longrightarrow> splhigh k = (old, k') \<Longrightarrow> snd (splx old k') = k"
  by (cases k) (auto simp: splhigh_eq splx_eq spl_ok_def)

lemma trap_irq_eq:
  assumes "and cause LAMEBUS_IRQ_BIT \<noteq> 0"
  shows "trap_irq cause handler k =
    map_option (\<lambda>k1. k1\<lparr>in_interrupt := in_interrupt k, curspl := curspl k, iec := iec k\<rparr>)
      (handler (k\<lparr>curspl := 15, iec := False, in_interrupt := 1\<rparr>))"
  using assms by (cases "handler (k\<lparr>curspl := 15, iec := False, in_interrupt := 1\<rparr>)")
    (simp_all add: trap_irq_def mips_interrupt_def SPL_HIGH_def splhigh_eq Let_def)

end
