(* ===== verification/Scheduler.thy ===== *)
theory Scheduler
  imports Spl Queue Filetable "HOL-Library.Multiset"
begin

section \<open>The priority scheduler (\<^verbatim>\<open>kern/thread/scheduler.c\<close>)\<close>

text \<open>
  The configuration that \<^verbatim>\<open>scheduler.h\<close> selects: one run queue per priority, a thread taken from
  the highest non-empty queue, its priority lowered by one when it is taken.

  Thread structures (\<^verbatim>\<open>kern/include/thread.h\<close>) live in \<open>threads\<close>, a map from addresses; a freed
  structure is not in the map and following a pointer to it is an undefined access. Of the
  process control block, \<open>pcb_ininterrupt\<close> is the code's field and \<open>pcb_resume\<close> stands for the
  saved registers: where \<^verbatim>\<open>mips_switch\<close> continues the thread (at the start of a new thread with
  the arguments of \<^verbatim>\<open>mi_threadstart\<close>, or after \<^verbatim>\<open>md_switch\<close> in a call of \<^verbatim>\<open>mi_switch\<close>, with the
  locals of the callers that are used afterwards: \<open>spl\<close> of \<^verbatim>\<open>thread_yield\<close>, and for a yield in the
  clock interrupt also \<open>old_in\<close> of \<^verbatim>\<open>mips_interrupt\<close> and \<open>savespl\<close> of \<^verbatim>\<open>mips_trap\<close>). Of the
  stack the model keeps the bytes at its bottom end, which hold the magic number.
\<close>

datatype resume =
    Threadstart nat nat nat
  | In_yield int
  | In_clock int int int
  | In_sleep
  | In_exit

record pcb =
  pcb_ininterrupt :: int
  pcb_resume :: resume

record thread =
  t_pcb :: pcb
  t_name :: string
  t_sleepaddr :: "nat ptr"
  t_stack :: "int list ptr"
  t_vmspace :: "nat ptr"
  t_cwd :: "nat ptr"
  t_ft :: "filetable ptr"
  priority :: int
  t_id :: "nat ptr"

record ksched = kcpu +
  threads :: "nat \<Rightarrow> thread option"
  runqueue :: "nat queue ptr list"

definition NUM_PRIORITIES :: nat where "NUM_PRIORITIES = 4"
definition PRIORITY_NORMAL :: int where "PRIORITY_NORMAL = 1"

text \<open>In the loops over the queues \<open>mem i\<close> says what \<^verbatim>\<open>kmalloc\<close> can give at the call for queue \<open>i\<close>.\<close>

fun create_queues :: "(nat \<Rightarrow> bool) \<Rightarrow> (nat \<Rightarrow> nat \<Rightarrow> bool) \<Rightarrow> nat list \<Rightarrow> nat queue ptr list run" where
  "create_queues got mem [] = Some []"
| "create_queues got mem (i # is) =
     (case q_create (got i) (mem i) 32 of
        None \<Rightarrow> panic
      | Some q \<Rightarrow> do { qs \<leftarrow> create_queues got mem is; Some (Some q # qs) })"

definition scheduler_bootstrap :: "(nat \<Rightarrow> bool) \<Rightarrow> (nat \<Rightarrow> nat \<Rightarrow> bool) \<Rightarrow>
    'a ksched_scheme \<Rightarrow> 'a ksched_scheme run" where
  "scheduler_bootstrap got mem k = do {
     kassert (NUM_PRIORITIES > 0);
     qs \<leftarrow> create_queues got mem [0..<NUM_PRIORITIES];
     Some (k\<lparr>runqueue := qs\<rparr>)
   }"

fun preallocate_queues :: "(nat \<Rightarrow> nat \<Rightarrow> bool) \<Rightarrow> int \<Rightarrow> nat list \<Rightarrow> nat queue ptr list \<Rightarrow>
    (unit res \<times> nat queue ptr list) run" where
  "preallocate_queues mem n [] qs = Some (Ok (), qs)"
| "preallocate_queues mem n (i # is) qs = do {
     p \<leftarrow> nth_run qs i;
     q \<leftarrow> p;
     (ret, q') \<leftarrow> q_preallocate (mem i) q n;
     let qs' = qs[i := Some q'];
     (case ret of
        Inl e \<Rightarrow> Some (Err e, qs')
      | Inr _ \<Rightarrow> preallocate_queues mem n is qs')
   }"

definition scheduler_preallocate :: "(nat \<Rightarrow> nat \<Rightarrow> bool) \<Rightarrow> int \<Rightarrow> 'a ksched_scheme \<Rightarrow>
    (unit res \<times> 'a ksched_scheme) run" where
  "scheduler_preallocate mem nthreads k = do {
     kassert (curspl k > 0);
     (ret, qs) \<leftarrow> preallocate_queues mem nthreads [0..<NUM_PRIORITIES] (runqueue k);
     Some (ret, k\<lparr>runqueue := qs\<rparr>)
   }"

text \<open>
  The loop that drops the threads of one queue; it follows \<^verbatim>\<open>t->t_name\<close> to print the name. The
  fuel is the number of cells of the ring, more than it can hold (\<open>drop_all_ok\<close>).
\<close>

fun drop_all :: "(nat \<Rightarrow> thread option) \<Rightarrow> nat \<Rightarrow> nat queue \<Rightarrow> nat queue run" where
  "drop_all ths fuel q =
     (if q_empty q then Some q
      else case fuel of 0 \<Rightarrow> panic
      | Suc f \<Rightarrow> do {
          (t, q') \<leftarrow> q_remhead q;
          _ \<leftarrow> ths t;
          drop_all ths f q'
        })"

declare drop_all.simps [simp del]

fun drop_queues :: "(nat \<Rightarrow> thread option) \<Rightarrow> nat list \<Rightarrow> nat queue ptr list \<Rightarrow> nat queue ptr list run" where
  "drop_queues ths [] qs = Some qs"
| "drop_queues ths (i # is) qs = do {
     p \<leftarrow> nth_run qs i;
     q \<leftarrow> p;
     q' \<leftarrow> drop_all ths (nat (qsize q)) q;
     drop_queues ths is (qs[i := Some q'])
   }"

definition scheduler_killall :: "'a ksched_scheme \<Rightarrow> 'a ksched_scheme run" where
  "scheduler_killall k = do {
     kassert (curspl k > 0);
     qs \<leftarrow> drop_queues (threads k) [0..<NUM_PRIORITIES] (runqueue k);
     Some (k\<lparr>runqueue := qs\<rparr>)
   }"

fun destroy_queues :: "nat list \<Rightarrow> nat queue ptr list \<Rightarrow> nat queue ptr list run" where
  "destroy_queues [] qs = Some qs"
| "destroy_queues (i # is) qs = do {
     p \<leftarrow> nth_run qs i;
     q \<leftarrow> p;
     _ \<leftarrow> q_destroy q;
     destroy_queues is (qs[i := NULL])
   }"

definition scheduler_shutdown :: "'a ksched_scheme \<Rightarrow> 'a ksched_scheme run" where
  "scheduler_shutdown k = do {
     k1 \<leftarrow> scheduler_killall k;
     kassert (curspl k1 > 0);
     qs \<leftarrow> destroy_queues [0..<NUM_PRIORITIES] (runqueue k1);
     Some (k1\<lparr>runqueue := qs\<rparr>)
   }"

text \<open>\<open>do_idle\<close>: whether every queue is empty (the \<^verbatim>\<open>for\<close> loop with \<^verbatim>\<open>&=\<close> looks at all of them).\<close>

fun do_idle :: "nat queue ptr list \<Rightarrow> nat list \<Rightarrow> bool run" where
  "do_idle qs [] = Some True"
| "do_idle qs (i # is) = do {
     p \<leftarrow> nth_run qs i;
     q \<leftarrow> p;
     rest \<leftarrow> do_idle qs is;
     Some (q_empty q \<and> rest)
   }"

text \<open>\<^verbatim>\<open>for (i = NUM_PRIORITIES - 1; i > 0; i--) if (!q_empty(runqueue[i])) break;\<close>\<close>

fun find_queue :: "nat queue ptr list \<Rightarrow> nat \<Rightarrow> nat run" where
  "find_queue qs 0 = Some 0"
| "find_queue qs (Suc i) = do {
     p \<leftarrow> nth_run qs (Suc i);
     q \<leftarrow> p;
     if \<not> q_empty q then Some (Suc i) else find_queue qs i
   }"

text \<open>
  \<^verbatim>\<open>scheduler\<close>. While every queue is empty the code stays in a loop around \<^verbatim>\<open>cpu_idle\<close>; the model
  returns NULL there, and the loop goes on by calling it again after the next interrupt.
\<close>

definition scheduler :: "'a ksched_scheme \<Rightarrow> (nat ptr \<times> 'a ksched_scheme) run" where
  "scheduler k = do {
     kassert (curspl k > 0);
     idle \<leftarrow> do_idle (runqueue k) [0..<NUM_PRIORITIES];
     (if idle then Some (NULL, k)
      else do {
        i \<leftarrow> find_queue (runqueue k) (NUM_PRIORITIES - 1);
        p \<leftarrow> nth_run (runqueue k) i;
        q \<leftarrow> p;
        (t, q') \<leftarrow> q_remhead q;
        th \<leftarrow> threads k t;
        let th' = (if priority th > 0 then th\<lparr>priority := priority th - 1\<rparr> else th);
        Some (Some t, k\<lparr>runqueue := (runqueue k)[i := Some q'], threads := (threads k)(t \<mapsto> th')\<rparr>)
      })
   }"

definition make_runnable :: "(nat \<Rightarrow> bool) \<Rightarrow> nat \<Rightarrow> 'a ksched_scheme \<Rightarrow> (unit res \<times> 'a ksched_scheme) run" where
  "make_runnable mem t k = do {
     kassert (curspl k > 0);
     th \<leftarrow> threads k t;
     kassert (priority th \<ge> 0);
     p \<leftarrow> nth_run (runqueue k) (nat (priority th));
     q \<leftarrow> p;
     (r, q') \<leftarrow> q_addtail mem q t;
     Some (r, k\<lparr>runqueue := (runqueue k)[nat (priority th) := Some q']\<rparr>)
   }"

text \<open>
  \<^verbatim>\<open>print_run_queue\<close> returns what it prints: per queue the position, name and sleep address of
  each thread. The index walks the ring; the fuel is its number of cells.
\<close>

fun print_queue :: "(nat \<Rightarrow> thread option) \<Rightarrow> nat \<Rightarrow> nat queue \<Rightarrow> int \<Rightarrow> nat \<Rightarrow>
    (nat \<times> string \<times> nat ptr) list run" where
  "print_queue ths fuel q j n =
     (if j = q_getend q then Some []
      else case fuel of 0 \<Rightarrow> panic
      | Suc f \<Rightarrow> do {
          cell \<leftarrow> q_getguy q j;
          t \<leftarrow> cell;
          th \<leftarrow> ths t;
          rest \<leftarrow> print_queue ths f q ((j + 1) mod q_getsize q) (n + 1);
          Some ((n, t_name th, t_sleepaddr th) # rest)
        })"

declare print_queue.simps [simp del]

fun print_queues :: "(nat \<Rightarrow> thread option) \<Rightarrow> nat queue ptr list \<Rightarrow> nat list \<Rightarrow>
    (nat \<times> (nat \<times> string \<times> nat ptr) list) list run" where
  "print_queues ths qs [] = Some []"
| "print_queues ths qs (i # is) = do {
     p \<leftarrow> nth_run qs i;
     q \<leftarrow> p;
     l \<leftarrow> print_queue ths (nat (qsize q)) q (q_getstart q) 0;
     rest \<leftarrow> print_queues ths qs is;
     Some ((i, l) # rest)
   }"

definition print_run_queue :: "'a ksched_scheme \<Rightarrow>
    ((nat \<times> (nat \<times> string \<times> nat ptr) list) list \<times> 'a ksched_scheme) run" where
  "print_run_queue k = do {
     let (spl, k1) = splhigh k;
     out \<leftarrow> print_queues (threads k1) (runqueue k1) [0..<NUM_PRIORITIES];
     Some (out, snd (splx spl k1))
   }"

subsection \<open>Invariant\<close>

text \<open>
  \<open>runq k i\<close> is run queue \<open>i\<close> as a list, \<open>ready k\<close> all the queues from the lowest up. In a sound
  state the queues are well formed, no thread is in a queue twice, and a thread waits in the queue
  of its priority.
\<close>

definition runq :: "'a ksched_scheme \<Rightarrow> nat \<Rightarrow> nat list" where
  "runq k i = q_list (the (runqueue k ! i))"

definition queues_ok :: "nat queue ptr list \<Rightarrow> bool" where
  "queues_ok qs \<longleftrightarrow> length qs = NUM_PRIORITIES \<and> (\<forall>p \<in> set qs. \<exists>q. p = Some q \<and> queue_ok q)"

definition ready :: "'a ksched_scheme \<Rightarrow> nat list" where
  "ready k = concat (map (runq k) [0..<NUM_PRIORITIES])"

definition sched_ok :: "'a ksched_scheme \<Rightarrow> bool" where
  "sched_ok k \<longleftrightarrow> queues_ok (runqueue k) \<and> distinct (ready k) \<and>
     (\<forall>i < NUM_PRIORITIES. \<forall>t \<in> set (runq k i). \<exists>th. threads k t = Some th \<and> priority th = int i)"

lemma queues_okE:
  assumes "queues_ok qs" and "i < NUM_PRIORITIES"
  obtains q where "qs ! i = Some q" "queue_ok q" "i < length qs"
proof -
  have "i < length qs" using assms by (simp add: queues_ok_def)
  moreover from this have "qs ! i \<in> set qs" by simp
  ultimately show ?thesis using assms(1) that unfolding queues_ok_def by blast
qed

lemma queues_ok_upd: "queues_ok qs \<Longrightarrow> queue_ok q \<Longrightarrow> queues_ok (qs[i := Some q])"
  by (auto simp: queues_ok_def dest!: set_update_subset_insert [THEN subsetD])

lemma set_ready: "t \<in> set (ready k) \<longleftrightarrow> (\<exists>i < NUM_PRIORITIES. t \<in> set (runq k i))"
  by (auto simp: ready_def)

lemma all_priorities: "set [0..<NUM_PRIORITIES] \<subseteq> {..<NUM_PRIORITIES}"
  by auto

lemma runq_cong: "runqueue k' = runqueue k \<Longrightarrow> runq k' = runq k \<and> ready k' = ready k"
  by (auto simp: runq_def ready_def fun_eq_iff cong: map_cong)

lemma runq_upd:
  assumes "queues_ok (runqueue k)" and "i < NUM_PRIORITIES"
  shows "runq (k\<lparr>runqueue := (runqueue k)[i := Some q]\<rparr>) j = (if j = i then q_list q else runq k j)"
  using assms by (simp add: runq_def queues_ok_def nth_list_update)

lemma ready_4: "ready k = runq k 0 @ runq k 1 @ runq k 2 @ runq k 3"
  by (simp add: ready_def NUM_PRIORITIES_def numeral_nat)

lemma less_4: "i < NUM_PRIORITIES \<longleftrightarrow> i = 0 \<or> i = 1 \<or> i = 2 \<or> i = 3"
  by (auto simp: NUM_PRIORITIES_def)

lemma mset_ready_add:
  assumes "\<And>j. runq k' j = (if j = i then runq k i @ [t] else runq k j)" and "i < NUM_PRIORITIES"
  shows "mset (ready k') = add_mset t (mset (ready k))"
  using assms(2) unfolding less_4 ready_4 assms(1) by auto

lemma mset_ready_remove:
  assumes "\<And>j. runq k' j = (if j = i then ts else runq k j)" and "runq k i = t # ts" and "i < NUM_PRIORITIES"
  shows "mset (ready k) = add_mset t (mset (ready k'))"
  using assms(2,3) unfolding less_4 ready_4 assms(1) by auto

lemma mset_distinct: "mset xs = mset ys \<Longrightarrow> distinct xs = distinct ys"
  by (rule mset_eq_imp_distinct_iff)

subsection \<open>The loops over the queues\<close>

lemma do_idle_ok:
  assumes "queues_ok qs" and "set is \<subseteq> {..<NUM_PRIORITIES}"
  shows "do_idle qs is = Some (\<forall>i \<in> set is. q_list (the (qs ! i)) = [])"
  using assms(2)
proof (induction "is")
  case (Cons i "is")
  then obtain q where "qs ! i = Some q" "queue_ok q" "i < length qs"
    using queues_okE [OF assms(1), of i] by auto
  with Cons show ?case by (simp add: q_empty_iff)
qed simp

lemma find_queue_ok:
  assumes "queues_ok qs" and "n < NUM_PRIORITIES"
  shows "\<exists>i \<le> n. find_queue qs n = Some i \<and> (i = 0 \<or> q_list (the (qs ! i)) \<noteq> [])
    \<and> (\<forall>j. i < j \<and> j \<le> n \<longrightarrow> q_list (the (qs ! j)) = [])"
  using assms(2)
proof (induction n)
  case (Suc n)
  then obtain q where q: "qs ! Suc n = Some q" "queue_ok q" "Suc n < length qs"
    using queues_okE [OF assms(1), of "Suc n"] by auto
  from Suc obtain i where "i \<le> n" "find_queue qs n = Some i" "i = 0 \<or> q_list (the (qs ! i)) \<noteq> []"
    "\<forall>j. i < j \<and> j \<le> n \<longrightarrow> q_list (the (qs ! j)) = []" by auto
  with q show ?case
    by (cases "q_list q = []") (auto simp: q_empty_iff le_Suc_eq intro!: exI [of _ i])
qed auto

lemma drop_all_ok:
  assumes "queue_ok q" and "\<forall>t \<in> set (q_list q). ths t \<noteq> None" and "length (q_list q) \<le> n"
  shows "\<exists>q'. drop_all ths n q = Some q' \<and> queue_ok q' \<and> q_list q' = [] \<and> qsize q' = qsize q"
  using assms
proof (induction n arbitrary: q)
  case 0
  then have "q_list q = []" by (simp del: length_q_list)
  with 0 show ?case by (simp add: drop_all.simps q_empty_iff)
next
  case (Suc n)
  show ?case
  proof (cases "q_list q")
    case Nil
    with Suc.prems show ?thesis by (simp add: drop_all.simps q_empty_iff)
  next
    case (Cons t ts)
    with Suc.prems q_remhead_ok [of q] obtain q' where
      q': "q_remhead q = Some (t, q')" "queue_ok q'" "q_list q' = ts" "qsize q' = qsize q" by auto
    moreover from Cons Suc.prems obtain th where "ths t = Some th" by auto
    moreover from Cons Suc.prems q' Suc.IH [of q'] obtain q'' where
      "drop_all ths n q' = Some q''" "queue_ok q''" "q_list q'' = []" "qsize q'' = qsize q'" by auto
    ultimately show ?thesis using Suc.prems(1) Cons by (simp add: drop_all.simps q_empty_iff)
  qed
qed

lemma preallocate_queues_ok:
  assumes "n \<le> 2 ^ 29" and "queues_ok qs" and "set is \<subseteq> {..<NUM_PRIORITIES}"
  shows "\<exists>ret qs'. preallocate_queues mem n is qs = Some (ret, qs') \<and> queues_ok qs'
    \<and> (\<forall>i < NUM_PRIORITIES. q_list (the (qs' ! i)) = q_list (the (qs ! i)) \<and>
          qsize (the (qs ! i)) \<le> qsize (the (qs' ! i)))
    \<and> (ret = Ok () \<and> (\<forall>i \<in> set is. n \<le> qsize (the (qs' ! i))) \<or> ret = Err ENOMEM)"
  using assms(2,3)
proof (induction "is" arbitrary: qs)
  case (Cons i "is")
  then have i: "i < NUM_PRIORITIES" "set is \<subseteq> {..<NUM_PRIORITIES}" by auto
  obtain q where q: "qs ! i = Some q" "queue_ok q" "i < length qs"
    using queues_okE [OF Cons.prems(1) i(1)] .
  from q_preallocate_cases [OF q(2) assms(1), of "mem i"] show ?case
  proof (elim disjE exE conjE)
    assume "q_preallocate (mem i) q n = Some (Err ENOMEM, q)"
    moreover have "qs[i := Some q] = qs" using q by (simp add: list_update_same_conv)
    ultimately show ?thesis using q Cons.prems by auto
  next
    fix q'
    assume q': "q_preallocate (mem i) q n = Some (Ok (), q')" "queue_ok q'" "q_list q' = q_list q"
      "n \<le> qsize q'" "qsize q \<le> qsize q'"
    let ?qs = "qs[i := Some q']"
    have "queues_ok ?qs" using Cons.prems(1) q'(2) by (rule queues_ok_upd)
    from Cons.IH [OF this i(2)] obtain ret qs' where
      "preallocate_queues mem n is ?qs = Some (ret, qs')" "queues_ok qs'"
      "\<forall>j < NUM_PRIORITIES. q_list (the (qs' ! j)) = q_list (the (?qs ! j)) \<and>
          qsize (the (?qs ! j)) \<le> qsize (the (qs' ! j))"
      "ret = Ok () \<and> (\<forall>i \<in> set is. n \<le> qsize (the (qs' ! i))) \<or> ret = Err ENOMEM" by blast
    moreover from this(3) q q' have "\<forall>j < NUM_PRIORITIES. q_list (the (qs' ! j)) = q_list (the (qs ! j)) \<and>
          qsize (the (qs ! j)) \<le> qsize (the (qs' ! j))" "n \<le> qsize (the (qs' ! i))"
      using i(1) by (fastforce simp: nth_list_update split: if_splits)+
    ultimately show ?thesis using q q' by auto
  qed
qed auto

subsection \<open>Choosing and adding a thread\<close>

definition demote :: "thread \<Rightarrow> thread" where
  "demote th = th\<lparr>priority := max 0 (priority th - 1)\<rparr>"

lemma demote_eq: "0 \<le> priority th \<Longrightarrow>
  (if priority th > 0 then th\<lparr>priority := priority th - 1\<rparr> else th) = demote th"
  by (cases th) (simp add: demote_def)

lemma demote_fields [simp]:
  "t_pcb (demote th) = t_pcb th" "t_name (demote th) = t_name th" "t_sleepaddr (demote th) = t_sleepaddr th"
  "t_stack (demote th) = t_stack th" "t_vmspace (demote th) = t_vmspace th" "t_cwd (demote th) = t_cwd th"
  "t_ft (demote th) = t_ft th" "t_id (demote th) = t_id th"
  by (simp_all add: demote_def)

lemma sched_okD:
  assumes "sched_ok k"
  shows "queues_ok (runqueue k)" "distinct (ready k)"
    "i < NUM_PRIORITIES \<Longrightarrow> t \<in> set (runq k i) \<Longrightarrow> \<exists>th. threads k t = Some th \<and> priority th = int i"
  using assms by (auto simp: sched_ok_def)

lemma idle_iff:
  assumes "sched_ok k"
  shows "do_idle (runqueue k) [0..<NUM_PRIORITIES] = Some (ready k = [])"
  using do_idle_ok [OF sched_okD(1) [OF assms], of "[0..<NUM_PRIORITIES]"]
  by (auto simp: ready_def runq_def atLeast0LessThan)

lemma scheduler_idle: "sched_ok k \<Longrightarrow> 0 < curspl k \<Longrightarrow> ready k = [] \<Longrightarrow> scheduler k = Some (NULL, k)"
  by (simp add: scheduler_def idle_iff)

lemma ready_top:
  assumes "sched_ok k" and "ready k \<noteq> []"
  obtains i where "find_queue (runqueue k) (NUM_PRIORITIES - 1) = Some i" "i < NUM_PRIORITIES"
    "runq k i \<noteq> []" "\<forall>j. i < j \<and> j < NUM_PRIORITIES \<longrightarrow> runq k j = []"
proof -
  obtain i where i: "i \<le> NUM_PRIORITIES - 1" "find_queue (runqueue k) (NUM_PRIORITIES - 1) = Some i"
    "i = 0 \<or> q_list (the (runqueue k ! i)) \<noteq> []"
    "\<forall>j. i < j \<and> j \<le> NUM_PRIORITIES - 1 \<longrightarrow> q_list (the (runqueue k ! j)) = []"
    using find_queue_ok [OF sched_okD(1) [OF assms(1)], of "NUM_PRIORITIES - 1"]
    by (auto simp: NUM_PRIORITIES_def)
  have lt: "i < NUM_PRIORITIES" using i(1) by (simp add: NUM_PRIORITIES_def)
  have above: "runq k j = []" if "i < j" "j < NUM_PRIORITIES" for j
    using i(4) that by (simp add: runq_def)
  have "runq k i \<noteq> []"
  proof
    assume e: "runq k i = []"
    with i(3) have "i = 0" by (auto simp: runq_def)
    with e above have "\<forall>j < NUM_PRIORITIES. runq k j = []" by (metis gr0I)
    with assms(2) show False by (auto simp: ready_def)
  qed
  with i(2) lt above show ?thesis by (intro that) auto
qed

lemma scheduler_pick:
  assumes ok: "sched_ok k" and spl: "0 < curspl k" and ne: "ready k \<noteq> []"
  shows "\<exists>i t ts th q'. i < NUM_PRIORITIES \<and> runq k i = t # ts
    \<and> (\<forall>j. i < j \<and> j < NUM_PRIORITIES \<longrightarrow> runq k j = []) \<and> threads k t = Some th \<and> priority th = int i
    \<and> queue_ok q' \<and> q_list q' = ts \<and> qsize q' = qsize (the (runqueue k ! i))
    \<and> scheduler k = Some (Some t, k\<lparr>runqueue := (runqueue k)[i := Some q'],
        threads := (threads k)(t \<mapsto> demote th)\<rparr>)"
proof -
  obtain i where i: "find_queue (runqueue k) (NUM_PRIORITIES - 1) = Some i" "i < NUM_PRIORITIES"
    "runq k i \<noteq> []" "\<forall>j. i < j \<and> j < NUM_PRIORITIES \<longrightarrow> runq k j = []"
    using ready_top [OF ok ne] .
  obtain q where q: "runqueue k ! i = Some q" "queue_ok q" "i < length (runqueue k)"
    using queues_okE [OF sched_okD(1) [OF ok] i(2)] .
  obtain t ts where ts: "runq k i = t # ts" using i(3) by (cases "runq k i") auto
  with q have "q_list q = t # ts" by (simp add: runq_def)
  with q_remhead_ok [OF q(2)] obtain q' where
    q': "q_remhead q = Some (t, q')" "queue_ok q'" "q_list q' = ts" "qsize q' = qsize q" by auto
  from sched_okD(3) [OF ok i(2), of t] ts obtain th where
    th: "threads k t = Some th" "priority th = int i" by auto
  with q q' i(1) spl ne ok have "scheduler k = Some (Some t, k\<lparr>runqueue := (runqueue k)[i := Some q'],
        threads := (threads k)(t \<mapsto> demote th)\<rparr>)"
    by (simp add: scheduler_def idle_iff demote_eq [symmetric])
  with i ts th q q' show ?thesis
    by (intro exI [of _ i] exI [of _ t] exI [of _ ts] exI [of _ th] exI [of _ q'] conjI) simp_all
qed

lemma sched_ok_remove:
  assumes ok: "sched_ok k" and i: "i < NUM_PRIORITIES" "runq k i = t # ts" and q: "queue_ok q'" "q_list q' = ts"
    and k': "k' = k\<lparr>runqueue := (runqueue k)[i := Some q'], threads := (threads k)(t \<mapsto> th)\<rparr>"
  shows "sched_ok k'" and "mset (ready k) = add_mset t (mset (ready k'))"
    and "runq k' j = (if j = i then ts else runq k j)"
proof -
  note okd = sched_okD [OF ok]
  have r: "runq k' j = (if j = i then ts else runq k j)" for j
    using runq_upd [OF okd(1) i(1), of q' j] q(2) by (simp add: k' runq_def)
  then show "runq k' j = (if j = i then ts else runq k j)" .
  show m: "mset (ready k) = add_mset t (mset (ready k'))"
    by (rule mset_ready_remove [OF r i(2,1)])
  have "mset (ready k) = mset (t # ready k')" using m by simp
  then have "distinct (t # ready k')" using mset_eq_imp_distinct_iff okd(2) by blast
  then have d: "distinct (ready k')" "t \<notin> set (ready k')" by auto
  have "\<exists>th'. threads k' u = Some th' \<and> priority th' = int j" if "j < NUM_PRIORITIES" "u \<in> set (runq k' j)" for j u
  proof -
    have "u \<noteq> t" using that d(2) by (auto simp: set_ready)
    moreover have "u \<in> set (runq k j)" using that r i(2) by (auto split: if_splits)
    ultimately show ?thesis using okd(3) [OF that(1), of u] by (simp add: k')
  qed
  with d(1) queues_ok_upd [OF okd(1) q(1)] show "sched_ok k'" by (simp add: sched_ok_def k')
qed

lemma sched_ok_add:
  assumes ok: "sched_ok k" and t: "threads k t = Some th" "priority th = int i" "i < NUM_PRIORITIES"
    "t \<notin> set (ready k)" and q: "queue_ok q'" "q_list q' = runq k i @ [t]"
    and k': "k' = k\<lparr>runqueue := (runqueue k)[i := Some q']\<rparr>"
  shows "sched_ok k'" and "mset (ready k') = add_mset t (mset (ready k))"
    and "runq k' j = (if j = i then runq k i @ [t] else runq k j)"
proof -
  note okd = sched_okD [OF ok]
  have r: "runq k' j = (if j = i then runq k i @ [t] else runq k j)" for j
    using runq_upd [OF okd(1) t(3), of q' j] q(2) by (simp add: k')
  then show "runq k' j = (if j = i then runq k i @ [t] else runq k j)" .
  show m: "mset (ready k') = add_mset t (mset (ready k))"
    by (rule mset_ready_add [OF r t(3)])
  have "mset (ready k') = mset (t # ready k)" using m by simp
  from mset_eq_imp_distinct_iff [OF this] okd(2) t(4) have "distinct (ready k')" by simp
  moreover have "\<exists>th'. threads k' u = Some th' \<and> priority th' = int j"
    if "j < NUM_PRIORITIES" "u \<in> set (runq k' j)" for j u
    using that okd(3) [OF that(1), of u] r t by (auto simp: k' split: if_splits)
  ultimately show "sched_ok k'" using queues_ok_upd [OF okd(1) q(1)] by (simp add: sched_ok_def k')
qed

lemma make_runnable_cases:
  assumes ok: "sched_ok k" and spl: "0 < curspl k"
    and t: "threads k t = Some th" "priority th = int i" "i < NUM_PRIORITIES"
    and small: "length (runq k i) < 2 ^ 28"
  shows "q_full (the (runqueue k ! i)) \<and> (\<exists>n. \<not> mem n) \<and> make_runnable mem t k = Some (Err ENOMEM, k)
    \<or> (\<exists>q'. make_runnable mem t k = Some (Ok (), k\<lparr>runqueue := (runqueue k)[i := Some q']\<rparr>)
         \<and> queue_ok q' \<and> q_list q' = runq k i @ [t] \<and> qsize (the (runqueue k ! i)) \<le> qsize q')"
proof -
  obtain q where q: "runqueue k ! i = Some q" "queue_ok q" "i < length (runqueue k)"
    using queues_okE [OF sched_okD(1) [OF ok] t(3)] .
  have "qcount q < 2 ^ 28" using small q by (simp add: runq_def)
  from q_addtail_small [OF q(2) this, of mem t] show ?thesis
  proof (elim disjE exE conjE)
    fix n
    assume "q_full q" "\<not> mem n" "q_addtail mem q t = Some (Err ENOMEM, q)"
    then show ?thesis using q t spl by (auto simp: make_runnable_def list_update_same_conv)
  next
    fix q'
    assume "q_addtail mem q t = Some (Ok (), q')" "queue_ok q'" "q_list q' = q_list q @ [t]" "qsize q \<le> qsize q'"
    then show ?thesis using q t spl by (auto simp: make_runnable_def runq_def)
  qed
qed

lemma sched_ok_queues:
  assumes "sched_ok k" and "queues_ok (runqueue k')" and "threads k' = threads k"
    and "\<And>i. i < NUM_PRIORITIES \<Longrightarrow> runq k' i = runq k i"
  shows "sched_ok k'" and "ready k' = ready k"
proof -
  show r: "ready k' = ready k" using assms(4) by (auto simp: ready_def intro!: arg_cong [where f = concat])
  show "sched_ok k'" using assms r by (simp add: sched_ok_def)
qed

lemma scheduler_preallocate_cases:
  assumes ok: "sched_ok k" and spl: "0 < curspl k" and n: "n \<le> 2 ^ 29"
  shows "\<exists>ret qs. scheduler_preallocate mem n k = Some (ret, k\<lparr>runqueue := qs\<rparr>)
    \<and> sched_ok (k\<lparr>runqueue := qs\<rparr>) \<and> (\<forall>i < NUM_PRIORITIES. runq (k\<lparr>runqueue := qs\<rparr>) i = runq k i)
    \<and> ready (k\<lparr>runqueue := qs\<rparr>) = ready k
    \<and> (\<forall>i < NUM_PRIORITIES. qsize (the (runqueue k ! i)) \<le> qsize (the (qs ! i)))
    \<and> (ret = Ok () \<and> (\<forall>i < NUM_PRIORITIES. n \<le> qsize (the (qs ! i))) \<or> ret = Err ENOMEM)"
proof -
  obtain ret qs where p: "preallocate_queues mem n [0..<NUM_PRIORITIES] (runqueue k) = Some (ret, qs)"
    "queues_ok qs"
    "\<forall>i < NUM_PRIORITIES. q_list (the (qs ! i)) = q_list (the (runqueue k ! i)) \<and>
        qsize (the (runqueue k ! i)) \<le> qsize (the (qs ! i))"
    "ret = Ok () \<and> (\<forall>i \<in> set [0..<NUM_PRIORITIES]. n \<le> qsize (the (qs ! i))) \<or> ret = Err ENOMEM"
    using preallocate_queues_ok [OF n sched_okD(1) [OF ok] all_priorities, of mem] by blast
  let ?k = "k\<lparr>runqueue := qs\<rparr>"
  have r: "runq ?k i = runq k i" if "i < NUM_PRIORITIES" for i using p(3) that by (simp add: runq_def)
  have "scheduler_preallocate mem n k = Some (ret, ?k)"
    using p(1) spl by (simp add: scheduler_preallocate_def)
  moreover have "sched_ok ?k" "ready ?k = ready k"
    using sched_ok_queues [OF ok, of ?k] p(2) r by auto
  ultimately show ?thesis using r p(3,4) by (intro exI [of _ ret] exI [of _ qs] conjI) auto
qed

lemma drop_queues_ok:
  assumes "queues_ok qs" and "set is \<subseteq> {..<NUM_PRIORITIES}"
    and "\<forall>i < NUM_PRIORITIES. \<forall>t \<in> set (q_list (the (qs ! i))). ths t \<noteq> None"
  shows "\<exists>qs'. drop_queues ths is qs = Some qs' \<and> queues_ok qs'
    \<and> (\<forall>i < NUM_PRIORITIES. q_list (the (qs' ! i)) = (if i \<in> set is then [] else q_list (the (qs ! i))))"
  using assms
proof (induction "is" arbitrary: qs)
  case (Cons i "is")
  then have i: "i < NUM_PRIORITIES" "set is \<subseteq> {..<NUM_PRIORITIES}" by auto
  obtain q where q: "qs ! i = Some q" "queue_ok q" "i < length qs"
    using queues_okE [OF Cons.prems(1) i(1)] .
  have len: "length (q_list q) \<le> nat (qsize q)" using rq.contents_space [OF q(2)] by linarith
  have "\<forall>t \<in> set (q_list q). ths t \<noteq> None" using Cons.prems(3) i(1) q(1) by force
  from drop_all_ok [OF q(2) this len] obtain q' where
    q': "drop_all ths (nat (qsize q)) q = Some q'" "queue_ok q'" "q_list q' = []" by blast
  let ?qs = "qs[i := Some q']"
  have nth: "q_list (the (?qs ! j)) = (if j = i then [] else q_list (the (qs ! j)))" for j
    using q(3) q'(3) by (simp add: nth_list_update)
  have "queues_ok ?qs" using Cons.prems(1) q'(2) by (rule queues_ok_upd)
  moreover have "\<forall>j < NUM_PRIORITIES. \<forall>t \<in> set (q_list (the (?qs ! j))). ths t \<noteq> None"
    using Cons.prems(3) by (simp add: nth)
  ultimately obtain qs' where "drop_queues ths is ?qs = Some qs'" "queues_ok qs'"
    "\<forall>j < NUM_PRIORITIES. q_list (the (qs' ! j)) = (if j \<in> set is then [] else q_list (the (?qs ! j)))"
    using Cons.IH [OF _ i(2), of ?qs] by blast
  with q q' show ?case by (simp add: nth)
qed auto

lemma scheduler_killall_ok:
  assumes ok: "sched_ok k" and spl: "0 < curspl k"
  shows "\<exists>qs. scheduler_killall k = Some (k\<lparr>runqueue := qs\<rparr>) \<and> queues_ok qs
    \<and> (\<forall>i < NUM_PRIORITIES. q_list (the (qs ! i)) = [])"
proof -
  have "\<forall>i < NUM_PRIORITIES. \<forall>t \<in> set (q_list (the (runqueue k ! i))). threads k t \<noteq> None"
    using sched_okD(3) [OF ok] by (fastforce simp: runq_def)
  from drop_queues_ok [OF sched_okD(1) [OF ok] all_priorities this] spl show ?thesis
    by (auto simp: scheduler_killall_def)
qed

lemma destroy_queues_ok:
  assumes "\<forall>i \<in> set is. i < length qs \<and> (\<exists>q. qs ! i = Some q \<and> queue_ok q \<and> q_list q = [])" and "distinct is"
  shows "\<exists>qs'. destroy_queues is qs = Some qs' \<and> length qs' = length qs
    \<and> (\<forall>i < length qs. qs' ! i = (if i \<in> set is then NULL else qs ! i))"
  using assms
proof (induction "is" arbitrary: qs)
  case (Cons i "is")
  then obtain q where q: "qs ! i = Some q" "queue_ok q" "q_list q = []" "i < length qs" by auto
  have "\<forall>j \<in> set is. j < length (qs[i := NULL]) \<and>
      (\<exists>q. qs[i := NULL] ! j = Some q \<and> queue_ok q \<and> q_list q = [])"
    using Cons.prems by (auto simp: nth_list_update)
  with Cons.IH [of "qs[i := NULL]"] Cons.prems(2) obtain qs' where
    "destroy_queues is (qs[i := NULL]) = Some qs'" "length qs' = length qs"
    "\<forall>j < length qs. qs' ! j = (if j \<in> set is then NULL else qs[i := NULL] ! j)" by auto
  with q Cons.prems(2) show ?case by (auto simp: q_destroy_def q_empty_iff nth_list_update)
qed simp

lemma scheduler_shutdown_ok:
  assumes ok: "sched_ok k" and spl: "0 < curspl k"
  shows "scheduler_shutdown k = Some (k\<lparr>runqueue := replicate NUM_PRIORITIES NULL\<rparr>)"
proof -
  obtain qs where qs: "scheduler_killall k = Some (k\<lparr>runqueue := qs\<rparr>)" "queues_ok qs"
    "\<forall>i < NUM_PRIORITIES. q_list (the (qs ! i)) = []" using scheduler_killall_ok [OF ok spl] by blast
  have len: "length qs = NUM_PRIORITIES" using qs(2) by (simp add: queues_ok_def)
  have "\<forall>i \<in> set [0..<NUM_PRIORITIES]. i < length qs \<and> (\<exists>q. qs ! i = Some q \<and> queue_ok q \<and> q_list q = [])"
  proof
    fix i assume "i \<in> set [0..<NUM_PRIORITIES]"
    then have i: "i < NUM_PRIORITIES" by simp
    obtain q where "qs ! i = Some q" "queue_ok q" using queues_okE [OF qs(2) i] .
    with qs(3) i len show "i < length qs \<and> (\<exists>q. qs ! i = Some q \<and> queue_ok q \<and> q_list q = [])" by force
  qed
  from destroy_queues_ok [OF this] obtain qs' where "destroy_queues [0..<NUM_PRIORITIES] qs = Some qs'"
    "length qs' = NUM_PRIORITIES" "\<forall>i < NUM_PRIORITIES. qs' ! i = NULL" by (auto simp: len)
  moreover from this have "qs' = replicate NUM_PRIORITIES NULL" by (simp add: list_eq_iff_nth_eq)
  ultimately show ?thesis using qs(1) spl by (simp add: scheduler_shutdown_def)
qed

lemma qpos_step:
  assumes "queue_ok q"
  shows "(int (qpos q k) + 1) mod qsize q = int (qpos q (Suc k))"
proof -
  have "0 < qsize q" using queue_okD [OF assms] by simp
  then have "int (qpos q j) = (nextread q + int j) mod qsize q" for j by (simp add: qpos_def)
  then show ?thesis by (simp add: mod_simps algebra_simps)
qed

lemma print_queue_ok:
  assumes ok: "queue_ok q" and live: "\<forall>t \<in> set (q_list q). ths t \<noteq> None"
    and "k \<le> qcount q" and "qcount q - k \<le> n"
  shows "print_queue ths n q (int (qpos q k)) k =
    Some (map (\<lambda>j. let th = the (ths (q_list q ! j)) in (j, t_name th, t_sleepaddr th)) [k..<qcount q])"
  using assms(3,4)
proof (induction n arbitrary: k)
  case 0
  then have "k = qcount q" by simp
  with qpos_unwritten(1) [OF ok] queue_okD [OF ok] show ?case
    by (simp add: print_queue.simps q_getend_def)
next
  case (Suc n)
  show ?case
  proof (cases "k = qcount q")
    case True
    with qpos_unwritten(1) [OF ok] queue_okD [OF ok] show ?thesis
      by (simp add: print_queue.simps q_getend_def)
  next
    case False
    with Suc.prems have k: "k < qcount q" by simp
    have ne: "int (qpos q k) \<noteq> nextwrite q"
      using qpos_unwritten(2) [OF ok k] queue_okD [OF ok] by auto
    have pos: "int (qpos q k) < qsize q" using queue_okD [OF ok] by (simp add: qpos_def)
    have cell: "qdata q ! qpos q k = Some (q_list q ! k)"
      using ok k by (auto simp: queue_ok_def q_list_def)
    have "q_list q ! k \<in> set (q_list q)" using k by simp
    with live obtain th where th: "ths (q_list q ! k) = Some th" by blast
    have "q_getguy q (int (qpos q k)) = Some (Some (q_list q ! k))"
      using pos cell queue_okD(3) [OF ok] by (simp add: q_getguy_def)
    moreover have "print_queue ths n q ((int (qpos q k) + 1) mod q_getsize q) (k + 1) =
      Some (map (\<lambda>j. let th = the (ths (q_list q ! j)) in (j, t_name th, t_sleepaddr th)) [Suc k..<qcount q])"
      using Suc.IH [of "Suc k"] Suc.prems k by (simp add: qpos_step [OF ok] q_getsize_def)
    ultimately show ?thesis
      using ne th k by (simp add: print_queue.simps [of ths "Suc n"] q_getend_def upt_conv_Cons)
  qed
qed

text \<open>What \<^verbatim>\<open>print_run_queue\<close> prints for one queue.\<close>

definition listing :: "(nat \<Rightarrow> thread option) \<Rightarrow> nat list \<Rightarrow> (nat \<times> string \<times> nat ptr) list" where
  "listing ths ts = map (\<lambda>j. let th = the (ths (ts ! j)) in (j, t_name th, t_sleepaddr th)) [0..<length ts]"

lemma print_queues_ok:
  assumes "queues_ok qs" and "set is \<subseteq> {..<NUM_PRIORITIES}"
    and "\<forall>i < NUM_PRIORITIES. \<forall>t \<in> set (q_list (the (qs ! i))). ths t \<noteq> None"
  shows "print_queues ths qs is = Some (map (\<lambda>i. (i, listing ths (q_list (the (qs ! i))))) is)"
  using assms(2)
proof (induction "is")
  case (Cons i "is")
  then have i: "i < NUM_PRIORITIES" "set is \<subseteq> {..<NUM_PRIORITIES}" by auto
  obtain q where q: "qs ! i = Some q" "queue_ok q" "i < length qs"
    using queues_okE [OF assms(1) i(1)] .
  have "qcount q - 0 \<le> nat (qsize q)" using rq.contents_space [OF q(2)] by simp
  moreover have "\<forall>t \<in> set (q_list q). ths t \<noteq> None" using assms(3) i(1) q(1) by force
  moreover have "q_getstart q = int (qpos q 0)"
    using queue_okD [OF q(2)] by (simp add: q_getstart_def qpos_def)
  ultimately have "print_queue ths (nat (qsize q)) q (q_getstart q) 0 = Some (listing ths (q_list q))"
    using print_queue_ok [OF q(2), of ths 0] by (simp add: listing_def)
  with q Cons.IH [OF i(2)] show ?case by simp
qed simp

subsection \<open>Waiting time\<close>

text \<open>
  \<open>rounds n k\<close>: \<open>n\<close> times the scheduler takes a thread and that thread, having used its turn, is
  made runnable again. \<open>roomy k\<close>: every queue has room for all ready threads, so that no memory
  is needed. \<open>wait_time k t p\<close> counts the turns that come before the one of \<open>t\<close>, which is in queue
  \<open>p\<close>: one for each thread ahead of it there, and \<open>j - p\<close> for each thread of a higher queue \<open>j\<close>,
  which sinks one queue per turn until it stands behind \<open>t\<close>.
\<close>

fun rounds :: "(nat \<Rightarrow> bool) \<Rightarrow> nat \<Rightarrow> 'a ksched_scheme \<Rightarrow> (nat list \<times> 'a ksched_scheme) run" where
  "rounds mem 0 k = Some ([], k)"
| "rounds mem (Suc n) k = do {
     (p, k1) \<leftarrow> scheduler k;
     t \<leftarrow> p;
     (r, k2) \<leftarrow> make_runnable mem t k1;
     kassert (r = Ok ());
     (ts, k3) \<leftarrow> rounds mem n k2;
     Some (t # ts, k3)
   }"

definition roomy :: "'a ksched_scheme \<Rightarrow> bool" where
  "roomy k \<longleftrightarrow> length (ready k) < 2 ^ 28 \<and>
     (\<forall>i < NUM_PRIORITIES. int (length (ready k)) < qsize (the (runqueue k ! i)))"

definition ahead :: "'a \<Rightarrow> 'a list \<Rightarrow> nat" where
  "ahead t xs = length (takeWhile (\<lambda>u. u \<noteq> t) xs)"

definition wait_time :: "'a ksched_scheme \<Rightarrow> nat \<Rightarrow> nat \<Rightarrow> nat" where
  "wait_time k t p = ahead t (runq k p) + (\<Sum>j < NUM_PRIORITIES. (j - p) * length (runq k j))"

lemma ahead_simps [simp]:
  "ahead t (t # xs) = 0" "u \<noteq> t \<Longrightarrow> ahead t (u # xs) = Suc (ahead t xs)"
  "t \<in> set xs \<Longrightarrow> ahead t (xs @ ys) = ahead t xs"
  by (simp_all add: ahead_def)

lemma wait_time_4: "wait_time k t p = ahead t (runq k p) +
    ((1 - p) * length (runq k 1) + (2 - p) * length (runq k 2) + (3 - p) * length (runq k 3))"
  by (simp add: wait_time_def NUM_PRIORITIES_def numeral_nat)

lemma length_runq_le: "i < NUM_PRIORITIES \<Longrightarrow> length (runq k i) \<le> length (ready k)"
  unfolding less_4 ready_4 by auto

lemma round_ok:
  assumes ok: "sched_ok k" and spl: "0 < curspl k" and room: "roomy k" and ne: "ready k \<noteq> []"
  shows "\<exists>u k1 k2 i ts. scheduler k = Some (Some u, k1) \<and> make_runnable mem u k1 = Some (Ok (), k2)
    \<and> sched_ok k2 \<and> curspl k2 = curspl k \<and> roomy k2 \<and> mset (ready k2) = mset (ready k)
    \<and> i < NUM_PRIORITIES \<and> runq k i = u # ts \<and> (\<forall>j. i < j \<and> j < NUM_PRIORITIES \<longrightarrow> runq k j = [])
    \<and> (\<forall>j. runq k2 j = (if j = i - 1 then (if i = 0 then ts else runq k j) @ [u] else if j = i then ts else runq k j))"
proof -
  from scheduler_pick [OF ok spl ne] obtain i u ts th q' where
    i: "i < NUM_PRIORITIES" "runq k i = u # ts" "\<forall>j. i < j \<and> j < NUM_PRIORITIES \<longrightarrow> runq k j = []"
    and th: "threads k u = Some th" "priority th = int i"
    and q': "queue_ok q'" "q_list q' = ts" "qsize q' = qsize (the (runqueue k ! i))"
    and s: "scheduler k = Some (Some u, k\<lparr>runqueue := (runqueue k)[i := Some q'],
      threads := (threads k)(u \<mapsto> demote th)\<rparr>)" by blast
  define k1 where "k1 = k\<lparr>runqueue := (runqueue k)[i := Some q'], threads := (threads k)(u \<mapsto> demote th)\<rparr>"
  note rm = sched_ok_remove [OF ok i(1,2) q'(1,2) k1_def]
  have len: "length (ready k) = Suc (length (ready k1))" using rm(2) by (metis size_add_mset size_mset)
  have size1: "qsize (the (runqueue k1 ! j)) = qsize (the (runqueue k ! j))" for j
    using q'(3) i(1) sched_okD(1) [OF ok] by (simp add: k1_def nth_list_update queues_ok_def)
  have "distinct (u # ready k1)"
    using mset_eq_imp_distinct_iff [of "ready k" "u # ready k1"] rm(2) sched_okD(2) [OF ok] by simp
  then have u: "u \<notin> set (ready k1)" by simp
  have lt: "i - 1 < NUM_PRIORITIES" using i(1) by simp
  have th1: "threads k1 u = Some (demote th)" "priority (demote th) = int (i - 1)"
    using th by (auto simp: k1_def demote_def)
  have small: "length (runq k1 (i - 1)) < 2 ^ 28"
    using length_runq_le [OF lt, of k1] len room by (simp add: roomy_def)
  have nfull: "\<not> q_full (the (runqueue k1 ! (i - 1)))"
    using length_runq_le [OF lt, of k1] len room lt size1 [of "i - 1"]
    by (auto simp: roomy_def q_full_def runq_def)
  have spl1: "0 < curspl k1" using spl by (simp add: k1_def)
  from make_runnable_cases [OF rm(1) spl1 th1 lt small, of mem] nfull obtain q where
    m: "make_runnable mem u k1 = Some (Ok (), k1\<lparr>runqueue := (runqueue k1)[i - 1 := Some q]\<rparr>)"
    "queue_ok q" "q_list q = runq k1 (i - 1) @ [u]" "qsize (the (runqueue k1 ! (i - 1))) \<le> qsize q" by blast
  define k2 where "k2 = k1\<lparr>runqueue := (runqueue k1)[i - 1 := Some q]\<rparr>"
  note add = sched_ok_add [OF rm(1) th1 lt u m(2,3) k2_def]
  have ms: "mset (ready k2) = mset (ready k)" using add(2) rm(2) by simp
  have "qsize (the (runqueue k ! j)) \<le> qsize (the (runqueue k2 ! j))" if "j < NUM_PRIORITIES" for j
    using m(4) size1 [of j] that sched_okD(1) [OF rm(1)]
    by (cases "j = i - 1") (simp_all add: k2_def queues_ok_def)
  then have "roomy k2" using room mset_eq_length [OF ms] by (fastforce simp: roomy_def)
  moreover have "runq k2 j = (if j = i - 1 then (if i = 0 then ts else runq k j) @ [u] else if j = i then ts else runq k j)" for j
    using add(3) [of j] rm(3) [of j] rm(3) [of "i - 1"] by (cases i) auto
  moreover have "curspl k2 = curspl k" by (simp add: k2_def k1_def)
  ultimately show ?thesis
    using s m(1) add(1) ms i unfolding k1_def [symmetric] k2_def [symmetric] by blast
qed

lemma wait_time_step:
  assumes i: "i < NUM_PRIORITIES" "runq k i = u # ts" "\<forall>j. i < j \<and> j < NUM_PRIORITIES \<longrightarrow> runq k j = []"
    and k2: "\<forall>j. runq k2 j = (if j = i - 1 then (if i = 0 then ts else runq k j) @ [u] else if j = i then ts else runq k j)"
    and t: "t \<in> set (runq k p)" "t \<noteq> u" "p < NUM_PRIORITIES"
  shows "t \<in> set (runq k2 p) \<and> wait_time k t p = Suc (wait_time k2 t p)"
proof -
  have "p \<le> i" using t i(3) by (metis empty_iff empty_set not_le)
  then show ?thesis
    using i(1,2) t k2 i(3) unfolding less_4 wait_time_4
    by (elim disjE) (auto simp: numeral_nat less_Suc_eq NUM_PRIORITIES_def)
qed

lemma wait_time_0:
  assumes "wait_time k t p = 0" and "p < NUM_PRIORITIES" "t \<in> set (runq k p)"
    and i: "i < NUM_PRIORITIES" "runq k i = u # ts" "\<forall>j. i < j \<and> j < NUM_PRIORITIES \<longrightarrow> runq k j = []"
  shows "u = t"
proof -
  have "p \<le> i" using assms(3,2) i(3) by (metis empty_iff empty_set not_le)
  moreover have "(i - p) * length (runq k i) = 0"
    using assms(1) i(1) by (auto simp: wait_time_def)
  ultimately have "p = i" using i(2) by simp
  with assms(1) i(2) show ?thesis by (cases "u = t") (auto simp: wait_time_def)
qed

lemma wait_time_head:
  "runq k p = t # ts \<Longrightarrow> \<forall>j. p < j \<and> j < NUM_PRIORITIES \<longrightarrow> runq k j = [] \<Longrightarrow> wait_time k t p = 0"
  by (auto simp: wait_time_def not_le)

lemma rounds_wait:
  assumes "sched_ok k" and "0 < curspl k" and "roomy k" and "p < NUM_PRIORITIES" and "t \<in> set (runq k p)"
    and "wait_time k t p = n"
  shows "\<exists>us k'. rounds mem (Suc n) k = Some (us @ [t], k') \<and> t \<notin> set us"
  using assms
proof (induction n arbitrary: k)
  case 0
  then have ne: "ready k \<noteq> []" using set_ready [of t k] by auto
  from round_ok [OF 0(1-3) ne, of mem] obtain u k1 k2 i ts where
    r: "scheduler k = Some (Some u, k1)" "make_runnable mem u k1 = Some (Ok (), k2)"
    and i: "i < NUM_PRIORITIES" "runq k i = u # ts" "\<forall>j. i < j \<and> j < NUM_PRIORITIES \<longrightarrow> runq k j = []" by blast
  with wait_time_0 [OF 0(6,4,5) i] show ?case by simp
next
  case (Suc n)
  then have ne: "ready k \<noteq> []" using set_ready [of t k] by auto
  from round_ok [OF Suc.prems(1-3) ne, of mem] obtain u k1 k2 i ts where
    r: "scheduler k = Some (Some u, k1)" "make_runnable mem u k1 = Some (Ok (), k2)"
    "sched_ok k2" "curspl k2 = curspl k" "roomy k2"
    and i: "i < NUM_PRIORITIES" "runq k i = u # ts" "\<forall>j. i < j \<and> j < NUM_PRIORITIES \<longrightarrow> runq k j = []"
    and k2: "\<forall>j. runq k2 j = (if j = i - 1 then (if i = 0 then ts else runq k j) @ [u] else if j = i then ts else runq k j)"
    by blast
  have "u \<noteq> t"
  proof
    assume "u = t"
    then have "i \<noteq> p \<Longrightarrow> False"
      using sched_okD(3) [OF Suc.prems(1) i(1), of u] sched_okD(3) [OF Suc.prems(1,4), of u] i(2) Suc.prems(5) by auto
    then have "runq k p = t # ts" using i(2) \<open>u = t\<close> by blast
    with wait_time_head [OF this] i(3) \<open>i \<noteq> p \<Longrightarrow> False\<close> Suc.prems(6) show False by auto
  qed
  with wait_time_step [OF i k2 Suc.prems(5) _ Suc.prems(4)] Suc.prems(6)
  have "t \<in> set (runq k2 p)" "wait_time k2 t p = n" by auto
  with Suc.IH [of k2] r Suc.prems obtain us k' where
    "rounds mem (Suc n) k2 = Some (us @ [t], k')" "t \<notin> set us" by auto
  with r \<open>u \<noteq> t\<close> show ?case by (intro exI [of _ "u # us"] exI [of _ k']) (simp del: rounds.simps(2) add: rounds.simps(2) [of mem "Suc n"])
qed

lemma wait_time_bound: "p < NUM_PRIORITIES \<Longrightarrow> wait_time k t p \<le> 3 * length (ready k)"
proof -
  have "ahead t (runq k p) \<le> length (runq k p)" by (simp add: ahead_def length_takeWhile_le)
  then show "p < NUM_PRIORITIES \<Longrightarrow> ?thesis" unfolding less_4 wait_time_4 ready_4 by (elim disjE) auto
qed

subsection \<open>Sample states\<close>

definition mkq :: "int \<Rightarrow> 'a list \<Rightarrow> 'a queue" where
  "mkq n xs = \<lparr>qsize = n, nextwrite = int (length xs), nextread = 0,
     qdata = map Some xs @ replicate (nat n - length xs) None\<rparr>"

lemma mkq_ok:
  assumes "int (length xs) < n" and "n < 2 ^ 30"
  shows "queue_ok (mkq n xs)" and "q_list (mkq n xs) = xs" and "qsize (mkq n xs) = n"
proof -
  have c: "qcount (mkq n xs) = length xs" using assms by (simp add: qcount_def mkq_def)
  have p: "qpos (mkq n xs) j = j" if "j < length xs" for j using assms that by (simp add: qpos_def mkq_def)
  show "queue_ok (mkq n xs)"
    using assms c p by (auto simp: queue_ok_def mkq_def nth_append)
  show "q_list (mkq n xs) = xs"
    using c p by (intro nth_equalityI) (simp_all add: q_list_def mkq_def nth_append)
  show "qsize (mkq n xs) = n" by (simp add: mkq_def)
qed

definition sample_thread :: "int \<Rightarrow> thread" where
  "sample_thread p = \<lparr>t_pcb = \<lparr>pcb_ininterrupt = 0, pcb_resume = In_sleep\<rparr>, t_name = ''t'', t_sleepaddr = NULL,
     t_stack = NULL, t_vmspace = NULL, t_cwd = NULL, t_ft = NULL, priority = p, t_id = NULL\<rparr>"

definition sample_sched :: ksched where
  "sample_sched = \<lparr>curspl = 15, in_interrupt = 0, iec = False,
     threads = [1 \<mapsto> sample_thread 2, 2 \<mapsto> sample_thread 0, 3 \<mapsto> sample_thread 2],
     runqueue = [Some (mkq 32 [2]), Some (mkq 32 []), Some (mkq 32 [1, 3]), Some (mkq 32 [])]\<rparr>"

lemma sample_runq:
  "runq sample_sched 0 = [2]" "runq sample_sched 1 = []" "runq sample_sched (Suc 0) = []"
  "runq sample_sched 2 = [1, 3]" "runq sample_sched 3 = []"
  by (simp_all add: runq_def sample_sched_def mkq_ok numeral_nat)

lemma sample_sched_ok: "sched_ok sample_sched" "roomy sample_sched" "ready sample_sched = [2, 1, 3]"
  "curspl sample_sched = 15"
proof -
  show r: "ready sample_sched = [2, 1, 3]" by (simp add: ready_4 sample_runq)
  have "queues_ok (runqueue sample_sched)"
    by (auto simp: queues_ok_def sample_sched_def mkq_ok NUM_PRIORITIES_def)
  then show "sched_ok sample_sched"
    unfolding sched_ok_def less_4 by (auto simp: r sample_runq) (simp_all add: sample_sched_def sample_thread_def)
  show "roomy sample_sched"
    unfolding roomy_def less_4 by (auto simp: r) (simp_all add: sample_sched_def mkq_ok numeral_nat)
  show "curspl sample_sched = 15" by (simp add: sample_sched_def)
qed

subsection \<open>Properties\<close>

lemma int_less_pow: "int n < 2 ^ m \<Longrightarrow> n < 2 ^ m"
  by (metis of_nat_less_iff of_nat_numeral of_nat_power)

text \<open>
  C20. \<^verbatim>\<open>scheduler\<close> takes the first thread of the highest-priority queue that is not empty, removes
  it from there and from nowhere else, lowers its priority by one (not below zero), and changes
  no other thread and no other queue.
\<close>

theorem scheduler_highest_first:
  assumes "sched_ok k" and "0 < curspl k" and "ready k \<noteq> []"
  shows "\<exists>i t k' th. scheduler k = Some (Some t, k') \<and> sched_ok k'
    \<and> i < NUM_PRIORITIES \<and> runq k i = t # runq k' i \<and> (\<forall>j. i < j \<and> j < NUM_PRIORITIES \<longrightarrow> runq k j = [])
    \<and> (\<forall>j. j \<noteq> i \<longrightarrow> runq k' j = runq k j)
    \<and> threads k t = Some th \<and> threads k' = (threads k)(t \<mapsto> th\<lparr>priority := max 0 (priority th - 1)\<rparr>)"
proof -
  from scheduler_pick [OF assms] obtain i t ts th q' where
    i: "i < NUM_PRIORITIES" "runq k i = t # ts" "\<forall>j. i < j \<and> j < NUM_PRIORITIES \<longrightarrow> runq k j = []"
    and th: "threads k t = Some th" and q': "queue_ok q'" "q_list q' = ts"
    and s: "scheduler k = Some (Some t, k\<lparr>runqueue := (runqueue k)[i := Some q'],
      threads := (threads k)(t \<mapsto> demote th)\<rparr>)" by blast
  note rm = sched_ok_remove [OF assms(1) i(1,2) q' refl, of "demote th"]
  show ?thesis
    using s i th rm(1) rm(3)
    by (intro exI [of _ i] exI [of _ t] exI [of _ "k\<lparr>runqueue := (runqueue k)[i := Some q'],
        threads := (threads k)(t \<mapsto> demote th)\<rparr>"] exI [of _ th] conjI) (simp_all add: demote_def)
qed

theorem scheduler_highest_first_witness:
  "\<exists>i t k' th. scheduler sample_sched = Some (Some t, k') \<and> sched_ok k'
    \<and> i < NUM_PRIORITIES \<and> runq sample_sched i = t # runq k' i
    \<and> (\<forall>j. i < j \<and> j < NUM_PRIORITIES \<longrightarrow> runq sample_sched j = [])
    \<and> (\<forall>j. j \<noteq> i \<longrightarrow> runq k' j = runq sample_sched j)
    \<and> threads sample_sched t = Some th
    \<and> threads k' = (threads sample_sched)(t \<mapsto> th\<lparr>priority := max 0 (priority th - 1)\<rparr>)"
  by (rule scheduler_highest_first) (simp_all add: sample_sched_ok)



text \<open>
  C28. After a successful \<^verbatim>\<open>scheduler_preallocate(n)\<close> the run queues take \<open>n - 1\<close> threads in any
  distribution without memory: adding a thread to fewer than \<open>n - 1\<close> ready ones succeeds.
\<close>

theorem scheduler_preallocate_guarantee:
  assumes "sched_ok k" and "0 < curspl k" and "n \<le> 2 ^ 28"
    and "scheduler_preallocate mem n k = Some (Ok (), k1)"
    and "threads k t = Some th" "priority th = int i" "i < NUM_PRIORITIES" "t \<notin> set (ready k)"
    and "int (length (ready k)) < n - 1"
  shows "\<exists>k2. make_runnable mem' t k1 = Some (Ok (), k2) \<and> sched_ok k2 \<and> runq k2 i = runq k i @ [t]
    \<and> mset (ready k2) = add_mset t (mset (ready k))"
proof -
  have n29: "n \<le> 2 ^ 29" using assms(3) by simp
  from scheduler_preallocate_cases [OF assms(1,2) n29, of mem] assms(4) obtain qs where
    k1: "k1 = k\<lparr>runqueue := qs\<rparr>" "sched_ok k1" "\<forall>j < NUM_PRIORITIES. runq k1 j = runq k j" "ready k1 = ready k"
    "\<forall>j < NUM_PRIORITIES. n \<le> qsize (the (qs ! j))" by auto
  have len: "int (length (runq k1 i)) < n - 1"
    using length_runq_le [OF assms(7), of k1] assms(9) k1(4) by simp
  have "n \<le> qsize (the (qs ! i))" using k1(5) assms(7) by blast
  with len have nfull: "\<not> q_full (the (runqueue k1 ! i))"
    by (simp add: k1(1) q_full_def runq_def)
  have "length (runq k1 i) < 2 ^ 28" using len assms(3) by (intro int_less_pow) simp
  from make_runnable_cases [OF k1(2) _ _ assms(6,7) this, of t mem'] nfull k1(1) assms(2,5)
  obtain q' where m: "make_runnable mem' t k1 = Some (Ok (), k1\<lparr>runqueue := (runqueue k1)[i := Some q']\<rparr>)"
    "queue_ok q'" "q_list q' = runq k1 i @ [t]" by auto
  have t: "threads k1 t = Some th" "t \<notin> set (ready k1)" using assms(5,8) k1 by auto
  note add = sched_ok_add [OF k1(2) t(1) assms(6,7) t(2) m(2,3) refl]
  show ?thesis using m(1) add k1(3,4) assms(7) by (intro exI conjI) auto
qed

theorem scheduler_preallocate_guarantee_witness:
  "\<exists>k2. make_runnable (\<lambda>_. False) 5 (sample_sched\<lparr>threads := (\<lambda>t. if t = 5 then Some (sample_thread 1) else threads sample_sched t)\<rparr>)
      = Some (Ok (), k2)
    \<and> sched_ok k2 \<and> runq k2 1 = [5] \<and> mset (ready k2) = {#5, 2, 1, 3#}"
proof -
  define k where "k = sample_sched\<lparr>threads := (\<lambda>t. if t = 5 then Some (sample_thread 1) else threads sample_sched t)\<rparr>"
  have r: "ready k = [2, 1, 3]" "runq k j = runq sample_sched j" for j
    using sample_sched_ok(3) by (simp_all add: k_def ready_def runq_def cong: map_cong)
  have ok: "sched_ok k"
    using sample_sched_ok(1) unfolding sched_ok_def r less_4
    by (auto simp: r sample_runq k_def)
  have pre: "scheduler_preallocate (\<lambda>_ _. False) 32 k = Some (Ok (), k)"
    by (simp add: scheduler_preallocate_def k_def sample_sched_def NUM_PRIORITIES_def numeral_nat
        q_preallocate_def mkq_def)
  show ?thesis
    using scheduler_preallocate_guarantee [OF ok _ _ pre, of 5 "sample_thread 1" 1 "\<lambda>_. False"] r sample_runq
    by (simp add: k_def sample_sched_ok(4) NUM_PRIORITIES_def sample_thread_def)
qed

text \<open>
  C34. The reservation is one short: when the queue of a thread has exactly the \<open>n\<close> cells that
  \<^verbatim>\<open>scheduler_preallocate(n)\<close> asks for and \<open>n - 1\<close> threads wait in it, the reservation reports
  success without allocating, and adding the \<open>n\<close>-th thread fails when no memory is left. So the
  comment in \<^verbatim>\<open>mi_switch\<close> that the addition cannot fail after the reservation is not true.
\<close>

theorem scheduler_preallocate_one_short:
  assumes "sched_ok k" and "0 < curspl k" and "n \<le> 2 ^ 28"
    and "\<forall>j < NUM_PRIORITIES. n \<le> qsize (the (runqueue k ! j))"
    and "threads k t = Some th" "priority th = int i" "i < NUM_PRIORITIES"
    and "qsize (the (runqueue k ! i)) = n" "int (length (runq k i)) = n - 1"
  shows "scheduler_preallocate (\<lambda>_ _. False) n k = Some (Ok (), k)
    \<and> make_runnable (\<lambda>_. False) t k = Some (Err ENOMEM, k)"
proof
  note qok = queues_okE [OF sched_okD(1) [OF assms(1)]]
  have "preallocate_queues mem n is (runqueue k) = Some (Ok (), runqueue k)"
    if "set is \<subseteq> {..<NUM_PRIORITIES}" for "is" mem
    using that
  proof (induction "is")
    case (Cons j "is")
    then have j: "j < NUM_PRIORITIES" "set is \<subseteq> {..<NUM_PRIORITIES}" by auto
    obtain q where q: "runqueue k ! j = Some q" "queue_ok q" "j < length (runqueue k)" using qok [OF j(1)] .
    have "n \<le> qsize q" using assms(4) j(1) q(1) by (metis option.sel)
    then have "q_preallocate (mem j) q n = Some (Ok (), q)"
      using queue_okD(1) [OF q(2)] by (simp add: q_preallocate_def)
    moreover have "(runqueue k)[j := Some q] = runqueue k" using q by (metis list_update_id)
    ultimately show ?case using Cons.IH [OF j(2)] q by simp
  qed simp
  from this [OF all_priorities] assms(2)
  show "scheduler_preallocate (\<lambda>_ _. False) n k = Some (Ok (), k)" by (simp add: scheduler_preallocate_def)
  obtain q where q: "runqueue k ! i = Some q" "queue_ok q" using qok [OF assms(7)] .
  have "q_full q" using assms(8,9) q by (simp add: q_full_def runq_def)
  moreover have "qsize q < 2 ^ 29" using assms(3,8) q by simp
  ultimately have "q_addtail (\<lambda>_. False) q t = Some (Err ENOMEM, q)"
    using q_addtail_cases [OF q(2), of "\<lambda>_. False" t] by auto
  then show "make_runnable (\<lambda>_. False) t k = Some (Err ENOMEM, k)"
    using q assms(2,5-7) sched_okD(1) [OF assms(1)]
    by (simp add: make_runnable_def queues_ok_def list_update_same_conv)
qed

text \<open>The smallest case the kernel meets: 31 ready threads in a queue created with \<^verbatim>\<open>q_create(32)\<close>.\<close>

definition full_sched :: ksched where
  "full_sched = \<lparr>curspl = 15, in_interrupt = 0, iec = False,
     threads = (\<lambda>t. if t < 32 then Some (sample_thread 0) else None),
     runqueue = [Some (mkq 32 [0..<31]), Some (mkq 32 []), Some (mkq 32 []), Some (mkq 32 [])]\<rparr>"

lemma full_sched_ok: "sched_ok full_sched" "runq full_sched 0 = [0..<31]"
proof -
  have q: "queues_ok (runqueue full_sched)"
    by (auto simp: queues_ok_def full_sched_def mkq_ok NUM_PRIORITIES_def)
  have r: "runq full_sched 0 = [0..<31]" "runq full_sched 1 = []" "runq full_sched 2 = []" "runq full_sched 3 = []"
    unfolding runq_def full_sched_def by (simp_all add: mkq_ok del: upt_Suc)
  then show "runq full_sched 0 = [0..<31]" by blast
  have "\<forall>t \<in> set (runq full_sched 0). \<exists>th. threads full_sched t = Some th \<and> priority th = int 0"
    unfolding r set_upt by (auto simp: full_sched_def sample_thread_def)
  moreover have "distinct (ready full_sched)" unfolding ready_4 r by simp
  ultimately show "sched_ok full_sched" unfolding sched_ok_def less_4 using q r by auto
qed

theorem scheduler_preallocate_one_short_witness:
  "scheduler_preallocate (\<lambda>_ _. False) 32 full_sched = Some (Ok (), full_sched)
    \<and> make_runnable (\<lambda>_. False) 31 full_sched = Some (Err ENOMEM, full_sched)"
  by (rule scheduler_preallocate_one_short [where i = 0 and th = "sample_thread 0", OF full_sched_ok(1)])
     (auto simp: runq_def less_4 full_sched_def mkq_ok sample_thread_def simp del: upt_Suc)

end
