(* ===== verification/Thread.thy ===== *)
theory Thread
  imports Scheduler
begin

section \<open>The thread system (\<^verbatim>\<open>kern/thread/thread.c\<close>)\<close>

text \<open>
  The state adds the variables of \<^verbatim>\<open>thread.c\<close> to the scheduler's. Two further fields: \<open>swcur\<close> is
  the local \<^verbatim>\<open>cur\<close> of the \<^verbatim>\<open>mi_switch\<close> activation that is in the scheduler (on whose stack the
  processor idles while \<open>curthread\<close> is NULL), and \<open>klog\<close> lists the calls into the address space
  and vnode code, which the thread system makes but whose effect it does not see.

  \<^verbatim>\<open>mi_switch\<close> does not return to the thread that called it but to the one that is switched
  to. The operations here therefore end in the context of the next thread: they put the caller
  away, and when the scheduler finds a thread they go on with what that thread still has to do
  in \<^verbatim>\<open>mi_switch\<close> and its callers in this file (\<open>resume_thread\<close>). When no thread is ready they
  end with \<open>curthread\<close> NULL, the processor waiting in \<^verbatim>\<open>cpu_idle\<close>; \<open>idle_interrupt\<close> is the next
  turn of that loop.
\<close>

datatype threadstate_t = S_RUN | S_READY | S_SLEEP | S_ZOMB

datatype kevent =
    As_activate nat
  | As_destroy nat
  | As_copy nat "nat res"
  | Vop_incref nat
  | Vop_decref nat

record kthr = ksched +
  curthread :: "nat ptr"
  sleepers :: "nat parray ptr"
  zombies :: "nat parray ptr"
  process_ids :: "nat ptr queue ptr"
  numthreads :: int
  kfh :: fheap
  swcur :: "nat ptr"
  klog :: "kevent list"

definition MAX_THREADS :: nat where "MAX_THREADS = 100"

text \<open>
  What the allocator gives to one call of \<^verbatim>\<open>thread_create\<close> or \<^verbatim>\<open>thread_fork\<close>: the address of the
  new thread structure with the uninitialised \<open>pcb\<close> in it, whether the copy of the name, the file
  table, its array and the stack can be allocated, the result of \<^verbatim>\<open>as_copy\<close>, and what is available to the
  reservations.
\<close>

record falloc =
  m_thread :: "nat ptr"
  m_junk :: pcb
  m_name :: bool
  m_ft :: bool
  m_arr :: bool
  m_stack :: bool
  m_as :: "nat res"
  m_sleepers :: "nat \<Rightarrow> bool"
  m_zombies :: "nat \<Rightarrow> bool"
  m_sched :: "nat \<Rightarrow> nat \<Rightarrow> bool"
  m_run :: "nat \<Rightarrow> bool"

definition thread_create :: "string \<Rightarrow> falloc \<Rightarrow> 'a kthr_scheme \<Rightarrow> (nat ptr \<times> 'a kthr_scheme) run" where
  "thread_create name m k =
     (case m_thread m of
        None \<Rightarrow> Some (NULL, k)
      | Some thread \<Rightarrow>
          if \<not> m_name m then Some (NULL, k)
          else do {
            q \<leftarrow> process_ids k;
            (pid, q') \<leftarrow> q_remhead q;
            let th = \<lparr>t_pcb = m_junk m, t_name = name, t_sleepaddr = NULL, t_stack = NULL,
                      t_vmspace = NULL, t_cwd = NULL, t_ft = filetable_create (m_ft m) (m_arr m),
                      priority = PRIORITY_NORMAL, t_id = pid\<rparr>;
            Some (Some thread, k\<lparr>process_ids := Some q', threads := (threads k)(thread \<mapsto> th)\<rparr>)
          })"

definition thread_destroy :: "(nat \<Rightarrow> bool) \<Rightarrow> nat \<Rightarrow> 'a kthr_scheme \<Rightarrow> 'a kthr_scheme run" where
  "thread_destroy mem thread k = do {
     kassert (curthread k \<noteq> Some thread);
     th \<leftarrow> threads k thread;
     q \<leftarrow> process_ids k;
     (_, q') \<leftarrow> q_addtail mem q (t_id th);
     h \<leftarrow> filetable_destroy (t_ft th) (kfh k);
     kassert (t_vmspace th = NULL);
     kassert (t_cwd th = NULL);
     Some (k\<lparr>process_ids := Some q', kfh := h, threads := (threads k)(thread := None)\<rparr>)
   }"

fun destroy_zombies :: "(nat \<Rightarrow> nat \<Rightarrow> bool) \<Rightarrow> nat parray \<Rightarrow> nat list \<Rightarrow> 'a kthr_scheme \<Rightarrow> 'a kthr_scheme run" where
  "destroy_zombies mem zs [] k = Some k"
| "destroy_zombies mem zs (i # is) k = do {
     z \<leftarrow> array_getguy zs (int i);
     kassert (Some z \<noteq> curthread k);
     k1 \<leftarrow> thread_destroy (mem i) z k;
     destroy_zombies mem zs is k1
   }"

definition exorcise :: "(nat \<Rightarrow> nat \<Rightarrow> bool) \<Rightarrow> 'a kthr_scheme \<Rightarrow> 'a kthr_scheme run" where
  "exorcise mem k = do {
     kassert (curspl k > 0);
     zs \<leftarrow> zombies k;
     k1 \<leftarrow> destroy_zombies mem zs [0..<nat (array_getnum zs)] k;
     (result, zs') \<leftarrow> array_setsize (mem 0) zs 0;
     kassert (result = Ok ());
     Some (k1\<lparr>zombies := Some zs'\<rparr>)
   }"

fun drop_sleepers :: "(nat \<Rightarrow> thread option) \<Rightarrow> nat parray \<Rightarrow> nat list \<Rightarrow> unit run" where
  "drop_sleepers ths ss [] = Some ()"
| "drop_sleepers ths ss (i # is) = do {
     t \<leftarrow> array_getguy ss (int i);
     _ \<leftarrow> ths t;
     drop_sleepers ths ss is
   }"

definition thread_killall :: "(nat \<Rightarrow> bool) \<Rightarrow> 'a kthr_scheme \<Rightarrow> 'a kthr_scheme run" where
  "thread_killall mem k = do {
     kassert (curspl k > 0);
     ss \<leftarrow> sleepers k;
     _ \<leftarrow> drop_sleepers (threads k) ss [0..<nat (array_getnum ss)];
     (result, ss') \<leftarrow> array_setsize mem ss 0;
     kassert (result = Ok ());
     Some (k\<lparr>sleepers := Some ss'\<rparr>)
   }"

definition thread_panic :: "(nat \<Rightarrow> bool) \<Rightarrow> 'a kthr_scheme \<Rightarrow> 'a kthr_scheme run" where
  "thread_panic mem k = do {
     kassert (curspl k > 0);
     k1 \<leftarrow> thread_killall mem k;
     scheduler_killall k1
   }"

text \<open>The loop of \<^verbatim>\<open>thread_bootstrap\<close> that fills the queue of process ids.\<close>

fun add_ids :: "(nat \<Rightarrow> bool) \<Rightarrow> (nat \<Rightarrow> nat \<Rightarrow> bool) \<Rightarrow> nat list \<Rightarrow> nat ptr queue \<Rightarrow> nat ptr queue run" where
  "add_ids got mem [] q = Some q"
| "add_ids got mem (i # is) q =
     (if \<not> got i then panic
      else do {
        (err, q') \<leftarrow> q_addtail (mem i) q (Some i);
        (case err of Inl _ \<Rightarrow> panic | Inr _ \<Rightarrow> add_ids got mem is q')
      })"

definition md_initpcb0 :: "pcb \<Rightarrow> pcb" where
  "md_initpcb0 p = p\<lparr>pcb_ininterrupt := 0\<rparr>"

definition md_initpcb :: "nat \<Rightarrow> nat \<Rightarrow> nat \<Rightarrow> pcb" where
  "md_initpcb data1 data2 func = \<lparr>pcb_ininterrupt = 0, pcb_resume = Threadstart data1 data2 func\<rparr>"

definition thread_bootstrap :: "bool \<Rightarrow> bool \<Rightarrow> bool \<Rightarrow> (nat \<Rightarrow> bool) \<Rightarrow> (nat \<Rightarrow> bool) \<Rightarrow>
    (nat \<Rightarrow> nat \<Rightarrow> bool) \<Rightarrow> falloc \<Rightarrow> 'a kthr_scheme \<Rightarrow> (nat \<times> 'a kthr_scheme) run" where
  "thread_bootstrap got_s got_z got_q mem_q got_id mem_id m k = do {
     ss \<leftarrow> array_create got_s;
     zs \<leftarrow> array_create got_z;
     q \<leftarrow> q_create got_q mem_q (int MAX_THREADS);
     q' \<leftarrow> add_ids got_id mem_id [0..<MAX_THREADS] q;
     let k1 = k\<lparr>sleepers := Some ss, zombies := Some zs, process_ids := Some q'\<rparr>;
     (me, k2) \<leftarrow> thread_create ''<boot/menu>'' m k1;
     t \<leftarrow> me;
     th \<leftarrow> threads k2 t;
     Some (t, k2\<lparr>threads := (threads k2)(t \<mapsto> th\<lparr>t_pcb := md_initpcb0 (t_pcb th)\<rparr>),
                 curthread := Some t, numthreads := 1\<rparr>)
   }"

definition thread_shutdown :: "'a kthr_scheme \<Rightarrow> 'a kthr_scheme run" where
  "thread_shutdown k = do {
     _ \<leftarrow> sleepers k;
     _ \<leftarrow> zombies k;
     q \<leftarrow> process_ids k;
     _ \<leftarrow> q_destroy q;
     Some (k\<lparr>sleepers := NULL, zombies := NULL, process_ids := NULL\<rparr>)
   }"

text \<open>The magic number at the bottom end of a stack and its check.\<close>

definition stack_magic :: "int list" where
  "stack_magic = [0xae, 0x11, 0xda, 0x33]"

definition stack_check :: "int list ptr \<Rightarrow> bool" where
  "stack_check st = (case st of None \<Rightarrow> True | Some b \<Rightarrow> take 4 b = stack_magic)"

text \<open>
  \<^verbatim>\<open>thread_fork\<close>. \<open>fork_inherit\<close> is the middle part, from the copy of the address space to
  \<^verbatim>\<open>md_initpcb\<close> (an error of \<^verbatim>\<open>as_copy\<close> is stored and not looked at), \<open>fork_fail\<close> the code after
  the label \<^verbatim>\<open>fail\<close>. The result is the new thread, which the code stores through \<^verbatim>\<open>ret\<close>.
\<close>

definition fork_inherit :: "nat \<Rightarrow> nat \<Rightarrow> nat \<Rightarrow> nat \<Rightarrow> falloc \<Rightarrow> 'a kthr_scheme \<Rightarrow> 'a kthr_scheme run" where
  "fork_inherit newguy data1 data2 func m k = do {
     cur \<leftarrow> curthread k;
     cth \<leftarrow> threads k cur;
     th \<leftarrow> threads k newguy;
     let (vm, k1) =
       (case t_vmspace cth of
          None \<Rightarrow> (t_vmspace th, k)
        | Some as \<Rightarrow> (case m_as m of Inl _ \<Rightarrow> t_vmspace th | Inr as' \<Rightarrow> Some as',
                      k\<lparr>klog := klog k @ [As_copy as (m_as m)]\<rparr>));
     let (cwd, k2) =
       (case t_cwd cth of
          None \<Rightarrow> (t_cwd th, k1)
        | Some v \<Rightarrow> (Some v, k1\<lparr>klog := klog k1 @ [Vop_incref v]\<rparr>));
     Some (k2\<lparr>threads := (threads k2)(newguy \<mapsto>
       th\<lparr>t_stack := Some stack_magic, t_vmspace := vm, t_cwd := cwd,
          t_pcb := md_initpcb data1 data2 func\<rparr>)\<rparr>)
   }"

definition fork_fail :: "nat \<Rightarrow> int \<Rightarrow> errno \<Rightarrow> 'a kthr_scheme \<Rightarrow> (nat res \<times> 'a kthr_scheme) run" where
  "fork_fail newguy s result k = do {
     let (_, k1) = splx s k;
     th \<leftarrow> threads k1 newguy;
     let k2 = (case t_cwd th of None \<Rightarrow> k1 | Some v \<Rightarrow> k1\<lparr>klog := klog k1 @ [Vop_decref v]\<rparr>);
     Some (Err result, k2\<lparr>threads := (threads k2)(newguy := None)\<rparr>)
   }"

definition fork_reserve :: "falloc \<Rightarrow> 'a kthr_scheme \<Rightarrow> (unit res \<times> 'a kthr_scheme) run" where
  "fork_reserve m k = do {
     ss \<leftarrow> sleepers k;
     (r1, ss') \<leftarrow> array_preallocate (m_sleepers m) ss (numthreads k + 1);
     let k1 = k\<lparr>sleepers := Some ss'\<rparr>;
     (case r1 of
        Inl e \<Rightarrow> Some (Err e, k1)
      | Inr _ \<Rightarrow> do {
          zs \<leftarrow> zombies k1;
          (r2, zs') \<leftarrow> array_preallocate (m_zombies m) zs (numthreads k1 + 1);
          let k2 = k1\<lparr>zombies := Some zs'\<rparr>;
          (case r2 of
             Inl e \<Rightarrow> Some (Err e, k2)
           | Inr _ \<Rightarrow> scheduler_preallocate (m_sched m) (numthreads k2 + 1) k2)
        })
   }"

definition thread_fork :: "string \<Rightarrow> nat \<Rightarrow> nat \<Rightarrow> nat \<Rightarrow> falloc \<Rightarrow> 'a kthr_scheme \<Rightarrow>
    (nat res \<times> 'a kthr_scheme) run" where
  "thread_fork name data1 data2 func m k = do {
     (p, k1) \<leftarrow> thread_create name m k;
     (case p of
        None \<Rightarrow> Some (Err ENOMEM, k1)
      | Some newguy \<Rightarrow>
          if \<not> m_stack m then Some (Err ENOMEM, k1\<lparr>threads := (threads k1)(newguy := None)\<rparr>)
          else do {
            k2 \<leftarrow> fork_inherit newguy data1 data2 func m k1;
            let (s, k3) = splhigh k2;
            (result, k4) \<leftarrow> fork_reserve m k3;
            (case result of
               Inl e \<Rightarrow> fork_fail newguy s e k4
             | Inr _ \<Rightarrow> do {
                 (result', k5) \<leftarrow> make_runnable (m_run m) newguy k4;
                 (case result' of
                    Inl e \<Rightarrow> fork_fail newguy s e k5
                  | Inr _ \<Rightarrow> Some (Ok newguy, snd (splx s (k5\<lparr>numthreads := numthreads k5 + 1\<rparr>))))
               })
          })
   }"

subsection \<open>Context switch\<close>

definition md_switch :: "nat \<Rightarrow> nat \<Rightarrow> 'a kthr_scheme \<Rightarrow> 'a kthr_scheme run" where
  "md_switch old nu k =
     (if old = nu then Some k
      else do {
        oth \<leftarrow> threads k old;
        nth \<leftarrow> threads k nu;
        Some (k\<lparr>threads := (threads k)(old \<mapsto> oth\<lparr>t_pcb := (t_pcb oth)\<lparr>pcb_ininterrupt := in_interrupt k\<rparr>\<rparr>),
                in_interrupt := pcb_ininterrupt (t_pcb nth)\<rparr>)
      })"

definition as_enter :: "thread \<Rightarrow> 'a kthr_scheme \<Rightarrow> 'a kthr_scheme" where
  "as_enter th k =
     (case t_vmspace th of None \<Rightarrow> k | Some as \<Rightarrow> k\<lparr>klog := klog k @ [As_activate as]\<rparr>)"

text \<open>The end of \<^verbatim>\<open>mi_switch\<close>, in the context of the thread that was switched to.\<close>

definition mi_switch_tail :: "(nat \<Rightarrow> nat \<Rightarrow> bool) \<Rightarrow> 'a kthr_scheme \<Rightarrow> 'a kthr_scheme run" where
  "mi_switch_tail emem k = do {
     k1 \<leftarrow> exorcise emem k;
     c \<leftarrow> curthread k1;
     th \<leftarrow> threads k1 c;
     Some (as_enter th k1)
   }"

definition mi_threadstart :: "thread \<Rightarrow> 'a kthr_scheme \<Rightarrow> 'a kthr_scheme" where
  "mi_threadstart th k = snd (spl0 (as_enter th k))"

definition resume_thread :: "(nat \<Rightarrow> nat \<Rightarrow> bool) \<Rightarrow> 'a kthr_scheme \<Rightarrow> 'a kthr_scheme run" where
  "resume_thread emem k = do {
     c \<leftarrow> curthread k;
     th \<leftarrow> threads k c;
     (case pcb_resume (t_pcb th) of
        Threadstart _ _ _ \<Rightarrow> Some (mi_threadstart th k)
      | In_yield spl \<Rightarrow> do {
          k1 \<leftarrow> mi_switch_tail emem k;
          Some (snd (splx spl k1))
        }
      | In_clock spl old_in savespl \<Rightarrow> do {
          k1 \<leftarrow> mi_switch_tail emem k;
          let (_, k2) = splx spl k1;
          let (_, k3) = splhigh (k2\<lparr>in_interrupt := old_in\<rparr>);
          Some (k3\<lparr>curspl := savespl, iec := True\<rparr>)
        }
      | In_sleep \<Rightarrow> do {
          k1 \<leftarrow> mi_switch_tail emem k;
          th1 \<leftarrow> threads k1 c;
          Some (k1\<lparr>threads := (threads k1)(c \<mapsto> th1\<lparr>t_sleepaddr := NULL\<rparr>)\<rparr>)
        }
      | In_exit \<Rightarrow> do {
          _ \<leftarrow> mi_switch_tail emem k;
          panic
        })
   }"

definition mi_stash :: "(nat \<Rightarrow> bool) \<Rightarrow> threadstate_t \<Rightarrow> nat \<Rightarrow> 'a kthr_scheme \<Rightarrow> (unit res \<times> 'a kthr_scheme) run" where
  "mi_stash mem nextstate cur k =
     (case nextstate of
        S_READY \<Rightarrow> make_runnable mem cur k
      | S_SLEEP \<Rightarrow> do {
          ss \<leftarrow> sleepers k;
          (result, ss') \<leftarrow> array_add mem ss cur;
          Some (result, k\<lparr>sleepers := Some ss'\<rparr>)
        }
      | S_ZOMB \<Rightarrow> do {
          zs \<leftarrow> zombies k;
          (result, zs') \<leftarrow> array_add mem zs cur;
          Some (result, k\<lparr>zombies := Some zs'\<rparr>)
        }
      | S_RUN \<Rightarrow> panic)"

text \<open>From the call of the scheduler on; \<open>emem\<close> is for the allocations of \<^verbatim>\<open>exorcise\<close>.\<close>

definition mi_dispatch :: "(nat \<Rightarrow> nat \<Rightarrow> bool) \<Rightarrow> 'a kthr_scheme \<Rightarrow> 'a kthr_scheme run" where
  "mi_dispatch emem k = do {
     cur \<leftarrow> swcur k;
     (p, k1) \<leftarrow> scheduler k;
     (case p of
        None \<Rightarrow> Some k1
      | Some next \<Rightarrow> do {
          k2 \<leftarrow> md_switch cur next (k1\<lparr>curthread := Some next\<rparr>);
          resume_thread emem (k2\<lparr>swcur := NULL\<rparr>)
        })
   }"

definition mi_switch :: "(nat \<Rightarrow> bool) \<Rightarrow> (nat \<Rightarrow> nat \<Rightarrow> bool) \<Rightarrow> threadstate_t \<Rightarrow> resume \<Rightarrow>
    'a kthr_scheme \<Rightarrow> 'a kthr_scheme run" where
  "mi_switch mem emem nextstate res k = do {
     kassert (curspl k > 0);
     (case curthread k of
        None \<Rightarrow> Some k
      | Some cur \<Rightarrow> do {
          th \<leftarrow> threads k cur;
          kassert (stack_check (t_stack th));
          let k1 = k\<lparr>threads := (threads k)(cur \<mapsto> th\<lparr>t_pcb := (t_pcb th)\<lparr>pcb_resume := res\<rparr>\<rparr>),
                     curthread := NULL, swcur := Some cur\<rparr>;
          (result, k2) \<leftarrow> mi_stash mem nextstate cur k1;
          kassert (result = Ok ());
          mi_dispatch emem k2
        })
   }"

text \<open>One more turn of the loop around \<^verbatim>\<open>cpu_idle\<close> in the scheduler.\<close>

definition idle_interrupt :: "32 word \<Rightarrow> ('a kthr_scheme \<Rightarrow> 'a kthr_scheme run) \<Rightarrow> (nat \<Rightarrow> nat \<Rightarrow> bool) \<Rightarrow>
    'a kthr_scheme \<Rightarrow> 'a kthr_scheme run" where
  "idle_interrupt cause handler emem k = do {
     k1 \<leftarrow> cpu_idle (trap_irq cause handler) k;
     mi_dispatch emem k1
   }"

subsection \<open>Exit, yield, sleep, wakeup\<close>

definition thread_exit :: "(nat \<Rightarrow> bool) \<Rightarrow> (nat \<Rightarrow> nat \<Rightarrow> bool) \<Rightarrow> 'a kthr_scheme \<Rightarrow> 'a kthr_scheme run" where
  "thread_exit mem emem k = do {
     c \<leftarrow> curthread k;
     th \<leftarrow> threads k c;
     kassert (stack_check (t_stack th));
     let (_, k1) = splhigh k;
     let k2 = (case t_vmspace th of
         None \<Rightarrow> k1
       | Some as \<Rightarrow> k1\<lparr>threads := (threads k1)(c \<mapsto> th\<lparr>t_vmspace := NULL\<rparr>),
                      klog := klog k1 @ [As_destroy as]\<rparr>);
     th2 \<leftarrow> threads k2 c;
     let k3 = (case t_cwd th2 of
         None \<Rightarrow> k2
       | Some v \<Rightarrow> k2\<lparr>threads := (threads k2)(c \<mapsto> th2\<lparr>t_cwd := NULL\<rparr>),
                     klog := klog k2 @ [Vop_decref v]\<rparr>);
     kassert (numthreads k3 > 0);
     mi_switch mem emem S_ZOMB In_exit (k3\<lparr>numthreads := numthreads k3 - 1\<rparr>)
   }"

definition thread_yield :: "(nat \<Rightarrow> bool) \<Rightarrow> (nat \<Rightarrow> nat \<Rightarrow> bool) \<Rightarrow> 'a kthr_scheme \<Rightarrow> 'a kthr_scheme run" where
  "thread_yield mem emem k = do {
     let (spl, k1) = splhigh k;
     kassert (sleepers k1 \<noteq> NULL);
     k2 \<leftarrow> mi_switch mem emem S_READY (In_yield spl) k1;
     Some (if curthread k1 = NULL then snd (splx spl k2) else k2)
   }"

definition thread_sleep :: "(nat \<Rightarrow> bool) \<Rightarrow> (nat \<Rightarrow> nat \<Rightarrow> bool) \<Rightarrow> nat \<Rightarrow> 'a kthr_scheme \<Rightarrow> 'a kthr_scheme run" where
  "thread_sleep mem emem addr k = do {
     kassert (in_interrupt k = 0);
     c \<leftarrow> curthread k;
     th \<leftarrow> threads k c;
     mi_switch mem emem S_SLEEP In_sleep
       (k\<lparr>threads := (threads k)(c \<mapsto> th\<lparr>t_sleepaddr := Some addr\<rparr>)\<rparr>)
   }"

text \<open>
  The loop of \<^verbatim>\<open>thread_wakeup\<close> from index \<open>i\<close>; the fuel is the number of sleepers from there on,
  which every turn lowers by one.
\<close>

fun wakeup_from :: "(nat \<Rightarrow> nat \<Rightarrow> bool) \<Rightarrow> nat \<Rightarrow> nat \<Rightarrow> int \<Rightarrow> 'a kthr_scheme \<Rightarrow> 'a kthr_scheme run" where
  "wakeup_from mem addr fuel i k = do {
     ss \<leftarrow> sleepers k;
     (if i < array_getnum ss then
        (case fuel of 0 \<Rightarrow> panic
         | Suc n \<Rightarrow> do {
             t \<leftarrow> array_getguy ss i;
             th \<leftarrow> threads k t;
             (if t_sleepaddr th = Some addr then do {
                ss' \<leftarrow> array_remove ss i;
                (result, k1) \<leftarrow> make_runnable (mem n) t (k\<lparr>sleepers := Some ss'\<rparr>);
                kassert (result = Ok ());
                wakeup_from mem addr n i k1
              }
              else wakeup_from mem addr n (i + 1) k)
           })
      else Some k)
   }"

declare wakeup_from.simps [simp del]

definition thread_wakeup :: "(nat \<Rightarrow> nat \<Rightarrow> bool) \<Rightarrow> nat \<Rightarrow> 'a kthr_scheme \<Rightarrow> 'a kthr_scheme run" where
  "thread_wakeup mem addr k = do {
     kassert (curspl k > 0);
     ss \<leftarrow> sleepers k;
     wakeup_from mem addr (nat (array_getnum ss)) 0 k
   }"

fun hassleepers_from :: "(nat \<Rightarrow> thread option) \<Rightarrow> nat parray \<Rightarrow> nat \<Rightarrow> nat list \<Rightarrow> bool run" where
  "hassleepers_from ths ss addr [] = Some False"
| "hassleepers_from ths ss addr (i # is) = do {
     t \<leftarrow> array_getguy ss (int i);
     th \<leftarrow> ths t;
     if t_sleepaddr th = Some addr then Some True else hassleepers_from ths ss addr is
   }"

definition thread_hassleepers :: "nat \<Rightarrow> 'a kthr_scheme \<Rightarrow> bool run" where
  "thread_hassleepers addr k = do {
     kassert (curspl k > 0);
     ss \<leftarrow> sleepers k;
     hassleepers_from (threads k) ss addr [0..<nat (array_getnum ss)]
   }"

subsection \<open>Invariant\<close>

text \<open>
  Every thread structure is in exactly one place: it is the running thread, in a run queue, in
  \<open>sleepers\<close> or in \<open>zombies\<close>. The count leaves out the zombies. Process ids are not shared, and
  those of the live threads are not in the queue of free ones.
\<close>

definition slist :: "'a kthr_scheme \<Rightarrow> nat list" where
  "slist k = a_list (the (sleepers k))"

definition zlist :: "'a kthr_scheme \<Rightarrow> nat list" where
  "zlist k = a_list (the (zombies k))"

definition idlist :: "'a kthr_scheme \<Rightarrow> nat ptr list" where
  "idlist k = q_list (the (process_ids k))"

definition cur_list :: "'a kthr_scheme \<Rightarrow> nat list" where
  "cur_list k = (case curthread k of None \<Rightarrow> [] | Some c \<Rightarrow> [c])"

definition ft_idle :: "filetable ptr \<Rightarrow> bool" where
  "ft_idle p \<longleftrightarrow> (\<exists>ft. p = Some ft \<and> array_ok (ft_handles ft) \<and> slots ft = [])"

definition thread_ok :: "thread \<Rightarrow> bool" where
  "thread_ok th \<longleftrightarrow> stack_check (t_stack th) \<and> 0 \<le> priority th \<and> priority th < int NUM_PRIORITIES
     \<and> ft_idle (t_ft th) \<and> (\<exists>pid. t_id th = Some pid \<and> pid < MAX_THREADS)"

definition resumable :: "resume \<Rightarrow> bool" where
  "resumable r \<longleftrightarrow> (case r of Threadstart _ _ _ \<Rightarrow> True | In_yield s \<Rightarrow> s \<ge> 0
     | In_clock s _ v \<Rightarrow> s \<ge> 0 \<and> v \<ge> 0 | In_sleep \<Rightarrow> True | In_exit \<Rightarrow> False)"

definition ids_ok :: "'a kthr_scheme \<Rightarrow> bool" where
  "ids_ok k \<longleftrightarrow> (\<exists>q. process_ids k = Some q \<and> queue_ok q \<and> int MAX_THREADS + 1 < qsize q)
     \<and> distinct (idlist k) \<and> set (idlist k) \<subseteq> Some ` {..<MAX_THREADS}
     \<and> inj_on (\<lambda>t. t_id (the (threads k t))) (dom (threads k))
     \<and> (\<forall>t th. threads k t = Some th \<longrightarrow> t_id th \<notin> set (idlist k))"

definition arrays_ok :: "'a kthr_scheme \<Rightarrow> bool" where
  "arrays_ok k \<longleftrightarrow> (\<exists>ss zs. sleepers k = Some ss \<and> array_ok ss \<and> zombies k = Some zs \<and> array_ok zs)"

text \<open>\<open>kinvz zl\<close> is the invariant with \<open>zl\<close> for the zombies that still exist, without the count.\<close>

definition places :: "nat list \<Rightarrow> 'a kthr_scheme \<Rightarrow> nat list" where
  "places zl k = cur_list k @ ready k @ slist k @ zl"

definition switch_ok :: "nat ptr \<Rightarrow> nat ptr \<Rightarrow> nat set \<Rightarrow> bool" where
  "switch_ok c s d \<longleftrightarrow> (if c = NULL then s \<in> Some ` d else s = NULL)"

definition kinvz :: "nat list \<Rightarrow> 'a kthr_scheme \<Rightarrow> bool" where
  "kinvz zl k \<longleftrightarrow> sched_ok k \<and> arrays_ok k \<and> ids_ok k
     \<and> distinct (places zl k) \<and> set (places zl k) = dom (threads k)
     \<and> (\<forall>t th. threads k t = Some th \<longrightarrow> thread_ok th)
     \<and> (\<forall>t \<in> set (ready k) \<union> set (slist k). resumable (pcb_resume (t_pcb (the (threads k t)))))
     \<and> (\<forall>t \<in> set zl. t_vmspace (the (threads k t)) = NULL \<and> t_cwd (the (threads k t)) = NULL)
     \<and> switch_ok (curthread k) (swcur k) (dom (threads k))"

definition live_count :: "'a kthr_scheme \<Rightarrow> int" where
  "live_count k = int (length (cur_list k) + length (ready k) + length (slist k))"

definition kinv :: "'a kthr_scheme \<Rightarrow> bool" where
  "kinv k \<longleftrightarrow> kinvz (zlist k) k \<and> numthreads k = live_count k \<and> 0 \<le> curspl k
     \<and> (curthread k = NULL \<longrightarrow> 0 < curspl k)"

subsection \<open>Updates that keep the invariant\<close>

lemma sched_ok_cong: "runqueue k' = runqueue k \<Longrightarrow> threads k' = threads k \<Longrightarrow> sched_ok k' = sched_ok k"
  using runq_cong [of k' k] by (simp add: sched_ok_def)

lemma kinvz_cong:
  assumes "runqueue k' = runqueue k" "threads k' = threads k" "curthread k' = curthread k"
    "sleepers k' = sleepers k" "zombies k' = zombies k" "process_ids k' = process_ids k" "swcur k' = swcur k"
  shows "kinvz zl k' = kinvz zl k" and "zlist k' = zlist k" and "live_count k' = live_count k"
    and "ready k' = ready k" and "slist k' = slist k" and "idlist k' = idlist k"
  using assms sched_ok_cong [of k' k] runq_cong [of k' k]
  by (simp_all add: kinvz_def arrays_ok_def ids_ok_def places_def cur_list_def slist_def zlist_def
      idlist_def live_count_def)

text \<open>The fields that the invariant does not mention.\<close>

lemma kinvz_frame [simp]:
  "kinvz zl (k\<lparr>klog := l\<rparr>) = kinvz zl k" "kinvz zl (k\<lparr>curspl := s\<rparr>) = kinvz zl k"
  "kinvz zl (k\<lparr>iec := b\<rparr>) = kinvz zl k" "kinvz zl (k\<lparr>in_interrupt := n\<rparr>) = kinvz zl k"
  "kinvz zl (k\<lparr>numthreads := j\<rparr>) = kinvz zl k" "kinvz zl (k\<lparr>kfh := h\<rparr>) = kinvz zl k"
  by (rule kinvz_cong; simp)+

lemma lists_frame [simp]:
  "zlist (k\<lparr>klog := l\<rparr>) = zlist k" "zlist (k\<lparr>curspl := s\<rparr>) = zlist k" "zlist (k\<lparr>iec := b\<rparr>) = zlist k"
  "zlist (k\<lparr>in_interrupt := n\<rparr>) = zlist k" "zlist (k\<lparr>numthreads := j\<rparr>) = zlist k"
  "zlist (k\<lparr>threads := ths\<rparr>) = zlist k" "zlist (k\<lparr>runqueue := qs\<rparr>) = zlist k"
  "zlist (k\<lparr>curthread := c\<rparr>) = zlist k" "zlist (k\<lparr>swcur := c\<rparr>) = zlist k" "zlist (k\<lparr>sleepers := a\<rparr>) = zlist k"
  "slist (k\<lparr>klog := l\<rparr>) = slist k" "slist (k\<lparr>curspl := s\<rparr>) = slist k" "slist (k\<lparr>iec := b\<rparr>) = slist k"
  "slist (k\<lparr>in_interrupt := n\<rparr>) = slist k" "slist (k\<lparr>numthreads := j\<rparr>) = slist k"
  "slist (k\<lparr>threads := ths\<rparr>) = slist k" "slist (k\<lparr>runqueue := qs\<rparr>) = slist k"
  "slist (k\<lparr>curthread := c\<rparr>) = slist k" "slist (k\<lparr>swcur := c\<rparr>) = slist k" "slist (k\<lparr>zombies := a\<rparr>) = slist k"
  "zlist (k\<lparr>kfh := h\<rparr>) = zlist k" "slist (k\<lparr>kfh := h\<rparr>) = slist k"
  "zlist (k\<lparr>process_ids := pq\<rparr>) = zlist k" "slist (k\<lparr>process_ids := pq\<rparr>) = slist k"
  "slist (k\<lparr>sleepers := Some ss\<rparr>) = a_list ss" "zlist (k\<lparr>zombies := Some ss\<rparr>) = a_list ss"
  by (simp_all add: zlist_def slist_def)

lemma ready_frame [simp]:
  "ready (k\<lparr>klog := l\<rparr>) = ready k" "ready (k\<lparr>curspl := s\<rparr>) = ready k" "ready (k\<lparr>iec := b\<rparr>) = ready k"
  "ready (k\<lparr>in_interrupt := n\<rparr>) = ready k" "ready (k\<lparr>numthreads := j\<rparr>) = ready k"
  "ready (k\<lparr>threads := ths\<rparr>) = ready k" "ready (k\<lparr>curthread := c\<rparr>) = ready k" "ready (k\<lparr>swcur := c\<rparr>) = ready k"
  "ready (k\<lparr>sleepers := a\<rparr>) = ready k" "ready (k\<lparr>zombies := a\<rparr>) = ready k" "ready (k\<lparr>process_ids := pq\<rparr>) = ready k"
  "ready (k\<lparr>kfh := h\<rparr>) = ready k"
  by (rule runq_cong [THEN conjunct2]; simp)+

lemma live_count_frame [simp]:
  "live_count (k\<lparr>klog := l\<rparr>) = live_count k" "live_count (k\<lparr>curspl := s\<rparr>) = live_count k"
  "live_count (k\<lparr>iec := b\<rparr>) = live_count k" "live_count (k\<lparr>in_interrupt := n\<rparr>) = live_count k"
  "live_count (k\<lparr>numthreads := j\<rparr>) = live_count k" "live_count (k\<lparr>threads := ths\<rparr>) = live_count k"
  "live_count (k\<lparr>kfh := h\<rparr>) = live_count k" "live_count (k\<lparr>process_ids := pq\<rparr>) = live_count k"
  "live_count (k\<lparr>zombies := a\<rparr>) = live_count k" "live_count (k\<lparr>swcur := c\<rparr>) = live_count k"
  by (simp_all add: live_count_def cur_list_def)

lemma kinvzD:
  assumes "kinvz zl k"
  shows "sched_ok k" "arrays_ok k" "ids_ok k" "distinct (places zl k)" "set (places zl k) = dom (threads k)"
    "threads k t = Some th \<Longrightarrow> thread_ok th"
    "t \<in> set (ready k) \<union> set (slist k) \<Longrightarrow> resumable (pcb_resume (t_pcb (the (threads k t))))"
    "t \<in> set zl \<Longrightarrow> t_vmspace (the (threads k t)) = NULL \<and> t_cwd (the (threads k t)) = NULL"
  using assms by (auto simp: kinvz_def)

text \<open>Changing a thread structure without changing its place.\<close>

lemma sched_ok_thread:
  assumes "sched_ok k" and "threads k t = Some th" and "priority th' = priority th"
  shows "sched_ok (k\<lparr>threads := (threads k)(t \<mapsto> th')\<rparr>)"
proof -
  have "runq (k\<lparr>threads := (threads k)(t \<mapsto> th')\<rparr>) = runq k" by (simp add: runq_def fun_eq_iff)
  moreover have "\<exists>uh. ((threads k)(t \<mapsto> th')) u = Some uh \<and> priority uh = int i"
    if "i < NUM_PRIORITIES" "u \<in> set (runq k i)" for i u
    using sched_okD(3) [OF assms(1) that] assms(2,3) by auto
  ultimately show ?thesis using assms(1) by (simp add: sched_ok_def ready_def)
qed

lemma ids_ok_thread:
  assumes "ids_ok k" and "threads k t = Some th" and "t_id th' = t_id th"
  shows "ids_ok (k\<lparr>threads := (threads k)(t \<mapsto> th')\<rparr>)"
proof -
  have "(\<lambda>u. t_id (the (((threads k)(t \<mapsto> th')) u))) = (\<lambda>u. t_id (the (threads k u)))"
    using assms(2,3) by (simp add: fun_eq_iff)
  moreover have "insert t (dom (threads k)) = dom (threads k)" using assms(2) by auto
  ultimately show ?thesis using assms by (auto simp: ids_ok_def idlist_def)
qed

lemma kinvz_thread:
  assumes inv: "kinvz zl k" and th: "threads k t = Some th"
    and th': "priority th' = priority th" "t_id th' = t_id th" "thread_ok th'"
    and res: "t \<in> set (ready k) \<union> set (slist k) \<Longrightarrow> resumable (pcb_resume (t_pcb th'))"
    and zomb: "t \<in> set zl \<Longrightarrow> t_vmspace th' = NULL \<and> t_cwd th' = NULL"
  shows "kinvz zl (k\<lparr>threads := (threads k)(t \<mapsto> th')\<rparr>)"
proof -
  let ?k = "k\<lparr>threads := (threads k)(t \<mapsto> th')\<rparr>"
  note invd = kinvzD [OF inv]
  have dom: "dom (threads ?k) = dom (threads k)" using th by auto
  have pl: "places zl ?k = places zl k" by (simp add: places_def cur_list_def)
  have "sched_ok ?k" "ids_ok ?k" "arrays_ok ?k"
    using sched_ok_thread [OF invd(1) th th'(1)] ids_ok_thread [OF invd(3) th th'(2)] invd(2)
    by (auto simp: arrays_ok_def)
  moreover have "\<forall>u \<in> set (ready ?k) \<union> set (slist ?k). resumable (pcb_resume (t_pcb (the (threads ?k u))))"
    using invd(7) res by auto
  moreover have "\<forall>u \<in> set zl. t_vmspace (the (threads ?k u)) = NULL \<and> t_cwd (the (threads ?k u)) = NULL"
    using invd(8) zomb by auto
  moreover have "\<forall>u uh. threads ?k u = Some uh \<longrightarrow> thread_ok uh" using invd(6) th'(3) by auto
  ultimately show ?thesis
    using inv dom by (simp add: kinvz_def pl)
qed

lemma kinvz_ft:
  assumes "kinvz zl k" "threads k t = Some th"
  shows "filetable_destroy (t_ft th) h = Some h"
proof -
  from kinvzD(6) [OF assms(1,2)] obtain ft where "t_ft th = Some ft" "array_ok (ft_handles ft)" "slots ft = []"
    by (auto simp: thread_ok_def ft_idle_def)
  then show ?thesis by (simp add: filetable_destroy_def filetable_size_eq)
qed

lemma length_idlist:
  assumes "ids_ok k"
  shows "length (idlist k) \<le> MAX_THREADS"
proof -
  have "length (idlist k) = card (set (idlist k))" using assms by (simp add: ids_ok_def distinct_card)
  also have "\<dots> \<le> card (Some ` {..<MAX_THREADS})" using assms by (intro card_mono) (auto simp: ids_ok_def)
  also have "\<dots> = MAX_THREADS" by (simp add: card_image)
  finally show ?thesis .
qed

text \<open>Disposing of a zombie returns its process id to the queue.\<close>

lemma ids_ok_remove:
  assumes ids: "ids_ok k" and th: "threads k t = Some th" "thread_ok th"
    and q': "queue_ok q'" "q_list q' = idlist k @ [t_id th]" "int MAX_THREADS + 1 < qsize q'"
  shows "ids_ok (k\<lparr>process_ids := Some q', threads := (threads k)(t := None)\<rparr>)"
proof -
  let ?ths = "(threads k)(t := None)"
  have dom: "dom ?ths = dom (threads k) - {t}" by auto
  have inj: "inj_on (\<lambda>u. t_id (the (threads k u))) (dom (threads k))" using ids by (simp add: ids_ok_def)
  have "inj_on (\<lambda>u. t_id (the (?ths u))) (dom ?ths)"
    using inj_on_subset [OF inj, of "dom ?ths"] by (subst inj_on_cong [where g = "\<lambda>u. t_id (the (threads k u))"]) auto
  moreover have "t_id uh \<noteq> t_id th" if "?ths u = Some uh" for u uh
    using inj that th(1) by (auto simp: inj_on_def dom_def split: if_splits)
  moreover have "t_id th \<notin> set (idlist k)" "t_id th \<in> Some ` {..<MAX_THREADS}"
    using ids th by (auto simp: ids_ok_def thread_ok_def)
  ultimately show ?thesis using ids q' by (auto simp: ids_ok_def idlist_def)
qed

lemma kinvz_remove:
  assumes inv: "kinvz (t # zl) k" and th: "threads k t = Some th" and cur: "curthread k \<noteq> NULL"
    and q': "queue_ok q'" "q_list q' = idlist k @ [t_id th]" "int MAX_THREADS + 1 < qsize q'"
  shows "kinvz zl (k\<lparr>process_ids := Some q', threads := (threads k)(t := None)\<rparr>)" (is "kinvz zl ?k")
proof -
  note invd = kinvzD [OF inv]
  have ids: "ids_ok ?k" using ids_ok_remove [OF invd(3) th invd(6) [OF th] q'] .
  have nt: "t \<notin> set (cur_list k @ ready k @ slist k @ zl)" using invd(4) by (auto simp: places_def)
  have "sched_ok ?k"
  proof -
    have "runq ?k = runq k" by (simp add: runq_def fun_eq_iff)
    moreover have "t \<notin> set (runq k i)" if "i < NUM_PRIORITIES" for i using nt that set_ready [of t k] by auto
    ultimately show ?thesis using invd(1) by (fastforce simp: sched_ok_def)
  qed
  moreover have "distinct (places zl ?k)" using invd(4) by (auto simp: places_def cur_list_def)
  moreover have "set (places zl ?k) = dom (threads ?k)"
    using invd(4,5) nt by (auto simp: places_def cur_list_def)
  moreover have "\<forall>u \<in> set (ready k) \<union> set (slist k). resumable (pcb_resume (t_pcb (the (threads ?k u))))"
    using invd(7) nt by auto
  moreover have "\<forall>u \<in> set zl. t_vmspace (the (threads ?k u)) = NULL \<and> t_cwd (the (threads ?k u)) = NULL"
    using invd(8) nt by auto
  ultimately show ?thesis
    using inv ids cur by (auto simp: kinvz_def arrays_ok_def switch_ok_def)
qed

lemma thread_destroy_ok:
  assumes inv: "kinvz (t # zl) k" and cur: "curthread k \<noteq> NULL"
  shows "\<exists>q'. thread_destroy mem t k = Some (k\<lparr>process_ids := Some q', threads := (threads k)(t := None)\<rparr>)
    \<and> kinvz zl (k\<lparr>process_ids := Some q', threads := (threads k)(t := None)\<rparr>)"
proof -
  note invd = kinvzD [OF inv]
  obtain th where th: "threads k t = Some th" using invd(5) by (force simp: places_def)
  have nc: "curthread k \<noteq> Some t" using invd(4) by (auto simp: places_def cur_list_def)
  obtain q where q: "process_ids k = Some q" "queue_ok q" "int MAX_THREADS + 1 < qsize q"
    using invd(3) by (auto simp: ids_ok_def)
  have "qcount q < nat (qsize q) - 1"
    using length_idlist [OF invd(3)] q(1,3) by (simp add: idlist_def)
  from q_addtail_room [OF q(2)] q_push_ok [OF q(2)] this obtain q' where
    q': "q_addtail mem q (t_id th) = Some (Ok (), q')" "queue_ok q'" "q_list q' = q_list q @ [t_id th]"
    "qsize q' = qsize q" by (fastforce simp: q_full_def q_push_def)
  have "thread_destroy mem t k = Some (k\<lparr>process_ids := Some q', threads := (threads k)(t := None)\<rparr>)"
    using nc th q(1) q'(1) kinvz_ft [OF inv th] invd(8) [of t] by (simp add: thread_destroy_def)
  moreover have "kinvz zl (k\<lparr>process_ids := Some q', threads := (threads k)(t := None)\<rparr>)"
    using q q' by (intro kinvz_remove [OF inv th cur]) (simp_all add: idlist_def)
  ultimately show ?thesis by blast
qed

lemma kinvz_zombies: "kinvz zl k \<Longrightarrow> array_ok zs \<Longrightarrow> kinvz zl (k\<lparr>zombies := Some zs\<rparr>)"
  by (auto simp: kinvz_def arrays_ok_def ids_ok_def idlist_def places_def cur_list_def
      sched_ok_cong [of "k\<lparr>zombies := Some zs\<rparr>" k])

lemma destroy_zombies_ok:
  assumes zs: "array_ok zs" and inv: "kinvz (drop n (a_list zs)) k" and cur: "curthread k \<noteq> NULL"
  shows "\<exists>q ths. destroy_zombies mem zs [n..<length (a_list zs)] k = Some (k\<lparr>process_ids := q, threads := ths\<rparr>)
    \<and> kinvz [] (k\<lparr>process_ids := q, threads := ths\<rparr>) \<and> (\<forall>u. u \<notin> set (a_list zs) \<longrightarrow> ths u = threads k u)"
  using inv cur
proof (induction "length (a_list zs) - n" arbitrary: n k)
  case 0
  then show ?case by (intro exI [of _ "process_ids k"] exI [of _ "threads k"]) simp
next
  case (Suc d)
  then have n: "n < length (a_list zs)" by simp
  let ?t = "a_list zs ! n"
  have drop: "drop n (a_list zs) = ?t # drop (Suc n) (a_list zs)" using n by (rule Cons_nth_drop_Suc [symmetric])
  have inv: "kinvz (?t # drop (Suc n) (a_list zs)) k" using Suc.prems(1) unfolding drop .
  from thread_destroy_ok [OF inv Suc.prems(2), of "mem n"] obtain q' where
    q': "thread_destroy (mem n) ?t k = Some (k\<lparr>process_ids := Some q', threads := (threads k)(?t := None)\<rparr>)"
    "kinvz (drop (Suc n) (a_list zs)) (k\<lparr>process_ids := Some q', threads := (threads k)(?t := None)\<rparr>)" by blast
  have nc: "Some ?t \<noteq> curthread k" using kinvzD(4) [OF inv] by (auto simp: places_def cur_list_def)
  have "d = length (a_list zs) - Suc n" using Suc.hyps(2) by simp
  from Suc.hyps(1) [OF this q'(2)] Suc.prems(2) obtain q ths where
    r: "destroy_zombies mem zs [Suc n..<length (a_list zs)]
      (k\<lparr>process_ids := Some q', threads := (threads k)(?t := None)\<rparr>) = Some (k\<lparr>process_ids := q, threads := ths\<rparr>)"
    "kinvz [] (k\<lparr>process_ids := q, threads := ths\<rparr>)"
    "\<forall>u. u \<notin> set (a_list zs) \<longrightarrow> ths u = ((threads k)(?t := None)) u" by auto
  have "array_getguy zs (int n) = Some ?t" using array_getguy_eq [OF zs, of "int n"] n by simp
  moreover have "\<forall>u. u \<notin> set (a_list zs) \<longrightarrow> ths u = threads k u"
    using r(3) nth_mem [OF n] by (auto split: if_splits)
  ultimately show ?case using r(1,2) q'(1) nc n by (auto simp: upt_conv_Cons)
qed

text \<open>
  \<open>follows k k'\<close>: nothing has changed for the threads that wait, nor in the variables of the client.
\<close>

definition follows :: "'a kthr_scheme \<Rightarrow> 'a kthr_scheme \<Rightarrow> bool" where
  "follows k k' \<longleftrightarrow> runqueue k' = runqueue k \<and> sleepers k' = sleepers k \<and> curthread k' = curthread k
     \<and> numthreads k' = numthreads k \<and> kthr.more k' = kthr.more k
     \<and> (\<forall>u \<in> set (slist k). t_sleepaddr (the (threads k' u)) = t_sleepaddr (the (threads k u)))"

lemma follows_lists:
  assumes "follows k k'"
  shows "ready k' = ready k" "slist k' = slist k" "live_count k' = live_count k" "curthread k' = curthread k"
    "numthreads k' = numthreads k" "kthr.more k' = kthr.more k" "sleepers k' = sleepers k" "runqueue k' = runqueue k"
  using assms runq_cong [of k' k] by (auto simp: follows_def slist_def live_count_def cur_list_def)

lemma follows_trans: "follows k1 k2 \<Longrightarrow> follows k2 k3 \<Longrightarrow> follows k1 k3"
  using follows_lists(2) [of k1 k2] by (simp add: follows_def)

lemma follows_refl: "follows k k"
  by (simp add: follows_def)

lemma follows_frame [simp]:
  "follows k (k'\<lparr>klog := l\<rparr>) = follows k k'" "follows k (k'\<lparr>curspl := s\<rparr>) = follows k k'"
  "follows k (k'\<lparr>iec := b\<rparr>) = follows k k'" "follows k (k'\<lparr>in_interrupt := n\<rparr>) = follows k k'"
  "follows k (k'\<lparr>swcur := c\<rparr>) = follows k k'"
  by (simp_all add: follows_def)

lemma exorcise_ok:
  assumes inv: "kinvz (zlist k) k" and cur: "curthread k \<noteq> NULL" and spl: "0 < curspl k"
  shows "\<exists>k'. exorcise mem k = Some k' \<and> kinvz [] k' \<and> zlist k' = [] \<and> follows k k'
    \<and> curspl k' = curspl k \<and> (\<forall>u. u \<notin> set (zlist k) \<longrightarrow> threads k' u = threads k u)"
proof -
  obtain ss zs where arr: "sleepers k = Some ss" "array_ok ss" "zombies k = Some zs" "array_ok zs"
    using kinvzD(2) [OF inv] by (auto simp: arrays_ok_def)
  have zl: "zlist k = a_list zs" by (simp add: zlist_def arr)
  have "kinvz (drop 0 (a_list zs)) k" using inv by (simp add: zl)
  from destroy_zombies_ok [OF arr(4) this cur, of mem] obtain q ths where
    d: "destroy_zombies mem zs [0..<length (a_list zs)] k = Some (k\<lparr>process_ids := q, threads := ths\<rparr>)"
    "kinvz [] (k\<lparr>process_ids := q, threads := ths\<rparr>)" "\<forall>u. u \<notin> set (a_list zs) \<longrightarrow> ths u = threads k u" by blast
  from array_setsize_0 [OF arr(4), of "mem 0"] obtain zs' where
    z: "array_setsize (mem 0) zs 0 = Some (Ok (), zs')" "array_ok zs'" "a_list zs' = []" by blast
  let ?k = "k\<lparr>process_ids := q, threads := ths, zombies := Some zs'\<rparr>"
  have "exorcise mem k = Some ?k"
    using d(1) z(1) spl arr(3) pa.num_eq [OF arr(4)] by (simp add: exorcise_def)
  moreover have "kinvz [] ?k" using kinvz_zombies [OF d(2) z(2)] by simp
  moreover have "follows k ?k"
    using d(3) kinvzD(4) [OF inv] by (auto simp: follows_def places_def zl)
  ultimately show ?thesis using z(3) d(3) zl by (auto simp: zlist_def)
qed

subsection \<open>Switching to the next thread\<close>

lemma as_enter_frame [simp]:
  "kinvz zl (as_enter th k) = kinvz zl k" "zlist (as_enter th k) = zlist k"
  "curspl (as_enter th k) = curspl k" "threads (as_enter th k) = threads k" "curthread (as_enter th k) = curthread k"
  "follows k' (as_enter th k) = follows k' k"
  by (simp_all add: as_enter_def split: option.split)

lemma mi_switch_tail_ok:
  assumes inv: "kinvz (zlist k) k" and cur: "curthread k = Some c" and spl: "0 < curspl k"
  shows "\<exists>k'. mi_switch_tail mem k = Some k' \<and> kinvz [] k' \<and> zlist k' = [] \<and> follows k k'
    \<and> threads k' c = threads k c \<and> curspl k' = curspl k"
proof -
  have cur': "curthread k \<noteq> NULL" using cur by simp
  from exorcise_ok [OF inv cur' spl, of mem] obtain k1 where
    k1: "exorcise mem k = Some k1" "kinvz [] k1" "zlist k1 = []" "follows k k1"
    "\<forall>u. u \<notin> set (zlist k) \<longrightarrow> threads k1 u = threads k u" "curspl k1 = curspl k" by blast
  have c: "c \<notin> set (zlist k)" "c \<in> dom (threads k)"
    using kinvzD(4,5) [OF inv] cur by (auto simp: places_def cur_list_def)
  then obtain th where "threads k1 c = Some th" using k1(5) by auto
  then show ?thesis using k1 c(1) cur follows_lists(4) [OF k1(4)] by (auto simp: mi_switch_tail_def)
qed

lemma resume_thread_ok:
  assumes inv: "kinvz (zlist k) k" and cur: "curthread k = Some c" and spl: "0 < curspl k"
    and res: "resumable (pcb_resume (t_pcb (the (threads k c))))"
  shows "\<exists>k'. resume_thread mem k = Some k' \<and> kinvz (zlist k') k' \<and> follows k k' \<and> 0 \<le> curspl k'"
proof -
  obtain th where th: "threads k c = Some th"
    using kinvzD(5) [OF inv] cur by (force simp: places_def cur_list_def)
  from mi_switch_tail_ok [OF inv cur spl, of mem] obtain k1 where
    k1: "mi_switch_tail mem k = Some k1" "kinvz [] k1" "zlist k1 = []" "follows k k1" "threads k1 c = Some th"
    "curspl k1 = curspl k" using th by auto
  have cs: "c \<notin> set (slist k1)" "c \<notin> set (ready k1)"
    using kinvzD(4) [OF k1(2)] follows_lists(4) [OF k1(4)] cur by (auto simp: places_def cur_list_def)
  show ?thesis
  proof (cases "pcb_resume (t_pcb th)")
    case (Threadstart a b f)
    then have "resume_thread mem k = Some (mi_threadstart th k)" using th cur by (simp add: resume_thread_def)
    then show ?thesis using inv follows_refl [of k] by (simp add: mi_threadstart_def spl0_eq)
  next
    case (In_yield s)
    then show ?thesis using th cur k1 res by (simp add: resume_thread_def splx_eq resumable_def)
  next
    case (In_clock s oi v)
    then show ?thesis using th cur k1 res by (simp add: resume_thread_def splx_eq splhigh_eq resumable_def)
  next
    case In_sleep
    let ?k = "k1\<lparr>threads := (threads k1)(c \<mapsto> th\<lparr>t_sleepaddr := NULL\<rparr>)\<rparr>"
    have "kinvz [] ?k"
      by (rule kinvz_thread [OF k1(2,5)]) (use cs kinvzD(6) [OF k1(2,5)] in \<open>auto simp: thread_ok_def\<close>)
    moreover have "follows k ?k" using k1(4) cs(1) follows_lists(2) [OF k1(4)] by (auto simp: follows_def)
    moreover have "0 \<le> curspl ?k" using k1(6) spl by simp
    ultimately show ?thesis using In_sleep th cur k1 by (simp add: resume_thread_def)
  next
    case In_exit
    then show ?thesis using res th by (simp add: resumable_def)
  qed
qed

lemma kinvz_pick:
  assumes inv: "kinvz zl k" and idle: "curthread k = NULL"
    and i: "i < NUM_PRIORITIES" "runq k i = t # ts" and th: "threads k t = Some th"
    and q: "queue_ok q'" "q_list q' = ts"
    and kp: "kp = k\<lparr>runqueue := (runqueue k)[i := Some q'], threads := (threads k)(t \<mapsto> demote th),
        curthread := Some t, swcur := NULL\<rparr>"
  shows "kinvz zl kp" and "mset (ready k) = add_mset t (mset (ready kp))" and "live_count kp = live_count k"
    and "resumable (pcb_resume (t_pcb (the (threads kp t))))"
proof -
  note invd = kinvzD [OF inv]
  let ?k1 = "k\<lparr>runqueue := (runqueue k)[i := Some q'], threads := (threads k)(t \<mapsto> demote th)\<rparr>"
  note rm = sched_ok_remove [OF invd(1) i q refl, of "demote th"]
  have rk: "ready kp = ready ?k1" using runq_cong [of kp ?k1] by (simp add: kp)
  have sk: "sched_ok kp" using rm(1) sched_ok_cong [of kp ?k1] by (simp add: kp)
  show m: "mset (ready k) = add_mset t (mset (ready kp))" using rm(2) rk by simp
  then have len: "length (ready k) = Suc (length (ready kp))" by (metis size_add_mset size_mset)
  then show "live_count kp = live_count k" using idle by (simp add: live_count_def cur_list_def kp slist_def)
  have t: "t \<in> set (ready k)" using m by (metis union_single_eq_member set_mset_mset)
  show res: "resumable (pcb_resume (t_pcb (the (threads kp t))))" using invd(7) [of t] t th by (simp add: kp)
  have sl: "slist kp = slist k" by (simp add: kp slist_def)
  have perm: "mset (places zl kp) = mset (places zl k)"
    using m idle by (simp add: places_def cur_list_def sl) (simp add: kp)
  then have pl: "distinct (places zl kp)" "set (places zl kp) = set (places zl k)"
    using invd(4) mset_eq_imp_distinct_iff mset_eq_setD by blast+
  have dom: "dom (threads kp) = dom (threads k)" using th by (auto simp: kp)
  have sub: "set (ready kp) \<subseteq> set (ready k)" using m by (metis set_mset_add_mset_insert set_mset_mset subset_insertI)
  have "t \<notin> set zl" "t \<notin> set (slist k)" using invd(4) t by (auto simp: places_def)
  moreover have "ids_ok (k\<lparr>threads := (threads k)(t \<mapsto> demote th)\<rparr>)" by (rule ids_ok_thread [OF invd(3) th]) simp
  moreover have "thread_ok (demote th)" using invd(6) [OF th] by (auto simp: thread_ok_def demote_def NUM_PRIORITIES_def)
  ultimately show "kinvz zl kp"
    using inv sk pl dom sub res by (auto simp: kinvz_def ids_ok_def arrays_ok_def switch_ok_def sl idlist_def kp)
qed

lemma md_switch_ok:
  assumes inv: "kinvz zl (k\<lparr>swcur := NULL\<rparr>)" and t: "curthread k = Some t" and s: "s \<in> dom (threads k)"
  shows "\<exists>k2. md_switch s t k = Some k2 \<and> kinvz zl (k2\<lparr>swcur := NULL\<rparr>) \<and> follows (k\<lparr>swcur := NULL\<rparr>) (k2\<lparr>swcur := NULL\<rparr>)
    \<and> curspl k2 = curspl k \<and> zlist k2 = zlist k
    \<and> pcb_resume (t_pcb (the (threads k2 t))) = pcb_resume (t_pcb (the (threads k t)))"
proof (cases "s = t")
  case True
  then show ?thesis using inv by (simp add: md_switch_def follows_def)
next
  case False
  obtain sh where sh: "threads k s = Some sh" using s by auto
  obtain th where th: "threads k t = Some th" using kinvzD(5) [OF inv] t by (force simp: places_def cur_list_def)
  let ?kp = "k\<lparr>swcur := NULL\<rparr>"
  let ?sh = "sh\<lparr>t_pcb := (t_pcb sh)\<lparr>pcb_ininterrupt := in_interrupt k\<rparr>\<rparr>"
  have shp: "threads ?kp s = Some sh" using sh by simp
  have "kinvz zl (?kp\<lparr>threads := (threads ?kp)(s \<mapsto> ?sh)\<rparr>)"
    by (rule kinvz_thread [OF inv shp])
       (use kinvzD(6) [OF inv shp] kinvzD(7,8) [OF inv, of s] sh in \<open>auto simp: thread_ok_def\<close>)
  moreover let ?k2 = "k\<lparr>threads := (threads k)(s \<mapsto> ?sh), in_interrupt := pcb_ininterrupt (t_pcb th)\<rparr>"
  have "kinvz zl (?k2\<lparr>swcur := NULL\<rparr>) = kinvz zl (?kp\<lparr>threads := (threads ?kp)(s \<mapsto> ?sh)\<rparr>)"
    by (rule kinvz_cong) simp_all
  ultimately have "kinvz zl (?k2\<lparr>swcur := NULL\<rparr>)" by simp
  then show ?thesis using False sh th by (auto simp: md_switch_def follows_def zlist_def)
qed

lemma mi_dispatch_ok:
  assumes inv: "kinvz (zlist k) k" and idle: "curthread k = NULL" and spl: "0 < curspl k"
  shows "\<exists>k'. mi_dispatch mem k = Some k' \<and> kinvz (zlist k') k' \<and> live_count k' = live_count k
    \<and> numthreads k' = numthreads k \<and> sleepers k' = sleepers k \<and> kthr.more k' = kthr.more k \<and> 0 \<le> curspl k'
    \<and> (\<forall>u \<in> set (slist k). t_sleepaddr (the (threads k' u)) = t_sleepaddr (the (threads k u)))
    \<and> (if ready k = [] then k' = k
       else \<exists>t. curthread k' = Some t \<and> mset (ready k) = add_mset t (mset (ready k')))"
proof (cases "ready k = []")
  case True
  have "swcur k \<noteq> NULL" using inv idle by (auto simp: kinvz_def switch_ok_def)
  then obtain s where s: "swcur k = Some s" by blast
  have "scheduler k = Some (NULL, k)" using scheduler_idle [OF kinvzD(1) [OF inv] spl True] .
  then have "mi_dispatch mem k = Some k" using s by (simp add: mi_dispatch_def)
  with True inv spl show ?thesis by simp
next
  case False
  from scheduler_pick [OF kinvzD(1) [OF inv] spl False] obtain i t ts th q' where
    i: "i < NUM_PRIORITIES" "runq k i = t # ts" and th: "threads k t = Some th" and q: "queue_ok q'" "q_list q' = ts"
    and sc: "scheduler k = Some (Some t, k\<lparr>runqueue := (runqueue k)[i := Some q'], threads := (threads k)(t \<mapsto> demote th)\<rparr>)"
    by blast
  define kp where "kp = k\<lparr>runqueue := (runqueue k)[i := Some q'], threads := (threads k)(t \<mapsto> demote th),
        curthread := Some t, swcur := NULL\<rparr>"
  note pick = kinvz_pick [OF inv idle i th q kp_def]
  define k1 where "k1 = k\<lparr>runqueue := (runqueue k)[i := Some q'], threads := (threads k)(t \<mapsto> demote th),
        curthread := Some t\<rparr>"
  obtain s where s: "swcur k = Some s" "s \<in> dom (threads k)" using inv idle by (auto simp: kinvz_def switch_ok_def)
  have zl: "zlist kp = zlist k" by (simp add: kp_def)
  have tsl: "t \<notin> set (slist kp)"
    using kinvzD(4) [OF pick(1)] by (auto simp: places_def cur_list_def) (simp add: kp_def)
  have "kinvz (zlist kp) kp" using pick(1) zl by simp
  moreover have "kp = k1\<lparr>swcur := NULL\<rparr>" by (simp add: kp_def k1_def)
  moreover have "curthread k1 = Some t" "s \<in> dom (threads k1)" using s(2) by (simp_all add: k1_def)
  ultimately obtain k2 where k2: "md_switch s t k1 = Some k2"
    "kinvz (zlist kp) (k2\<lparr>swcur := NULL\<rparr>)" "follows kp (k2\<lparr>swcur := NULL\<rparr>)" "curspl k2 = curspl k1"
    "zlist k2 = zlist k1" "pcb_resume (t_pcb (the (threads k2 t))) = pcb_resume (t_pcb (the (threads k1 t)))"
    using md_switch_ok [of "zlist kp" k1 t s] by blast
  let ?k2 = "k2\<lparr>swcur := NULL\<rparr>"
  have "kinvz (zlist ?k2) ?k2" "curthread ?k2 = Some t" "0 < curspl ?k2"
    using k2 spl follows_lists(4) [OF k2(3)] by (simp_all add: kp_def k1_def)
  moreover have "resumable (pcb_resume (t_pcb (the (threads ?k2 t))))"
    using pick(4) k2(6) by (simp add: kp_def k1_def)
  ultimately obtain k' where
    k': "resume_thread mem ?k2 = Some k'" "kinvz (zlist k') k'" "follows ?k2 k'" "0 \<le> curspl k'"
    using resume_thread_ok by blast
  have f: "follows kp k'" using follows_trans [OF k2(3) k'(3)] .
  have "mi_dispatch mem k = Some k'" using s(1) sc k2(1) k'(1) by (simp add: mi_dispatch_def k1_def)
  moreover have "\<forall>u \<in> set (slist k). t_sleepaddr (the (threads k' u)) = t_sleepaddr (the (threads k u))"
    using f tsl by (auto simp: follows_def kp_def)
  ultimately show ?thesis
    using k' False pick(2,3) follows_lists [OF f] by (auto simp: kp_def)
qed

subsection \<open>Putting the current thread away\<close>

text \<open>A thread changes its place; its structure may change with it.\<close>

lemma kinvz_move:
  assumes inv: "kinvz zl k" and th: "threads k c = Some th"
    and th': "threads k2 = (threads k)(c \<mapsto> th')" "t_id th' = t_id th" "thread_ok th'"
    and parts: "sched_ok k2" "arrays_ok k2" "process_ids k2 = process_ids k"
      "switch_ok (curthread k2) (swcur k2) (dom (threads k))"
    and perm: "mset (places zl2 k2) = mset (places zl k)"
    and wait: "set (ready k2) \<union> set (slist k2) \<subseteq> insert c (set (ready k) \<union> set (slist k))"
      "c \<in> set (ready k2) \<union> set (slist k2) \<Longrightarrow> resumable (pcb_resume (t_pcb th'))"
    and zomb: "set zl2 \<subseteq> insert c (set zl)" "c \<in> set zl2 \<Longrightarrow> t_vmspace th' = NULL \<and> t_cwd th' = NULL"
  shows "kinvz zl2 k2"
proof -
  note invd = kinvzD [OF inv]
  have dom: "dom (threads k2) = dom (threads k)" using th th'(1) by auto
  have pl: "distinct (places zl2 k2)" "set (places zl2 k2) = dom (threads k2)"
    using invd(4,5) mset_eq_imp_distinct_iff [OF perm] mset_eq_setD [OF perm] dom by auto
  have "ids_ok (k\<lparr>threads := (threads k)(c \<mapsto> th')\<rparr>)" by (rule ids_ok_thread [OF invd(3) th th'(2)])
  then have "ids_ok k2" using parts(3) th'(1) by (simp add: ids_ok_def idlist_def)
  moreover have "\<forall>t uh. threads k2 t = Some uh \<longrightarrow> thread_ok uh" using invd(6) th' by auto
  moreover have "\<forall>t \<in> set (ready k2) \<union> set (slist k2). resumable (pcb_resume (t_pcb (the (threads k2 t))))"
    using invd(7) wait th'(1) by auto
  moreover have "\<forall>t \<in> set zl2. t_vmspace (the (threads k2 t)) = NULL \<and> t_cwd (the (threads k2 t)) = NULL"
    using invd(8) zomb th'(1) by auto
  ultimately show ?thesis using parts pl dom by (simp add: kinvz_def)
qed

lemma card_threads:
  assumes "kinvz zl k"
  shows "length (places zl k) \<le> MAX_THREADS"
proof -
  note invd = kinvzD [OF assms]
  have "(\<lambda>t. t_id (the (threads k t))) ` dom (threads k) \<subseteq> Some ` {..<MAX_THREADS}"
    using invd(6) by (fastforce simp: thread_ok_def)
  from card_inj_on_le [OF _ this] have "card (dom (threads k)) \<le> card (Some ` {..<MAX_THREADS})"
    using invd(3) by (simp add: ids_ok_def)
  then show ?thesis using distinct_card [OF invd(4)] invd(5) by (simp add: card_image)
qed

definition mem_all :: "(nat \<Rightarrow> bool) \<Rightarrow> bool" where
  "mem_all mem \<longleftrightarrow> (\<forall>n. mem n)"

text \<open>Enough room in the run queues for all threads, or memory to make it.\<close>

definition run_room :: "(nat \<Rightarrow> bool) \<Rightarrow> 'a kthr_scheme \<Rightarrow> bool" where
  "run_room mem k \<longleftrightarrow> mem_all mem \<or> (\<forall>i < NUM_PRIORITIES. live_count k < qsize (the (runqueue k ! i)))"

definition array_room :: "(nat \<Rightarrow> bool) \<Rightarrow> nat parray ptr \<Rightarrow> bool" where
  "array_room mem p \<longleftrightarrow> mem_all mem \<or> anum (the p) < amax (the p)"

lemma make_runnable_ok:
  assumes ok: "sched_ok k" and spl: "0 < curspl k" and th: "threads k t = Some th" "thread_ok th"
    and t: "t \<notin> set (ready k)" and small: "length (ready k) < MAX_THREADS"
    and room: "mem_all mem \<or> (\<forall>i < NUM_PRIORITIES. int (length (ready k)) + 1 < qsize (the (runqueue k ! i)))"
  shows "\<exists>qs. make_runnable mem t k = Some (Ok (), k\<lparr>runqueue := qs\<rparr>) \<and> sched_ok (k\<lparr>runqueue := qs\<rparr>)
    \<and> mset (ready (k\<lparr>runqueue := qs\<rparr>)) = add_mset t (mset (ready k))
    \<and> (\<forall>i < NUM_PRIORITIES. qsize (the (runqueue k ! i)) \<le> qsize (the (qs ! i)))"
proof -
  obtain i where i: "priority th = int i" "i < NUM_PRIORITIES"
    using th(2) by (metis nonneg_int_cases of_nat_less_iff thread_ok_def)
  have len: "length (runq k i) \<le> length (ready k)" by (rule length_runq_le [OF i(2)])
  then have "length (runq k i) < 2 ^ 28" using small by (simp add: MAX_THREADS_def)
  moreover have "\<not> (q_full (the (runqueue k ! i)) \<and> (\<exists>n. \<not> mem n))"
    using room i(2) len by (auto simp: mem_all_def q_full_def runq_def)
  ultimately obtain q' where m: "make_runnable mem t k = Some (Ok (), k\<lparr>runqueue := (runqueue k)[i := Some q']\<rparr>)"
    "queue_ok q'" "q_list q' = runq k i @ [t]" "qsize (the (runqueue k ! i)) \<le> qsize q'"
    using make_runnable_cases [OF ok spl th(1) i, of mem] by blast
  note add = sched_ok_add [OF ok th(1) i t m(2,3) refl]
  have "\<forall>j < NUM_PRIORITIES. qsize (the (runqueue k ! j)) \<le> qsize (the ((runqueue k)[i := Some q'] ! j))"
  proof (intro allI impI)
    fix j assume "j < NUM_PRIORITIES"
    then show "qsize (the (runqueue k ! j)) \<le> qsize (the ((runqueue k)[i := Some q'] ! j))"
      using m(4) sched_okD(1) [OF ok] by (cases "j = i") (simp_all add: queues_ok_def)
  qed
  then show ?thesis using m(1) add(1,2) by blast
qed

lemma array_add_ok:
  assumes "array_ok a" and "length (a_list a) < MAX_THREADS" and "array_room mem (Some a)"
  shows "\<exists>a'. array_add mem a t = Some (Ok (), a') \<and> array_ok a' \<and> a_list a' = a_list a @ [t]"
proof -
  have "length (a_list a) < 2 ^ 28" using assms(2) by (simp add: MAX_THREADS_def)
  then show ?thesis
    using pa.add_grow [OF assms(1), of mem t] array_add_fails [of mem a t ENOMEM a]
      array_add_room [OF assms(1), of mem t] assms(3)
    by (auto simp: array_room_def mem_all_def)
qed

text \<open>
  The state of \<^verbatim>\<open>mi_switch\<close> between \<^verbatim>\<open>curthread = NULL\<close> and the scheduler. \<open>parked k c th' k2\<close>: thread
  \<open>c\<close> of \<open>k\<close> has been put away, with structure \<open>th'\<close>.
\<close>

definition parked :: "'a kthr_scheme \<Rightarrow> nat \<Rightarrow> thread \<Rightarrow> 'a kthr_scheme \<Rightarrow> bool" where
  "parked k c th' k2 \<longleftrightarrow> kinvz (zlist k2) k2 \<and> curthread k2 = NULL \<and> curspl k2 = curspl k
     \<and> numthreads k2 = numthreads k \<and> kthr.more k2 = kthr.more k \<and> threads k2 = (threads k)(c \<mapsto> th')"

definition leaving :: "nat \<Rightarrow> thread \<Rightarrow> 'a kthr_scheme \<Rightarrow> 'a kthr_scheme" where
  "leaving c th' k = k\<lparr>threads := (threads k)(c \<mapsto> th'), curthread := NULL, swcur := Some c\<rparr>"

lemma leaving_simps [simp]:
  "threads (leaving c th' k) = (threads k)(c \<mapsto> th')" "curthread (leaving c th' k) = NULL"
  "swcur (leaving c th' k) = Some c" "runqueue (leaving c th' k) = runqueue k" "sleepers (leaving c th' k) = sleepers k"
  "zombies (leaving c th' k) = zombies k" "process_ids (leaving c th' k) = process_ids k"
  "curspl (leaving c th' k) = curspl k" "numthreads (leaving c th' k) = numthreads k"
  "kthr.more (leaving c th' k) = kthr.more k" "ready (leaving c th' k) = ready k"
  "slist (leaving c th' k) = slist k" "zlist (leaving c th' k) = zlist k"
  by (simp_all add: leaving_def)

lemma leaving_ok:
  assumes inv: "kinvz zl k" and cur: "curthread k = Some c" and th: "threads k c = Some th"
    and th': "priority th' = priority th"
  shows "sched_ok (leaving c th' k)" "c \<notin> set (ready k)" "c \<notin> set (slist k)" "c \<notin> set zl"
    "length (ready k) < MAX_THREADS" "length (slist k) < MAX_THREADS" "length zl < MAX_THREADS"
proof -
  note invd = kinvzD [OF inv]
  show "sched_ok (leaving c th' k)"
    using sched_ok_thread [OF invd(1) th th'] sched_ok_cong [of "leaving c th' k" "k\<lparr>threads := (threads k)(c \<mapsto> th')\<rparr>"]
    by simp
  show "c \<notin> set (ready k)" "c \<notin> set (slist k)" "c \<notin> set zl"
    using invd(4) cur by (auto simp: places_def cur_list_def)
  show "length (ready k) < MAX_THREADS" "length (slist k) < MAX_THREADS" "length zl < MAX_THREADS"
    using card_threads [OF inv] cur by (simp_all add: places_def cur_list_def)
qed

lemma stash_ready:
  assumes inv: "kinvz (zlist k) k" and cur: "curthread k = Some c" and th: "threads k c = Some th"
    and th': "priority th' = priority th" "t_id th' = t_id th" "thread_ok th'" "resumable (pcb_resume (t_pcb th'))"
    and spl: "0 < curspl k" and room: "run_room mem k"
  shows "\<exists>k2. mi_stash mem S_READY c (leaving c th' k) = Some (Ok (), k2) \<and> parked k c th' k2
    \<and> mset (ready k2) = add_mset c (mset (ready k)) \<and> sleepers k2 = sleepers k \<and> live_count k2 = live_count k"
proof -
  note l = leaving_ok [OF inv cur th th'(1)]
  have "mem_all mem \<or> (\<forall>i < NUM_PRIORITIES. int (length (ready (leaving c th' k))) + 1 < qsize (the (runqueue (leaving c th' k) ! i)))"
    using room cur by (fastforce simp: run_room_def live_count_def cur_list_def)
  then obtain qs where m: "make_runnable mem c (leaving c th' k) = Some (Ok (), (leaving c th' k)\<lparr>runqueue := qs\<rparr>)"
    "sched_ok ((leaving c th' k)\<lparr>runqueue := qs\<rparr>)"
    "mset (ready ((leaving c th' k)\<lparr>runqueue := qs\<rparr>)) = add_mset c (mset (ready k))"
    using make_runnable_ok [OF l(1) _ _ th'(3), of c mem] l(2,5) spl by auto
  let ?k2 = "(leaving c th' k)\<lparr>runqueue := qs\<rparr>"
  have len: "length (ready ?k2) = Suc (length (ready k))" using m(3) by (metis size_add_mset size_mset)
  have set: "set (ready ?k2) = insert c (set (ready k))" using m(3) by (metis set_mset_add_mset_insert set_mset_mset)
  have "kinvz (zlist ?k2) ?k2"
  proof (rule kinvz_move [OF inv th _ th'(2,3) m(2)])
    show "mset (places (zlist ?k2) ?k2) = mset (places (zlist k) k)"
      using m(3) cur by (simp add: places_def cur_list_def)
    show "arrays_ok ?k2" using kinvzD(2) [OF inv] by (simp add: arrays_ok_def)
    show "switch_ok (curthread ?k2) (swcur ?k2) (dom (threads k))" using th by (auto simp: switch_ok_def)
  qed (use set th'(4) l(4) in auto)
  then have "parked k c th' ?k2" by (simp add: parked_def)
  moreover have "live_count ?k2 = live_count k" using len cur by (simp add: live_count_def cur_list_def)
  ultimately show ?thesis using m(1,3) by (simp add: mi_stash_def)
qed

lemma stash_sleep:
  assumes inv: "kinvz (zlist k) k" and cur: "curthread k = Some c" and th: "threads k c = Some th"
    and th': "priority th' = priority th" "t_id th' = t_id th" "thread_ok th'" "resumable (pcb_resume (t_pcb th'))"
    and room: "array_room mem (sleepers k)"
  shows "\<exists>k2. mi_stash mem S_SLEEP c (leaving c th' k) = Some (Ok (), k2) \<and> parked k c th' k2
    \<and> slist k2 = slist k @ [c] \<and> runqueue k2 = runqueue k \<and> live_count k2 = live_count k"
proof -
  note l = leaving_ok [OF inv cur th th'(1)]
  obtain ss zs where arr: "sleepers k = Some ss" "array_ok ss" "zombies k = Some zs" "array_ok zs"
    using kinvzD(2) [OF inv] by (auto simp: arrays_ok_def)
  obtain ss' where a: "array_add mem ss c = Some (Ok (), ss')" "array_ok ss'" "a_list ss' = slist k @ [c]"
    using array_add_ok [OF arr(2), of mem c] l(6) room arr(1) by (auto simp: slist_def)
  let ?k2 = "(leaving c th' k)\<lparr>sleepers := Some ss'\<rparr>"
  have "kinvz (zlist ?k2) ?k2"
  proof (rule kinvz_move [OF inv th _ th'(2,3)])
    show "sched_ok ?k2" using l(1) sched_ok_cong [of ?k2 "leaving c th' k"] by simp
    show "mset (places (zlist ?k2) ?k2) = mset (places (zlist k) k)"
      using a(3) cur by (simp add: places_def cur_list_def)
    show "arrays_ok ?k2" using arr a(2) by (simp add: arrays_ok_def)
    show "switch_ok (curthread ?k2) (swcur ?k2) (dom (threads k))" using th by (auto simp: switch_ok_def)
  qed (use a(3) th'(4) l(4) in auto)
  then have "parked k c th' ?k2" by (simp add: parked_def)
  moreover have "live_count ?k2 = live_count k" using a(3) cur by (simp add: live_count_def cur_list_def)
  ultimately show ?thesis using a arr by (simp add: mi_stash_def)
qed

lemma stash_zombie:
  assumes inv: "kinvz (zlist k) k" and cur: "curthread k = Some c" and th: "threads k c = Some th"
    and th': "priority th' = priority th" "t_id th' = t_id th" "thread_ok th'" "t_vmspace th' = NULL" "t_cwd th' = NULL"
    and room: "array_room mem (zombies k)"
  shows "\<exists>k2. mi_stash mem S_ZOMB c (leaving c th' k) = Some (Ok (), k2) \<and> parked k c th' k2
    \<and> zlist k2 = zlist k @ [c] \<and> runqueue k2 = runqueue k \<and> sleepers k2 = sleepers k \<and> live_count k2 = live_count k - 1"
proof -
  note l = leaving_ok [OF inv cur th th'(1)]
  obtain ss zs where arr: "sleepers k = Some ss" "array_ok ss" "zombies k = Some zs" "array_ok zs"
    using kinvzD(2) [OF inv] by (auto simp: arrays_ok_def)
  obtain zs' where a: "array_add mem zs c = Some (Ok (), zs')" "array_ok zs'" "a_list zs' = zlist k @ [c]"
    using array_add_ok [OF arr(4), of mem c] l(7) room arr(3) by (auto simp: zlist_def)
  let ?k2 = "(leaving c th' k)\<lparr>zombies := Some zs'\<rparr>"
  have "kinvz (zlist ?k2) ?k2"
  proof (rule kinvz_move [OF inv th _ th'(2,3)])
    show "sched_ok ?k2" using l(1) sched_ok_cong [of ?k2 "leaving c th' k"] by simp
    show "mset (places (zlist ?k2) ?k2) = mset (places (zlist k) k)"
      using a(3) cur by (simp add: places_def cur_list_def)
    show "arrays_ok ?k2" using arr a(2) by (simp add: arrays_ok_def)
    show "switch_ok (curthread ?k2) (swcur ?k2) (dom (threads k))" using th by (auto simp: switch_ok_def)
  qed (use a(3) th'(4,5) l(2,3) in auto)
  then have "parked k c th' ?k2" by (simp add: parked_def)
  moreover have "live_count ?k2 = live_count k - 1" using cur by (simp add: live_count_def cur_list_def)
  ultimately show ?thesis using a arr by (simp add: mi_stash_def)
qed

text \<open>What holds after a thread has been put away and the processor goes on.\<close>

definition went_on :: "'a kthr_scheme \<Rightarrow> 'a kthr_scheme \<Rightarrow> bool" where
  "went_on k2 k' \<longleftrightarrow> kinvz (zlist k') k' \<and> live_count k' = live_count k2 \<and> numthreads k' = numthreads k2
    \<and> sleepers k' = sleepers k2 \<and> kthr.more k' = kthr.more k2 \<and> 0 \<le> curspl k'
    \<and> (\<forall>u \<in> set (slist k2). t_sleepaddr (the (threads k' u)) = t_sleepaddr (the (threads k2 u)))
    \<and> (if ready k2 = [] then k' = k2
       else \<exists>t. curthread k' = Some t \<and> mset (ready k2) = add_mset t (mset (ready k')))"

lemma mi_switch_eq:
  assumes inv: "kinvz (zlist k) k" and spl: "0 < curspl k" and cur: "curthread k = Some c" and th: "threads k c = Some th"
    and th': "th' = th\<lparr>t_pcb := (t_pcb th)\<lparr>pcb_resume := res\<rparr>\<rparr>"
    and st: "mi_stash mem ns c (leaving c th' k) = Some (Ok (), k2)" "parked k c th' k2"
  shows "\<exists>k'. mi_switch mem emem ns res k = Some k' \<and> went_on k2 k'"
proof -
  have "kinvz (zlist k2) k2" "curthread k2 = NULL" "0 < curspl k2" using st(2) spl by (auto simp: parked_def)
  from mi_dispatch_ok [OF this, of emem] obtain k' where k': "mi_dispatch emem k2 = Some k'" "went_on k2 k'"
    unfolding went_on_def by blast
  have "stack_check (t_stack th)" using kinvzD(6) [OF inv th] by (simp add: thread_ok_def)
  then have "mi_switch mem emem ns res k = Some k'"
    using spl cur th st(1) k'(1) th' by (simp add: mi_switch_def leaving_def)
  with k'(2) show ?thesis by blast
qed

lemma current_thread:
  assumes "kinvz zl k" and "curthread k = Some c"
  obtains th where "threads k c = Some th" "thread_ok th"
proof -
  have "c \<in> dom (threads k)" using kinvzD(5) [OF assms(1)] assms(2) by (force simp: places_def cur_list_def)
  then obtain th where "threads k c = Some th" by auto
  then show ?thesis using that kinvzD(6) [OF assms(1)] by blast
qed

lemma went_on_kinv:
  assumes "parked k1 c th' k2" and "went_on k2 k'" and "0 < curspl k1" and "numthreads k1 = live_count k2"
  shows "kinv k'"
proof (cases "ready k2 = []")
  case True
  then show ?thesis using assms by (simp add: kinv_def went_on_def parked_def)
next
  case False
  then show ?thesis using assms by (auto simp: kinv_def went_on_def parked_def)
qed

lemma thread_yield_ok:
  assumes inv: "kinv k" and cur: "curthread k = Some c" and room: "run_room mem k"
  shows "\<exists>k' t. thread_yield mem emem k = Some k' \<and> kinv k' \<and> curthread k' = Some t
    \<and> mset (t # ready k') = mset (c # ready k) \<and> sleepers k' = sleepers k \<and> kthr.more k' = kthr.more k
    \<and> (\<forall>u \<in> set (slist k). t_sleepaddr (the (threads k' u)) = t_sleepaddr (the (threads k u)))"
proof -
  define k1 where "k1 = k\<lparr>iec := False, curspl := 15\<rparr>"
  have kz: "kinvz (zlist k) k" "numthreads k = live_count k" "0 \<le> curspl k" using inv by (simp_all add: kinv_def)
  obtain th where th: "threads k c = Some th" "thread_ok th" using current_thread [OF kz(1) cur] .
  define th' where "th' = th\<lparr>t_pcb := (t_pcb th)\<lparr>pcb_resume := In_yield (curspl k)\<rparr>\<rparr>"
  have k1: "kinvz (zlist k1) k1" "curthread k1 = Some c" "threads k1 c = Some th" "0 < curspl k1" "run_room mem k1"
    using kz cur th room by (simp_all add: k1_def run_room_def)
  have th'_ok: "priority th' = priority th" "t_id th' = t_id th" "thread_ok th'" "resumable (pcb_resume (t_pcb th'))"
    using th(2) kz(3) by (simp_all add: th'_def thread_ok_def resumable_def)
  from stash_ready [OF k1(1-3) th'_ok k1(4,5)] obtain k2 where
    k2: "mi_stash mem S_READY c (leaving c th' k1) = Some (Ok (), k2)" "parked k1 c th' k2"
    "mset (ready k2) = add_mset c (mset (ready k1))" "sleepers k2 = sleepers k1" "live_count k2 = live_count k1" by blast
  from mi_switch_eq [OF k1(1,4,2,3) th'_def k2(1,2), of emem] obtain k' where
    k': "mi_switch mem emem S_READY (In_yield (curspl k)) k1 = Some k'" "went_on k2 k'" by blast
  have "ready k2 \<noteq> []" using k2(3) by auto
  with k'(2) k2 obtain t where "curthread k' = Some t" "mset (t # ready k') = mset (c # ready k)"
    by (auto simp: went_on_def k1_def)
  moreover have "thread_yield mem emem k = Some k'"
    using k'(1) k1(2) kinvzD(2) [OF kz(1)] by (auto simp: thread_yield_def splhigh_eq k1_def arrays_ok_def)
  moreover have "kinv k'"
    by (rule went_on_kinv [OF k2(2) k'(2) k1(4)]) (use k2(5) kz(2) in \<open>simp add: k1_def\<close>)
  moreover have "c \<notin> set (slist k)" using kinvzD(4) [OF kz(1)] cur by (auto simp: places_def cur_list_def)
  ultimately show ?thesis using k'(2) k2 by (auto simp: went_on_def parked_def k1_def slist_def)
qed

lemma thread_sleep_ok:
  assumes inv: "kinv k" and cur: "curthread k = Some c" and spl: "0 < curspl k" and irq: "in_interrupt k = 0"
    and room: "array_room mem (sleepers k)"
  shows "\<exists>k'. thread_sleep mem emem addr k = Some k' \<and> kinv k' \<and> slist k' = slist k @ [c]
    \<and> t_sleepaddr (the (threads k' c)) = Some addr \<and> kthr.more k' = kthr.more k
    \<and> (\<forall>u \<in> set (slist k). t_sleepaddr (the (threads k' u)) = t_sleepaddr (the (threads k u)))
    \<and> (if ready k = [] then curthread k' = NULL \<and> ready k' = []
       else \<exists>t. curthread k' = Some t \<and> mset (ready k) = add_mset t (mset (ready k')))"
proof -
  have kz: "kinvz (zlist k) k" "numthreads k = live_count k" using inv by (simp_all add: kinv_def)
  obtain th0 where th0: "threads k c = Some th0" "thread_ok th0" using current_thread [OF kz(1) cur] .
  define th where "th = th0\<lparr>t_sleepaddr := Some addr\<rparr>"
  define k1 where "k1 = k\<lparr>threads := (threads k)(c \<mapsto> th)\<rparr>"
  have nc: "c \<notin> set (ready k)" "c \<notin> set (slist k)" "c \<notin> set (zlist k)"
    using kinvzD(4) [OF kz(1)] cur by (auto simp: places_def cur_list_def)
  have "kinvz (zlist k) k1" unfolding k1_def
    by (rule kinvz_thread [OF kz(1) th0(1)]) (use th0(2) nc in \<open>auto simp: th_def thread_ok_def\<close>)
  then have k1: "kinvz (zlist k1) k1" "curthread k1 = Some c" "threads k1 c = Some th" "0 < curspl k1"
    "array_room mem (sleepers k1)" using cur spl room by (simp_all add: k1_def)
  define th' where "th' = th\<lparr>t_pcb := (t_pcb th)\<lparr>pcb_resume := In_sleep\<rparr>\<rparr>"
  have th'_ok: "priority th' = priority th" "t_id th' = t_id th" "thread_ok th'" "resumable (pcb_resume (t_pcb th'))"
    using th0(2) by (simp_all add: th'_def th_def thread_ok_def resumable_def)
  from stash_sleep [OF k1(1-3) th'_ok k1(5)] obtain k2 where
    k2: "mi_stash mem S_SLEEP c (leaving c th' k1) = Some (Ok (), k2)" "parked k1 c th' k2"
    "slist k2 = slist k1 @ [c]" "runqueue k2 = runqueue k1" "live_count k2 = live_count k1" by blast
  from mi_switch_eq [OF k1(1,4,2,3) th'_def k2(1,2), of emem] obtain k' where
    k': "mi_switch mem emem S_SLEEP In_sleep k1 = Some k'" "went_on k2 k'" by blast
  have "thread_sleep mem emem addr k = Some k'"
    using k'(1) irq cur th0(1) by (simp add: thread_sleep_def k1_def th_def)
  moreover have "kinv k'"
    by (rule went_on_kinv [OF k2(2) k'(2) k1(4)]) (use k2(5) kz(2) in \<open>simp add: k1_def\<close>)
  moreover have "ready k2 = ready k" using runq_cong [of k2 k] k2(4) by (simp add: k1_def)
  moreover have "threads k2 = (threads k)(c \<mapsto> th')" using k2(2) by (simp add: parked_def k1_def)
  moreover have "t_sleepaddr th' = Some addr" by (simp add: th'_def th_def)
  ultimately show ?thesis
    using k'(2) k2 nc(2) by (auto simp: went_on_def parked_def k1_def slist_def split: if_splits)
qed

lemma thread_exit_eq:
  assumes "curthread k = Some c" and "threads k c = Some th" and "stack_check (t_stack th)" and "0 < numthreads k"
  shows "\<exists>l. thread_exit mem emem k = mi_switch mem emem S_ZOMB In_exit
    (k\<lparr>iec := False, curspl := 15, threads := (threads k)(c \<mapsto> th\<lparr>t_vmspace := NULL, t_cwd := NULL\<rparr>),
       klog := l, numthreads := numthreads k - 1\<rparr>)"
proof -
  have both: "t_vmspace th = NULL \<Longrightarrow> t_cwd th = NULL \<Longrightarrow>
      (threads k)(c \<mapsto> th\<lparr>t_vmspace := NULL, t_cwd := NULL\<rparr>) = threads k"
    using assms(2) by (cases th) auto
  show ?thesis
  proof (cases "t_vmspace th"; cases "t_cwd th")
    assume "t_vmspace th = NULL" "t_cwd th = NULL"
    then show ?thesis using assms both
      by (intro exI [of _ "klog k"]) (simp add: thread_exit_def splhigh_eq)
  next
    fix v assume "t_vmspace th = NULL" "t_cwd th = Some v"
    then show ?thesis using assms
      by (intro exI [of _ "klog k @ [Vop_decref v]"]) (cases th; simp add: thread_exit_def splhigh_eq)
  next
    fix as assume "t_vmspace th = Some as" "t_cwd th = NULL"
    then show ?thesis using assms
      by (intro exI [of _ "klog k @ [As_destroy as]"]) (cases th; simp add: thread_exit_def splhigh_eq)
  next
    fix as v assume "t_vmspace th = Some as" "t_cwd th = Some v"
    then show ?thesis using assms
      by (intro exI [of _ "klog k @ [As_destroy as, Vop_decref v]"]) (simp add: thread_exit_def splhigh_eq)
  qed
qed

lemma thread_exit_ok:
  assumes inv: "kinv k" and cur: "curthread k = Some c" and room: "array_room mem (zombies k)"
  shows "\<exists>k'. thread_exit mem emem k = Some k' \<and> kinv k' \<and> numthreads k' = numthreads k - 1
    \<and> sleepers k' = sleepers k \<and> kthr.more k' = kthr.more k
    \<and> (\<forall>u \<in> set (slist k). t_sleepaddr (the (threads k' u)) = t_sleepaddr (the (threads k u)))
    \<and> (if ready k = [] then curthread k' = NULL \<and> ready k' = []
       else \<exists>t. curthread k' = Some t \<and> mset (ready k) = add_mset t (mset (ready k')))"
proof -
  have kz: "kinvz (zlist k) k" "numthreads k = live_count k" using inv by (simp_all add: kinv_def)
  obtain th0 where th0: "threads k c = Some th0" "thread_ok th0" using current_thread [OF kz(1) cur] .
  have n: "0 < numthreads k" using kz(2) cur by (simp add: live_count_def cur_list_def)
  have st: "stack_check (t_stack th0)" using th0(2) by (simp add: thread_ok_def)
  define th where "th = th0\<lparr>t_vmspace := NULL, t_cwd := NULL\<rparr>"
  from thread_exit_eq [OF cur th0(1) st n] obtain l where
    e: "thread_exit mem emem k = mi_switch mem emem S_ZOMB In_exit (k\<lparr>iec := False, curspl := 15,
      threads := (threads k)(c \<mapsto> th), klog := l, numthreads := numthreads k - 1\<rparr>)" unfolding th_def by blast
  define k1 where "k1 = k\<lparr>iec := False, curspl := 15, threads := (threads k)(c \<mapsto> th), klog := l, numthreads := numthreads k - 1\<rparr>"
  have nc: "c \<notin> set (ready k)" "c \<notin> set (slist k)" "c \<notin> set (zlist k)"
    using kinvzD(4) [OF kz(1)] cur by (auto simp: places_def cur_list_def)
  have "kinvz (zlist k) (k\<lparr>threads := (threads k)(c \<mapsto> th)\<rparr>)"
    by (rule kinvz_thread [OF kz(1) th0(1)]) (use th0(2) nc in \<open>auto simp: th_def thread_ok_def\<close>)
  then have "kinvz (zlist k) k1" using kinvz_cong(1) [of k1 "k\<lparr>threads := (threads k)(c \<mapsto> th)\<rparr>"] by (simp add: k1_def)
  then have k1: "kinvz (zlist k1) k1" "curthread k1 = Some c" "threads k1 c = Some th" "0 < curspl k1"
    "array_room mem (zombies k1)" using cur room by (simp_all add: k1_def zlist_def)
  define th' where "th' = th\<lparr>t_pcb := (t_pcb th)\<lparr>pcb_resume := In_exit\<rparr>\<rparr>"
  have th'_ok: "priority th' = priority th" "t_id th' = t_id th" "thread_ok th'" "t_vmspace th' = NULL" "t_cwd th' = NULL"
    using th0(2) by (simp_all add: th'_def th_def thread_ok_def)
  from stash_zombie [OF k1(1-3) th'_ok k1(5)] obtain k2 where
    k2: "mi_stash mem S_ZOMB c (leaving c th' k1) = Some (Ok (), k2)" "parked k1 c th' k2"
    "runqueue k2 = runqueue k1" "sleepers k2 = sleepers k1" "live_count k2 = live_count k1 - 1" by blast
  from mi_switch_eq [OF k1(1,4,2,3) th'_def k2(1,2), of emem] obtain k' where
    k': "mi_switch mem emem S_ZOMB In_exit k1 = Some k'" "went_on k2 k'" by blast
  have "live_count k1 = live_count k" using runq_cong [of k1 k] by (simp add: live_count_def cur_list_def k1_def slist_def)
  then have "kinv k'"
    by (intro went_on_kinv [OF k2(2) k'(2) k1(4)]) (use k2(5) kz(2) in \<open>simp add: k1_def\<close>)
  moreover have "ready k2 = ready k" using runq_cong [of k2 k] k2(3) by (simp add: k1_def)
  moreover have "threads k2 = (threads k)(c \<mapsto> th')" using k2(2) by (simp add: parked_def k1_def)
  ultimately show ?thesis
    using k'(2) k2 nc(2) e k'(1) by (auto simp: went_on_def parked_def k1_def slist_def split: if_splits)
qed

text \<open>The loop of \<^verbatim>\<open>thread_wakeup\<close>: those before index \<open>i\<close> stay, of the rest the ones that sleep on \<open>addr\<close> go.\<close>

definition asleep_on :: "'a kthr_scheme \<Rightarrow> nat \<Rightarrow> nat \<Rightarrow> bool" where
  "asleep_on k addr t \<longleftrightarrow> t_sleepaddr (the (threads k t)) = Some addr"

definition wake_room :: "(nat \<Rightarrow> nat \<Rightarrow> bool) \<Rightarrow> 'a kthr_scheme \<Rightarrow> bool" where
  "wake_room mem k \<longleftrightarrow> (\<forall>n. mem_all (mem n)) \<or> (\<forall>i < NUM_PRIORITIES. live_count k < qsize (the (runqueue k ! i)))"

definition woke :: "'a kthr_scheme \<Rightarrow> 'a kthr_scheme \<Rightarrow> bool" where
  "woke k k1 \<longleftrightarrow> kinvz (zlist k1) k1 \<and> curspl k1 = curspl k \<and> in_interrupt k1 = in_interrupt k \<and> iec k1 = iec k
     \<and> live_count k1 = live_count k \<and> threads k1 = threads k \<and> curthread k1 = curthread k
     \<and> numthreads k1 = numthreads k \<and> kthr.more k1 = kthr.more k"

lemma woke_trans: "woke k k1 \<Longrightarrow> woke k1 k2 \<Longrightarrow> woke k k2"
  by (simp add: woke_def)

lemma wakeup_one:
  assumes inv: "kinvz (zlist k) k" and spl: "0 < curspl k" and room: "wake_room mem k"
    and ss: "sleepers k = Some ss" and i: "i < length (slist k)"
  shows "\<exists>ss' k1. array_remove ss (int i) = Some ss'
    \<and> make_runnable (mem n) (slist k ! i) (k\<lparr>sleepers := Some ss'\<rparr>) = Some (Ok (), k1)
    \<and> woke k k1 \<and> wake_room mem k1
    \<and> slist k1 = take i (slist k) @ drop (Suc i) (slist k) \<and> mset (ready k1) = add_mset (slist k ! i) (mset (ready k))"
proof -
  note invd = kinvzD [OF inv]
  let ?t = "slist k ! i"
  obtain zs where arr: "array_ok ss" "zombies k = Some zs" "array_ok zs" using invd(2) ss by (auto simp: arrays_ok_def)
  have t: "?t \<in> set (slist k)" using i by simp
  then obtain th where th: "threads k ?t = Some th" using invd(5) by (force simp: places_def)
  obtain ss' where r: "array_remove ss (int i) = Some ss'" "array_ok ss'"
    "a_list ss' = take i (slist k) @ drop (Suc i) (slist k)"
    using pa.remove_at [OF arr(1), of i] i ss by (auto simp: slist_def)
  let ?k0 = "k\<lparr>sleepers := Some ss'\<rparr>"
  have "sched_ok ?k0" using invd(1) sched_ok_cong [of ?k0 k] by simp
  moreover have "?t \<notin> set (ready ?k0)" using invd(4) t by (auto simp: places_def)
  moreover have "length (ready ?k0) < MAX_THREADS" using card_threads [OF inv] i by (simp add: places_def)
  moreover have "mem_all (mem n) \<or> (\<forall>j < NUM_PRIORITIES. int (length (ready ?k0)) + 1 < qsize (the (runqueue ?k0 ! j)))"
    using room i by (fastforce simp: wake_room_def live_count_def)
  ultimately obtain qs where m: "make_runnable (mem n) ?t ?k0 = Some (Ok (), ?k0\<lparr>runqueue := qs\<rparr>)"
    "sched_ok (?k0\<lparr>runqueue := qs\<rparr>)" "mset (ready (?k0\<lparr>runqueue := qs\<rparr>)) = add_mset ?t (mset (ready k))"
    "\<forall>j < NUM_PRIORITIES. qsize (the (runqueue k ! j)) \<le> qsize (the (qs ! j))"
    using make_runnable_ok [of ?k0 ?t th "mem n"] th invd(6) [OF th] spl by auto
  let ?k1 = "?k0\<lparr>runqueue := qs\<rparr>"
  have len: "length (ready ?k1) = Suc (length (ready k))" using m(3) by (metis size_add_mset size_mset)
  have set: "set (ready ?k1) = insert ?t (set (ready k))" using m(3) by (metis set_mset_add_mset_insert set_mset_mset)
  have split: "slist k = take i (slist k) @ ?t # drop (Suc i) (slist k)" using i by (rule id_take_nth_drop)
  have lc: "live_count ?k1 = live_count k"
    using len r(3) i by (simp add: live_count_def cur_list_def)
  have "kinvz (zlist ?k1) ?k1"
  proof (rule kinvz_move [OF inv th _ refl invd(6) [OF th] m(2)])
    show "threads ?k1 = (threads k)(?t \<mapsto> th)" using th by auto
    show "arrays_ok ?k1" using arr r(2) by (simp add: arrays_ok_def)
    show "switch_ok (curthread ?k1) (swcur ?k1) (dom (threads k))" using inv by (simp add: kinvz_def)
    show "mset (places (zlist ?k1) ?k1) = mset (places (zlist k) k)"
      using m(3) r(3) arg_cong [OF split, of mset] by (simp add: places_def cur_list_def)
    show "resumable (pcb_resume (t_pcb th))" using invd(7) [of ?t] t th by simp
    show "set (ready ?k1) \<union> set (slist ?k1) \<subseteq> insert ?t (set (ready k) \<union> set (slist k))"
      using set r(3) by (auto dest: in_set_takeD in_set_dropD)
    show "?t \<in> set (zlist ?k1) \<Longrightarrow> t_vmspace th = NULL \<and> t_cwd th = NULL" using invd(4) t by (auto simp: places_def)
  qed auto
  then have "woke k ?k1" using lc by (simp add: woke_def)
  moreover have "wake_room mem ?k1" using room m(4) lc by (fastforce simp: wake_room_def)
  ultimately show ?thesis using r m by (intro exI conjI) auto
qed

lemma wakeup_from_ok:
  assumes "kinvz (zlist k) k" and "0 < curspl k" and "wake_room mem k" and "slist k = dn @ rest"
  shows "\<exists>k'. wakeup_from mem addr (length rest) (int (length dn)) k = Some k' \<and> woke k k' \<and> wake_room mem k'
    \<and> slist k' = dn @ filter (\<lambda>t. \<not> asleep_on k addr t) rest
    \<and> mset (ready k') = mset (ready k) + mset (filter (asleep_on k addr) rest)"
  using assms
proof (induction rest arbitrary: dn k)
  case Nil
  from kinvzD(2) [OF Nil(1)] obtain ss where ss: "sleepers k = Some ss" "array_ok ss" by (auto simp: arrays_ok_def)
  then have "array_getnum ss = int (length dn)" using pa.num_eq [OF ss(2)] Nil(4) by (simp add: slist_def)
  with Nil ss show ?case by (simp add: wakeup_from.simps woke_def)
next
  case (Cons t rest)
  from kinvzD(2) [OF Cons.prems(1)] obtain ss where ss: "sleepers k = Some ss" "array_ok ss" by (auto simp: arrays_ok_def)
  have sl: "a_list ss = slist k" using ss by (simp add: slist_def)
  have num: "array_getnum ss = int (length (slist k))" using pa.num_eq [OF ss(2)] sl by simp
  have get: "array_getguy ss (int (length dn)) = Some t"
    using array_getguy_eq [OF ss(2), of "int (length dn)"] Cons.prems(4) sl by simp
  have "t \<in> set (slist k)" using Cons.prems(4) by simp
  then obtain th where th: "threads k t = Some th" using kinvzD(5) [OF Cons.prems(1)] by (force simp: places_def)
  show ?case
  proof (cases "t_sleepaddr th = Some addr")
    case True
    have i: "length dn < length (slist k)" "slist k ! length dn = t" using Cons.prems(4) by simp_all
    from wakeup_one [OF Cons.prems(1-3) ss(1) i(1), of "length rest"] obtain ss' k1 where
      k1: "array_remove ss (int (length dn)) = Some ss'"
      "make_runnable (mem (length rest)) t (k\<lparr>sleepers := Some ss'\<rparr>) = Some (Ok (), k1)" "woke k k1" "wake_room mem k1"
      "slist k1 = dn @ rest" "mset (ready k1) = add_mset t (mset (ready k))"
      using Cons.prems(4) i(2) by auto
    have "kinvz (zlist k1) k1" "0 < curspl k1" using k1(3) Cons.prems(2) by (auto simp: woke_def)
    from Cons.IH [OF this k1(4,5)] obtain k' where
      k': "wakeup_from mem addr (length rest) (int (length dn)) k1 = Some k'" "woke k1 k'" "wake_room mem k'"
      "slist k' = dn @ filter (\<lambda>t. \<not> asleep_on k1 addr t) rest"
      "mset (ready k') = mset (ready k1) + mset (filter (asleep_on k1 addr) rest)" by blast
    have "asleep_on k1 addr = asleep_on k addr" using k1(3) by (simp add: asleep_on_def fun_eq_iff woke_def)
    moreover have "asleep_on k addr t" using True th by (simp add: asleep_on_def)
    moreover have "wakeup_from mem addr (length (t # rest)) (int (length dn)) k = Some k'"
      using ss(1) num get th True k1(1,2) k'(1) i(1) by (simp add: wakeup_from.simps [of mem addr "Suc (length rest)"])
    ultimately show ?thesis using k' k1(6) woke_trans [OF k1(3) k'(2)] by simp
  next
    case False
    have sl': "slist k = (dn @ [t]) @ rest" using Cons.prems(4) by simp
    from Cons.IH [OF Cons.prems(1-3) sl'] obtain k' where
      k': "wakeup_from mem addr (length rest) (int (length (dn @ [t]))) k = Some k'" "woke k k'" "wake_room mem k'"
      "slist k' = (dn @ [t]) @ filter (\<lambda>t. \<not> asleep_on k addr t) rest"
      "mset (ready k') = mset (ready k) + mset (filter (asleep_on k addr) rest)" by blast
    have "wakeup_from mem addr (length (t # rest)) (int (length dn)) k = Some k'"
      using ss(1) num get th False k'(1) Cons.prems(4)
      by (simp add: wakeup_from.simps [of mem addr "Suc (length rest)"] add.commute)
    then show ?thesis using k' False th by (simp add: asleep_on_def)
  qed
qed

lemma thread_wakeup_ok:
  assumes inv: "kinvz (zlist k) k" and spl: "0 < curspl k" and room: "wake_room mem k"
  shows "\<exists>k'. thread_wakeup mem addr k = Some k' \<and> woke k k' \<and> wake_room mem k'
    \<and> slist k' = filter (\<lambda>t. \<not> asleep_on k addr t) (slist k)
    \<and> mset (ready k') = mset (ready k) + mset (filter (asleep_on k addr) (slist k))"
proof -
  from kinvzD(2) [OF inv] obtain ss where ss: "sleepers k = Some ss" "array_ok ss" by (auto simp: arrays_ok_def)
  have "nat (array_getnum ss) = length (slist k)" using pa.num_eq [OF ss(2)] ss(1) by (simp add: slist_def)
  with wakeup_from_ok [OF assms, of "[]" "slist k" addr] ss(1) spl show ?thesis
    by (simp add: thread_wakeup_def)
qed

lemma hassleepers_from_ok:
  assumes "array_ok ss" and "\<forall>t \<in> set (a_list ss). ths t \<noteq> None" and "set is \<subseteq> {..<length (a_list ss)}"
  shows "hassleepers_from ths ss addr is =
    Some (\<exists>i \<in> set is. t_sleepaddr (the (ths (a_list ss ! i))) = Some addr)"
  using assms(3)
proof (induction "is")
  case (Cons i "is")
  then have i: "i < length (a_list ss)" by simp
  then obtain th where "ths (a_list ss ! i) = Some th" using assms(2) nth_mem by blast
  with Cons i array_getguy_eq [OF assms(1), of "int i"] show ?case by simp
qed simp

lemma thread_hassleepers_ok:
  assumes inv: "kinvz (zlist k) k" and spl: "0 < curspl k"
  shows "thread_hassleepers addr k = Some (\<exists>t \<in> set (slist k). asleep_on k addr t)"
proof -
  from kinvzD(2) [OF inv] obtain ss where ss: "sleepers k = Some ss" "array_ok ss" by (auto simp: arrays_ok_def)
  have sl: "a_list ss = slist k" using ss(1) by (simp add: slist_def)
  have "\<forall>t \<in> set (a_list ss). threads k t \<noteq> None"
    using kinvzD(5) [OF inv] sl by (force simp: places_def)
  moreover have "set [0..<length (slist k)] \<subseteq> {..<length (a_list ss)}" by (auto simp: sl)
  ultimately have "hassleepers_from (threads k) ss addr [0..<length (slist k)] =
      Some (\<exists>i \<in> set [0..<length (slist k)]. asleep_on k addr (slist k ! i))"
    unfolding asleep_on_def sl [symmetric] by (rule hassleepers_from_ok [OF ss(2)])
  moreover have "(\<exists>i \<in> set [0..<length (slist k)]. asleep_on k addr (slist k ! i)) =
      (\<exists>t \<in> set (slist k). asleep_on k addr t)"
    by (auto simp: set_conv_nth)
  ultimately show ?thesis using spl ss by (simp add: thread_hassleepers_def pa.num_eq sl)
qed

subsection \<open>Fork\<close>

text \<open>\<open>reserved k k'\<close>: only room in the arrays and queues has changed.\<close>

definition reserved :: "'a kthr_scheme \<Rightarrow> 'a kthr_scheme \<Rightarrow> bool" where
  "reserved k k' \<longleftrightarrow> sched_ok k' \<and> arrays_ok k' \<and> ready k' = ready k \<and> slist k' = slist k \<and> zlist k' = zlist k
     \<and> threads k' = threads k \<and> curthread k' = curthread k \<and> process_ids k' = process_ids k \<and> swcur k' = swcur k
     \<and> curspl k' = curspl k \<and> iec k' = iec k \<and> in_interrupt k' = in_interrupt k
     \<and> numthreads k' = numthreads k \<and> kthr.more k' = kthr.more k"

definition room_for :: "int \<Rightarrow> 'a kthr_scheme \<Rightarrow> bool" where
  "room_for n k \<longleftrightarrow> n \<le> amax (the (sleepers k)) \<and> n \<le> amax (the (zombies k))
     \<and> (\<forall>i < NUM_PRIORITIES. n \<le> qsize (the (runqueue k ! i)))"

lemma fork_reserve_ok:
  assumes sok: "sched_ok k" and aok: "arrays_ok k" and spl: "0 < curspl k" and n: "numthreads k + 1 \<le> 2 ^ 28"
  shows "\<exists>r k'. fork_reserve m k = Some (r, k') \<and> reserved k k'
    \<and> (r = Ok () \<and> room_for (numthreads k + 1) k' \<or> r = Err ENOMEM)"
proof -
  obtain ss zs where arr: "sleepers k = Some ss" "array_ok ss" "zombies k = Some zs" "array_ok zs"
    using aok by (auto simp: arrays_ok_def)
  have sl: "slist k = a_list ss" "zlist k = a_list zs" using arr by (simp_all add: slist_def zlist_def)
  show ?thesis
  proof (cases "array_preallocate (m_sleepers m) ss (numthreads k + 1) = Some (Err ENOMEM, ss)")
    case True
    then have "fork_reserve m k = Some (Err ENOMEM, k\<lparr>sleepers := Some ss\<rparr>)" using arr by (simp add: fork_reserve_def)
    moreover have "reserved k (k\<lparr>sleepers := Some ss\<rparr>)"
      using sok aok arr sl sched_ok_cong [of "k\<lparr>sleepers := Some ss\<rparr>" k] by (simp add: reserved_def arrays_ok_def)
    ultimately show ?thesis by blast
  next
    case False
    with array_preallocate_cases [OF arr(2) n, of "m_sleepers m"] obtain ss' where
      ss': "array_preallocate (m_sleepers m) ss (numthreads k + 1) = Some (Ok (), ss')" "array_ok ss'"
      "a_list ss' = a_list ss" "numthreads k + 1 \<le> amax ss'" by blast
    show ?thesis
    proof (cases "array_preallocate (m_zombies m) zs (numthreads k + 1) = Some (Err ENOMEM, zs)")
      case True
      let ?k = "k\<lparr>sleepers := Some ss', zombies := Some zs\<rparr>"
      have "fork_reserve m k = Some (Err ENOMEM, ?k)" using arr True ss' by (simp add: fork_reserve_def)
      moreover have "reserved k ?k" using sok arr ss' sl sched_ok_cong [of ?k k] by (simp add: reserved_def arrays_ok_def)
      ultimately show ?thesis by blast
    next
      case False
      with array_preallocate_cases [OF arr(4) n, of "m_zombies m"] obtain zs' where
        zs': "array_preallocate (m_zombies m) zs (numthreads k + 1) = Some (Ok (), zs')" "array_ok zs'"
        "a_list zs' = a_list zs" "numthreads k + 1 \<le> amax zs'" by blast
      let ?k2 = "k\<lparr>sleepers := Some ss', zombies := Some zs'\<rparr>"
      have n29: "numthreads k + 1 \<le> 2 ^ 29" using n by simp
      have "sched_ok ?k2" using sok sched_ok_cong [of ?k2 k] by simp
      from scheduler_preallocate_cases [OF this _ n29, of "m_sched m"] spl obtain ret qs where
        q: "scheduler_preallocate (m_sched m) (numthreads k + 1) ?k2 = Some (ret, ?k2\<lparr>runqueue := qs\<rparr>)"
        "sched_ok (?k2\<lparr>runqueue := qs\<rparr>)" "ready (?k2\<lparr>runqueue := qs\<rparr>) = ready k"
        "ret = Ok () \<and> (\<forall>i < NUM_PRIORITIES. numthreads k + 1 \<le> qsize (the (qs ! i))) \<or> ret = Err ENOMEM" by auto
      let ?k3 = "?k2\<lparr>runqueue := qs\<rparr>"
      have "fork_reserve m k = Some (ret, ?k3)" using arr ss' zs' q(1) by (simp add: fork_reserve_def)
      moreover have "reserved k ?k3" using q(2,3) ss' zs' sl by (simp add: reserved_def arrays_ok_def)
      moreover have "ret = Ok () \<and> room_for (numthreads k + 1) ?k3 \<or> ret = Err ENOMEM"
        using q(4) ss' zs' by (auto simp: room_for_def)
      ultimately show ?thesis by blast
    qed
  qed
qed

text \<open>Taking a process id out of the queue, and a new thread with that id.\<close>

lemma kinvz_take_id:
  assumes inv: "kinvz zl k" and q: "queue_ok q'" "idlist k = pid # q_list q'" "int MAX_THREADS + 1 < qsize q'"
  shows "kinvz zl (k\<lparr>process_ids := Some q'\<rparr>)"
proof -
  have "ids_ok (k\<lparr>process_ids := Some q'\<rparr>)"
    using kinvzD(3) [OF inv] q by (auto simp: ids_ok_def idlist_def)
  moreover have "sched_ok (k\<lparr>process_ids := Some q'\<rparr>)"
    using kinvzD(1) [OF inv] sched_ok_cong [of "k\<lparr>process_ids := Some q'\<rparr>" k] by simp
  ultimately show ?thesis using inv by (simp add: kinvz_def arrays_ok_def places_def cur_list_def)
qed

lemma kinvz_new:
  assumes inv: "kinvz zl k" and a: "a \<notin> dom (threads k)"
    and th: "thread_ok th" "resumable (pcb_resume (t_pcb th))"
    and q: "queue_ok q'" "idlist k = t_id th # q_list q'" "int MAX_THREADS + 1 < qsize q'"
    and k': "threads k' = (threads k)(a \<mapsto> th)" "process_ids k' = Some q'" "curthread k' = curthread k"
      "swcur k' = swcur k" "sched_ok k'" "arrays_ok k'" "mset (ready k') = add_mset a (mset (ready k))" "slist k' = slist k"
  shows "kinvz zl k'"
proof -
  note invd = kinvzD [OF inv]
  have rs: "set (ready k') = insert a (set (ready k))" using k'(7) by (metis set_mset_add_mset_insert set_mset_mset)
  have pl: "mset (places zl k') = mset (a # places zl k)"
    using k'(3,7,8) by (simp add: places_def cur_list_def)
  have "distinct (places zl k')" using mset_eq_imp_distinct_iff [OF pl] invd(4,5) a by simp
  moreover have "set (places zl k') = dom (threads k')" using mset_eq_setD [OF pl] invd(5) k'(1) by simp
  moreover have "ids_ok k'"
  proof -
    have "t_id th \<notin> set (q_list q')" "distinct (q_list q')" using invd(3) q(2) by (auto simp: ids_ok_def)
    moreover have "t_id uh \<noteq> t_id th" if "threads k u = Some uh" for u uh
      using invd(3) q(2) that by (auto simp: ids_ok_def)
    moreover have "inj_on (\<lambda>u. t_id (the (threads k' u))) (insert a (dom (threads k)))"
      unfolding inj_on_insert
    proof
      show "inj_on (\<lambda>u. t_id (the (threads k' u))) (dom (threads k))"
        using invd(3) a by (subst inj_on_cong [where g = "\<lambda>u. t_id (the (threads k u))"]) (auto simp: ids_ok_def k'(1))
      show "t_id (the (threads k' a)) \<notin> (\<lambda>u. t_id (the (threads k' u))) ` (dom (threads k) - {a})"
        using calculation(3) by (auto simp: k'(1)) metis
    qed
    ultimately show ?thesis using invd(3) q k'(1,2) by (auto simp: ids_ok_def idlist_def)
  qed
  moreover have "\<forall>t \<in> set (ready k') \<union> set (slist k'). resumable (pcb_resume (t_pcb (the (threads k' t))))"
    using invd(7) th(2) k'(1,8) rs by auto
  moreover have "\<forall>t \<in> set zl. t_vmspace (the (threads k' t)) = NULL \<and> t_cwd (the (threads k' t)) = NULL"
    using invd(5,8) a k'(1) by (auto simp: places_def)
  moreover have "\<forall>t uh. threads k' t = Some uh \<longrightarrow> thread_ok uh" using invd(6) th(1) k'(1) by auto
  moreover have "switch_ok (curthread k') (swcur k') (dom (threads k'))"
    using inv k'(1,3,4) by (auto simp: kinvz_def switch_ok_def)
  ultimately show ?thesis using k'(5,6) by (simp add: kinvz_def)
qed

lemma sched_ok_fresh:
  assumes "sched_ok k" and "a \<notin> dom (threads k)" and "threads k' = (threads k)(a \<mapsto> th)" and "runqueue k' = runqueue k"
  shows "sched_ok k'"
proof -
  have "\<exists>uh. threads k' u = Some uh \<and> priority uh = int i" if "i < NUM_PRIORITIES" "u \<in> set (runq k i)" for i u
    using sched_okD(3) [OF assms(1) that] assms(2,3) by auto
  then show ?thesis using assms(1,4) runq_cong [OF assms(4)] by (simp add: sched_ok_def)
qed

lemma sched_ok_drop:
  assumes "sched_ok k" and "a \<notin> set (ready k)" and "threads k' = (threads k)(a := None)" and "runqueue k' = runqueue k"
  shows "sched_ok k'"
proof -
  have "\<exists>uh. threads k' u = Some uh \<and> priority uh = int i" if "i < NUM_PRIORITIES" "u \<in> set (runq k i)" for i u
    using sched_okD(3) [OF assms(1) that] assms(2,3) that set_ready [of u k] by auto
  then show ?thesis using assms(1,4) runq_cong [OF assms(4)] by (simp add: sched_ok_def)
qed

definition framed :: "'a kthr_scheme \<Rightarrow> 'a kthr_scheme \<Rightarrow> bool" where
  "framed k k' \<longleftrightarrow> runqueue k' = runqueue k \<and> sleepers k' = sleepers k \<and> zombies k' = zombies k
     \<and> process_ids k' = process_ids k \<and> curthread k' = curthread k \<and> swcur k' = swcur k
     \<and> curspl k' = curspl k \<and> numthreads k' = numthreads k \<and> kthr.more k' = kthr.more k"

lemma fork_inherit_ok:
  assumes "curthread k = Some c" and "threads k c = Some cth" and "threads k a = Some th0"
  shows "\<exists>k2 th. fork_inherit a data1 data2 func m k = Some k2 \<and> framed k k2 \<and> threads k2 = (threads k)(a \<mapsto> th)
    \<and> t_stack th = Some stack_magic \<and> t_pcb th = md_initpcb data1 data2 func \<and> priority th = priority th0
    \<and> t_ft th = t_ft th0 \<and> t_id th = t_id th0"
  using assms by (cases "t_vmspace cth"; cases "t_cwd cth") (auto simp: fork_inherit_def framed_def)

lemma fork_fail_ok:
  assumes inv: "kinvz (zlist k) k" and a: "a \<notin> dom (threads k)" and k4: "sched_ok k4" "arrays_ok k4"
    "ready k4 = ready k" "slist k4 = slist k" "zlist k4 = zlist k" "threads k4 = (threads k)(a \<mapsto> th)"
    "curthread k4 = curthread k" "process_ids k4 = process_ids k" "swcur k4 = swcur k" and s: "0 \<le> s"
  shows "\<exists>k'. fork_fail a s e k4 = Some (Err e, k') \<and> kinvz (zlist k') k' \<and> threads k' = threads k
    \<and> runqueue k' = runqueue k4 \<and> sleepers k' = sleepers k4 \<and> zombies k' = zombies k4 \<and> process_ids k' = process_ids k
    \<and> curthread k' = curthread k \<and> curspl k' = s \<and> numthreads k' = numthreads k4 \<and> kthr.more k' = kthr.more k4"
proof -
  have drop: "(threads k)(a := None) = threads k" using a by (auto simp: fun_eq_iff domIff)
  have "\<exists>k'. fork_fail a s e k4 = Some (Err e, k') \<and> threads k' = threads k \<and> curspl k' = s
    \<and> runqueue k' = runqueue k4 \<and> sleepers k' = sleepers k4 \<and> zombies k' = zombies k4 \<and> process_ids k' = process_ids k
    \<and> curthread k' = curthread k \<and> swcur k' = swcur k \<and> numthreads k' = numthreads k4 \<and> kthr.more k' = kthr.more k4"
    using k4(6-9) drop by (cases "t_cwd th") (auto simp: fork_fail_def splx_eq)
  then obtain k' where k': "fork_fail a s e k4 = Some (Err e, k')" "threads k' = threads k" "curspl k' = s"
    "runqueue k' = runqueue k4" "sleepers k' = sleepers k4" "zombies k' = zombies k4" "process_ids k' = process_ids k"
    "curthread k' = curthread k" "swcur k' = swcur k" "numthreads k' = numthreads k4" "kthr.more k' = kthr.more k4"
    by blast
  have r: "ready k' = ready k" "slist k' = slist k" "zlist k' = zlist k"
    using runq_cong [OF k'(4)] k4(3-5) k'(5,6) by (simp_all add: slist_def zlist_def)
  have "sched_ok k'"
  proof (rule sched_ok_drop [OF k4(1)])
    show "a \<notin> set (ready k4)" using k4(3) a kinvzD(5) [OF inv] by (auto simp: places_def)
    show "threads k' = (threads k4)(a := None)" using k4(6) k'(2) a by auto
  qed (rule k'(4))
  moreover have "arrays_ok k'" using k4(2) k'(5,6) by (simp add: arrays_ok_def)
  moreover have "ids_ok k'" using kinvzD(3) [OF inv] k'(2,7) by (simp add: ids_ok_def idlist_def)
  ultimately have "kinvz (zlist k') k'"
    using inv r k'(2,8,9) by (simp add: kinvz_def places_def cur_list_def)
  with k' show ?thesis by blast
qed

text \<open>What \<^verbatim>\<open>thread_fork\<close> needs from the caller and the allocator.\<close>

definition fork_pre :: "falloc \<Rightarrow> 'a kthr_scheme \<Rightarrow> bool" where
  "fork_pre m k \<longleftrightarrow> curthread k \<noteq> NULL \<and> (\<forall>a. m_thread m = Some a \<longrightarrow> a \<notin> dom (threads k))
     \<and> m_ft m \<and> m_arr m \<and> idlist k \<noteq> []"

definition forked :: "'a kthr_scheme \<Rightarrow> nat res \<Rightarrow> 'a kthr_scheme \<Rightarrow> bool" where
  "forked k r k' \<longleftrightarrow> kinv k' \<and> curthread k' = curthread k \<and> slist k' = slist k \<and> zlist k' = zlist k \<and> curspl k' = curspl k
     \<and> kthr.more k' = kthr.more k \<and>
     (case r of
        Inr a \<Rightarrow> a \<notin> dom (threads k) \<and> dom (threads k') = insert a (dom (threads k))
          \<and> mset (ready k') = add_mset a (mset (ready k)) \<and> numthreads k' = numthreads k + 1 \<and> room_for (numthreads k') k'
      | Inl e \<Rightarrow> e = ENOMEM \<and> threads k' = threads k \<and> ready k' = ready k \<and> numthreads k' = numthreads k)"

lemma thread_create_ok:
  assumes inv: "kinvz zl k" and a: "m_thread m = Some a" "m_name m" and pre: "fork_pre m k"
  shows "\<exists>q' th0. thread_create name m k = Some (Some a, k\<lparr>process_ids := Some q', threads := (threads k)(a \<mapsto> th0)\<rparr>)
    \<and> queue_ok q' \<and> idlist k = t_id th0 # q_list q' \<and> int MAX_THREADS + 1 < qsize q'
    \<and> stack_check (t_stack th0) \<and> priority th0 = 1 \<and> ft_idle (t_ft th0) \<and> (\<exists>pid. t_id th0 = Some pid \<and> pid < MAX_THREADS)"
proof -
  note ids = kinvzD(3) [OF inv]
  obtain q where q: "process_ids k = Some q" "queue_ok q" "int MAX_THREADS + 1 < qsize q" using ids by (auto simp: ids_ok_def)
  have ne: "q_list q \<noteq> []" using pre q(1) by (simp add: fork_pre_def idlist_def)
  obtain q' where q': "q_remhead q = Some (hd (q_list q), q')" "queue_ok q'" "q_list q' = tl (q_list q)" "qsize q' = qsize q"
    using q_remhead_ok [OF q(2) ne] by blast
  obtain ft where ft: "filetable_create True True = Some ft" "ft_ok ft" "slots ft = []" using filetable_create_ok by blast
  have hd: "hd (q_list q) \<in> set (idlist k)" using ne q(1) by (simp add: idlist_def)
  then obtain pid where "hd (q_list q) = Some pid" "pid < MAX_THREADS" using ids by (auto simp: ids_ok_def)
  moreover define th0 where "th0 = \<lparr>t_pcb = m_junk m, t_name = name, t_sleepaddr = NULL, t_stack = NULL,
      t_vmspace = NULL, t_cwd = NULL, t_ft = Some ft, priority = 1, t_id = hd (q_list q)\<rparr>"
  moreover have "thread_create name m k = Some (Some a, k\<lparr>process_ids := Some q', threads := (threads k)(a \<mapsto> th0)\<rparr>)"
    using a pre q(1) q'(1) ft(1) by (simp add: thread_create_def fork_pre_def PRIORITY_NORMAL_def th0_def)
  moreover have "q_list q = hd (q_list q) # tl (q_list q)" using ne by simp
  ultimately show ?thesis
    using q q' ft by (intro exI [of _ q'] exI [of _ th0]) (simp add: idlist_def stack_check_def ft_idle_def ft_ok_def)
qed

lemma fork_finish:
  assumes inv: "kinv k" and c: "curthread k = Some c" and fresh: "a \<notin> dom (threads k)"
    and q': "queue_ok q'" "idlist k = t_id th # q_list q'" "int MAX_THREADS + 1 < qsize q'"
    and th: "thread_ok th" "resumable (pcb_resume (t_pcb th))"
    and k4: "reserved k3 k4" "room_for (numthreads k3 + 1) k4" and k3: "threads k3 = (threads k)(a \<mapsto> th)"
      "ready k3 = ready k" "slist k3 = slist k" "zlist k3 = zlist k" "process_ids k3 = Some q'" "curthread k3 = curthread k"
      "swcur k3 = swcur k" "numthreads k3 = numthreads k" "kthr.more k3 = kthr.more k" "0 < curspl k3"
  shows "\<exists>k5. make_runnable mem a k4 = Some (Ok (), k5)
    \<and> forked k (Ok a) (snd (splx (curspl k) (k5\<lparr>numthreads := numthreads k5 + 1\<rparr>)))"
proof -
  have kz: "kinvz (zlist k) k" "numthreads k = live_count k" "0 \<le> curspl k" using inv by (simp_all add: kinv_def)
  have r4: "sched_ok k4" "arrays_ok k4" "ready k4 = ready k" "slist k4 = slist k" "zlist k4 = zlist k"
    "threads k4 = (threads k)(a \<mapsto> th)" "curthread k4 = curthread k" "process_ids k4 = Some q'" "swcur k4 = swcur k"
    "numthreads k4 = numthreads k" "kthr.more k4 = kthr.more k" "0 < curspl k4"
    using k4(1) k3 by (auto simp: reserved_def)
  have na: "a \<notin> set (ready k)" using fresh kinvzD(5) [OF kz(1)] by (auto simp: places_def)
  have small: "length (ready k) < MAX_THREADS" using card_threads [OF kz(1)] c by (simp add: places_def cur_list_def)
  have lc: "int (length (ready k)) + 1 \<le> numthreads k" using kz(2) c by (simp add: live_count_def cur_list_def)
  have room: "\<forall>i < NUM_PRIORITIES. int (length (ready k4)) + 1 < qsize (the (runqueue k4 ! i))"
    using k4(2) lc r4(3) k3(8) by (force simp: room_for_def)
  from make_runnable_ok [OF r4(1,12) _ th(1), of a mem] r4(3,6) na small room obtain qs where
    m: "make_runnable mem a k4 = Some (Ok (), k4\<lparr>runqueue := qs\<rparr>)" "sched_ok (k4\<lparr>runqueue := qs\<rparr>)"
    "mset (ready (k4\<lparr>runqueue := qs\<rparr>)) = add_mset a (mset (ready k))"
    "\<forall>i < NUM_PRIORITIES. qsize (the (runqueue k4 ! i)) \<le> qsize (the (qs ! i))" by auto
  let ?k5 = "k4\<lparr>runqueue := qs\<rparr>"
  let ?k6 = "snd (splx (curspl k) (?k5\<lparr>numthreads := numthreads ?k5 + 1\<rparr>))"
  have k5: "kinvz (zlist k) ?k5"
    by (rule kinvz_new [OF kz(1) fresh th q' _ _ _ _ m(2) _ m(3)]) (use r4 in \<open>auto simp: arrays_ok_def\<close>)
  have len: "length (ready ?k5) = Suc (length (ready k))" using m(3) by (metis size_add_mset size_mset)
  have "live_count ?k5 = live_count k + 1" using len r4(4,7) by (simp add: live_count_def cur_list_def)
  then have "kinv ?k6" using k5 kz r4(5,7,10) c by (simp add: kinv_def splx_eq)
  moreover have "room_for (numthreads ?k6) ?k6"
    using k4(2) m(4) r4(10) k3(8) by (fastforce simp: room_for_def splx_eq)
  ultimately have "forked k (Ok a) ?k6"
    using fresh r4 m(3) by (simp add: forked_def splx_eq)
  with m(1) show ?thesis by blast
qed

lemma thread_fork_ok:
  assumes inv: "kinv k" and pre: "fork_pre m k"
  shows "\<exists>r k'. thread_fork name data1 data2 func m k = Some (r, k') \<and> forked k r k'"
proof (cases "\<exists>a. m_thread m = Some a \<and> m_name m")
  case False
  then have "thread_create name m k = Some (NULL, k)" by (auto simp: thread_create_def split: option.split)
  then show ?thesis using inv by (simp add: thread_fork_def forked_def)
next
  case True
  then obtain a where a: "m_thread m = Some a" "m_name m" by blast
  have kz: "kinvz (zlist k) k" "numthreads k = live_count k" "0 \<le> curspl k" using inv by (simp_all add: kinv_def)
  have fresh: "a \<notin> dom (threads k)" using pre a by (simp add: fork_pre_def)
  from thread_create_ok [OF kz(1) a pre] obtain q' th0 where
    c: "thread_create name m k = Some (Some a, k\<lparr>process_ids := Some q', threads := (threads k)(a \<mapsto> th0)\<rparr>)"
    and q': "queue_ok q'" "idlist k = t_id th0 # q_list q'" "int MAX_THREADS + 1 < qsize q'"
    and th0: "stack_check (t_stack th0)" "priority th0 = 1" "ft_idle (t_ft th0)" "\<exists>pid. t_id th0 = Some pid \<and> pid < MAX_THREADS"
    by blast
  define k0 where "k0 = k\<lparr>process_ids := Some q'\<rparr>"
  have k0: "kinvz (zlist k0) k0" using kinvz_take_id [OF kz(1) q'] by (simp add: k0_def)
  show ?thesis
  proof (cases "m_stack m")
    case False
    have "(threads k)(a := None) = threads k" using fresh by (auto simp: fun_eq_iff domIff)
    then have "thread_fork name data1 data2 func m k = Some (Err ENOMEM, k0\<lparr>threads := threads k\<rparr>)"
      using c False by (simp add: thread_fork_def k0_def)
    moreover have "forked k (Err ENOMEM) (k0\<lparr>threads := threads k\<rparr>)"
      using k0 kz pre by (auto simp: forked_def kinv_def k0_def fork_pre_def)
    ultimately show ?thesis by blast
  next
    case True
    from pre obtain c where cur: "curthread k = Some c" by (auto simp: fork_pre_def)
    obtain cth where cth: "threads k c = Some cth" using current_thread [OF kz(1) cur] .
    define k1 where "k1 = k\<lparr>process_ids := Some q', threads := (threads k)(a \<mapsto> th0)\<rparr>"
    have ca: "c \<noteq> a" using cth fresh by auto
    have k1c: "curthread k1 = Some c" "threads k1 c = Some cth" "threads k1 a = Some th0"
      using cur cth ca by (simp_all add: k1_def)
    from fork_inherit_ok [OF k1c, of data1 data2 func m] obtain k2 th where
      k2: "fork_inherit a data1 data2 func m k1 = Some k2" "framed k1 k2" "threads k2 = (threads k1)(a \<mapsto> th)"
      and th: "t_stack th = Some stack_magic" "t_pcb th = md_initpcb data1 data2 func" "priority th = priority th0"
        "t_ft th = t_ft th0" "t_id th = t_id th0" by blast
    have thok: "thread_ok th" "resumable (pcb_resume (t_pcb th))"
      using th th0 by (simp_all add: thread_ok_def stack_check_def stack_magic_def NUM_PRIORITIES_def md_initpcb_def resumable_def)
    define k3 where "k3 = k2\<lparr>iec := False, curspl := 15\<rparr>"
    have k3: "threads k3 = (threads k)(a \<mapsto> th)" "runqueue k3 = runqueue k" "sleepers k3 = sleepers k"
      "zombies k3 = zombies k" "process_ids k3 = Some q'" "curthread k3 = curthread k" "swcur k3 = swcur k"
      "numthreads k3 = numthreads k" "kthr.more k3 = kthr.more k" "0 < curspl k3"
      using k2(2,3) by (simp_all add: k3_def framed_def k1_def)
    have l3: "ready k3 = ready k" "slist k3 = slist k" "zlist k3 = zlist k"
      using runq_cong [OF k3(2)] k3(3,4) by (simp_all add: slist_def zlist_def)
    have s3: "sched_ok k3" by (rule sched_ok_fresh [OF kinvzD(1) [OF kz(1)] fresh k3(1,2)])
    have a3: "arrays_ok k3" using kinvzD(2) [OF kz(1)] k3(3,4) by (simp add: arrays_ok_def)
    have n: "numthreads k3 + 1 \<le> 2 ^ 28"
      using card_threads [OF kz(1)] kz(2) k3(8) by (simp add: live_count_def places_def MAX_THREADS_def)
    from fork_reserve_ok [OF s3 a3 k3(10) n, of m] obtain r k4 where
      r: "fork_reserve m k3 = Some (r, k4)" "reserved k3 k4" "r = Ok () \<and> room_for (numthreads k3 + 1) k4 \<or> r = Err ENOMEM" by blast
    have spl2: "curspl k2 = curspl k" using k2(2) by (simp add: framed_def k1_def)
    have start: "thread_fork name data1 data2 func m k =
        (case r of Inl e \<Rightarrow> fork_fail a (curspl k) e k4
         | Inr _ \<Rightarrow> do { (r', k5) \<leftarrow> make_runnable (m_run m) a k4;
             (case r' of Inl e \<Rightarrow> fork_fail a (curspl k) e k5
              | Inr _ \<Rightarrow> Some (Ok a, snd (splx (curspl k) (k5\<lparr>numthreads := numthreads k5 + 1\<rparr>)))) })"
      unfolding spl2 [symmetric] using c True k2(1) r(1) by (simp add: thread_fork_def splhigh_eq k1_def k3_def)
    from r(3) show ?thesis
    proof
      assume "r = Err ENOMEM"
      moreover from fork_fail_ok [OF k0, of a k4 th "curspl k" ENOMEM] obtain k' where
        "fork_fail a (curspl k) ENOMEM k4 = Some (Err ENOMEM, k')" "kinvz (zlist k') k'" "threads k' = threads k"
        "runqueue k' = runqueue k4" "sleepers k' = sleepers k4" "zombies k' = zombies k4"
        "curthread k' = curthread k" "curspl k' = curspl k" "numthreads k' = numthreads k4" "kthr.more k' = kthr.more k4"
        using fresh r(2) k3 l3 kz(3) by (auto simp: reserved_def k0_def)
      moreover from this have "ready k' = ready k" "slist k' = slist k" "zlist k' = zlist k" "live_count k' = live_count k"
        using runq_cong [of k' k4] r(2) l3 k3 by (auto simp: slist_def zlist_def reserved_def live_count_def cur_list_def)
      ultimately show ?thesis
        using start r(2) k3(8,9) kz cur by (auto simp: forked_def kinv_def reserved_def)
    next
      assume ok: "r = Ok () \<and> room_for (numthreads k3 + 1) k4"
      have id: "idlist k = t_id th # q_list q'" using q'(2) th(5) by simp
      from fork_finish [OF inv cur fresh q'(1) id q'(3) thok r(2) _ k3(1) l3 k3(5-10), of "m_run m"] ok start show ?thesis
        by auto
    qed
  qed
qed

subsection \<open>Startup and shutdown\<close>

lemma create_queues_ok:
  "(\<And>i. got i) \<Longrightarrow> (\<And>i n. mem i n) \<Longrightarrow>
    create_queues got mem is = Some (map (\<lambda>_. Some (fresh_queue 32)) is)"
  by (induction "is") (simp_all add: q_create_def)

lemma scheduler_bootstrap_ok:
  assumes "\<And>i. got i" and "\<And>i n. mem i n" and "threads k = Map.empty"
  shows "\<exists>k'. scheduler_bootstrap got mem k = Some k' \<and> k' = k\<lparr>runqueue := runqueue k'\<rparr> \<and> sched_ok k' \<and> ready k' = []"
proof -
  let ?qs = "map (\<lambda>_. Some (fresh_queue 32)) [0..<NUM_PRIORITIES]"
  have ok: "queues_ok ?qs" by (auto simp: queues_ok_def fresh_queue_ok)
  have r: "runq (k\<lparr>runqueue := ?qs\<rparr>) i = []" if "i < NUM_PRIORITIES" for i using that by (simp add: runq_def)
  then have e: "ready (k\<lparr>runqueue := ?qs\<rparr>) = []" by (auto simp: ready_def)
  have "sched_ok (k\<lparr>runqueue := ?qs\<rparr>)" using ok r unfolding sched_ok_def e by simp
  with e show ?thesis
    using create_queues_ok [of got mem "[0..<NUM_PRIORITIES]"] assms
    by (simp add: scheduler_bootstrap_def NUM_PRIORITIES_def)
qed

lemma add_ids_ok:
  assumes "\<And>i. got i" and "\<And>i. mem_all (mem i)" and "queue_ok q" and "qsize q = 100 \<or> qsize q = 200"
    and "qcount q + length is \<le> 100"
  shows "\<exists>q'. add_ids got mem is q = Some q' \<and> queue_ok q' \<and> q_list q' = q_list q @ map Some is
    \<and> (qsize q' = 100 \<or> qsize q' = 200)"
  using assms(3-5)
proof (induction "is" arbitrary: q)
  case (Cons i "is")
  have "qsize q < 2 ^ 29" using Cons.prems(2) by auto
  from q_addtail_cases [OF Cons.prems(1) this, of "mem i" "Some i"] assms(2) [of i] obtain q1 where
    q1: "q_addtail (mem i) q (Some i) = Some (Ok (), q1)" "queue_ok q1" "q_list q1 = q_list q @ [Some i]"
    "qsize q1 = (if q_full q then qsize q * 2 else qsize q)" by (auto simp: mem_all_def)
  have "qcount q1 = Suc (qcount q)" using arg_cong [OF q1(3), of length] by simp
  moreover have "qsize q1 = 100 \<or> qsize q1 = 200" using q1(4) Cons.prems(2,3) by (auto simp: q_full_def)
  ultimately obtain q' where "add_ids got mem is q1 = Some q'" "queue_ok q'" "q_list q' = q_list q1 @ map Some is"
    "qsize q' = 100 \<or> qsize q' = 200" using Cons.IH [OF q1(2)] Cons.prems(3) by auto
  then show ?case using q1 assms(1) [of i] by simp
qed simp

lemma thread_bootstrap_ok:
  assumes sch: "sched_ok k" "ready k = []" "threads k = Map.empty" and spl: "0 \<le> curspl k" and sw: "swcur k = NULL"
    and m: "m_thread m = Some a" "m_name m" "m_ft m" "m_arr m"
    and all: "mem_all mem_q" "\<And>i. got_id i" "\<And>i. mem_all (mem_id i)"
  shows "\<exists>k'. thread_bootstrap True True True mem_q got_id mem_id m k = Some (a, k') \<and> kinv k'
    \<and> curthread k' = Some a \<and> ready k' = [] \<and> slist k' = [] \<and> zlist k' = [] \<and> numthreads k' = 1
    \<and> idlist k' = map Some [1..<MAX_THREADS] \<and> runqueue k' = runqueue k \<and> kthr.more k' = kthr.more k"
proof -
  obtain ss :: "nat parray" where ss: "array_create True = Some ss" "array_ok ss" "a_list ss = []" using array_create_ok by blast
  have fr: "queue_ok (fresh_queue 100 :: nat ptr queue)" "q_list (fresh_queue 100 :: nat ptr queue) = []"
    using fresh_queue_ok [of 100] by simp_all
  have fr100: "qsize (fresh_queue 100 :: nat ptr queue) = 100" "qcount (fresh_queue 100 :: nat ptr queue) = 0"
    by (simp_all add: fresh_queue_def qcount_def)
  from add_ids_ok [of got_id mem_id "fresh_queue 100 :: nat ptr queue" "[0..<MAX_THREADS]", OF all(2,3) fr(1)] fr fr100
  obtain q where q: "add_ids got_id mem_id [0..<MAX_THREADS] (fresh_queue 100) = Some q" "queue_ok q"
    "q_list q = map Some [0..<MAX_THREADS]" "qsize q = 100 \<or> qsize q = 200"
    by (auto simp: MAX_THREADS_def)
  have "qcount q = 100" using arg_cong [OF q(3), of length] by (simp add: MAX_THREADS_def)
  then have size: "qsize q = 200" using q(4) queue_okD(8) [OF q(2)] by auto
  have upt: "[0..<MAX_THREADS] = 0 # [1..<MAX_THREADS]" by (simp add: MAX_THREADS_def upt_conv_Cons)
  have ne: "q_list q \<noteq> []" using q(3) upt by simp
  obtain q' where q': "q_remhead q = Some (Some 0, q')" "queue_ok q'" "q_list q' = map Some [1..<MAX_THREADS]" "qsize q' = 200"
    using q_remhead_ok [OF q(2) ne] q(3) upt size by auto
  obtain ft where ft: "filetable_create True True = Some ft" "ft_ok ft" "slots ft = []" using filetable_create_ok by blast
  define th where "th = \<lparr>t_pcb = md_initpcb0 (m_junk m), t_name = ''<boot/menu>'', t_sleepaddr = NULL, t_stack = NULL,
      t_vmspace = NULL, t_cwd = NULL, t_ft = Some ft, priority = 1, t_id = Some 0\<rparr>"
  have "q_create True mem_q (int MAX_THREADS) = Some (fresh_queue 100 :: nat ptr queue)"
    using all(1) by (simp add: q_create_def mem_all_def MAX_THREADS_def)
  then have "\<exists>k'. thread_bootstrap True True True mem_q got_id mem_id m k = Some (a, k') \<and> sleepers k' = Some ss
    \<and> zombies k' = Some ss \<and> process_ids k' = Some q' \<and> threads k' = [a \<mapsto> th] \<and> curthread k' = Some a \<and> numthreads k' = 1
    \<and> runqueue k' = runqueue k \<and> swcur k' = NULL \<and> curspl k' = curspl k \<and> kthr.more k' = kthr.more k"
    using ss(1) q(1) q'(1) m ft(1) sch(3) sw
    by (simp add: thread_bootstrap_def thread_create_def th_def PRIORITY_NORMAL_def)
  then obtain k' where k': "thread_bootstrap True True True mem_q got_id mem_id m k = Some (a, k')" "sleepers k' = Some ss"
    "zombies k' = Some ss" "process_ids k' = Some q'" "threads k' = [a \<mapsto> th]" "curthread k' = Some a" "numthreads k' = 1"
    "runqueue k' = runqueue k" "swcur k' = NULL" "curspl k' = curspl k" "kthr.more k' = kthr.more k" by blast
  have r: "ready k' = []" "slist k' = []" "zlist k' = []" "idlist k' = map Some [1..<MAX_THREADS]"
    using runq_cong [OF k'(8)] sch(2) k' ss(3) q'(3) by (simp_all add: slist_def zlist_def idlist_def)
  have "sched_ok k'" by (rule sched_ok_fresh [OF sch(1), of a]) (use sch(3) k' in auto)
  moreover have "ids_ok k'" using q' k'(4,5) r(4) by (auto simp: ids_ok_def MAX_THREADS_def th_def distinct_map)
  moreover have "thread_ok th" using ft
    by (simp add: th_def thread_ok_def stack_check_def NUM_PRIORITIES_def ft_idle_def ft_ok_def MAX_THREADS_def)
  ultimately have "kinv k'"
    using k' ss r spl by (simp add: kinv_def kinvz_def arrays_ok_def places_def cur_list_def switch_ok_def live_count_def)
  with k' r show ?thesis by blast
qed

subsection \<open>Interrupts while the processor idles\<close>

text \<open>\<open>wakes mem addrs\<close>: what the interrupt handlers of devices and clock do to the thread system.\<close>

fun wakes :: "(nat \<Rightarrow> nat \<Rightarrow> bool) \<Rightarrow> nat list \<Rightarrow> 'a kthr_scheme \<Rightarrow> 'a kthr_scheme run" where
  "wakes mem [] k = Some k"
| "wakes mem (a # as) k = do { k1 \<leftarrow> thread_wakeup mem a k; wakes mem as k1 }"

lemma wakes_ok:
  assumes "kinvz (zlist k) k" and "0 < curspl k" and "wake_room mem k"
  shows "\<exists>k'. wakes mem as k = Some k' \<and> woke k k'"
  using assms
proof (induction "as" arbitrary: k)
  case Nil
  then show ?case by (simp add: woke_def)
next
  case (Cons a "as")
  from thread_wakeup_ok [OF Cons.prems, of a] obtain k1 where
    k1: "thread_wakeup mem a k = Some k1" "woke k k1" "wake_room mem k1" by blast
  then have "kinvz (zlist k1) k1" "0 < curspl k1" using Cons.prems(2) by (auto simp: woke_def)
  from Cons.IH [OF this k1(3)] obtain k' where "wakes mem as k1 = Some k'" "woke k1 k'" by blast
  with k1 show ?case using woke_trans [OF k1(2)] by auto
qed

lemma idle_interrupt_ok:
  assumes inv: "kinv k" and idle: "curthread k = NULL" and irq: "and cause LAMEBUS_IRQ_BIT \<noteq> 0"
    and room: "wake_room mem k"
  shows "\<exists>k'. idle_interrupt cause (wakes mem as) emem k = Some k' \<and> kinv k' \<and> numthreads k' = numthreads k
    \<and> kthr.more k' = kthr.more k"
proof -
  have kz: "kinvz (zlist k) k" "numthreads k = live_count k" "0 < curspl k" using inv idle by (simp_all add: kinv_def)
  define k0 where "k0 = k\<lparr>curspl := 15, iec := False, in_interrupt := 1\<rparr>"
  have "kinvz (zlist k0) k0" "0 < curspl k0" "wake_room mem k0" using kz room by (simp_all add: k0_def wake_room_def)
  from wakes_ok [OF this] obtain k1 where k1: "wakes mem as k0 = Some k1" "woke k0 k1" by blast
  define k2 where "k2 = k1\<lparr>in_interrupt := in_interrupt k, curspl := curspl k, iec := False\<rparr>"
  have "cpu_idle (trap_irq cause (wakes mem as)) k = Some k2"
    using kz(3) k1(1) irq by (simp add: cpu_idle_def trap_irq_eq interrupts_on_def interrupts_off_def k0_def k2_def)
  moreover have k2: "kinvz (zlist k2) k2" "curthread k2 = NULL" "0 < curspl k2" "live_count k2 = live_count k"
    "numthreads k2 = numthreads k" "kthr.more k2 = kthr.more k"
    using k1(2) kz idle by (auto simp: k2_def woke_def k0_def)
  moreover from mi_dispatch_ok [OF k2(1-3), of emem] obtain k' where
    k': "mi_dispatch emem k2 = Some k'" "went_on k2 k'" unfolding went_on_def by blast
  moreover have "kinv k'"
    using k' k2 kz by (cases "ready k2 = []") (auto simp: kinv_def went_on_def)
  ultimately show ?thesis by (auto simp: idle_interrupt_def went_on_def)
qed

subsection \<open>Sequences of operations\<close>

text \<open>
  What the running thread and the hardware can do to the thread system, with the memory that is
  available at that call. \<open>legal\<close> are the callers' obligations from \<^verbatim>\<open>thread.h\<close> (interrupts off for
  sleep and wakeup, no sleep in an interrupt handler) and the memory condition.
\<close>

datatype kop =
    Fork string nat nat nat falloc
  | Yield "nat \<Rightarrow> bool" "nat \<Rightarrow> nat \<Rightarrow> bool"
  | Sleep "nat \<Rightarrow> bool" "nat \<Rightarrow> nat \<Rightarrow> bool" nat
  | Exit "nat \<Rightarrow> bool" "nat \<Rightarrow> nat \<Rightarrow> bool"
  | Wakeup "nat \<Rightarrow> nat \<Rightarrow> bool" nat
  | Splx int
  | Idle_irq "32 word" "nat \<Rightarrow> nat \<Rightarrow> bool" "nat list" "nat \<Rightarrow> nat \<Rightarrow> bool"

fun exec_op :: "kop \<Rightarrow> 'a kthr_scheme \<Rightarrow> 'a kthr_scheme run" where
  "exec_op (Fork name d1 d2 f m) k = map_option snd (thread_fork name d1 d2 f m k)"
| "exec_op (Yield mem emem) k = thread_yield mem emem k"
| "exec_op (Sleep mem emem addr) k = thread_sleep mem emem addr k"
| "exec_op (Exit mem emem) k = thread_exit mem emem k"
| "exec_op (Wakeup mem addr) k = thread_wakeup mem addr k"
| "exec_op (Splx s) k = Some (snd (splx s k))"
| "exec_op (Idle_irq cause mem as emem) k = idle_interrupt cause (wakes mem as) emem k"

fun legal_op :: "kop \<Rightarrow> 'a kthr_scheme \<Rightarrow> bool" where
  "legal_op (Fork name d1 d2 f m) k \<longleftrightarrow> fork_pre m k"
| "legal_op (Yield mem emem) k \<longleftrightarrow> curthread k \<noteq> NULL \<and> run_room mem k"
| "legal_op (Sleep mem emem addr) k \<longleftrightarrow> curthread k \<noteq> NULL \<and> 0 < curspl k \<and> in_interrupt k = 0
     \<and> array_room mem (sleepers k)"
| "legal_op (Exit mem emem) k \<longleftrightarrow> curthread k \<noteq> NULL \<and> array_room mem (zombies k)"
| "legal_op (Wakeup mem addr) k \<longleftrightarrow> curthread k \<noteq> NULL \<and> 0 < curspl k \<and> wake_room mem k"
| "legal_op (Splx s) k \<longleftrightarrow> curthread k \<noteq> NULL \<and> 0 \<le> s"
| "legal_op (Idle_irq cause mem as emem) k \<longleftrightarrow> curthread k = NULL \<and> and cause LAMEBUS_IRQ_BIT \<noteq> 0 \<and> wake_room mem k"

lemma exec_op_ok:
  assumes inv: "kinv k" and legal: "legal_op opn k"
  shows "\<exists>k'. exec_op opn k = Some k' \<and> kinv k'"
proof (cases opn)
  case (Fork name d1 d2 f m)
  then show ?thesis using thread_fork_ok [OF inv, of m name d1 d2 f] legal by (auto simp: forked_def)
next
  case (Yield mem emem)
  then show ?thesis using thread_yield_ok [OF inv, of _ mem emem] legal by auto
next
  case (Sleep mem emem addr)
  then show ?thesis using thread_sleep_ok [OF inv, of _ mem emem addr] legal by auto
next
  case (Exit mem emem)
  then show ?thesis using thread_exit_ok [OF inv, of _ mem emem] legal by auto
next
  case (Wakeup mem addr)
  then show ?thesis using thread_wakeup_ok [of k mem addr] legal inv by (auto simp: kinv_def woke_def)
next
  case (Splx s)
  then show ?thesis using legal inv by (auto simp: kinv_def splx_eq)
next
  case (Idle_irq cause mem as emem)
  then show ?thesis using idle_interrupt_ok [OF inv, of cause mem "as" emem] legal by auto
qed

inductive runs :: "'a kthr_scheme \<Rightarrow> kop list \<Rightarrow> 'a kthr_scheme \<Rightarrow> bool" where
  runs_nil: "runs k [] k"
| runs_step: "runs k ops k1 \<Longrightarrow> legal_op opn k1 \<Longrightarrow> exec_op opn k1 = Some k2 \<Longrightarrow> runs k (ops @ [opn]) k2"

inductive_simps runs_Nil: "runs k [] k'"
inductive_cases runs_snoc: "runs k (ops @ [opn]) k'"

lemma runs_kinv: "runs k ops k' \<Longrightarrow> kinv k \<Longrightarrow> kinv k'"
proof (induction rule: runs.induct)
  case (runs_step k ops k1 opn k2)
  then show ?case using exec_op_ok [of k1 opn] by simp
qed

subsection \<open>Sample states\<close>

definition empty_arr :: "'a parray" where
  "empty_arr = \<lparr>anum = 0, amax = 0, av = NULL\<rparr>"

definition boot_thread :: thread where
  "boot_thread = \<lparr>t_pcb = \<lparr>pcb_ininterrupt = 0, pcb_resume = In_yield 0\<rparr>, t_name = ''<boot/menu>'', t_sleepaddr = NULL,
     t_stack = NULL, t_vmspace = NULL, t_cwd = NULL,
     t_ft = Some \<lparr>ft_handles = empty_arr, ft_next = 0\<rparr>, priority = 1, t_id = Some 0\<rparr>"

text \<open>After startup: one thread, at address 7, which runs with interrupts off.\<close>

definition boot_state :: kthr where
  "boot_state = \<lparr>curspl = 15, in_interrupt = 0, iec = False, threads = [7 \<mapsto> boot_thread],
     runqueue = [Some (fresh_queue 32), Some (fresh_queue 32), Some (fresh_queue 32), Some (fresh_queue 32)],
     curthread = Some 7, sleepers = Some empty_arr, zombies = Some empty_arr,
     process_ids = Some (mkq 200 (map Some [1..<100])), numthreads = 1,
     kfh = \<lparr>fdescs = Map.empty, vclosed = []\<rparr>, swcur = NULL, klog = []\<rparr>"

lemma empty_arr_ok: "array_ok empty_arr" "a_list empty_arr = []"
  by (simp_all add: empty_arr_def array_ok_def a_list_def block_def)

lemma boot_lists:
  "ready boot_state = []" "slist boot_state = []" "zlist boot_state = []" "idlist boot_state = map Some [1..<100]"
  "curthread boot_state = Some 7" "threads boot_state = [7 \<mapsto> boot_thread]" "numthreads boot_state = 1"
  "curspl boot_state = 15" "in_interrupt boot_state = 0" "sleepers boot_state = Some empty_arr" "zombies boot_state = Some empty_arr"
proof -
  show "ready boot_state = []" by (simp add: ready_4 runq_def boot_state_def)
  show "idlist boot_state = map Some [1..<100]"
    unfolding idlist_def by (simp add: boot_state_def mkq_ok(2) del: upt_Suc)
qed (simp_all add: slist_def zlist_def boot_state_def empty_arr_ok)

lemma boot_state_ok: "kinv boot_state"
proof -
  have qs: "queues_ok (runqueue boot_state)" by (simp add: queues_ok_def boot_state_def NUM_PRIORITIES_def fresh_queue_ok)
  have "runq boot_state i = []" if "i < NUM_PRIORITIES" for i
    using that unfolding less_4 by (auto simp: runq_def boot_state_def)
  then have "sched_ok boot_state" using qs by (simp add: sched_ok_def boot_lists)
  moreover have "ids_ok boot_state"
  proof -
    have "process_ids boot_state = Some (mkq 200 (map Some [1..<100]))" by (simp add: boot_state_def)
    moreover have "queue_ok (mkq 200 (map Some [1..<100 :: nat]))" by (rule mkq_ok) simp_all
    ultimately show ?thesis unfolding ids_ok_def boot_lists
      by (auto simp: MAX_THREADS_def boot_thread_def distinct_map mkq_def simp del: upt_Suc)
  qed
  moreover have "thread_ok boot_thread"
    by (simp add: thread_ok_def boot_thread_def stack_check_def NUM_PRIORITIES_def ft_idle_def slots_def empty_arr_ok MAX_THREADS_def)
  ultimately show ?thesis
    by (simp add: kinv_def kinvz_def boot_lists places_def cur_list_def arrays_ok_def empty_arr_ok switch_ok_def live_count_def)
       (simp add: boot_state_def)
qed

definition all_mem :: falloc where
  "all_mem = \<lparr>m_thread = Some 8, m_junk = \<lparr>pcb_ininterrupt = 0, pcb_resume = In_exit\<rparr>, m_name = True, m_ft = True,
     m_arr = True, m_stack = True, m_as = Err ENOMEM, m_sleepers = (\<lambda>_. True), m_zombies = (\<lambda>_. True),
     m_sched = (\<lambda>_ _. True), m_run = (\<lambda>_. True)\<rparr>"

lemma all_mem_pre: "fork_pre all_mem boot_state"
  by (simp add: fork_pre_def boot_lists all_mem_def upt_conv_Cons)

subsection \<open>Properties\<close>



text \<open>
  C21. Startup establishes the invariant: from a machine without threads, \<^verbatim>\<open>scheduler_bootstrap\<close> and then
  \<^verbatim>\<open>thread_bootstrap\<close>, with memory, give a state in which the boot thread runs alone with process id 0
  and the ids 1 to 99 are free, in order.
\<close>

theorem boot_establishes_invariant:
  assumes "\<forall>i. got i" and "\<forall>i n. mem i n" and "\<forall>i. got_id i" and "\<forall>i n. mem_id i n" and "\<forall>n. mem_q n"
    and "m_thread m = Some a" "m_name m" "m_ft m" "m_arr m"
    and "threads k = Map.empty" and "swcur k = NULL" and "0 \<le> curspl k"
  shows "\<exists>k1 k2. scheduler_bootstrap got mem k = Some k1
    \<and> thread_bootstrap True True True mem_q got_id mem_id m k1 = Some (a, k2)
    \<and> kinv k2 \<and> curthread k2 = Some a \<and> dom (threads k2) = {a} \<and> idlist k2 = map Some [1..<MAX_THREADS]"
proof -
  obtain k1 where k1: "scheduler_bootstrap got mem k = Some k1" "k1 = k\<lparr>runqueue := runqueue k1\<rparr>"
    "sched_ok k1" "ready k1 = []" using scheduler_bootstrap_ok [of got mem k] assms by auto
  have f: "threads k1 = Map.empty" "0 \<le> curspl k1" "swcur k1 = NULL"
    by (subst k1(2), simp add: assms)+
  have all: "mem_all mem_q" "\<And>i. mem_all (mem_id i)" "\<And>i. got_id i" using assms by (simp_all add: mem_all_def)
  from thread_bootstrap_ok [where got_id = got_id and mem_id = mem_id, OF k1(3,4) f assms(6-9) all(1,3,2)] obtain k2 where
    k2: "thread_bootstrap True True True mem_q got_id mem_id m k1 = Some (a, k2)" "kinv k2" "curthread k2 = Some a"
    "ready k2 = []" "slist k2 = []" "zlist k2 = []" "idlist k2 = map Some [1..<MAX_THREADS]" by blast
  have "dom (threads k2) = {a}"
    using kinvzD(5) [of "zlist k2" k2] k2 by (simp add: kinv_def places_def cur_list_def)
  with k1(1) k2 show ?thesis by blast
qed

definition blank_state :: kthr where
  "blank_state = \<lparr>curspl = 15, in_interrupt = 0, iec = False, threads = Map.empty, runqueue = replicate 4 NULL,
     curthread = NULL, sleepers = NULL, zombies = NULL, process_ids = NULL, numthreads = 0,
     kfh = \<lparr>fdescs = Map.empty, vclosed = []\<rparr>, swcur = NULL, klog = []\<rparr>"

theorem boot_establishes_invariant_witness:
  "\<exists>k1 k2. scheduler_bootstrap (\<lambda>_. True) (\<lambda>_ _. True) blank_state = Some k1
    \<and> thread_bootstrap True True True (\<lambda>_. True) (\<lambda>_. True) (\<lambda>_ _. True) all_mem k1 = Some (8, k2)
    \<and> kinv k2 \<and> curthread k2 = Some 8 \<and> dom (threads k2) = {8} \<and> idlist k2 = map Some [1..<MAX_THREADS]"
  by (rule boot_establishes_invariant) (simp_all add: all_mem_def blank_state_def)

text \<open>
  C19. \<^verbatim>\<open>thread_fork\<close> either makes exactly one new thread, ready to run, with all other threads where they
  were, and reserves room for one more thread in every list; or it reports ENOMEM and no thread has
  been added, moved or removed. Interrupt level and current thread are as before in both cases.
\<close>

theorem thread_fork_spec:
  assumes "kinv k" and "fork_pre m k"
  shows "\<exists>r k'. thread_fork name data1 data2 func m k = Some (r, k') \<and> kinv k'
    \<and> curthread k' = curthread k \<and> slist k' = slist k \<and> zlist k' = zlist k \<and> curspl k' = curspl k
    \<and> (case r of
         Inr a \<Rightarrow> a \<notin> dom (threads k) \<and> dom (threads k') = insert a (dom (threads k))
           \<and> mset (ready k') = add_mset a (mset (ready k)) \<and> numthreads k' = numthreads k + 1
           \<and> room_for (numthreads k') k'
       | Inl e \<Rightarrow> e = ENOMEM \<and> threads k' = threads k \<and> ready k' = ready k \<and> numthreads k' = numthreads k)"
  using thread_fork_ok [OF assms, of name data1 data2 func] unfolding forked_def by blast

theorem thread_fork_spec_witness:
  "\<exists>r k'. thread_fork ''child'' 1 2 3 all_mem boot_state = Some (r, k') \<and> kinv k'
    \<and> curthread k' = curthread boot_state \<and> slist k' = slist boot_state \<and> zlist k' = zlist boot_state
    \<and> curspl k' = curspl boot_state
    \<and> (case r of
         Inr a \<Rightarrow> a \<notin> dom (threads boot_state) \<and> dom (threads k') = insert a (dom (threads boot_state))
           \<and> mset (ready k') = add_mset a (mset (ready boot_state)) \<and> numthreads k' = numthreads boot_state + 1
           \<and> room_for (numthreads k') k'
       | Inl e \<Rightarrow> e = ENOMEM \<and> threads k' = threads boot_state \<and> ready k' = ready boot_state
           \<and> numthreads k' = numthreads boot_state)"
  by (rule thread_fork_spec [OF boot_state_ok all_mem_pre])

text \<open>
  C18. No wakeup is lost: when a thread has gone to sleep on an address and another one runs,
  \<^verbatim>\<open>thread_wakeup\<close> on that address makes exactly the threads asleep on it ready, the former one among
  them, and leaves the other sleepers asleep in their order.
\<close>

theorem sleep_then_wakeup:
  assumes "kinv k" and "curthread k = Some c" and "0 < curspl k" and "in_interrupt k = 0" and "array_room mem (sleepers k)"
  shows "\<exists>k1. thread_sleep mem emem addr k = Some k1 \<and> slist k1 = slist k @ [c] \<and>
    (0 < curspl k1 \<and> wake_room wmem k1 \<longrightarrow>
      (\<exists>k2. thread_wakeup wmem addr k1 = Some k2 \<and> c \<in> set (ready k2)
         \<and> slist k2 = filter (\<lambda>t. t_sleepaddr (the (threads k t)) \<noteq> Some addr) (slist k)
         \<and> mset (ready k2) = mset (ready k1)
             + mset (filter (\<lambda>t. t_sleepaddr (the (threads k t)) = Some addr) (slist k)) + {#c#}))"
proof -
  from thread_sleep_ok [OF assms, of emem addr] obtain k1 where
    k1: "thread_sleep mem emem addr k = Some k1" "kinv k1" "slist k1 = slist k @ [c]"
    "t_sleepaddr (the (threads k1 c)) = Some addr"
    "\<forall>u \<in> set (slist k). t_sleepaddr (the (threads k1 u)) = t_sleepaddr (the (threads k u))" by blast
  have "\<exists>k2. thread_wakeup wmem addr k1 = Some k2 \<and> c \<in> set (ready k2)
         \<and> slist k2 = filter (\<lambda>t. t_sleepaddr (the (threads k t)) \<noteq> Some addr) (slist k)
         \<and> mset (ready k2) = mset (ready k1)
             + mset (filter (\<lambda>t. t_sleepaddr (the (threads k t)) = Some addr) (slist k)) + {#c#}"
    if spl: "0 < curspl k1" and room: "wake_room wmem k1"
  proof -
    have "kinvz (zlist k1) k1" using k1(2) by (simp add: kinv_def)
    from thread_wakeup_ok [OF this spl room, of addr] obtain k2 where
      k2: "thread_wakeup wmem addr k1 = Some k2" "slist k2 = filter (\<lambda>t. \<not> asleep_on k1 addr t) (slist k1)"
      "mset (ready k2) = mset (ready k1) + mset (filter (asleep_on k1 addr) (slist k1))" by blast
    have a: "filter (asleep_on k1 addr) (slist k) = filter (\<lambda>t. t_sleepaddr (the (threads k t)) = Some addr) (slist k)"
      "filter (\<lambda>t. \<not> asleep_on k1 addr t) (slist k) = filter (\<lambda>t. t_sleepaddr (the (threads k t)) \<noteq> Some addr) (slist k)"
      using k1(5) by (auto simp: asleep_on_def intro!: filter_cong)
    have c: "asleep_on k1 addr c" using k1(4) by (simp add: asleep_on_def)
    have m: "mset (ready k2) = mset (ready k1)
             + mset (filter (\<lambda>t. t_sleepaddr (the (threads k t)) = Some addr) (slist k)) + {#c#}"
      using k2(3) k1(3) a(1) c by simp
    have "c \<in># mset (ready k2)" unfolding m by simp
    then have "c \<in> set (ready k2)" by (simp only: set_mset_mset)
    with k2(1,2) m k1(3) a(2) c show ?thesis by auto
  qed
  with k1 show ?thesis by blast
qed

theorem sleep_then_wakeup_witness:
  "\<exists>k1 k2. thread_sleep (\<lambda>_. True) (\<lambda>_ _. True) 42 boot_state = Some k1 \<and> slist k1 = [7]
     \<and> thread_wakeup (\<lambda>_ _. True) 42 k1 = Some k2 \<and> 7 \<in> set (ready k2) \<and> slist k2 = []"
proof -
  have pre: "curthread boot_state = Some 7" "0 < curspl boot_state" "in_interrupt boot_state = 0"
    "array_room (\<lambda>_. True) (sleepers boot_state)" by (simp_all add: boot_lists array_room_def mem_all_def)
  from thread_sleep_ok [OF boot_state_ok pre, of "\<lambda>_ _. True" 42] obtain k1 where
    k1: "thread_sleep (\<lambda>_. True) (\<lambda>_ _. True) 42 boot_state = Some k1" "kinv k1" "curthread k1 = NULL"
    by (auto simp: boot_lists)
  then have "0 < curspl k1 \<and> wake_room (\<lambda>_ _. True) k1" by (simp add: kinv_def wake_room_def mem_all_def)
  with sleep_then_wakeup [OF boot_state_ok pre, of "\<lambda>_ _. True" 42 "\<lambda>_ _. True"] k1(1) show ?thesis
    by (auto simp: boot_lists)
qed

text \<open>
  C35. The reservation for zombies does not last: \<^verbatim>\<open>exorcise\<close> empties \<open>zombies\<close> with
  \<^verbatim>\<open>array_setsize(zombies, 0)\<close>, which frees the array when it has more than 16 cells. Without memory
  the next \<^verbatim>\<open>thread_exit\<close> then fails the assertion that the comments in \<^verbatim>\<open>mi_switch\<close> say cannot fail.
\<close>

theorem exorcise_loses_reservation:
  assumes "kinv k" and "curthread k = Some c" and "0 < curspl k" and "16 < amax (the (zombies k))"
  shows "\<exists>k'. exorcise mem k = Some k' \<and> amax (the (zombies k')) = 0 \<and> thread_exit (\<lambda>_. False) emem k' = panic"
proof -
  have kz: "kinvz (zlist k) k" "numthreads k = live_count k" using assms(1) by (simp_all add: kinv_def)
  obtain ss zs where arr: "zombies k = Some zs" "array_ok zs" using kinvzD(2) [OF kz(1)] by (auto simp: arrays_ok_def)
  have cur: "curthread k \<noteq> NULL" using assms(2) by simp
  from exorcise_ok [OF kz(1) cur assms(3), of mem] obtain k1 where
    k1: "exorcise mem k = Some k1" "kinvz [] k1" "follows k k1" by blast
  from array_setsize_0 [OF arr(2), of "mem 0"] obtain zs' where
    z: "array_setsize (mem 0) zs 0 = Some (Ok (), zs')" "array_ok zs'" "a_list zs' = []" "amax zs' = 0"
    using assms(4) arr(1) by auto
  have z1: "zombies k1 = Some zs'" using k1(1) arr(1) z(1) by (auto simp: exorcise_def bind_eq_Some_conv)
  have cur1: "curthread k1 = Some c" using follows_lists(4) [OF k1(3)] assms(2) by simp
  obtain th where th: "threads k1 c = Some th" "thread_ok th" using current_thread [OF k1(2) cur1] .
  have n: "0 < numthreads k1" "stack_check (t_stack th)"
    using follows_lists(5) [OF k1(3)] kz(2) assms(2) th(2) by (auto simp: live_count_def cur_list_def thread_ok_def)
  have "anum zs' = 0" using pa.num_eq [OF z(2)] z(3) by (simp add: array_getnum_def)
  moreover have "array_newmax 1 0 = Some 2" by (simp add: array_newmax.simps)
  ultimately have add: "array_add (\<lambda>_. False) zs' c = Some (Err ENOMEM, zs')"
    using z(4) by (simp add: array_add_def array_setsize_def array_preallocate_def)
  from thread_exit_eq [OF cur1 th(1) n(2,1), of "\<lambda>_. False" emem] have "thread_exit (\<lambda>_. False) emem k1 = panic"
    by (auto simp: mi_switch_def mi_stash_def cur1 z1 add n(2))
  with k1(1) z1 z(4) show ?thesis by auto
qed

definition big_arr :: "'a parray" where
  "big_arr = \<lparr>anum = 0, amax = 20, av = Some (replicate 20 None)\<rparr>"

theorem exorcise_loses_reservation_witness:
  "\<exists>k'. exorcise (\<lambda>_ _. True) (boot_state\<lparr>zombies := Some big_arr\<rparr>) = Some k' \<and> amax (the (zombies k')) = 0
    \<and> thread_exit (\<lambda>_. False) (\<lambda>_ _. False) k' = panic"
proof -
  have big: "array_ok (big_arr :: nat parray)" "a_list (big_arr :: nat parray) = []"
    by (simp_all add: big_arr_def array_ok_def a_list_def block_def)
  have "kinvz [] boot_state" using boot_state_ok by (simp add: kinv_def boot_lists)
  from kinvz_zombies [OF this big(1)] have "kinv (boot_state\<lparr>zombies := Some big_arr\<rparr>)"
    using boot_state_ok by (simp add: kinv_def big(2) boot_lists)
  then show ?thesis
    by (rule exorcise_loses_reservation [where c = 7]) (simp_all add: boot_lists big_arr_def)
qed

text \<open>
  C36. \<^verbatim>\<open>thread_shutdown\<close> cannot succeed while a process id is free: it destroys the queue of ids, which
  asserts that the queue is empty. With at most one hundred threads created and the boot thread
  alone, ids are free.
\<close>

theorem thread_shutdown_panics:
  assumes "kinv k" and "idlist k \<noteq> []"
  shows "thread_shutdown k = panic"
proof -
  have "ids_ok k" using assms(1) by (simp add: kinv_def kinvz_def)
  then obtain q where "process_ids k = Some q" "queue_ok q" by (auto simp: ids_ok_def)
  then show ?thesis using assms(2)
    by (cases "sleepers k"; cases "zombies k") (simp_all add: thread_shutdown_def q_destroy_def q_empty_iff idlist_def)
qed

theorem thread_shutdown_panics_witness: "thread_shutdown boot_state = panic"
  by (rule thread_shutdown_panics [OF boot_state_ok]) (simp add: boot_lists upt_conv_Cons)

text \<open>
  C37. Process ids are lost and the loss is fatal: a \<^verbatim>\<open>thread_fork\<close> that fails for lack of a stack
  keeps the id it has taken, and when none is left the next \<^verbatim>\<open>thread_fork\<close> panics in
  \<^verbatim>\<open>q_remhead\<close> instead of reporting an error.
\<close>

theorem thread_fork_ids:
  assumes "kinv k" and "m_thread m = Some a" "m_name m" "a \<notin> dom (threads k)"
  shows "(idlist k \<noteq> [] \<and> \<not> m_stack m \<longrightarrow>
      (\<exists>k'. thread_fork name d1 d2 f m k = Some (Err ENOMEM, k') \<and> threads k' = threads k \<and> idlist k' = tl (idlist k)))
    \<and> (idlist k = [] \<longrightarrow> thread_fork name d1 d2 f m k = panic)"
proof -
  have "ids_ok k" using assms(1) by (simp add: kinv_def kinvz_def)
  then obtain q where q: "process_ids k = Some q" "queue_ok q" by (auto simp: ids_ok_def)
  have drop: "(threads k)(a := None) = threads k" using assms(4) by (auto simp: fun_eq_iff domIff)
  show ?thesis
  proof (cases "idlist k = []")
    case True
    then show ?thesis
      using q q_remhead_empty [OF q(2)] assms(2,3) by (simp add: thread_fork_def thread_create_def idlist_def)
  next
    case False
    then obtain q' where "q_remhead q = Some (hd (q_list q), q')" "q_list q' = tl (q_list q)"
      using q_remhead_ok [OF q(2)] q(1) by (auto simp: idlist_def)
    then show ?thesis
      using False q assms(2,3) drop by (simp add: thread_fork_def thread_create_def idlist_def)
  qed
qed

theorem thread_fork_ids_witness:
  "\<exists>k'. thread_fork ''child'' 0 0 0 (all_mem\<lparr>m_stack := False\<rparr>) boot_state = Some (Err ENOMEM, k')
     \<and> threads k' = threads boot_state \<and> idlist k' = tl (idlist boot_state)"
  using thread_fork_ids [OF boot_state_ok, of "all_mem\<lparr>m_stack := False\<rparr>" 8 "''child''" 0 0 0]
  by (simp add: all_mem_def boot_lists upt_conv_Cons)

end
