(* ===== verification/Uio.thy ===== *)
theory Uio
  imports Prelude
begin

section \<open>Moving data between kernel buffers and user memory\<close>

text \<open>
  Model of \<^verbatim>\<open>kern/lib/copyinout.c\<close> and \<^verbatim>\<open>kern/userprog/uio.c\<close>.

  A \<open>memory\<close> maps addresses to bytes; an access to an address without a byte faults. For a user
  address space these are the pages that are not mapped, for a kernel buffer the addresses
  outside the buffer. A kernel buffer that the caller owns is a list of bytes. A fault while
  user memory is copied goes through \<^verbatim>\<open>pcb_badfaultfunc\<close> and \<^verbatim>\<open>copyfail\<close> back to the
  \<^verbatim>\<open>setjmp\<close>, so that \<^verbatim>\<open>copyin\<close> and its relatives return \<^const>\<open>EFAULT\<close> with the bytes before the fault
  already copied; \<^verbatim>\<open>pcb_badfaultfunc\<close> is NULL before and after each of them. A fault on a kernel
  address is fatal. Copying by words instead of bytes makes no difference here, since a word
  never crosses a page.
\<close>

type_synonym byte = "8 word"
type_synonym memory = "nat \<Rightarrow> byte option"

definition put :: "memory \<Rightarrow> nat \<Rightarrow> byte list \<Rightarrow> memory" where
  "put m a bs = (\<lambda>x. if a \<le> x \<and> x < a + length bs then Some (bs ! (x - a)) else m x)"

definition mapped :: "memory \<Rightarrow> nat \<Rightarrow> nat \<Rightarrow> bool" where
  "mapped m a n \<longleftrightarrow> list_all (\<lambda>x. m x \<noteq> None) [a..<a + n]"

definition bytes_at :: "memory \<Rightarrow> nat \<Rightarrow> nat \<Rightarrow> byte list" where
  "bytes_at m a n = map (\<lambda>x. the (m x)) [a..<a + n]"

definition mem_of :: "byte list \<Rightarrow> memory" where
  "mem_of bs = (\<lambda>x. if x < length bs then Some (bs ! x) else None)"

text \<open>Number of bytes that can be accessed from an address before the first fault.\<close>

definition reach :: "memory \<Rightarrow> nat \<Rightarrow> nat \<Rightarrow> nat" where
  "reach m a n = length (takeWhile (\<lambda>x. m x \<noteq> None) [a..<a + n])"

text \<open>Plain kernel copies, as \<^verbatim>\<open>memmove\<close> makes them between different buffers.\<close>

definition kstore :: "memory \<Rightarrow> nat \<Rightarrow> byte list \<Rightarrow> memory run" where
  "kstore m a bs = (if mapped m a (length bs) then Some (put m a bs) else None)"

definition kload :: "memory \<Rightarrow> nat \<Rightarrow> nat \<Rightarrow> byte list run" where
  "kload m a n = (if mapped m a n then Some (bytes_at m a n) else None)"

subsection \<open>\<^verbatim>\<open>copyinout.c\<close>\<close>

definition USERTOP :: nat where "USERTOP = 0x80000000"

definition copycheck :: "nat \<Rightarrow> nat \<Rightarrow> nat res" where
  "copycheck userptr len =
     (let bot = userptr; top = u32 (bot + len + (2 ^ 32 - 1)) in
      if top < bot then Err EFAULT
      else if bot \<ge> USERTOP then Err EFAULT
      else if top \<ge> USERTOP then Ok (USERTOP - bot)
      else Ok len)"

definition copyin :: "memory \<Rightarrow> nat \<Rightarrow> byte list \<Rightarrow> nat \<Rightarrow> (unit res \<times> byte list) run" where
  "copyin um usersrc dest len =
     (case copycheck usersrc len of
        Inl e \<Rightarrow> Some (Err e, dest)
      | Inr stoplen \<Rightarrow>
          if stoplen \<noteq> len then Some (Err EFAULT, dest)
          else do {
            kassert (len \<le> length dest);
            let got = reach um usersrc len;
            let dest' = bytes_at um usersrc got @ drop got dest;
            Some (if got < len then Err EFAULT else Ok (), dest')
          })"

definition copyout :: "memory \<Rightarrow> byte list \<Rightarrow> nat \<Rightarrow> nat \<Rightarrow> (unit res \<times> memory) run" where
  "copyout um src userdest len =
     (case copycheck userdest len of
        Inl e \<Rightarrow> Some (Err e, um)
      | Inr stoplen \<Rightarrow>
          if stoplen \<noteq> len then Some (Err EFAULT, um)
          else do {
            kassert (len \<le> length src);
            let got = reach um userdest len;
            Some (if got < len then Err EFAULT else Ok (), put um userdest (take got src))
          })"

text \<open>
  \<open>copystr\<close> copies between two memories, one of them the user's. The result is \<open>None\<close> when an
  access faults.
\<close>

function copystr :: "memory \<Rightarrow> nat \<Rightarrow> memory \<Rightarrow> nat \<Rightarrow> nat \<Rightarrow> nat \<Rightarrow> nat \<Rightarrow> nat res option \<times> memory" where
  "copystr dm d sm s maxlen stoplen i =
     (if i < maxlen \<and> i < stoplen then
        (case (sm (s + i), dm (d + i)) of
           (Some c, Some _) \<Rightarrow>
             if c = 0 then (Some (Ok (i + 1)), dm(d + i \<mapsto> c))
             else copystr (dm(d + i \<mapsto> c)) d sm s maxlen stoplen (i + 1)
         | _ \<Rightarrow> (None, dm))
      else if stoplen < maxlen then (Some (Err EFAULT), dm)
      else (Some (Err ENAMETOOLONG), dm))"
  by pat_completeness auto
termination by (relation "measure (\<lambda>(_, _, _, _, maxlen, _, i). maxlen - i)") auto

declare copystr.simps [simp del]

definition copyinstr :: "memory \<Rightarrow> nat \<Rightarrow> memory \<Rightarrow> nat \<Rightarrow> nat \<Rightarrow> nat res \<times> memory" where
  "copyinstr um usersrc km dest len =
     (case copycheck usersrc len of
        Inl e \<Rightarrow> (Err e, km)
      | Inr stoplen \<Rightarrow>
          (case copystr km dest um usersrc len stoplen 0 of
             (None, km') \<Rightarrow> (Err EFAULT, km')
           | (Some r, km') \<Rightarrow> (r, km')))"

definition copyoutstr :: "memory \<Rightarrow> nat \<Rightarrow> memory \<Rightarrow> nat \<Rightarrow> nat \<Rightarrow> nat res \<times> memory" where
  "copyoutstr km src um userdest len =
     (case copycheck userdest len of
        Inl e \<Rightarrow> (Err e, um)
      | Inr stoplen \<Rightarrow>
          (case copystr um userdest km src len stoplen 0 of
             (None, um') \<Rightarrow> (Err EFAULT, um')
           | (Some r, um') \<Rightarrow> (r, um')))"

subsection \<open>\<^verbatim>\<open>uio.c\<close>\<close>

datatype uio_rw = UIO_READ | UIO_WRITE
datatype uio_seg = UIO_USERSPACE | UIO_SYSSPACE | UIO_USERISPACE

text \<open>
  A uio with the memory its pointer refers to (\<open>iov_mem\<close>): the kernel buffer for
  \<open>UIO_SYSSPACE\<close>, the memory of the address space \<open>uio_space\<close> otherwise.
\<close>

record uio =
  iov_mem :: memory
  iov_base :: nat
  iov_len :: nat
  uio_offset :: int
  uio_resid :: nat
  uio_segflg :: uio_seg
  uio_rw :: uio_rw
  uio_space :: "nat ptr"

definition mk_kuio :: "byte list \<Rightarrow> nat \<Rightarrow> int \<Rightarrow> uio_rw \<Rightarrow> uio" where
  "mk_kuio kbuf len pos rw =
     \<lparr>iov_mem = mem_of kbuf, iov_base = 0, iov_len = len, uio_offset = pos, uio_resid = len,
      uio_segflg = UIO_SYSSPACE, uio_rw = rw, uio_space = NULL\<rparr>"

text \<open>The bookkeeping at the end of a round of \<^verbatim>\<open>uiomove\<close>, with its unsigned wrap-around.\<close>

definition uio_advance :: "nat \<Rightarrow> uio \<Rightarrow> uio" where
  "uio_advance sz u = u\<lparr>
     iov_base := iov_base u + sz,
     iov_len := iov_len u - sz,
     uio_resid := u32 (uio_resid u + 2 ^ 32 - sz),
     uio_offset := s32 (uio_offset u + int sz)\<rparr>"

text \<open>
  One round moves \<open>sz\<close> bytes between the front of the buffer and the region.
\<close>

definition uio_copy :: "byte list \<Rightarrow> nat \<Rightarrow> uio \<Rightarrow> (unit res \<times> byte list \<times> uio) run" where
  "uio_copy buf sz u =
     (case (uio_segflg u, uio_rw u) of
        (UIO_SYSSPACE, UIO_READ) \<Rightarrow> do {
          kassert (sz \<le> length buf);
          m \<leftarrow> kstore (iov_mem u) (iov_base u) (take sz buf);
          Some (Ok (), buf, u\<lparr>iov_mem := m\<rparr>)
        }
      | (UIO_SYSSPACE, UIO_WRITE) \<Rightarrow> do {
          kassert (sz \<le> length buf);
          bs \<leftarrow> kload (iov_mem u) (iov_base u) sz;
          Some (Ok (), bs @ drop sz buf, u)
        }
      | (_, UIO_READ) \<Rightarrow> do {
          (r, m) \<leftarrow> copyout (iov_mem u) buf (iov_base u) sz;
          Some (r, buf, u\<lparr>iov_mem := m\<rparr>)
        }
      | (_, UIO_WRITE) \<Rightarrow> do {
          (r, buf') \<leftarrow> copyin (iov_mem u) (iov_base u) buf sz;
          Some (r, buf', u)
        })"

function uiomove_loop :: "byte list \<Rightarrow> nat \<Rightarrow> uio \<Rightarrow> (unit res \<times> byte list \<times> uio) run" where
  "uiomove_loop buf n u =
     (if n > 0 \<and> uio_resid u > 0 then
        let sz = min (iov_len u) n in
        if sz = 0 then panic
        else (case uio_copy buf sz u of
                None \<Rightarrow> None
              | Some (Inl e, buf', u') \<Rightarrow> Some (Err e, buf', u')
              | Some (Inr _, buf', u') \<Rightarrow>
                  (case uiomove_loop (drop sz buf') (n - sz) (uio_advance sz u') of
                     None \<Rightarrow> None
                   | Some (r, rest, u'') \<Rightarrow> Some (r, take sz buf' @ rest, u'')))
      else Some (Ok (), buf, u))"
  by pat_completeness auto
termination by (relation "measure (\<lambda>(_, n, _). n)") auto

declare uiomove_loop.simps [simp del]

text \<open>\<open>curspace\<close> is \<^verbatim>\<open>curthread->t_vmspace\<close>.\<close>

definition uiomove :: "nat ptr \<Rightarrow> byte list \<Rightarrow> nat \<Rightarrow> uio \<Rightarrow> (unit res \<times> byte list \<times> uio) run" where
  "uiomove curspace buf n u = do {
     kassert (if uio_segflg u = UIO_SYSSPACE then uio_space u = NULL else uio_space u = curspace);
     uiomove_loop buf n u
   }"

function uiomovezeros_loop :: "nat ptr \<Rightarrow> nat \<Rightarrow> uio \<Rightarrow> (unit res \<times> uio) run" where
  "uiomovezeros_loop curspace n u =
     (if n > 0 then
        let amt = min 16 n in
        (case uiomove curspace (replicate 16 0) amt u of
           None \<Rightarrow> None
         | Some (Inl e, _, u') \<Rightarrow> Some (Err e, u')
         | Some (Inr _, _, u') \<Rightarrow> uiomovezeros_loop curspace (n - amt) u')
      else Some (Ok (), u))"
  by pat_completeness auto
termination by (relation "measure (\<lambda>(_, n, _). n)") auto

declare uiomovezeros_loop.simps [simp del]

definition uiomovezeros :: "nat ptr \<Rightarrow> nat \<Rightarrow> uio \<Rightarrow> (unit res \<times> uio) run" where
  "uiomovezeros curspace n u = do {
     kassert (uio_rw u = UIO_READ);
     uiomovezeros_loop curspace n u
   }"

subsection \<open>Memory\<close>

lemma put_Nil [simp]: "put m a [] = m"
  by (rule ext) (auto simp: put_def)

lemma put_in: "a \<le> x \<Longrightarrow> x < a + length bs \<Longrightarrow> put m a bs x = Some (bs ! (x - a))"
  by (simp add: put_def)

lemma put_out: "x < a \<or> a + length bs \<le> x \<Longrightarrow> put m a bs x = m x"
  by (auto simp: put_def)

lemma put_append: "put (put m a xs) (a + length xs) ys = put m a (xs @ ys)"
  by (auto simp: put_def fun_eq_iff nth_append)

lemma dom_put: "dom (put m a bs) = dom m \<union> {a..<a + length bs}"
  by (auto simp: put_def dom_def)

lemma mapped_iff: "mapped m a n \<longleftrightarrow> {a..<a + n} \<subseteq> dom m"
  by (auto simp: mapped_def list_all_iff dom_def)

lemma mapped_0 [simp]: "mapped m a 0"
  by (simp add: mapped_iff)

lemma mapped_add: "mapped m a (n + k) \<longleftrightarrow> mapped m a n \<and> mapped m (a + n) k"
  by (auto simp: mapped_def list_all_iff)

lemma mapped_mono: "mapped m a n \<Longrightarrow> k \<le> n \<Longrightarrow> mapped m a k"
  by (auto simp: mapped_iff subset_iff)

lemma mapped_put [simp]: "mapped m b n \<Longrightarrow> mapped (put m a bs) b n"
  by (auto simp: mapped_iff dom_put)

lemma dom_mem_of: "dom (mem_of bs) = {..<length bs}"
  by (auto simp: mem_of_def dom_def split: if_splits)

lemma mapped_mem_of [simp]: "mapped (mem_of bs) a n \<longleftrightarrow> n = 0 \<or> a + n \<le> length bs"
proof
  assume "mapped (mem_of bs) a n"
  then have s: "{a..<a + n} \<subseteq> {..<length bs}" by (simp add: mapped_iff dom_mem_of)
  have "n = 0 \<or> a + n - 1 \<in> {a..<a + n}" by auto
  with s have "n = 0 \<or> a + n - 1 \<in> {..<length bs}" by blast
  then show "n = 0 \<or> a + n \<le> length bs" by auto
qed (auto simp: mapped_iff dom_mem_of)

lemma length_bytes_at [simp]: "length (bytes_at m a n) = n"
  by (simp add: bytes_at_def)

lemma bytes_at_nth [simp]: "i < n \<Longrightarrow> bytes_at m a n ! i = the (m (a + i))"
  by (simp add: bytes_at_def)

lemma bytes_at_0 [simp]: "bytes_at m a 0 = []"
  by (simp add: bytes_at_def)

lemma bytes_at_add: "bytes_at m a (n + k) = bytes_at m a n @ bytes_at m (a + n) k"
  by (auto simp: list_eq_iff_nth_eq nth_append)

lemma bytes_at_put [simp]: "bytes_at (put m a bs) a (length bs) = bs"
  by (auto simp: list_eq_iff_nth_eq put_def)

lemma bytes_at_put_other:
  "b + n \<le> a \<or> a + length bs \<le> b \<Longrightarrow> bytes_at (put m a bs) b n = bytes_at m b n"
  by (auto simp: list_eq_iff_nth_eq put_def)

lemma bytes_at_mem_of: "a + n \<le> length bs \<Longrightarrow> bytes_at (mem_of bs) a n = take n (drop a bs)"
  by (auto simp: list_eq_iff_nth_eq mem_of_def)

lemma takeWhile_id: "\<forall>x\<in>set xs. P x \<Longrightarrow> takeWhile P xs = xs"
  by simp

lemma reach_mapped [simp]: "mapped m a n \<Longrightarrow> reach m a n = n"
  by (simp add: reach_def mapped_def list_all_iff takeWhile_id)

lemma reach_le: "reach m a n \<le> n"
  using length_takeWhile_le [of "\<lambda>x. m x \<noteq> None" "[a..<a + n]"] by (simp add: reach_def)

lemma reach_less: "\<not> mapped m a n \<Longrightarrow> reach m a n < n"
proof (rule ccontr)
  assume n: "\<not> mapped m a n" and "\<not> reach m a n < n"
  then have "length (takeWhile (\<lambda>x. m x \<noteq> None) [a..<a + n]) = length [a..<a + n]"
    using reach_le [of m a n] by (simp add: reach_def)
  then have "takeWhile (\<lambda>x. m x \<noteq> None) [a..<a + n] = [a..<a + n]"
    by (metis takeWhile_eq_take take_all_iff order_refl)
  then have "\<forall>x\<in>set [a..<a + n]. m x \<noteq> None" by (simp add: takeWhile_eq_all_conv)
  with n show False by (simp add: mapped_def list_all_iff)
qed

subsection \<open>User copies\<close>

lemma u32_minus_1: "0 < k \<Longrightarrow> k \<le> 2 ^ 32 \<Longrightarrow> u32 (k + (2 ^ 32 - 1)) = k - 1"
proof -
  assume a: "0 < k" "k \<le> 2 ^ 32"
  then have "k + (2 ^ 32 - 1) = (k - 1) + 2 ^ 32" by simp
  then have "(k + (2 ^ 32 - 1)) mod 2 ^ 32 = (k - 1) mod 2 ^ 32" by (simp only: mod_add_self2)
  with a show ?thesis by (simp add: u32_def)
qed

lemma copycheck_ok: "0 < n \<Longrightarrow> a + n \<le> USERTOP \<Longrightarrow> copycheck a n = Ok n"
  using u32_minus_1 [of "a + n"] by (auto simp: copycheck_def Let_def USERTOP_def)

lemma copycheck_okD:
  assumes "copycheck a n = Ok n" "a < 2 ^ 32" "n < 2 ^ 32"
  shows "a + n \<le> USERTOP"
proof (cases "0 < n \<and> a + n \<le> 2 ^ 32")
  case True
  then have "u32 (a + n + (2 ^ 32 - 1)) = a + n - 1" using u32_minus_1 by simp
  with assms(1) show ?thesis by (auto simp: copycheck_def Let_def USERTOP_def split: if_splits)
next
  case False
  then consider "n = 0" | "2 ^ 32 < a + n" by auto
  then show ?thesis
  proof cases
    case 1
    with assms(1) show ?thesis by (auto simp: copycheck_def Let_def USERTOP_def split: if_splits)
  next
    case 2
    then have "a + n + (2 ^ 32 - 1) = (a + n - 2 ^ 32 - 1) + 2 ^ 32 + 2 ^ 32" by simp
    then have "u32 (a + n + (2 ^ 32 - 1)) = (a + n - 2 ^ 32 - 1) mod 2 ^ 32"
      by (simp only: u32_def mod_add_self2)
    also have "\<dots> = a + n - 2 ^ 32 - 1" using assms by (intro mod_less) simp
    finally have "u32 (a + n + (2 ^ 32 - 1)) < a" using 2 assms by simp
    with assms(1) show ?thesis by (simp add: copycheck_def Let_def)
  qed
qed

lemma copyin_ok:
  "0 < n \<Longrightarrow> a + n \<le> USERTOP \<Longrightarrow> mapped um a n \<Longrightarrow> n \<le> length dest \<Longrightarrow>
   copyin um a dest n = Some (Ok (), bytes_at um a n @ drop n dest)"
  by (simp add: copyin_def copycheck_ok)

lemma copyout_ok:
  "0 < n \<Longrightarrow> a + n \<le> USERTOP \<Longrightarrow> mapped um a n \<Longrightarrow> n \<le> length src \<Longrightarrow>
   copyout um src a n = Some (Ok (), put um a (take n src))"
  by (simp add: copyout_def copycheck_ok)

lemma copyin_fault:
  "\<not> mapped um a n \<Longrightarrow> n \<le> length dest \<Longrightarrow> \<exists>dest'. copyin um a dest n = Some (Err EFAULT, dest')"
  using reach_less [of um a n] by (auto simp: copyin_def copycheck_def Let_def)

subsection \<open>Transfers that have room\<close>

text \<open>
  \<open>uio_ready cs u n\<close>: the next \<open>n\<close> bytes of the region are accessible and the counters cover them.
\<close>

definition uio_ready :: "nat ptr \<Rightarrow> uio \<Rightarrow> nat \<Rightarrow> bool" where
  "uio_ready cs u n \<longleftrightarrow> n \<le> iov_len u \<and> n \<le> uio_resid u \<and> uio_resid u < 2 ^ 32
     \<and> mapped (iov_mem u) (iov_base u) n \<and> 0 \<le> uio_offset u \<and> uio_offset u + int n < 2 ^ 31
     \<and> (if uio_segflg u = UIO_SYSSPACE then uio_space u = NULL
        else uio_space u = cs \<and> iov_base u + n \<le> USERTOP)"

lemma uio_ready_mono: "uio_ready cs u n \<Longrightarrow> k \<le> n \<Longrightarrow> uio_ready cs u k"
  by (auto simp: uio_ready_def intro: mapped_mono split: if_splits)

lemma uio_advance_simps:
  assumes "uio_ready cs u n"
  shows "iov_base (uio_advance n u) = iov_base u + n" "iov_len (uio_advance n u) = iov_len u - n"
    "uio_resid (uio_advance n u) = uio_resid u - n"
    "uio_offset (uio_advance n u) = uio_offset u + int n"
    "iov_mem (uio_advance n u) = iov_mem u" "uio_rw (uio_advance n u) = uio_rw u"
    "uio_segflg (uio_advance n u) = uio_segflg u" "uio_space (uio_advance n u) = uio_space u"
proof -
  have "uio_resid u + 2 ^ 32 - n = (uio_resid u - n) + 2 ^ 32" using assms by (simp add: uio_ready_def)
  then have "u32 (uio_resid u + 2 ^ 32 - n) = (uio_resid u - n) mod 2 ^ 32"
    by (simp only: u32_def mod_add_self2)
  then show "uio_resid (uio_advance n u) = uio_resid u - n"
    using assms mod_less [OF le_less_trans [OF diff_le_self], of "uio_resid u" "2 ^ 32" n]
    by (simp add: uio_advance_def uio_ready_def)
qed (use assms in \<open>simp_all add: uio_advance_def uio_ready_def\<close>)

lemma uio_ready_advance:
  assumes "uio_ready cs u (n + k)"
  shows "uio_ready cs (uio_advance n u) k"
proof -
  have r: "uio_ready cs u n" using assms by (rule uio_ready_mono) simp
  show ?thesis using assms uio_advance_simps [OF r] by (auto simp: uio_ready_def mapped_add)
qed

lemma uio_ready_put [simp]:
  "uio_ready cs u n \<Longrightarrow> uio_ready cs (u\<lparr>iov_mem := put (iov_mem u) a bs\<rparr>) n"
  by (simp add: uio_ready_def)

lemma uio_advance_0: "uio_ready cs u 0 \<Longrightarrow> uio_advance 0 u = u"
  using uio_advance_simps [of cs u 0] by (simp add: uio_advance_def)

lemma uio_advance_add:
  assumes "uio_ready cs u (n + k)"
  shows "uio_advance k (uio_advance n u) = uio_advance (n + k) u"
proof -
  have r: "uio_ready cs u n" using assms by (rule uio_ready_mono) simp
  show ?thesis
    using uio_advance_simps [OF r] uio_advance_simps [OF uio_ready_advance [OF assms]]
      uio_advance_simps [OF assms] by (intro uio.equality) simp_all
qed

text \<open>What a completed transfer to, and from, the region leaves.\<close>

definition uio_fill :: "byte list \<Rightarrow> uio \<Rightarrow> uio" where
  "uio_fill bs u = uio_advance (length bs) (u\<lparr>iov_mem := put (iov_mem u) (iov_base u) bs\<rparr>)"

abbreviation uio_data :: "uio \<Rightarrow> nat \<Rightarrow> byte list" where
  "uio_data u n \<equiv> bytes_at (iov_mem u) (iov_base u) n"

lemma uio_copy_read:
  "uio_rw u = UIO_READ \<Longrightarrow> uio_ready cs u n \<Longrightarrow> 0 < n \<Longrightarrow> n \<le> length buf \<Longrightarrow>
   uio_copy buf n u = Some (Ok (), buf, u\<lparr>iov_mem := put (iov_mem u) (iov_base u) (take n buf)\<rparr>)"
  by (cases "uio_segflg u") (simp_all add: uio_copy_def uio_ready_def kstore_def copyout_ok)

lemma uio_copy_write:
  "uio_rw u = UIO_WRITE \<Longrightarrow> uio_ready cs u n \<Longrightarrow> 0 < n \<Longrightarrow> n \<le> length buf \<Longrightarrow>
   uio_copy buf n u = Some (Ok (), uio_data u n @ drop n buf, u)"
  by (cases "uio_segflg u") (simp_all add: uio_copy_def uio_ready_def kload_def copyin_ok)

lemma uio_ready_space:
  "uio_ready cs u n \<Longrightarrow>
   kassert (if uio_segflg u = UIO_SYSSPACE then uio_space u = NULL else uio_space u = cs) = Some ()"
  by (simp add: uio_ready_def split: if_splits)

lemma uiomove_loop_done: "uiomove_loop buf 0 u = Some (Ok (), buf, u)"
  by (simp add: uiomove_loop.simps)

lemma uiomove_read:
  assumes "uio_rw u = UIO_READ" "uio_ready cs u n" "n \<le> length buf"
  shows "uiomove cs buf n u = Some (Ok (), buf, uio_fill (take n buf) u)"
proof (cases "n = 0")
  case True
  then show ?thesis using assms uio_ready_space [OF assms(2)] uio_advance_0 [of cs u]
    by (simp add: uiomove_def uiomove_loop_done uio_fill_def)
next
  case False
  then have n: "0 < n" "min (iov_len u) n = n" "0 < uio_resid u" using assms by (auto simp: uio_ready_def)
  then show ?thesis
    using uio_ready_space [OF assms(2)] assms(3) uio_copy_read [OF assms(1,2) n(1) assms(3)]
    by (simp add: uiomove_def uiomove_loop.simps [of buf n] uiomove_loop_done uio_fill_def Let_def)
qed

lemma uiomove_write:
  assumes "uio_rw u = UIO_WRITE" "uio_ready cs u n" "n \<le> length buf"
  shows "uiomove cs buf n u = Some (Ok (), uio_data u n @ drop n buf, uio_advance n u)"
proof (cases "n = 0")
  case True
  then show ?thesis using assms uio_ready_space [OF assms(2)] uio_advance_0 [of cs u]
    by (simp add: uiomove_def uiomove_loop_done)
next
  case False
  then have n: "0 < n" "min (iov_len u) n = n" "0 < uio_resid u" using assms by (auto simp: uio_ready_def)
  then show ?thesis
    using uio_ready_space [OF assms(2)] assms(3) uio_copy_write [OF assms(1,2) n(1) assms(3)]
    by (simp add: uiomove_def uiomove_loop.simps [of buf n] uiomove_loop_done Let_def)
qed

lemma uio_fill_simps:
  assumes "uio_ready cs u (length bs)"
  shows "iov_base (uio_fill bs u) = iov_base u + length bs" "iov_len (uio_fill bs u) = iov_len u - length bs"
    "uio_resid (uio_fill bs u) = uio_resid u - length bs"
    "uio_offset (uio_fill bs u) = uio_offset u + int (length bs)"
    "iov_mem (uio_fill bs u) = put (iov_mem u) (iov_base u) bs" "uio_rw (uio_fill bs u) = uio_rw u"
    "uio_segflg (uio_fill bs u) = uio_segflg u" "uio_space (uio_fill bs u) = uio_space u"
  using uio_advance_simps [OF uio_ready_put [OF assms]] by (simp_all add: uio_fill_def)

lemma uio_ready_fill:
  "uio_ready cs u (length bs + k) \<Longrightarrow> uio_ready cs (uio_fill bs u) k"
  by (simp add: uio_fill_def uio_ready_advance)

lemma uio_fill_Nil: "uio_ready cs u 0 \<Longrightarrow> uio_fill [] u = u"
  using uio_advance_0 by (simp add: uio_fill_def)

lemma uio_fill_append:
  assumes "uio_ready cs u (length xs + length ys)"
  shows "uio_fill ys (uio_fill xs u) = uio_fill (xs @ ys) u"
proof -
  have r: "uio_ready cs u (length xs)" using assms by (rule uio_ready_mono) simp
  have r': "uio_ready cs u (length (xs @ ys))" using assms by simp
  show ?thesis
    using uio_fill_simps [OF r] uio_fill_simps [OF uio_ready_fill [OF assms]] uio_fill_simps [OF r']
    by (intro uio.equality) (simp_all add: put_append)
qed

lemma uiomovezeros_ok:
  assumes "uio_rw u = UIO_READ" "uio_ready cs u n"
  shows "uiomovezeros cs n u = Some (Ok (), uio_fill (replicate n 0) u)"
proof -
  have "uiomovezeros_loop cs n u = Some (Ok (), uio_fill (replicate n 0) u)"
    using assms
  proof (induction cs n u rule: uiomovezeros_loop.induct)
    case (1 cs n u)
    show ?case
    proof (cases "n = 0")
      case True
      then show ?thesis using 1 uio_fill_Nil by (simp add: uiomovezeros_loop.simps)
    next
      case False
      define amt where "amt = min 16 n"
      have a: "0 < amt" "amt \<le> n" "amt \<le> 16" using False by (auto simp: amt_def)
      have r: "uio_ready cs u amt" using "1.prems"(2) a(2) by (rule uio_ready_mono)
      have m: "uiomove cs (replicate 16 0) amt u = Some (Ok (), replicate 16 0, uio_fill (replicate amt 0) u)"
        using uiomove_read [OF "1.prems"(1) r, of "replicate 16 0"] a by (simp add: min_def)
      have r2: "uio_ready cs u (length (replicate amt (0::byte)) + (n - amt))"
        using "1.prems"(2) a by simp
      have rw: "uio_rw (uio_fill (replicate amt 0) u) = UIO_READ"
        using uio_fill_simps(6) [of cs u "replicate amt 0"] r "1.prems"(1) by simp
      have "uiomovezeros_loop cs (n - amt) (uio_fill (replicate amt 0) u)
          = Some (Ok (), uio_fill (replicate (n - amt) 0) (uio_fill (replicate amt 0) u))"
        using "1.IH" [of amt] False rw uio_ready_fill [OF r2] m by (simp add: amt_def)
      also have "uio_fill (replicate (n - amt) 0) (uio_fill (replicate amt 0) u) = uio_fill (replicate n 0) u"
        using uio_fill_append [of cs u "replicate amt 0" "replicate (n - amt) 0"] r2 a
        by (simp add: replicate_add [symmetric])
      finally show ?thesis using m False by (simp add: uiomovezeros_loop.simps [of cs n] amt_def Let_def)
    qed
  qed
  with assms(1) show ?thesis by (simp add: uiomovezeros_def)
qed

subsection \<open>C strings\<close>

text \<open>\<open>cstring_at m a bs\<close>: the memory holds the string \<open>bs\<close> and its terminator at \<open>a\<close>.\<close>

definition cstring_at :: "memory \<Rightarrow> nat \<Rightarrow> byte list \<Rightarrow> bool" where
  "cstring_at m a bs \<longleftrightarrow> 0 \<notin> set bs \<and> mapped m a (length bs + 1) \<and> bytes_at m a (length bs + 1) = bs @ [0]"

lemma bytes_at_Suc: "bytes_at m a (Suc n) = the (m a) # bytes_at m (a + 1) n"
  using bytes_at_add [of m a 1 n] by (simp add: bytes_at_def)

lemma mapped_Suc: "mapped m a (Suc n) \<longleftrightarrow> m a \<noteq> None \<and> mapped m (a + 1) n"
  using mapped_add [of m a 1 n] by (simp add: mapped_def)

lemma cstring_at_Nil: "cstring_at m a [] \<longleftrightarrow> m a = Some 0"
  by (auto simp: cstring_at_def bytes_at_Suc mapped_Suc)

lemma cstring_at_Cons: "cstring_at m a (b # bs) \<longleftrightarrow> m a = Some b \<and> b \<noteq> 0 \<and> cstring_at m (a + 1) bs"
  by (auto simp: cstring_at_def bytes_at_Suc mapped_Suc)

lemma put_Cons: "put (m(a \<mapsto> b)) (a + 1) bs = put m a (b # bs)"
  by (rule ext) (auto simp: put_def nth_Cons')

lemma cstring_at_put: "0 \<notin> set bs \<Longrightarrow> cstring_at (put m a (bs @ [0])) a bs"
proof -
  assume "0 \<notin> set bs"
  moreover have "mapped (put m a (bs @ [0])) a (length bs + 1)"
    by (auto simp: mapped_iff dom_put)
  ultimately show ?thesis using bytes_at_put [of m a "bs @ [0]"] by (simp add: cstring_at_def)
qed

lemma copystr_copies:
  assumes "cstring_at sm (s + i) bs" "mapped dm (d + i) (length bs + 1)"
    "i + length bs < maxlen" "i + length bs < stoplen"
  shows "copystr dm d sm s maxlen stoplen i
       = (Some (Ok (i + length bs + 1)), put dm (d + i) (bs @ [0]))"
  using assms
proof (induction bs arbitrary: dm i)
  case Nil
  then obtain y where "dm (d + i) = Some y" by (auto simp: mapped_Suc)
  with Nil put_Cons [of dm "d + i" 0 "[]"] show ?case
    by (simp add: copystr.simps [of dm] cstring_at_Nil)
next
  case (Cons b bs)
  then obtain y where y: "dm (d + i) = Some y" by (auto simp: mapped_Suc)
  have m: "mapped (dm(d + i \<mapsto> b)) (d + Suc i) (length bs + 1)"
    using Cons.prems(2) by (auto simp: mapped_iff subset_iff)
  have s: "cstring_at sm (s + Suc i) bs" "sm (s + i) = Some b" "b \<noteq> 0"
    using Cons.prems(1) by (auto simp: cstring_at_Cons)
  have "copystr dm d sm s maxlen stoplen i = copystr (dm(d + i \<mapsto> b)) d sm s maxlen stoplen (Suc i)"
    using Cons.prems(3,4) s y by (simp add: copystr.simps [of dm])
  also have "\<dots> = (Some (Ok (Suc i + length bs + 1)), put (dm(d + i \<mapsto> b)) (d + Suc i) (bs @ [0]))"
    using Cons.prems(3,4) by (intro Cons.IH [OF s(1) m]) simp_all
  finally show ?case using put_Cons [of dm "d + i" b "bs @ [0]"] by simp
qed

lemma copystr_confined:
  "snd (copystr dm d sm s maxlen stoplen i) x \<noteq> dm x \<Longrightarrow>
   d + i \<le> x \<and> x < d + maxlen \<and> x < d + stoplen \<and> dm x \<noteq> None"
proof (induction dm d sm s maxlen stoplen i rule: copystr.induct)
  case (1 dm d sm s maxlen stoplen i)
  show ?case
  proof (cases "i < maxlen \<and> i < stoplen \<and> sm (s + i) \<noteq> None \<and> dm (d + i) \<noteq> None")
    case False
    then have "snd (copystr dm d sm s maxlen stoplen i) = dm"
      by (auto simp: copystr.simps [of dm] split: option.splits)
    with 1 show ?thesis by simp
  next
    case True
    then obtain c y where c: "i < maxlen" "i < stoplen" "sm (s + i) = Some c" "dm (d + i) = Some y" by auto
    show ?thesis
    proof (cases "x = d + i \<or> c = 0")
      case True
      with 1(2) c show ?thesis by (auto simp: copystr.simps [of dm] split: if_splits)
    next
      case False
      with 1(2) c have "snd (copystr (dm(d + i \<mapsto> c)) d sm s maxlen stoplen (i + 1)) x \<noteq> (dm(d + i \<mapsto> c)) x"
        by (simp add: copystr.simps [of dm])
      with 1(1) [of "Some c" "Some y" c y] c False show ?thesis by (simp add: fun_upd_def)
    qed
  qed
qed

subsection \<open>Properties\<close>


definition sample_user :: memory where
  "sample_user x = (if 0x1000 \<le> x \<and> x < 0x2000 then Some 0 else None)"


text \<open>
  C31. A string written to mapped user memory with \<^verbatim>\<open>copyoutstr\<close> and fetched with \<^verbatim>\<open>copyinstr\<close> into a
  kernel buffer with room arrives unchanged: both report its length with the terminator, and
  the buffer holds the string.
\<close>

theorem copystr_roundtrip:
  assumes "cstring_at km src name" "length name < len" "a + len \<le> USERTOP"
    "mapped um a (length name + 1)" "mapped km' dest (length name + 1)"
  shows "\<exists>um' km''. copyoutstr km src um a len = (Ok (length name + 1), um')
     \<and> copyinstr um' a km' dest len = (Ok (length name + 1), km'') \<and> cstring_at km'' dest name"
proof -
  have c: "copycheck a len = Ok len" using assms by (simp add: copycheck_ok)
  have z: "0 \<notin> set name" using assms(1) by (simp add: cstring_at_def)
  let ?um = "put um a (name @ [0])"
  have "copyoutstr km src um a len = (Ok (length name + 1), ?um)"
    using copystr_copies [of km src 0 name um a len len] assms c by (simp add: copyoutstr_def)
  moreover have "copyinstr ?um a km' dest len = (Ok (length name + 1), put km' dest (name @ [0]))"
    using copystr_copies [of ?um a 0 name km' dest len len] cstring_at_put [OF z, of um a] assms c
    by (simp add: copyinstr_def)
  ultimately show ?thesis using cstring_at_put [OF z, of km' dest] by auto
qed

theorem copystr_roundtrip_witness:
  "\<exists>um' km''. copyoutstr (mem_of [104, 105, 0]) 0 sample_user 0x1000 1024 = (Ok 3, um')
     \<and> copyinstr um' 0x1000 (mem_of [1, 1, 1, 1]) 0 1024 = (Ok 3, km'') \<and> cstring_at km'' 0 [104, 105]"
  using copystr_roundtrip [of "mem_of [104, 105, 0]" 0 "[104, 105]" 1024 "0x1000" sample_user
      "mem_of [1, 1, 1, 1]" 0]
  by (simp add: cstring_at_def bytes_at_mem_of mapped_def [of sample_user] sample_user_def USERTOP_def
      list_all_iff numeral_3_eq_3)

text \<open>
  \<^verbatim>\<open>uiomove\<close> bounds a transfer by the length of the region and not by \<^verbatim>\<open>uio_resid\<close>. When fewer
  than \<open>n\<close> bytes are left to transfer but the region is longer, all \<open>n\<close> bytes are copied and the
  unsigned \<^verbatim>\<open>uio_resid\<close> wraps around to a count of almost four gigabytes.
\<close>

theorem uiomove_overruns_resid:
  assumes "uio_segflg u = UIO_SYSSPACE" "uio_space u = NULL" "uio_rw u = UIO_READ"
    "0 < uio_resid u" "uio_resid u < n" "n \<le> iov_len u" "n \<le> length buf" "n < 2 ^ 32"
    "mapped (iov_mem u) (iov_base u) n"
  shows "\<exists>u'. uiomove cs buf n u = Some (Ok (), buf, u')
     \<and> iov_mem u' = put (iov_mem u) (iov_base u) (take n buf)
     \<and> uio_resid u' = 2 ^ 32 - (n - uio_resid u)"
proof -
  have "uio_copy buf n u = Some (Ok (), buf, u\<lparr>iov_mem := put (iov_mem u) (iov_base u) (take n buf)\<rparr>)"
    using assms by (simp add: uio_copy_def kstore_def)
  moreover have "min (iov_len u) n = n" using assms by simp
  moreover have "u32 (uio_resid u + 2 ^ 32 - n) = 2 ^ 32 - (n - uio_resid u)"
    using assms by (subst u32_small) simp_all
  ultimately show ?thesis
    using assms by (simp add: uiomove_def uiomove_loop.simps [of buf n] uiomove_loop_done Let_def
        uio_advance_def)
qed

theorem uiomove_overruns_resid_witness:
  "\<exists>u'. uiomove None [1, 2, 3, 4] 4 (mk_kuio [0, 0, 0, 0] 4 0 UIO_READ \<lparr>uio_resid := 1\<rparr>)
       = Some (Ok (), [1, 2, 3, 4], u') \<and> uio_resid u' = 0xfffffffd"
  using uiomove_overruns_resid [of "mk_kuio [0, 0, 0, 0] 4 0 UIO_READ \<lparr>uio_resid := 1\<rparr>" 4
      "[1, 2, 3, 4]" None]
  by (auto simp: mk_kuio_def)

end
