(* ===== verification/Disk.thy ===== *)
theory Disk
  imports Uio "HOL-Library.Signed_Division"
begin

section \<open>The LAMEbus disk and its driver\<close>

text \<open>
  Model of the driver \<^verbatim>\<open>kern/dev/lamebus/lhd.c\<close> and of the part of the simulated hardware
  \<^verbatim>\<open>sys161-1.14/bus/dev_disk.c\<close> that the driver talks to: the status and sector registers, the
  transfer buffer and the sectors of the disk image.

  The delays of the hardware (seeking, rotation, the copies from and to the track buffer) are not
  modelled: \<open>disk_work\<close> is the step that performs the transfer once they are over. Whether the
  host's read or write of the image file succeeds is not decided by the code; the \<open>n\<close>-th
  transfer fails when \<open>dd_fate n\<close> is \<open>Some k\<close>, and a failing write has then stored \<open>k\<close> bytes.

  The driver is modelled for one thread in the driver at a time: its two semaphores are
  counters, and waiting on one that is zero with nobody to raise it stops the model. Waiting
  for \<^verbatim>\<open>lh_done\<close> lets the hardware finish and run the interrupt handler.
\<close>

unbundle bit_operations_syntax

subsection \<open>The hardware\<close>

definition SECTSIZE :: nat where [simp]: "SECTSIZE = 512"

definition DISKBIT_INPROGRESS :: "32 word" where [simp]: "DISKBIT_INPROGRESS = 1"
definition DISKBIT_ISWRITE :: "32 word" where [simp]: "DISKBIT_ISWRITE = 2"
definition DISKBIT_COMPLETE :: "32 word" where [simp]: "DISKBIT_COMPLETE = 4"
definition DISKBIT_INVSECT :: "32 word" where [simp]: "DISKBIT_INVSECT = 8"
definition DISKBIT_MEDIAERR :: "32 word" where [simp]: "DISKBIT_MEDIAERR = 16"

record disk_data =
  dd_image :: "nat \<Rightarrow> byte list"
  dd_totsectors :: nat
  dd_rpm :: nat
  dd_stat :: "32 word"
  dd_sect :: nat
  dd_buf :: "byte list"
  dd_fate :: "nat \<Rightarrow> nat option"
  dd_transfers :: nat

definition disk_FINISH :: "32 word \<Rightarrow> 32 word \<Rightarrow> 32 word" where
  "disk_FINISH r bits = (r AND NOT DISKBIT_INPROGRESS) OR bits"

text \<open>The result is true when the host reported an error.\<close>

definition disk_readsector :: "disk_data \<Rightarrow> bool \<times> disk_data" where
  "disk_readsector dd =
     (let fate = dd_fate dd (dd_transfers dd); dd = dd\<lparr>dd_transfers := dd_transfers dd + 1\<rparr> in
      case fate of
        None \<Rightarrow> (False, dd\<lparr>dd_buf := dd_image dd (dd_sect dd)\<rparr>)
      | Some k \<Rightarrow> (True, dd\<lparr>dd_buf := take k (dd_image dd (dd_sect dd)) @ drop k (dd_buf dd)\<rparr>))"

definition disk_writesector :: "disk_data \<Rightarrow> bool \<times> disk_data" where
  "disk_writesector dd =
     (let fate = dd_fate dd (dd_transfers dd); dd = dd\<lparr>dd_transfers := dd_transfers dd + 1\<rparr> in
      case fate of
        None \<Rightarrow> (False, dd\<lparr>dd_image := (dd_image dd)(dd_sect dd := dd_buf dd)\<rparr>)
      | Some k \<Rightarrow> (True, dd\<lparr>dd_image := (dd_image dd)(dd_sect dd :=
                     take k (dd_buf dd) @ drop k (dd_image dd (dd_sect dd)))\<rparr>))"

text \<open>
  The end of \<^verbatim>\<open>disk_work\<close> (label \<^verbatim>\<open>forceio\<close>) and its first checks. In between the hardware waits for the arm and the
  platter; those delays only postpone the transfer and are not modelled.
\<close>

definition disk_transfer :: "disk_data \<Rightarrow> disk_data" where
  "disk_transfer dd =
     (let (err, dd) = (if dd_stat dd AND DISKBIT_ISWRITE \<noteq> 0 then disk_writesector dd
                       else disk_readsector dd) in
      if err then dd\<lparr>dd_stat := disk_FINISH (dd_stat dd) (DISKBIT_COMPLETE OR DISKBIT_MEDIAERR)\<rparr>
      else dd\<lparr>dd_stat := disk_FINISH (dd_stat dd) DISKBIT_COMPLETE\<rparr>)"

definition disk_work :: "disk_data \<Rightarrow> disk_data" where
  "disk_work dd =
     (if dd_stat dd AND DISKBIT_INPROGRESS = 0 then dd
      else if dd_sect dd \<ge> dd_totsectors dd then
        dd\<lparr>dd_stat := disk_FINISH (dd_stat dd) (DISKBIT_COMPLETE OR DISKBIT_INVSECT)\<rparr>
      else disk_transfer dd)"

text \<open>A value the register does not accept stops the simulated machine.\<close>

definition disk_setstatus :: "disk_data \<Rightarrow> 32 word \<Rightarrow> disk_data run" where
  "disk_setstatus dd val =
     (if val = 0 \<or> val = DISKBIT_INPROGRESS \<or> val = DISKBIT_INPROGRESS OR DISKBIT_ISWRITE
      then Some (dd\<lparr>dd_stat := val\<rparr>) else panic)"

definition DISKREG_NSECT :: nat where [simp]: "DISKREG_NSECT = 0"
definition DISKREG_STAT :: nat where [simp]: "DISKREG_STAT = 4"
definition DISKREG_SECT :: nat where [simp]: "DISKREG_SECT = 8"
definition DISKREG_RPM :: nat where [simp]: "DISKREG_RPM = 12"

definition disk_fetch :: "disk_data \<Rightarrow> nat \<Rightarrow> 32 word run" where
  "disk_fetch dd offset =
     (if offset = DISKREG_NSECT then Some (of_nat (dd_totsectors dd))
      else if offset = DISKREG_RPM then Some (of_nat (dd_rpm dd))
      else if offset = DISKREG_STAT then Some (dd_stat dd)
      else if offset = DISKREG_SECT then Some (of_nat (dd_sect dd))
      else None)"

definition disk_store :: "disk_data \<Rightarrow> nat \<Rightarrow> 32 word \<Rightarrow> disk_data run" where
  "disk_store dd offset val =
     (if offset = DISKREG_STAT then disk_setstatus dd val
      else if offset = DISKREG_SECT then Some (dd\<lparr>dd_sect := unat val\<rparr>)
      else None)"

subsection \<open>The driver\<close>

definition LHD_SECTSIZE :: nat where [simp]: "LHD_SECTSIZE = 512"
definition LHD_IDLE :: "32 word" where [simp]: "LHD_IDLE = 0"
definition LHD_WORKING :: "32 word" where [simp]: "LHD_WORKING = 1"
definition LHD_OK :: "32 word" where [simp]: "LHD_OK = 4"
definition LHD_INVSECT :: "32 word" where [simp]: "LHD_INVSECT = 12"
definition LHD_MEDIA :: "32 word" where [simp]: "LHD_MEDIA = 20"
definition LHD_ISWRITE :: "32 word" where [simp]: "LHD_ISWRITE = 2"
definition LHD_STATEMASK :: "32 word" where [simp]: "LHD_STATEMASK = 0x1d"

record lhd_softc =
  lh_disk :: disk_data
  lh_result :: "errno option"
  lh_clear :: nat
  lh_done :: nat
  d_blocks :: nat
  d_blocksize :: nat

definition sem_down :: "nat \<Rightarrow> nat run" where
  "sem_down c = (if c > 0 then Some (c - 1) else None)"

definition lhd_rdreg :: "lhd_softc \<Rightarrow> nat \<Rightarrow> 32 word run" where
  "lhd_rdreg lh reg = disk_fetch (lh_disk lh) reg"

definition lhd_wreg :: "lhd_softc \<Rightarrow> nat \<Rightarrow> 32 word \<Rightarrow> lhd_softc run" where
  "lhd_wreg lh reg val = do { dd \<leftarrow> disk_store (lh_disk lh) reg val; Some (lh\<lparr>lh_disk := dd\<rparr>) }"

definition lhd_code_to_errno :: "32 word \<Rightarrow> errno option" where
  "lhd_code_to_errno code =
     (let st = code AND LHD_STATEMASK in
      if st = LHD_OK then None
      else if st = LHD_INVSECT then Some EINVAL
      else if st = LHD_MEDIA then Some EIO
      else Some EAGAIN)"

definition lhd_iodone :: "lhd_softc \<Rightarrow> errno option \<Rightarrow> lhd_softc" where
  "lhd_iodone lh err = lh\<lparr>lh_result := err, lh_done := lh_done lh + 1\<rparr>"

definition lhd_irq :: "lhd_softc \<Rightarrow> lhd_softc run" where
  "lhd_irq lh = do {
     val \<leftarrow> lhd_rdreg lh DISKREG_STAT;
     let st = val AND LHD_STATEMASK;
     if st = LHD_OK \<or> st = LHD_INVSECT \<or> st = LHD_MEDIA then do {
       lh \<leftarrow> lhd_wreg lh DISKREG_STAT 0;
       Some (lhd_iodone lh (lhd_code_to_errno val))
     } else Some lh
   }"

text \<open>
  \<^verbatim>\<open>P(lh->lh_done)\<close>: while the thread waits the hardware completes and raises its interrupt line,
  which runs the handler.
\<close>

definition lhd_await :: "lhd_softc \<Rightarrow> lhd_softc run" where
  "lhd_await lh = do {
     lh \<leftarrow> (if lh_done lh > 0 then Some lh
            else let dd = disk_work (lh_disk lh); lh = lh\<lparr>lh_disk := dd\<rparr> in
              if dd_stat dd AND DISKBIT_COMPLETE \<noteq> 0 then lhd_irq lh else Some lh);
     c \<leftarrow> sem_down (lh_done lh);
     Some (lh\<lparr>lh_done := c\<rparr>)
   }"

text \<open>One round of the loop of \<^verbatim>\<open>lhd_io\<close>, for sector \<open>sector\<close>.\<close>

definition lhd_sector :: "nat ptr \<Rightarrow> 32 word \<Rightarrow> nat \<Rightarrow> lhd_softc \<Rightarrow> uio \<Rightarrow> (unit res \<times> lhd_softc \<times> uio) run" where
  "lhd_sector cs statval sector lh u = do {
     c \<leftarrow> sem_down (lh_clear lh);
     let lh = lh\<lparr>lh_clear := c\<rparr>;
     (r, lh, u) \<leftarrow>
       (if uio_rw u = UIO_WRITE then do {
          (r, buf, u) \<leftarrow> uiomove cs (dd_buf (lh_disk lh)) LHD_SECTSIZE u;
          Some (r, lh\<lparr>lh_disk := (lh_disk lh)\<lparr>dd_buf := buf\<rparr>\<rparr>, u)
        } else Some (Ok (), lh, u));
     case r of
       Inl e \<Rightarrow> Some (Err e, lh\<lparr>lh_clear := lh_clear lh + 1\<rparr>, u)
     | Inr _ \<Rightarrow> do {
         lh \<leftarrow> lhd_wreg lh DISKREG_SECT (of_nat sector);
         lh \<leftarrow> lhd_wreg lh DISKREG_STAT statval;
         lh \<leftarrow> lhd_await lh;
         (r, u) \<leftarrow>
           (case lh_result lh of
              Some e \<Rightarrow> Some (Err e, u)
            | None \<Rightarrow>
                if uio_rw u = UIO_READ then do {
                  (r, _, u) \<leftarrow> uiomove cs (dd_buf (lh_disk lh)) LHD_SECTSIZE u;
                  Some (r, u)
                } else Some (Ok (), u));
         Some (r, lh\<lparr>lh_clear := lh_clear lh + 1\<rparr>, u)
       }
   }"

fun lhd_sectors :: "nat ptr \<Rightarrow> 32 word \<Rightarrow> nat \<Rightarrow> nat \<Rightarrow> lhd_softc \<Rightarrow> uio \<Rightarrow> (unit res \<times> lhd_softc \<times> uio) run" where
  "lhd_sectors cs statval sector 0 lh u = Some (Ok (), lh, u)"
| "lhd_sectors cs statval sector (Suc len) lh u =
     (case lhd_sector cs statval sector lh u of
        None \<Rightarrow> None
      | Some (Inl e, lh, u) \<Rightarrow> Some (Err e, lh, u)
      | Some (Inr _, lh, u) \<Rightarrow> lhd_sectors cs statval (u32 (sector + 1)) len lh u)"

definition lhd_io :: "nat ptr \<Rightarrow> lhd_softc \<Rightarrow> uio \<Rightarrow> (unit res \<times> lhd_softc \<times> uio) run" where
  "lhd_io cs lh u =
     (let sector = nat (uio_offset u sdiv int LHD_SECTSIZE mod 2 ^ 32);
          sectoff = nat (uio_offset u smod int LHD_SECTSIZE mod 2 ^ 32);
          len = uio_resid u div LHD_SECTSIZE;
          lenoff = uio_resid u mod LHD_SECTSIZE;
          statval = (if uio_rw u = UIO_WRITE then LHD_WORKING OR LHD_ISWRITE else LHD_WORKING) in
      if sectoff \<noteq> 0 \<or> lenoff \<noteq> 0 then Some (Err EINVAL, lh, u)
      else if u32 (sector + len) > d_blocks lh then Some (Err EINVAL, lh, u)
      else lhd_sectors cs statval sector len lh u)"

subsection \<open>Transfers of one sector\<close>

lemma status_bits [simp]:
  "disk_FINISH 1 4 = 4" "disk_FINISH 3 4 = 6" "disk_FINISH 1 20 = 20" "disk_FINISH 3 20 = 22"
  by (simp_all add: disk_FINISH_def)

text \<open>The device between two calls: idle, with the on-card buffer and every sector of 512 bytes.\<close>

definition dev_ok :: "lhd_softc \<Rightarrow> bool" where
  "dev_ok lh \<longleftrightarrow> lh_clear lh = 1 \<and> lh_done lh = 0 \<and> dd_stat (lh_disk lh) = 0
     \<and> length (dd_buf (lh_disk lh)) = 512 \<and> (\<forall>b. length (dd_image (lh_disk lh) b) = 512)
     \<and> d_blocks lh = dd_totsectors (lh_disk lh) \<and> d_blocks lh < 2 ^ 22 \<and> d_blocksize lh = 512"

definition fate_now :: "lhd_softc \<Rightarrow> nat option" where
  "fate_now lh = dd_fate (lh_disk lh) (dd_transfers (lh_disk lh))"

definition reliable :: "lhd_softc \<Rightarrow> bool" where
  "reliable lh \<longleftrightarrow> (\<forall>n \<ge> dd_transfers (lh_disk lh). dd_fate (lh_disk lh) n = None)"

abbreviation sectors :: "lhd_softc \<Rightarrow> nat \<Rightarrow> byte list" where
  "sectors lh \<equiv> dd_image (lh_disk lh)"

text \<open>The device after a transfer of sector \<open>b\<close>.\<close>

definition dev_done :: "lhd_softc \<Rightarrow> nat \<Rightarrow> (nat \<Rightarrow> byte list) \<Rightarrow> byte list \<Rightarrow> errno option \<Rightarrow> lhd_softc" where
  "dev_done lh b im buf res = lh\<lparr>
     lh_disk := (lh_disk lh)\<lparr>dd_image := im, dd_sect := b, dd_buf := buf,
       dd_transfers := dd_transfers (lh_disk lh) + 1\<rparr>,
     lh_result := res\<rparr>"

lemma dev_done_simps [simp]:
  "sectors (dev_done lh b im buf res) = im" "d_blocks (dev_done lh b im buf res) = d_blocks lh"
  "d_blocksize (dev_done lh b im buf res) = d_blocksize lh"
  by (simp_all add: dev_done_def)

lemma dev_done_ok [simp]:
  "dev_ok lh \<Longrightarrow> \<forall>b. length (im b) = 512 \<Longrightarrow> length buf = 512 \<Longrightarrow> dev_ok (dev_done lh b im buf res)"
  by (simp add: dev_ok_def dev_done_def)

lemma dev_done_reliable [simp]: "reliable lh \<Longrightarrow> reliable (dev_done lh b im buf res)"
  by (simp add: reliable_def dev_done_def)

lemma reliable_fate: "reliable lh \<Longrightarrow> fate_now lh = None"
  by (simp add: reliable_def fate_now_def)

lemma unat_small: "b < 2 ^ 22 \<Longrightarrow> unat (of_nat b :: 32 word) = b"
  by (simp add: unat_of_nat)

lemmas hardware_defs = lhd_await_def lhd_wreg_def lhd_rdreg_def lhd_irq_def lhd_iodone_def
  lhd_code_to_errno_def disk_store_def disk_fetch_def disk_setstatus_def disk_work_def disk_transfer_def
  disk_readsector_def disk_writesector_def sem_down_def Let_def

lemma lhd_sector_read:
  assumes "dev_ok lh" "b < d_blocks lh" "fate_now lh = None" "uio_rw u = UIO_READ" "uio_ready cs u 512"
  shows "lhd_sector cs 1 b lh u = Some (Ok (), dev_done lh b (sectors lh) (sectors lh b) None, uio_fill (sectors lh b) u)"
proof -
  have m: "uiomove cs (sectors lh b) 512 u = Some (Ok (), sectors lh b, uio_fill (sectors lh b) u)"
    using uiomove_read [OF assms(4,5), of "sectors lh b"] assms(1) by (simp add: dev_ok_def)
  have b: "unat (of_nat b :: 32 word) = b" using assms(1,2) by (intro unat_small) (simp add: dev_ok_def)
  show ?thesis using assms m b
    by (simp add: lhd_sector_def hardware_defs dev_ok_def fate_now_def dev_done_def)
qed

lemma lhd_sector_read_fails:
  assumes "dev_ok lh" "b < d_blocks lh" "fate_now lh = Some k" "uio_rw u = UIO_READ"
  shows "lhd_sector cs 1 b lh u =
    Some (Err EIO, dev_done lh b (sectors lh) (take k (sectors lh b) @ drop k (dd_buf (lh_disk lh))) (Some EIO), u)"
proof -
  have b: "unat (of_nat b :: 32 word) = b" using assms(1,2) by (intro unat_small) (simp add: dev_ok_def)
  show ?thesis using assms b
    by (simp add: lhd_sector_def hardware_defs dev_ok_def fate_now_def dev_done_def)
qed

lemma lhd_sector_write:
  assumes "dev_ok lh" "b < d_blocks lh" "fate_now lh = None" "uio_rw u = UIO_WRITE" "uio_ready cs u 512"
  shows "lhd_sector cs 3 b lh u =
    Some (Ok (), dev_done lh b ((sectors lh)(b := uio_data u 512)) (uio_data u 512) None, uio_advance 512 u)"
proof -
  have m: "uiomove cs (dd_buf (lh_disk lh)) 512 u = Some (Ok (), uio_data u 512, uio_advance 512 u)"
    using uiomove_write [OF assms(4,5), of "dd_buf (lh_disk lh)"] assms(1) by (simp add: dev_ok_def)
  have b: "unat (of_nat b :: 32 word) = b" using assms(1,2) by (intro unat_small) (simp add: dev_ok_def)
  show ?thesis using assms m b uio_advance_simps [OF assms(5)]
    by (simp add: lhd_sector_def hardware_defs dev_ok_def fate_now_def dev_done_def)
qed

lemma lhd_sector_write_fails:
  assumes "dev_ok lh" "b < d_blocks lh" "fate_now lh = Some k" "uio_rw u = UIO_WRITE" "uio_ready cs u 512"
  shows "lhd_sector cs 3 b lh u =
    Some (Err EIO, dev_done lh b ((sectors lh)(b := take k (uio_data u 512) @ drop k (sectors lh b)))
                     (uio_data u 512) (Some EIO), uio_advance 512 u)"
proof -
  have m: "uiomove cs (dd_buf (lh_disk lh)) 512 u = Some (Ok (), uio_data u 512, uio_advance 512 u)"
    using uiomove_write [OF assms(4,5), of "dd_buf (lh_disk lh)"] assms(1) by (simp add: dev_ok_def)
  have b: "unat (of_nat b :: 32 word) = b" using assms(1,2) by (intro unat_small) (simp add: dev_ok_def)
  show ?thesis using assms m b uio_advance_simps [OF assms(5)]
    by (simp add: lhd_sector_def hardware_defs dev_ok_def fate_now_def dev_done_def)
qed

subsection \<open>Whole requests\<close>

lemma offset_sector:
  assumes "b < 2 ^ 22"
  shows "nat (int (512 * b) sdiv 512 mod 2 ^ 32) = b" "nat (int (512 * b) smod 512 mod 2 ^ 32) = 0"
  using assms by (simp_all add: signed_divide_int_def signed_modulo_int_def sgn_if)

lemma lhd_io_eq:
  assumes "dev_ok lh" "uio_offset u = int (512 * b)" "uio_resid u = 512 * len" "b + len \<le> d_blocks lh"
  shows "lhd_io cs lh u = lhd_sectors cs (if uio_rw u = UIO_WRITE then 3 else 1) b len lh u"
proof -
  have b: "b < 2 ^ 22" "b + len < 2 ^ 32" using assms(1,4) by (auto simp: dev_ok_def)
  show ?thesis using assms offset_sector [OF b(1)] b(2)
    by (auto simp: lhd_io_def Let_def)
qed

text \<open>
  A request that is not aligned, or runs past the end, is refused without touching the disk.
\<close>

lemma lhd_io_invalid:
  assumes "uio_resid u mod 512 \<noteq> 0"
  shows "lhd_io cs lh u = Some (Err EINVAL, lh, u)"
  using assms by (simp add: lhd_io_def Let_def)

lemma lhd_sectors_read:
  assumes "dev_ok lh" "reliable lh" "b + len \<le> d_blocks lh" "uio_rw u = UIO_READ" "uio_ready cs u (512 * len)"
  shows "\<exists>lh'. lhd_sectors cs 1 b len lh u = Some (Ok (), lh', uio_fill (concat (map (sectors lh) [b..<b + len])) u)
           \<and> dev_ok lh' \<and> reliable lh' \<and> sectors lh' = sectors lh \<and> d_blocks lh' = d_blocks lh"
  using assms
proof (induction len arbitrary: b lh u)
  case 0
  then show ?case using uio_fill_Nil by auto
next
  case (Suc len)
  let ?lh = "dev_done lh b (sectors lh) (sectors lh b) None" and ?u = "uio_fill (sectors lh b) u"
  have l: "length (sectors lh x) = 512" for x using Suc.prems(1) by (simp add: dev_ok_def)
  have r0: "uio_ready cs u 512" using Suc.prems(5) by (rule uio_ready_mono) simp
  have one: "lhd_sector cs 1 b lh u = Some (Ok (), ?lh, ?u)"
    using Suc.prems r0 by (intro lhd_sector_read) (simp_all add: reliable_fate)
  have ok: "dev_ok ?lh" "reliable ?lh" "Suc b + len \<le> d_blocks ?lh" using Suc.prems l by simp_all
  have u: "uio_rw ?u = UIO_READ" "uio_ready cs ?u (512 * len)"
    using uio_fill_simps(6) [of cs u "sectors lh b"] r0 l Suc.prems(4,5)
      uio_ready_fill [of cs u "sectors lh b" "512 * len"] by simp_all
  have w: "u32 (b + 1) = b + 1" using Suc.prems(1,3) by (simp add: dev_ok_def)
  obtain lh' where lh': "lhd_sectors cs 1 (Suc b) len ?lh ?u
      = Some (Ok (), lh', uio_fill (concat (map (sectors ?lh) [Suc b..<Suc b + len])) ?u)"
    "dev_ok lh'" "reliable lh'" "sectors lh' = sectors ?lh" "d_blocks lh' = d_blocks ?lh"
    using Suc.IH [OF ok u] by blast
  have up: "[b..<b + Suc len] = b # [Suc b..<Suc b + len]" by (simp add: upt_conv_Cons)
  have cl: "length (concat (map (sectors lh) [Suc b..<Suc b + len])) = 512 * len"
    using l by (simp add: length_concat o_def sum_list_triv)
  have "uio_fill (concat (map (sectors lh) [Suc b..<Suc b + len])) ?u
      = uio_fill (concat (map (sectors lh) [b..<b + Suc len])) u"
    using uio_fill_append [of cs u "sectors lh b" "concat (map (sectors lh) [Suc b..<Suc b + len])"]
      Suc.prems(5) l cl up by (simp del: upt_Suc)
  with lh' one w show ?case by simp
qed

lemma lhd_sectors_write:
  assumes "dev_ok lh" "reliable lh" "b + len \<le> d_blocks lh" "uio_rw u = UIO_WRITE" "uio_ready cs u (512 * len)"
  shows "\<exists>lh'. lhd_sectors cs 3 b len lh u = Some (Ok (), lh', uio_advance (512 * len) u)
           \<and> dev_ok lh' \<and> reliable lh' \<and> d_blocks lh' = d_blocks lh
           \<and> (\<forall>x. sectors lh' x = (if b \<le> x \<and> x < b + len then bytes_at (iov_mem u) (iov_base u + 512 * (x - b)) 512
                                  else sectors lh x))"
  using assms
proof (induction len arbitrary: b lh u)
  case 0
  then show ?case using uio_advance_0 by auto
next
  case (Suc len)
  let ?d = "uio_data u 512"
  let ?lh = "dev_done lh b ((sectors lh)(b := ?d)) ?d None" and ?u = "uio_advance 512 u"
  have r0: "uio_ready cs u 512" using Suc.prems(5) by (rule uio_ready_mono) simp
  have one: "lhd_sector cs 3 b lh u = Some (Ok (), ?lh, ?u)"
    using Suc.prems r0 by (intro lhd_sector_write) (simp_all add: reliable_fate)
  have ok: "dev_ok ?lh" "reliable ?lh" "Suc b + len \<le> d_blocks ?lh"
    using Suc.prems by (simp_all add: dev_ok_def [of lh])
  have u: "uio_rw ?u = UIO_WRITE" "uio_ready cs ?u (512 * len)"
    using uio_advance_simps(6) [OF r0] Suc.prems(4,5) uio_ready_advance [of cs u 512 "512 * len"] by simp_all
  have w: "u32 (b + 1) = b + 1" using Suc.prems(1,3) by (simp add: dev_ok_def)
  obtain lh' where lh': "lhd_sectors cs 3 (Suc b) len ?lh ?u = Some (Ok (), lh', uio_advance (512 * len) ?u)"
    "dev_ok lh'" "reliable lh'" "d_blocks lh' = d_blocks ?lh"
    "\<forall>x. sectors lh' x = (if Suc b \<le> x \<and> x < Suc b + len
        then bytes_at (iov_mem ?u) (iov_base ?u + 512 * (x - Suc b)) 512 else sectors ?lh x)"
    using Suc.IH [OF ok u] by blast
  have a: "uio_advance (512 * len) ?u = uio_advance (512 * Suc len) u"
    using uio_advance_add [of cs u 512 "512 * len"] Suc.prems(5) by simp
  have "sectors lh' x = (if b \<le> x \<and> x < b + Suc len
      then bytes_at (iov_mem u) (iov_base u + 512 * (x - b)) 512 else sectors lh x)" for x
  proof -
    have "iov_base u + 512 + 512 * (x - Suc b) = iov_base u + 512 * (x - b)" if "Suc b \<le> x"
      using that by (simp add: algebra_simps Suc_diff_Suc)
    then show ?thesis using lh'(5) uio_advance_simps(1,5) [OF r0] by (auto simp: add.assoc)
  qed
  with lh' one w a show ?case by auto
qed

lemma lhd_io_read:
  assumes "dev_ok lh" "reliable lh" "b + len \<le> d_blocks lh" "uio_rw u = UIO_READ"
    "uio_offset u = int (512 * b)" "uio_resid u = 512 * len" "uio_ready cs u (512 * len)"
  shows "\<exists>lh'. lhd_io cs lh u = Some (Ok (), lh', uio_fill (concat (map (sectors lh) [b..<b + len])) u)
           \<and> dev_ok lh' \<and> reliable lh' \<and> sectors lh' = sectors lh \<and> d_blocks lh' = d_blocks lh"
  using lhd_sectors_read [OF assms(1-4,7)] lhd_io_eq [OF assms(1,5,6,3)] assms(4) by simp

lemma lhd_io_write:
  assumes "dev_ok lh" "reliable lh" "b + len \<le> d_blocks lh" "uio_rw u = UIO_WRITE"
    "uio_offset u = int (512 * b)" "uio_resid u = 512 * len" "uio_ready cs u (512 * len)"
  shows "\<exists>lh'. lhd_io cs lh u = Some (Ok (), lh', uio_advance (512 * len) u)
           \<and> dev_ok lh' \<and> reliable lh' \<and> d_blocks lh' = d_blocks lh
           \<and> (\<forall>x. sectors lh' x = (if b \<le> x \<and> x < b + len then bytes_at (iov_mem u) (iov_base u + 512 * (x - b)) 512
                                  else sectors lh x))"
  using lhd_sectors_write [OF assms(1-4,7)] lhd_io_eq [OF assms(1,5,6,3)] assms(4) by simp

subsection \<open>Properties\<close>

text \<open>
  C29. What is written to the disk is what is read back. On a disk without media errors, a
  sector-aligned write of a kernel buffer within the device, followed by a read of the same range into
  another buffer, fills that buffer with the written data. Neither request fails, all other
  sectors keep their contents, and the driver is idle again with both semaphores as before.
\<close>

theorem lhd_write_read_roundtrip:
  assumes "dev_ok lh" "reliable lh" "b + len \<le> d_blocks lh"
    "length data = 512 * len" "length buf = 512 * len"
  shows "\<exists>lh1 u1 lh2 u2.
     lhd_io cs lh (mk_kuio data (512 * len) (int (512 * b)) UIO_WRITE) = Some (Ok (), lh1, u1)
     \<and> lhd_io cs lh1 (mk_kuio buf (512 * len) (int (512 * b)) UIO_READ) = Some (Ok (), lh2, u2)
     \<and> uio_resid u1 = 0 \<and> uio_resid u2 = 0 \<and> bytes_at (iov_mem u2) 0 (512 * len) = data
     \<and> (\<forall>x. x < b \<or> b + len \<le> x \<longrightarrow> sectors lh2 x = sectors lh x) \<and> dev_ok lh2"
proof -
  let ?w = "mk_kuio data (512 * len) (int (512 * b)) UIO_WRITE"
  let ?r = "mk_kuio buf (512 * len) (int (512 * b)) UIO_READ"
  have n: "512 * b + 512 * len < 2 ^ 31" using assms(1,3) by (simp add: dev_ok_def)
  have w: "uio_ready cs ?w (512 * len)" and r: "uio_ready cs ?r (512 * len)"
    using assms(4,5) n by (simp_all add: uio_ready_def mk_kuio_def)
  obtain lh1 where lh1: "lhd_io cs lh ?w = Some (Ok (), lh1, uio_advance (512 * len) ?w)"
    "dev_ok lh1" "reliable lh1" "d_blocks lh1 = d_blocks lh"
    and s1: "\<forall>x. sectors lh1 x = (if b \<le> x \<and> x < b + len
        then bytes_at (iov_mem ?w) (iov_base ?w + 512 * (x - b)) 512 else sectors lh x)"
    using lhd_io_write [OF assms(1-3) _ _ _ w] by (auto simp: mk_kuio_def)
  have b1: "b + len \<le> d_blocks lh1" using assms(3) lh1(4) by simp
  let ?c = "concat (map (sectors lh1) [b..<b + len])"
  obtain lh2 where lh2: "lhd_io cs lh1 ?r = Some (Ok (), lh2, uio_fill ?c ?r)"
    "dev_ok lh2" "sectors lh2 = sectors lh1"
    using lhd_io_read [OF lh1(2,3) b1 _ _ _ r] by (auto simp: mk_kuio_def)
  have "concat (map (sectors lh1) [b..<b + k]) = take (512 * k) data" if "k \<le> len" for k
    using that
  proof (induction k)
    case (Suc k)
    then have "sectors lh1 (b + k) = take 512 (drop (512 * k) data)"
      using s1 assms(4) bytes_at_mem_of [of "512 * k" 512 data] by (simp add: mk_kuio_def)
    with Suc take_add [of "512 * k" 512 data] show ?case by (simp add: add.commute)
  qed simp
  then have c: "?c = data" using assms(4) by simp
  then have rc: "uio_ready cs ?r (length ?c)" using r assms(4) by simp
  have "uio_resid (uio_advance (512 * len) ?w) = 0"
    using uio_advance_simps(3) [OF w] by (simp add: mk_kuio_def)
  moreover have "uio_resid (uio_fill ?c ?r) = 0" using uio_fill_simps(3) [OF rc] c assms(4)
    by (simp add: mk_kuio_def)
  moreover have "bytes_at (iov_mem (uio_fill ?c ?r)) 0 (512 * len) = data"
    using uio_fill_simps(5) [OF rc] c assms(4) bytes_at_put [of "mem_of buf" 0 data]
    by (simp add: mk_kuio_def)
  moreover have "\<forall>x. x < b \<or> b + len \<le> x \<longrightarrow> sectors lh2 x = sectors lh x"
    using s1 lh2(3) by auto
  ultimately show ?thesis using lh1(1) lh2(1,2) by blast
qed

definition sample_disk :: "nat \<Rightarrow> lhd_softc" where
  "sample_disk n = \<lparr>lh_disk = \<lparr>dd_image = (\<lambda>_. replicate 512 0), dd_totsectors = n, dd_rpm = 3600, dd_stat = 0, dd_sect = 0,
       dd_buf = replicate 512 0, dd_fate = (\<lambda>_. None), dd_transfers = 0\<rparr>,
     lh_result = None, lh_clear = 1, lh_done = 0, d_blocks = n, d_blocksize = 512\<rparr>"

lemma sample_disk_ok: "n < 2 ^ 22 \<Longrightarrow> dev_ok (sample_disk n) \<and> reliable (sample_disk n) \<and> d_blocks (sample_disk n) = n"
  by (simp add: dev_ok_def reliable_def sample_disk_def)

theorem lhd_write_read_roundtrip_witness:
  "\<exists>lh1 u1 lh2 u2.
     lhd_io None (sample_disk 128) (mk_kuio (replicate 1024 7) 1024 2560 UIO_WRITE) = Some (Ok (), lh1, u1)
     \<and> lhd_io None lh1 (mk_kuio (replicate 1024 0) 1024 2560 UIO_READ) = Some (Ok (), lh2, u2)
     \<and> bytes_at (iov_mem u2) 0 1024 = replicate 1024 7"
proof -
  have s: "dev_ok (sample_disk 128)" "reliable (sample_disk 128)" "5 + 2 \<le> d_blocks (sample_disk 128)"
    using sample_disk_ok [of 128] by simp_all
  show ?thesis
    using lhd_write_read_roundtrip [OF s, of "replicate 1024 7" "replicate 1024 0" None]
    by simp blast
qed

end
