(* ===== verification/SfsDisk.thy ===== *)
theory SfsDisk
  imports Disk Bitmap
begin

section \<open>On-disk structures of SFS\<close>

text \<open>
  The structures of \<^verbatim>\<open>kern/include/kern/sfs.h\<close> as records, and the bytes they occupy in a disk
  block. SFS writes the C structures to disk as they are in memory, and the MIPS is big-endian:
  \<open>inode_bytes\<close>, \<open>super_bytes\<close> and \<open>dir_bytes\<close> give the bytes of a structure, \<open>bytes_inode\<close>,
  \<open>bytes_super\<close> and \<open>bytes_dir\<close> read them back. An indirect block is an array of 128 words.
\<close>

definition SFS_MAGIC :: nat where "SFS_MAGIC = 0xabadf001"
definition SFS_BLOCKSIZE :: nat where [simp]: "SFS_BLOCKSIZE = 512"
definition SFS_VOLNAME_SIZE :: nat where [simp]: "SFS_VOLNAME_SIZE = 32"
definition SFS_NDIRECT :: nat where [simp]: "SFS_NDIRECT = 15"
definition SFS_DBPERIDB :: nat where [simp]: "SFS_DBPERIDB = 128"
definition SFS_NAMELEN :: nat where [simp]: "SFS_NAMELEN = 60"
definition SFS_SB_LOCATION :: nat where [simp]: "SFS_SB_LOCATION = 0"
definition SFS_ROOT_LOCATION :: nat where [simp]: "SFS_ROOT_LOCATION = 1"
definition SFS_MAP_LOCATION :: nat where [simp]: "SFS_MAP_LOCATION = 2"
definition SFS_NOINO :: nat where [simp]: "SFS_NOINO = 0"
definition SFS_BLOCKBITS :: nat where [simp]: "SFS_BLOCKBITS = SFS_BLOCKSIZE * 8"

definition SFS_ROUNDUP :: "nat \<Rightarrow> nat \<Rightarrow> nat" where
  "SFS_ROUNDUP a b = u32 (u32 (a + b - 1) div b * b)"

definition SFS_BITMAPSIZE :: "nat \<Rightarrow> nat" where
  "SFS_BITMAPSIZE nblocks = SFS_ROUNDUP nblocks SFS_BLOCKBITS"

definition SFS_BITBLOCKS :: "nat \<Rightarrow> nat" where
  "SFS_BITBLOCKS nblocks = SFS_BITMAPSIZE nblocks div SFS_BLOCKBITS"

definition SFS_TYPE_INVAL :: nat where [simp]: "SFS_TYPE_INVAL = 0"
definition SFS_TYPE_FILE :: nat where [simp]: "SFS_TYPE_FILE = 1"
definition SFS_TYPE_DIR :: nat where [simp]: "SFS_TYPE_DIR = 2"

record sfs_super =
  sp_magic :: nat
  sp_nblocks :: nat
  sp_volname :: "byte list"
  sp_reserved :: "nat list"

record sfs_inode =
  sfi_size :: nat
  sfi_type :: nat
  sfi_linkcount :: nat
  sfi_direct :: "nat list"
  sfi_indirect :: nat
  sfi_waste :: "nat list"

record sfs_dir =
  sfd_ino :: nat
  sfd_name :: "byte list"

subsection \<open>Big-endian words\<close>

definition be16 :: "nat \<Rightarrow> byte list" where
  "be16 n = [of_nat (n div 256), of_nat n]"

definition be32 :: "nat \<Rightarrow> byte list" where
  "be32 n = [of_nat (n div 16777216), of_nat (n div 65536), of_nat (n div 256), of_nat n]"

definition un_be :: "byte list \<Rightarrow> nat" where
  "un_be bs = foldl (\<lambda>n b. n * 256 + unat b) 0 bs"

definition words_bytes :: "nat list \<Rightarrow> byte list" where
  "words_bytes ws = concat (map be32 ws)"

definition bytes_words :: "byte list \<Rightarrow> nat list" where
  "bytes_words bs = map (\<lambda>i. un_be (take 4 (drop (4 * i) bs))) [0..<length bs div 4]"

lemma length_be [simp]: "length (be16 n) = 2" "length (be32 n) = 4"
  by (simp_all add: be16_def be32_def)

lemma unat_byte [simp]: "unat (of_nat n :: byte) = n mod 256"
  by (simp add: unat_of_nat)

lemma un_be_16 [simp]: "n < 2 ^ 16 \<Longrightarrow> un_be (be16 n) = n"
  by (simp add: un_be_def be16_def)

lemma digits_256:
  "n = q1 * 256 + r1 \<Longrightarrow> q1 = q2 * 256 + r2 \<Longrightarrow> q2 = q3 * 256 + r3 \<Longrightarrow>
   n = q3 * 16777216 + r3 * 65536 + r2 * 256 + r1" for n :: nat
  by simp

lemma base_256: "n = n div 16777216 * 16777216 + n div 65536 mod 256 * 65536 + n div 256 mod 256 * 256 + n mod 256"
  for n :: nat
proof (rule digits_256)
  show "n = n div 256 * 256 + n mod 256" by simp
  have "n div 65536 = n div 256 div 256" by (simp add: div_mult2_eq [symmetric])
  then show "n div 256 = n div 65536 * 256 + n div 256 mod 256" by (simp only: div_mult_mod_eq)
  have "n div 16777216 = n div 65536 div 256" by (simp add: div_mult2_eq [symmetric])
  then show "n div 65536 = n div 16777216 * 256 + n div 65536 mod 256" by (simp only: div_mult_mod_eq)
qed

lemma un_be_32 [simp]:
  assumes "n < 2 ^ 32"
  shows "un_be (be32 n) = n"
proof -
  have "n div 16777216 mod 256 = n div 16777216" using assms by (simp add: less_mult_imp_div_less)
  then show ?thesis using base_256 [of n] by (simp add: un_be_def be32_def algebra_simps)
qed

lemma byte_of_unat [simp]: "of_nat (unat b) = b" for b :: byte
  by simp

lemma be_un:
  "be16 (un_be [a, b]) = [a, b]" "be32 (un_be [a, b, c, d]) = [a, b, c, d]"
proof -
  have a: "unat x < 256" for x :: byte using unsigned_less [of x] by simp
  have m: "of_nat (256 * k + unat x) = x" for k and x :: byte
  proof -
    have "of_nat (256 * k) = (0 :: byte)" by (simp add: word_of_nat_eq_0_iff del: of_nat_mult)
    then show ?thesis by (simp del: of_nat_mult)
  qed
  have d: "(256 * k + unat x) div 256 = k" for k and x :: byte using a [of x] by simp
  show "be16 (un_be [a, b]) = [a, b]"
    using m [of "unat a" b] d [of "unat a" b] by (simp add: be16_def un_be_def mult.commute)
  have e: "un_be [a, b, c, d] = 256 * (256 * (256 * unat a + unat b) + unat c) + unat d"
    by (simp add: un_be_def mult.commute)
  have "n div 65536 = n div 256 div 256" "n div 16777216 = n div 256 div 256 div 256" for n :: nat
    by (simp_all add: div_mult2_eq [symmetric])
  then show "be32 (un_be [a, b, c, d]) = [a, b, c, d]"
    unfolding e be32_def by (simp only: d m byte_of_unat)
qed

lemma be32_un_take: "length bs = 4 \<Longrightarrow> be32 (un_be bs) = bs"
  by (auto simp: length_Suc_conv numeral_eq_Suc be_un)

lemma be16_un_take: "length bs = 2 \<Longrightarrow> be16 (un_be bs) = bs"
  by (auto simp: length_Suc_conv numeral_eq_Suc be_un)

lemma words_bytes_simps [simp]:
  "words_bytes [] = []" "words_bytes (w # ws) = be32 w @ words_bytes ws"
  by (simp_all add: words_bytes_def)

lemma length_words_bytes [simp]: "length (words_bytes ws) = 4 * length ws"
  by (induction ws) simp_all

lemma length_bytes_words [simp]: "length (bytes_words bs) = length bs div 4"
  by (simp add: bytes_words_def)

lemma words_bytes_nth: "i < length ws \<Longrightarrow> take 4 (drop (4 * i) (words_bytes ws)) = be32 (ws ! i)"
proof (induction ws arbitrary: i)
  case (Cons w ws)
  then show ?case by (cases i) simp_all
qed simp

lemma bytes_words_nth: "i < length bs div 4 \<Longrightarrow> bytes_words bs ! i = un_be (take 4 (drop (4 * i) bs))"
  by (simp add: bytes_words_def)

lemma bytes_words_bytes: "\<forall>w \<in> set ws. w < 2 ^ 32 \<Longrightarrow> bytes_words (words_bytes ws) = ws"
  by (rule nth_equalityI) (simp_all add: bytes_words_nth words_bytes_nth)

lemma un_be_less: "un_be bs < 256 ^ length bs"
proof (induction bs rule: rev_induct)
  case (snoc b bs)
  have "unat b < 256" using unsigned_less [of b] by simp
  with snoc show ?case by (simp add: un_be_def)
qed (simp add: un_be_def)

lemma bytes_words_less: "w \<in> set (bytes_words bs) \<Longrightarrow> w < 2 ^ 32"
proof -
  assume "w \<in> set (bytes_words bs)"
  then obtain ys where w: "w = un_be ys" and "length ys \<le> 4" by (auto simp: bytes_words_def)
  then have "(256::nat) ^ length ys \<le> 256 ^ 4" by (intro power_increasing) simp_all
  with un_be_less [of ys] w show ?thesis by simp
qed

lemma words_bytes_words:
  assumes "length bs = 4 * n"
  shows "words_bytes (bytes_words bs) = bs"
proof -
  have "concat (map (\<lambda>i. be32 (un_be (take 4 (drop (4 * i) bs)))) [0..<k]) = take (4 * k) bs" if "k \<le> n" for k
    using that
  proof (induction k)
    case (Suc k)
    then have "be32 (un_be (take 4 (drop (4 * k) bs))) = take 4 (drop (4 * k) bs)"
      using assms by (intro be32_un_take) simp
    with Suc take_add [of "4 * k" 4 bs] show ?case by (simp add: add.commute)
  qed simp
  then show ?thesis using assms by (simp add: words_bytes_def bytes_words_def o_def)
qed

lemma bytes_words_update:
  "i < length bs div 4 \<Longrightarrow> w < 2 ^ 32 \<Longrightarrow>
   bytes_words (words_bytes ((bytes_words bs)[i := w])) = (bytes_words bs)[i := w]"
  by (rule bytes_words_bytes) (auto dest!: set_update_subset_insert [THEN subsetD] bytes_words_less)

lemma bytes_words_zeros: "bytes_words (replicate (4 * n) 0) = replicate n 0"
proof -
  have "replicate (4 + k) (0::byte) = be32 0 @ replicate k 0" for k
    by (simp add: be32_def replicate_add) (simp add: numeral_eq_Suc)
  then have "words_bytes (replicate n 0) = replicate (4 * n) 0"
    by (induction n) simp_all
  then show ?thesis using bytes_words_bytes [of "replicate n 0"] by simp
qed

subsection \<open>Structures\<close>

definition inode_bytes :: "sfs_inode \<Rightarrow> byte list" where
  "inode_bytes i = be32 (sfi_size i) @ be16 (sfi_type i) @ be16 (sfi_linkcount i)
     @ words_bytes (sfi_direct i) @ be32 (sfi_indirect i) @ words_bytes (sfi_waste i)"

definition bytes_inode :: "byte list \<Rightarrow> sfs_inode" where
  "bytes_inode bs = \<lparr>sfi_size = un_be (take 4 bs), sfi_type = un_be (take 2 (drop 4 bs)),
     sfi_linkcount = un_be (take 2 (drop 6 bs)), sfi_direct = bytes_words (take 60 (drop 8 bs)),
     sfi_indirect = un_be (take 4 (drop 68 bs)), sfi_waste = bytes_words (drop 72 bs)\<rparr>"

definition super_bytes :: "sfs_super \<Rightarrow> byte list" where
  "super_bytes sp = be32 (sp_magic sp) @ be32 (sp_nblocks sp) @ sp_volname sp @ words_bytes (sp_reserved sp)"

definition bytes_super :: "byte list \<Rightarrow> sfs_super" where
  "bytes_super bs = \<lparr>sp_magic = un_be (take 4 bs), sp_nblocks = un_be (take 4 (drop 4 bs)),
     sp_volname = take 32 (drop 8 bs), sp_reserved = bytes_words (drop 40 bs)\<rparr>"

definition dir_bytes :: "sfs_dir \<Rightarrow> byte list" where
  "dir_bytes sd = be32 (sfd_ino sd) @ sfd_name sd"

definition bytes_dir :: "byte list \<Rightarrow> sfs_dir" where
  "bytes_dir bs = \<lparr>sfd_ino = un_be (take 4 bs), sfd_name = drop 4 bs\<rparr>"

text \<open>The field widths of the C structures.\<close>

definition inode_wf :: "sfs_inode \<Rightarrow> bool" where
  "inode_wf i \<longleftrightarrow> sfi_size i < 2 ^ 32 \<and> sfi_type i < 2 ^ 16 \<and> sfi_linkcount i < 2 ^ 16
     \<and> length (sfi_direct i) = 15 \<and> (\<forall>w \<in> set (sfi_direct i). w < 2 ^ 32) \<and> sfi_indirect i < 2 ^ 32
     \<and> length (sfi_waste i) = 110 \<and> (\<forall>w \<in> set (sfi_waste i). w < 2 ^ 32)"

definition super_wf :: "sfs_super \<Rightarrow> bool" where
  "super_wf sp \<longleftrightarrow> sp_magic sp < 2 ^ 32 \<and> sp_nblocks sp < 2 ^ 32 \<and> length (sp_volname sp) = 32
     \<and> length (sp_reserved sp) = 118 \<and> (\<forall>w \<in> set (sp_reserved sp). w < 2 ^ 32)"

definition dir_wf :: "sfs_dir \<Rightarrow> bool" where
  "dir_wf sd \<longleftrightarrow> sfd_ino sd < 2 ^ 32 \<and> length (sfd_name sd) = 60"

lemma length_inode_bytes: "inode_wf i \<Longrightarrow> length (inode_bytes i) = 512"
  by (simp add: inode_bytes_def inode_wf_def)

lemma length_super_bytes: "super_wf sp \<Longrightarrow> length (super_bytes sp) = 512"
  by (simp add: super_bytes_def super_wf_def)

lemma length_dir_bytes: "dir_wf sd \<Longrightarrow> length (dir_bytes sd) = 64"
  by (simp add: dir_bytes_def dir_wf_def)

lemma un_be_bound: "length bs \<le> k \<Longrightarrow> un_be bs < 256 ^ k"
  by (rule less_le_trans [OF un_be_less]) simp

lemma bytes_inode_wf: "length bs = 512 \<Longrightarrow> inode_wf (bytes_inode bs)"
  using un_be_bound [of "take 4 bs" 4] un_be_bound [of "take 2 (drop 4 bs)" 2]
    un_be_bound [of "take 2 (drop 6 bs)" 2] un_be_bound [of "take 4 (drop 68 bs)" 4]
  by (auto simp: inode_wf_def bytes_inode_def dest: bytes_words_less)

lemma bytes_dir_wf: "length bs = 64 \<Longrightarrow> dir_wf (bytes_dir bs)"
  using un_be_bound [of "take 4 bs" 4] by (simp add: dir_wf_def bytes_dir_def)

lemma bytes_super_wf: "length bs = 512 \<Longrightarrow> super_wf (bytes_super bs)"
  using un_be_bound [of "take 4 bs" 4] un_be_bound [of "take 4 (drop 4 bs)" 4]
  by (auto simp: super_wf_def bytes_super_def dest: bytes_words_less)

lemma bytes_inode_bytes:
  assumes "inode_wf i"
  shows "bytes_inode (inode_bytes i) = i"
proof -
  have "take 60 (words_bytes (sfi_direct i) @ xs) = words_bytes (sfi_direct i)"
    "drop 60 (words_bytes (sfi_direct i) @ xs) = xs" for xs
    using assms by (simp_all add: inode_wf_def)
  moreover have "drop 68 (be32 a @ be16 b @ be16 c @ xs) = drop 60 xs"
    "drop 72 (be32 a @ be16 b @ be16 c @ xs) = drop 4 (drop 60 xs)"
    "drop 8 (be32 a @ be16 b @ be16 c @ xs) = xs"
    "drop 6 (be32 a @ be16 b @ be16 c @ xs) = be16 c @ xs" for a b c xs
    by (simp_all add: be32_def be16_def)
  ultimately show ?thesis using assms
    by (intro sfs_inode.equality) (simp_all add: bytes_inode_def inode_bytes_def inode_wf_def bytes_words_bytes)
qed

lemma bytes_dir_bytes: "dir_wf sd \<Longrightarrow> bytes_dir (dir_bytes sd) = sd"
  by (simp add: bytes_dir_def dir_bytes_def dir_wf_def)

lemma bytes_super_bytes:
  assumes "super_wf sp"
  shows "bytes_super (super_bytes sp) = sp"
  using assms by (intro sfs_super.equality) (simp_all add: bytes_super_def super_bytes_def super_wf_def bytes_words_bytes)

lemma un_be_zeros [simp]: "un_be (replicate n 0) = 0"
  unfolding un_be_def by (induction n) simp_all

lemma inode_bytes_zeros:
  "bytes_inode (replicate 512 0) = \<lparr>sfi_size = 0, sfi_type = 0, sfi_linkcount = 0,
     sfi_direct = replicate 15 0, sfi_indirect = 0, sfi_waste = replicate 110 0\<rparr>"
  using bytes_words_zeros [of 15] bytes_words_zeros [of 110]
  by (simp add: bytes_inode_def)

subsection \<open>Structures and blocks correspond one to one\<close>

lemma take_split: "i \<le> j \<Longrightarrow> take (j - i) (drop i bs) @ drop j bs = drop i bs"
  by (metis append_take_drop_id drop_drop le_add_diff_inverse2)

lemma inode_bytes_inverse:
  assumes "length bs = 512"
  shows "inode_bytes (bytes_inode bs) = bs"
proof -
  have "words_bytes (bytes_words (take 60 (drop 8 bs))) = take 60 (drop 8 bs)"
    "words_bytes (bytes_words (drop 72 bs)) = drop 72 bs"
    using assms words_bytes_words [of "take 60 (drop 8 bs)" 15] words_bytes_words [of "drop 72 bs" 110] by simp_all
  then have "inode_bytes (bytes_inode bs)
      = take 4 bs @ take 2 (drop 4 bs) @ take 2 (drop 6 bs) @ take 60 (drop 8 bs) @ take 4 (drop 68 bs) @ drop 72 bs"
    using assms by (simp add: inode_bytes_def bytes_inode_def be32_un_take be16_un_take)
  also have "\<dots> = bs"
    using take_split [of 68 72 bs] take_split [of 8 68 bs] take_split [of 6 8 bs] take_split [of 4 6 bs] by simp
  finally show ?thesis .
qed

lemma super_bytes_inverse:
  assumes "length bs = 512"
  shows "super_bytes (bytes_super bs) = bs"
proof -
  have "super_bytes (bytes_super bs) = take 4 bs @ take 4 (drop 4 bs) @ take 32 (drop 8 bs) @ drop 40 bs"
    using assms words_bytes_words [of "drop 40 bs" 118] by (simp add: super_bytes_def bytes_super_def be32_un_take)
  also have "\<dots> = bs" using take_split [of 8 40 bs] take_split [of 4 8 bs] by simp
  finally show ?thesis .
qed

lemma dir_bytes_inverse: "length bs = 64 \<Longrightarrow> dir_bytes (bytes_dir bs) = bs"
  by (simp add: dir_bytes_def bytes_dir_def be32_un_take)


end
