(* ===== verification/Lock.thy ===== *)
theory Lock
  imports Prelude
begin

section \<open>Locks and condition variables (\<^verbatim>\<open>kern/thread/synch.c\<close>)\<close>

text \<open>
  In this tree the bodies of \<^verbatim>\<open>lock_acquire\<close>, \<^verbatim>\<open>lock_release\<close>, \<^verbatim>\<open>cv_wait\<close>, \<^verbatim>\<open>cv_signal\<close> and
  \<^verbatim>\<open>cv_broadcast\<close> are still to be written: they take their arguments and do nothing, and
  \<^verbatim>\<open>lock_do_i_hold\<close> always answers 1. A lock or condition variable is a structure with a name; creating
  one allocates the structure (4 bytes) and a copy of the name. \<open>mem n\<close> says whether
  \<^verbatim>\<open>kmalloc\<close> of \<open>n\<close> bytes succeeds. The operations act on a state of any type.
\<close>

record lock =
  lk_name :: string

record cv =
  cv_name :: string

definition lock_create :: "(nat \<Rightarrow> bool) \<Rightarrow> string \<Rightarrow> lock ptr" where
  "lock_create mem name =
     (if \<not> mem 4 then NULL
      else if \<not> mem (length name + 1) then NULL
      else Some \<lparr>lk_name = name\<rparr>)"

definition lock_destroy :: "lock ptr \<Rightarrow> unit run" where
  "lock_destroy lk = kassert (lk \<noteq> NULL)"

definition lock_acquire :: "lock ptr \<Rightarrow> 's \<Rightarrow> 's" where
  "lock_acquire lk s = s"

definition lock_release :: "lock ptr \<Rightarrow> 's \<Rightarrow> 's" where
  "lock_release lk s = s"

definition lock_do_i_hold :: "lock ptr \<Rightarrow> 's \<Rightarrow> int" where
  "lock_do_i_hold lk s = 1"

definition cv_create :: "(nat \<Rightarrow> bool) \<Rightarrow> string \<Rightarrow> cv ptr" where
  "cv_create mem name =
     (if \<not> mem 4 then NULL
      else if \<not> mem (length name + 1) then NULL
      else Some \<lparr>cv_name = name\<rparr>)"

definition cv_destroy :: "cv ptr \<Rightarrow> unit run" where
  "cv_destroy c = kassert (c \<noteq> NULL)"

definition cv_wait :: "cv ptr \<Rightarrow> lock ptr \<Rightarrow> 's \<Rightarrow> 's" where
  "cv_wait c lk s = s"

definition cv_signal :: "cv ptr \<Rightarrow> lock ptr \<Rightarrow> 's \<Rightarrow> 's" where
  "cv_signal c lk s = s"

definition cv_broadcast :: "cv ptr \<Rightarrow> lock ptr \<Rightarrow> 's \<Rightarrow> 's" where
  "cv_broadcast c lk s = s"

lemmas lock_defs = lock_acquire_def lock_release_def

end
