(* ===== verification/Vnode.thy ===== *)
theory Vnode
  imports Lock
begin

section \<open>Vnodes (\<^verbatim>\<open>kern/fs/vfs/vnode.c\<close>)\<close>

text \<open>
  The file-system independent part of a vnode: its reference and open counts and the
  operations on them. The table of operations a vnode points to is one of the tables of the
  tree; \<open>None\<close> is the null pointer that \<^verbatim>\<open>vnode_kill\<close> stores. A vnode lives inside an object of
  its file system, so the operations that call back into the file system
  (\<^verbatim>\<open>VOP_RECLAIM\<close>, \<^verbatim>\<open>VOP_CLOSE\<close>) take the access to the vnode and the callback as arguments.
  The warnings they print on failure are not modelled.
\<close>

datatype vop_table = Sfs_fileops | Sfs_dirops | Dev_vnode_ops | Emufs_fileops | Emufs_dirops

record vnode =
  vn_refcount :: int
  vn_opencount :: int
  vn_countlock :: "lock ptr"
  vn_fs :: "nat ptr"
  vn_ops :: "vop_table ptr"

definition vnode_init :: "(nat \<Rightarrow> bool) \<Rightarrow> vop_table ptr \<Rightarrow> nat ptr \<Rightarrow> vnode res run" where
  "vnode_init mem ops fs = do {
     kassert (ops \<noteq> NULL);
     let lk = lock_create mem ''vnode-countlock'';
     Some (if lk = NULL then Err ENOMEM
           else Ok \<lparr>vn_refcount = 1, vn_opencount = 0, vn_countlock = lk, vn_fs = fs, vn_ops = ops\<rparr>)
   }"

definition vnode_kill :: "vnode \<Rightarrow> vnode run" where
  "vnode_kill vn = do {
     kassert (vn_refcount vn = 1);
     kassert (vn_opencount vn = 0);
     kassert (vn_countlock vn \<noteq> NULL);
     lock_destroy (vn_countlock vn);
     Some \<lparr>vn_refcount = 0, vn_opencount = 0, vn_countlock = NULL, vn_fs = NULL, vn_ops = NULL\<rparr>
   }"

definition vnode_incref :: "vnode \<Rightarrow> vnode" where
  "vnode_incref vn =
     (let vn = lock_acquire (vn_countlock vn) vn;
          vn = vn\<lparr>vn_refcount := s32 (vn_refcount vn + 1)\<rparr> in
      lock_release (vn_countlock vn) vn)"

definition vnode_decref ::
  "('s \<Rightarrow> vnode run) \<Rightarrow> (vnode \<Rightarrow> 's \<Rightarrow> 's) \<Rightarrow> ('s \<Rightarrow> (unit res \<times> 's) run) \<Rightarrow> 's \<Rightarrow> 's run" where
  "vnode_decref getv putv vop_reclaim s = do {
     vn \<leftarrow> getv s;
     let vn = lock_acquire (vn_countlock vn) vn;
     kassert (vn_refcount vn > 0);
     if vn_refcount vn > 1 then
       Some (putv (lock_release (vn_countlock vn) (vn\<lparr>vn_refcount := vn_refcount vn - 1\<rparr>)) s)
     else do {
       (r, s) \<leftarrow> vop_reclaim s;
       Some s
     }
   }"

definition vnode_incopen :: "vnode \<Rightarrow> vnode" where
  "vnode_incopen vn =
     (let vn = lock_acquire (vn_countlock vn) vn;
          vn = vn\<lparr>vn_opencount := s32 (vn_opencount vn + 1)\<rparr> in
      lock_release (vn_countlock vn) vn)"

definition vnode_decopen ::
  "('s \<Rightarrow> vnode run) \<Rightarrow> (vnode \<Rightarrow> 's \<Rightarrow> 's) \<Rightarrow> ('s \<Rightarrow> (unit res \<times> 's) run) \<Rightarrow> 's \<Rightarrow> 's run" where
  "vnode_decopen getv putv vop_close s = do {
     vn \<leftarrow> getv s;
     let vn = lock_acquire (vn_countlock vn) vn;
     kassert (vn_opencount vn > 0);
     let vn = vn\<lparr>vn_opencount := vn_opencount vn - 1\<rparr>;
     let s = putv (lock_release (vn_countlock vn) vn) s;
     if vn_opencount vn > 0 then Some s
     else do {
       (r, s) \<leftarrow> vop_close s;
       Some s
     }
   }"

text \<open>
  The check before every \<^verbatim>\<open>VOP_\<close> call; \<open>opstr\<close> is the name of the operation. All tables carry the right
  magic number, and a freed vnode (the \<^verbatim>\<open>0xdeadbeef\<close> checks) is not in the model's heap.
\<close>

definition vnode_check :: "vnode \<Rightarrow> string \<Rightarrow> unit run" where
  "vnode_check v opstr = do {
     kassert (vn_ops v \<noteq> NULL);
     kassert (\<not> vn_refcount v < 0);
     kassert (\<not> (vn_refcount v = 0 \<and> opstr \<noteq> ''reclaim''));
     kassert (\<not> vn_opencount v < 0)
   }"

subsection \<open>Counts\<close>

definition vnode_ok :: "vnode \<Rightarrow> bool" where
  "vnode_ok v \<longleftrightarrow> 1 \<le> vn_refcount v \<and> vn_refcount v < 2 ^ 31 - 1 \<and> 0 \<le> vn_opencount v
     \<and> vn_opencount v < 2 ^ 31 - 1 \<and> vn_countlock v \<noteq> NULL \<and> vn_ops v \<noteq> NULL"

lemma vnode_check_ok [simp]: "vnode_ok v \<Longrightarrow> vnode_check v opstr = Some ()"
  by (simp add: vnode_check_def vnode_ok_def)

lemma vnode_init_cases:
  "ops \<noteq> NULL \<Longrightarrow> vnode_init mem ops fs = Some (Err ENOMEM)
     \<or> (\<exists>lk. vnode_init mem ops fs = Some (Ok \<lparr>vn_refcount = 1, vn_opencount = 0, vn_countlock = Some lk,
           vn_fs = fs, vn_ops = ops\<rparr>))"
  by (auto simp: vnode_init_def Let_def)

lemma vnode_kill_ok:
  "vnode_ok v \<Longrightarrow> vn_refcount v = 1 \<Longrightarrow> vn_opencount v = 0 \<Longrightarrow> \<exists>v'. vnode_kill v = Some v'"
  by (auto simp: vnode_kill_def vnode_ok_def lock_destroy_def)

lemma vnode_incref_eq [simp]:
  "vnode_ok v \<Longrightarrow> vnode_incref v = v\<lparr>vn_refcount := vn_refcount v + 1\<rparr>"
  by (simp add: vnode_incref_def lock_defs vnode_ok_def)

lemma vnode_decref_many:
  "getv s = Some v \<Longrightarrow> vn_refcount v > 1 \<Longrightarrow>
   vnode_decref getv putv vop_reclaim s = Some (putv (v\<lparr>vn_refcount := vn_refcount v - 1\<rparr>) s)"
  by (simp add: vnode_decref_def lock_defs)

lemma vnode_decref_last:
  "getv s = Some v \<Longrightarrow> vn_refcount v = 1 \<Longrightarrow> vop_reclaim s = Some (r, s') \<Longrightarrow>
   vnode_decref getv putv vop_reclaim s = Some s'"
  by (simp add: vnode_decref_def lock_defs)

end
