(* ===== verification/Sfs.thy ===== *)
theory Sfs
  imports SfsDisk Vnode Array
begin

section \<open>SFS: blocks and file I/O\<close>

text \<open>
  Model of \<^verbatim>\<open>kern/fs/sfs/sfs_io.c\<close> and of the space allocation, blk mapping and file I/O part of
  \<^verbatim>\<open>kern/fs/sfs/sfs_vnode.c\<close>. The state is the \<^verbatim>\<open>struct sfs_fs\<close> with its device, and the vnodes of the
  file system in a heap (\<open>sfs_pool\<close>, from addresses to \<^verbatim>\<open>struct sfs_vnode\<close>; an address not in it
  is not a vnode). An operation on a vnode takes its address. The static I/O buffers of the code are
  local values here: no two calls that use them overlap. Messages are not modelled.
\<close>

record sfs_vnode =
  sv_v :: vnode
  sv_i :: sfs_inode
  sv_ino :: nat
  sv_dirty :: bool

record sfs_fs =
  sfs_super :: sfs_super
  sfs_superdirty :: bool
  sfs_device :: lhd_softc
  sfs_vnodes :: "nat parray"
  sfs_freemap :: bitmap
  sfs_freemapdirty :: bool
  sfs_pool :: "nat \<Rightarrow> sfs_vnode option"

subsection \<open>Block I/O (\<^verbatim>\<open>sfs_io.c\<close>)\<close>

text \<open>The \<^verbatim>\<open>retry\<close> loop of \<^verbatim>\<open>sfs_rwblock\<close>; \<open>tries\<close> counts the failed attempts.\<close>

function rw_retry :: "nat ptr \<Rightarrow> nat \<Rightarrow> lhd_softc \<Rightarrow> uio \<Rightarrow> (unit res \<times> lhd_softc \<times> uio) run" where
  "rw_retry cs tries lh u =
     (case lhd_io cs lh u of
        None \<Rightarrow> None
      | Some (r, lh, u) \<Rightarrow>
          if r = Err EINVAL then panic
          else if r = Err EIO \<and> tries < 10 then rw_retry cs (tries + 1) lh u
          else Some (r, lh, u))"
  by pat_completeness auto
termination by (relation "measure (\<lambda>(_, tries, _). 10 - tries)") auto

declare rw_retry.simps [simp del]

definition sfs_rwblock :: "nat ptr \<Rightarrow> sfs_fs \<times> uio \<Rightarrow> (unit res \<times> sfs_fs \<times> uio) run" where
  "sfs_rwblock cs = (\<lambda>(s, u). do {
     (r, lh, u) \<leftarrow> rw_retry cs 0 (sfs_device s) u;
     Some (r, s\<lparr>sfs_device := lh\<rparr>, u)
   })"

definition sfs_rblock :: "nat \<Rightarrow> sfs_fs \<Rightarrow> (byte list res \<times> sfs_fs) run" where
  "sfs_rblock blk s = do {
     let ku = mk_kuio (replicate 512 0) SFS_BLOCKSIZE (s32 (int blk * int SFS_BLOCKSIZE)) UIO_READ;
     (r, s, ku) \<leftarrow> sfs_rwblock NULL (s, ku);
     Some (case r of Inl e \<Rightarrow> (Err e, s) | Inr _ \<Rightarrow> (Ok (bytes_at (iov_mem ku) 0 SFS_BLOCKSIZE), s))
   }"

definition sfs_wblock :: "byte list \<Rightarrow> nat \<Rightarrow> sfs_fs \<Rightarrow> (unit res \<times> sfs_fs) run" where
  "sfs_wblock data blk s = do {
     let ku = mk_kuio data SFS_BLOCKSIZE (s32 (int blk * int SFS_BLOCKSIZE)) UIO_WRITE;
     (r, s, ku) \<leftarrow> sfs_rwblock NULL (s, ku);
     Some (r, s)
   }"

subsection \<open>Simple operations and space allocation\<close>

definition sfs_clearblock :: "nat \<Rightarrow> sfs_fs \<Rightarrow> (unit res \<times> sfs_fs) run" where
  "sfs_clearblock blk s = sfs_wblock (replicate 512 0) blk s"

definition set_vnode :: "nat \<Rightarrow> sfs_vnode \<Rightarrow> sfs_fs \<Rightarrow> sfs_fs" where
  "set_vnode v sv s = s\<lparr>sfs_pool := (sfs_pool s)(v \<mapsto> sv)\<rparr>"

text \<open>Change the inode of a vnode and mark it dirty.\<close>

definition edit_inode :: "nat \<Rightarrow> (sfs_inode \<Rightarrow> sfs_inode) \<Rightarrow> sfs_fs \<Rightarrow> sfs_fs run" where
  "edit_inode v f s = do {
     sv \<leftarrow> sfs_pool s v;
     Some (set_vnode v (sv\<lparr>sv_i := f (sv_i sv), sv_dirty := True\<rparr>) s)
   }"

definition sfs_sync_inode :: "nat \<Rightarrow> sfs_fs \<Rightarrow> (unit res \<times> sfs_fs) run" where
  "sfs_sync_inode v s = do {
     sv \<leftarrow> sfs_pool s v;
     if sv_dirty sv then
       if_ok (sfs_wblock (inode_bytes (sv_i sv)) (sv_ino sv) s)
         (\<lambda>_ s. Some (Ok (), set_vnode v (sv\<lparr>sv_dirty := False\<rparr>) s))
     else Some (Ok (), s)
   }"

definition sfs_balloc :: "sfs_fs \<Rightarrow> (nat res \<times> sfs_fs) run" where
  "sfs_balloc s = do {
     (r, bm) \<leftarrow> bitmap_alloc (sfs_freemap s);
     let s = s\<lparr>sfs_freemap := bm\<rparr>;
     case r of
       Inl e \<Rightarrow> Some (Err e, s)
     | Inr diskblock \<Rightarrow>
         let s = s\<lparr>sfs_freemapdirty := True\<rparr> in
         if diskblock \<ge> sp_nblocks (sfs_super s) then panic
         else if_ok (sfs_clearblock diskblock s) (\<lambda>_ s. Some (Ok diskblock, s))
   }"

definition sfs_bfree :: "nat \<Rightarrow> sfs_fs \<Rightarrow> sfs_fs run" where
  "sfs_bfree diskblock s = do {
     bm \<leftarrow> bitmap_unmark (sfs_freemap s) diskblock;
     Some (s\<lparr>sfs_freemap := bm, sfs_freemapdirty := True\<rparr>)
   }"

definition sfs_bused :: "nat \<Rightarrow> sfs_fs \<Rightarrow> bool run" where
  "sfs_bused diskblock s =
     (if diskblock \<ge> sp_nblocks (sfs_super s) then panic
      else do { w \<leftarrow> bitmap_isset (sfs_freemap s) diskblock; Some (w \<noteq> 0) })"

subsection \<open>Block mapping\<close>

text \<open>The check at the end of \<^verbatim>\<open>sfs_bmap\<close>: a mapped block must be marked in use.\<close>

definition bmap_result :: "nat \<Rightarrow> sfs_fs \<Rightarrow> (nat res \<times> sfs_fs) run" where
  "bmap_result blk s =
     (if blk \<noteq> 0 then do { used \<leftarrow> sfs_bused blk s; kassert used; Some (Ok blk, s) }
      else Some (Ok blk, s))"

definition bmap_direct :: "nat \<Rightarrow> nat \<Rightarrow> bool \<Rightarrow> sfs_fs \<Rightarrow> (nat res \<times> sfs_fs) run" where
  "bmap_direct v fileblock doalloc s = do {
     sv \<leftarrow> sfs_pool s v;
     blk \<leftarrow> nth_run (sfi_direct (sv_i sv)) fileblock;
     if_ok (if blk = 0 \<and> doalloc then
              if_ok (sfs_balloc s) (\<lambda>blk s. do {
                s \<leftarrow> edit_inode v (\<lambda>i. i\<lparr>sfi_direct := (sfi_direct i)[fileblock := blk]\<rparr>) s;
                Some (Ok blk, s)
              })
            else Some (Ok blk, s))
       bmap_result
   }"

text \<open>The indirect block number and the words in it, allocating one when there is none.\<close>

definition bmap_idblock :: "nat \<Rightarrow> sfs_fs \<Rightarrow> ((nat \<times> nat list) res \<times> sfs_fs) run" where
  "bmap_idblock v s = do {
     sv \<leftarrow> sfs_pool s v;
     let idblock = sfi_indirect (sv_i sv);
     if idblock = 0 then
       if_ok (sfs_balloc s) (\<lambda>idblock s. do {
         s \<leftarrow> edit_inode v (\<lambda>i. i\<lparr>sfi_indirect := idblock\<rparr>) s;
         Some (Ok (idblock, replicate SFS_DBPERIDB 0), s)
       })
     else
       if_ok (sfs_rblock idblock s) (\<lambda>data s. Some (Ok (idblock, bytes_words data), s))
   }"

definition sfs_bmap :: "nat \<Rightarrow> nat \<Rightarrow> bool \<Rightarrow> sfs_fs \<Rightarrow> (nat res \<times> sfs_fs) run" where
  "sfs_bmap v fileblock doalloc s =
     (if fileblock < SFS_NDIRECT then bmap_direct v fileblock doalloc s
      else do {
        sv \<leftarrow> sfs_pool s v;
        let idnum = (fileblock - SFS_NDIRECT) div SFS_DBPERIDB;
        let idoff = (fileblock - SFS_NDIRECT) mod SFS_DBPERIDB;
        if idnum > 0 then Some (Err EINVAL, s)
        else if sfi_indirect (sv_i sv) = 0 \<and> \<not> doalloc then Some (Ok 0, s)
        else if_ok (bmap_idblock v s) (\<lambda>(idblock, idbuf) s. do {
          blk \<leftarrow> nth_run idbuf idoff;
          if_ok (if blk = 0 \<and> doalloc then
                   if_ok (sfs_balloc s) (\<lambda>blk s.
                     if_ok (sfs_wblock (words_bytes (idbuf[idoff := blk])) idblock s)
                       (\<lambda>_ s. Some (Ok blk, s)))
                 else Some (Ok blk, s))
            bmap_result
        })
      })"

subsection \<open>File I/O\<close>

text \<open>An operation on the file system while a uio is in progress.\<close>

definition with_uio :: "('a res \<times> sfs_fs) run \<Rightarrow> uio \<Rightarrow> ('a res \<times> sfs_fs \<times> uio) run" where
  "with_uio m u = do { (r, s) \<leftarrow> m; Some (r, s, u) }"

definition uio_fileblock :: "uio \<Rightarrow> nat" where
  "uio_fileblock u = nat (uio_offset u sdiv int SFS_BLOCKSIZE mod 2 ^ 32)"

definition sfs_partialio ::
  "nat ptr \<Rightarrow> nat \<Rightarrow> nat \<Rightarrow> nat \<Rightarrow> sfs_fs \<times> uio \<Rightarrow> (unit res \<times> sfs_fs \<times> uio) run" where
  "sfs_partialio cs v skipstart len = (\<lambda>(s, u). do {
     kassert (u32 (skipstart + len) \<le> SFS_BLOCKSIZE);
     let doalloc = (uio_rw u = UIO_WRITE);
     if_ok (with_uio (sfs_bmap v (uio_fileblock u) doalloc s) u) (\<lambda>diskblock (s, u).
       if_ok (if diskblock = 0 then do {
                kassert (uio_rw u = UIO_READ);
                Some (Ok (replicate 512 0), s, u)
              } else with_uio (sfs_rblock diskblock s) u) (\<lambda>iobuf (s, u). do {
         (r, buf, u) \<leftarrow> uiomove cs (drop skipstart iobuf) len u;
         case r of
           Inl e \<Rightarrow> Some (Err e, s, u)
         | Inr _ \<Rightarrow>
             if uio_rw u = UIO_WRITE then
               with_uio (sfs_wblock (take skipstart iobuf @ buf) diskblock s) u
             else Some (Ok (), s, u)
       }))
   })"

definition sfs_blockio :: "nat ptr \<Rightarrow> nat \<Rightarrow> sfs_fs \<times> uio \<Rightarrow> (unit res \<times> sfs_fs \<times> uio) run" where
  "sfs_blockio cs v = (\<lambda>(s, u).
     let doalloc = (uio_rw u = UIO_WRITE) in
     if_ok (with_uio (sfs_bmap v (uio_fileblock u) doalloc s) u) (\<lambda>diskblock (s, u).
       if diskblock = 0 then do {
         kassert (uio_rw u = UIO_READ);
         (r, u) \<leftarrow> uiomovezeros cs SFS_BLOCKSIZE u;
         Some (r, s, u)
       } else do {
         let saveoff = uio_offset u;
         let diskoff = s32 (int (diskblock * SFS_BLOCKSIZE));
         kassert (uio_resid u \<ge> SFS_BLOCKSIZE);
         let saveres = int (uio_resid u);
         (r, s, u) \<leftarrow> sfs_rwblock cs (s, u\<lparr>uio_offset := diskoff, uio_resid := SFS_BLOCKSIZE\<rparr>);
         Some (r, s, u\<lparr>uio_offset := s32 (uio_offset u - diskoff + saveoff),
                       uio_resid := nat ((int (uio_resid u) - int SFS_BLOCKSIZE + saveres) mod 2 ^ 32)\<rparr>)
       }))"

text \<open>The loop over the whole blocks.\<close>

fun sfs_blocks :: "nat ptr \<Rightarrow> nat \<Rightarrow> nat \<Rightarrow> sfs_fs \<times> uio \<Rightarrow> (unit res \<times> sfs_fs \<times> uio) run" where
  "sfs_blocks cs v 0 x = Some (Ok (), x)"
| "sfs_blocks cs v (Suc n) x = if_ok (sfs_blockio cs v x) (\<lambda>_. sfs_blocks cs v n)"

text \<open>
  The three stages of \<^verbatim>\<open>sfs_io\<close> up to the label \<^verbatim>\<open>out\<close>: the partial block at the start, whole blocks,
  the partial block at the end.
\<close>

definition io_leading :: "nat ptr \<Rightarrow> nat \<Rightarrow> sfs_fs \<times> uio \<Rightarrow> (unit res \<times> sfs_fs \<times> uio) run" where
  "io_leading cs v = (\<lambda>(s, u).
     let blkoff = nat (uio_offset u smod int SFS_BLOCKSIZE mod 2 ^ 32) in
     if blkoff \<noteq> 0 then sfs_partialio cs v blkoff (min (u32 (SFS_BLOCKSIZE + 2 ^ 32 - blkoff)) (uio_resid u)) (s, u)
     else Some (Ok (), s, u))"

definition io_rest :: "nat ptr \<Rightarrow> nat \<Rightarrow> sfs_fs \<times> uio \<Rightarrow> (unit res \<times> sfs_fs \<times> uio) run" where
  "io_rest cs v = (\<lambda>(s, u).
     if uio_resid u = 0 then Some (Ok (), s, u)
     else do {
       kassert (uio_offset u smod int SFS_BLOCKSIZE = 0);
       if_ok (sfs_blocks cs v (uio_resid u div SFS_BLOCKSIZE) (s, u)) (\<lambda>_ (s, u). do {
         kassert (uio_resid u < SFS_BLOCKSIZE);
         if uio_resid u > 0 then sfs_partialio cs v 0 (uio_resid u) (s, u)
         else Some (Ok (), s, u)
       })
     })"

definition sfs_io :: "nat ptr \<Rightarrow> nat \<Rightarrow> sfs_fs \<times> uio \<Rightarrow> (unit res \<times> sfs_fs \<times> uio) run" where
  "sfs_io cs v = (\<lambda>(s, u). do {
     sv \<leftarrow> sfs_pool s v;
     let size = s32 (int (sfi_size (sv_i sv)));
     let endpos = s32 (uio_offset u + int (uio_resid u));
     if uio_rw u = UIO_READ \<and> uio_offset u \<ge> size then Some (Ok (), s, u)
     else do {
       let extraresid = (if uio_rw u = UIO_READ \<and> endpos > size then nat (endpos - size) else 0);
       kassert (extraresid = 0 \<or> uio_resid u > extraresid);
       let u = u\<lparr>uio_resid := uio_resid u - extraresid\<rparr>;
       (r, s, u) \<leftarrow> if_ok (io_leading cs v (s, u)) (\<lambda>_. io_rest cs v);
       sv \<leftarrow> sfs_pool s v;
       s \<leftarrow> (if uio_rw u = UIO_WRITE \<and> uio_offset u > s32 (int (sfi_size (sv_i sv))) then
               edit_inode v (\<lambda>i. i\<lparr>sfi_size := nat (uio_offset u mod 2 ^ 32)\<rparr>) s
             else Some s);
       Some (r, s, u\<lparr>uio_resid := u32 (uio_resid u + extraresid)\<rparr>)
     }
   })"

definition sfs_read :: "nat ptr \<Rightarrow> nat \<Rightarrow> sfs_fs \<times> uio \<Rightarrow> (unit res \<times> sfs_fs \<times> uio) run" where
  "sfs_read cs v x = do { kassert (uio_rw (snd x) = UIO_READ); sfs_io cs v x }"

definition sfs_write :: "nat ptr \<Rightarrow> nat \<Rightarrow> sfs_fs \<times> uio \<Rightarrow> (unit res \<times> sfs_fs \<times> uio) run" where
  "sfs_write cs v x = do { kassert (uio_rw (snd x) = UIO_WRITE); sfs_io cs v x }"

subsection \<open>Single blocks on a reliable disk\<close>

abbreviation disk :: "sfs_fs \<Rightarrow> nat \<Rightarrow> byte list" where
  "disk s \<equiv> sectors (sfs_device s)"

definition dev_good :: "sfs_fs \<Rightarrow> bool" where
  "dev_good s \<longleftrightarrow> dev_ok (sfs_device s) \<and> reliable (sfs_device s)"

lemma rw_retry_ok: "lhd_io cs lh u = Some (Ok (), lh', u') \<Longrightarrow> rw_retry cs tries lh u = Some (Ok (), lh', u')"
  by (simp add: rw_retry.simps)

lemma dev_goodD: "dev_good s \<Longrightarrow> length (disk s b) = 512" "dev_good s \<Longrightarrow> d_blocks (sfs_device s) < 2 ^ 22"
  by (simp_all add: dev_good_def dev_ok_def)

lemma block_uio_ready:
  "b + 1 < 2 ^ 22 \<Longrightarrow> length data = 512 \<Longrightarrow> uio_ready cs (mk_kuio data 512 (int b * 512) rw) 512"
  by (simp add: uio_ready_def mk_kuio_def)

text \<open>\<open>dev_moves s dk s'\<close>: only the device changed, and its sectors are now \<open>dk\<close>.\<close>

definition dev_moves :: "sfs_fs \<Rightarrow> (nat \<Rightarrow> byte list) \<Rightarrow> sfs_fs \<Rightarrow> bool" where
  "dev_moves s dk s' \<longleftrightarrow> (\<exists>lh. s' = s\<lparr>sfs_device := lh\<rparr> \<and> dev_ok lh \<and> reliable lh \<and> sectors lh = dk
     \<and> d_blocks lh = d_blocks (sfs_device s))"

lemma dev_movesI:
  "dev_ok lh \<Longrightarrow> reliable lh \<Longrightarrow> sectors lh = dk \<Longrightarrow> d_blocks lh = d_blocks (sfs_device s) \<Longrightarrow>
   dev_moves s dk (s\<lparr>sfs_device := lh\<rparr>)"
  unfolding dev_moves_def by blast

lemma dev_moves_refl: "dev_good s \<Longrightarrow> dev_moves s (disk s) s"
  unfolding dev_moves_def dev_good_def by (rule exI [of _ "sfs_device s"]) simp

lemma dev_moves_fields:
  assumes "dev_moves s dk s'"
  shows "sfs_super s' = sfs_super s" "sfs_superdirty s' = sfs_superdirty s" "sfs_vnodes s' = sfs_vnodes s"
    "sfs_freemap s' = sfs_freemap s" "sfs_freemapdirty s' = sfs_freemapdirty s" "sfs_pool s' = sfs_pool s"
    "disk s' = dk" "dev_good s'" "d_blocks (sfs_device s') = d_blocks (sfs_device s)"
  using assms by (auto simp: dev_moves_def dev_good_def)

lemma dev_moves_trans: "dev_moves s dk s1 \<Longrightarrow> dev_moves s1 dk' s2 \<Longrightarrow> dev_moves s dk' s2"
  by (fastforce simp: dev_moves_def)

lemma sfs_rwblock_read:
  assumes "dev_good s" "b < d_blocks (sfs_device s)" "uio_rw u = UIO_READ" "uio_offset u = int b * 512"
    "uio_resid u = 512" "uio_ready cs u 512"
  shows "\<exists>s'. sfs_rwblock cs (s, u) = Some (Ok (), s', uio_fill (disk s b) u) \<and> dev_moves s (disk s) s'"
proof -
  have d: "dev_ok (sfs_device s)" "reliable (sfs_device s)" "b + 1 \<le> d_blocks (sfs_device s)"
    using assms(1,2) by (simp_all add: dev_good_def)
  obtain lh' where "lhd_io cs (sfs_device s) u = Some (Ok (), lh', uio_fill (disk s b) u)"
    "dev_ok lh'" "reliable lh'" "sectors lh' = disk s" "d_blocks lh' = d_blocks (sfs_device s)"
    using lhd_io_read [OF d assms(3), of cs] assms(4-6) by auto
  then show ?thesis by (simp add: sfs_rwblock_def rw_retry_ok dev_movesI)
qed

lemma sfs_rwblock_write:
  assumes "dev_good s" "b < d_blocks (sfs_device s)" "uio_rw u = UIO_WRITE" "uio_offset u = int b * 512"
    "uio_resid u = 512" "uio_ready cs u 512"
  shows "\<exists>s'. sfs_rwblock cs (s, u) = Some (Ok (), s', uio_advance 512 u)
           \<and> dev_moves s ((disk s)(b := uio_data u 512)) s'"
proof -
  have d: "dev_ok (sfs_device s)" "reliable (sfs_device s)" "b + 1 \<le> d_blocks (sfs_device s)"
    using assms(1,2) by (simp_all add: dev_good_def)
  obtain lh' where lh': "lhd_io cs (sfs_device s) u = Some (Ok (), lh', uio_advance 512 u)"
    "dev_ok lh'" "reliable lh'" "d_blocks lh' = d_blocks (sfs_device s)"
    "\<forall>x. sectors lh' x = (if b \<le> x \<and> x < b + 1 then bytes_at (iov_mem u) (iov_base u + 512 * (x - b)) 512 else disk s x)"
    using lhd_io_write [OF d assms(3), of cs] assms(4-6) by auto
  have "sectors lh' = (disk s)(b := uio_data u 512)"
  proof
    show "sectors lh' x = ((disk s)(b := uio_data u 512)) x" for x
      using lh'(5) by (cases "x = b") auto
  qed
  with lh' show ?thesis by (simp add: sfs_rwblock_def rw_retry_ok dev_movesI)
qed

lemma sfs_rblock_ok:
  assumes "dev_good s" "b < d_blocks (sfs_device s)"
  shows "\<exists>s'. sfs_rblock b s = Some (Ok (disk s b), s') \<and> dev_moves s (disk s) s'"
proof -
  let ?u = "mk_kuio (replicate 512 0) 512 (int b * 512) UIO_READ"
  have b: "b + 1 < 2 ^ 22" using assms dev_goodD(2) [of s] by simp
  have r: "uio_ready None ?u 512" using b by (intro block_uio_ready) simp_all
  obtain s' where s': "sfs_rwblock None (s, ?u) = Some (Ok (), s', uio_fill (disk s b) ?u)" "dev_moves s (disk s) s'"
    using sfs_rwblock_read [OF assms _ _ _ r] by (auto simp: mk_kuio_def)
  have r': "uio_ready None ?u (length (disk s b))" using r dev_goodD(1) [OF assms(1)] by simp
  have "bytes_at (iov_mem (uio_fill (disk s b) ?u)) 0 512 = disk s b"
    using uio_fill_simps(5) [OF r'] bytes_at_put [of _ 0 "disk s b"] dev_goodD(1) [OF assms(1)]
    by (simp add: mk_kuio_def)
  moreover have "s32 (int b * 512) = int b * 512" using b by simp
  ultimately show ?thesis using s' by (simp add: sfs_rblock_def)
qed

lemma sfs_wblock_ok:
  assumes "dev_good s" "b < d_blocks (sfs_device s)" "length data = 512"
  shows "\<exists>s'. sfs_wblock data b s = Some (Ok (), s') \<and> dev_moves s ((disk s)(b := data)) s'"
proof -
  let ?u = "mk_kuio data 512 (int b * 512) UIO_WRITE"
  have b: "b + 1 < 2 ^ 22" using assms dev_goodD(2) [of s] by simp
  have r: "uio_ready None ?u 512" using b assms(3) by (intro block_uio_ready) simp_all
  obtain s' where s': "sfs_rwblock None (s, ?u) = Some (Ok (), s', uio_advance 512 ?u)"
    "dev_moves s ((disk s)(b := uio_data ?u 512)) s'"
    using sfs_rwblock_write [OF assms(1,2) _ _ _ r] by (auto simp: mk_kuio_def)
  have "uio_data ?u 512 = data" using bytes_at_mem_of [of 0 512 data] assms(3) by (simp add: mk_kuio_def)
  moreover have "s32 (int b * 512) = int b * 512" using b by simp
  ultimately show ?thesis using s' by (simp add: sfs_wblock_def)
qed

subsection \<open>The blocks of a file\<close>

text \<open>
  The block map of an inode as one list of 143 block numbers (\<open>fmap\<close>), the blocks it uses
  (\<open>own\<close>: its own block, the indirect block and the data blocks), and the contents it gives a file,
  as a function of the offset; a block that is not mapped reads as zeros.
\<close>

definition id_words :: "(nat \<Rightarrow> byte list) \<Rightarrow> sfs_inode \<Rightarrow> nat list" where
  "id_words dk i = (if sfi_indirect i = 0 then replicate 128 0 else bytes_words (dk (sfi_indirect i)))"

definition fmap :: "(nat \<Rightarrow> byte list) \<Rightarrow> sfs_inode \<Rightarrow> nat list" where
  "fmap dk i = sfi_direct i @ id_words dk i"

definition slots :: "(nat \<Rightarrow> byte list) \<Rightarrow> sfs_inode \<Rightarrow> nat list" where
  "slots dk i = sfi_indirect i # fmap dk i"

definition own :: "(nat \<Rightarrow> byte list) \<Rightarrow> nat \<Rightarrow> sfs_inode \<Rightarrow> nat list" where
  "own dk a i = a # filter (\<lambda>b. b \<noteq> 0) (slots dk i)"

definition blk_byte :: "(nat \<Rightarrow> byte list) \<Rightarrow> nat \<Rightarrow> nat \<Rightarrow> byte" where
  "blk_byte dk b k = (if b = 0 then 0 else dk b ! k)"

definition content :: "(nat \<Rightarrow> byte list) \<Rightarrow> sfs_inode \<Rightarrow> nat \<Rightarrow> byte" where
  "content dk i k = (if k < 143 * 512 then blk_byte dk (fmap dk i ! (k div 512)) (k mod 512) else 0)"

definition inode_shape :: "(nat \<Rightarrow> byte list) \<Rightarrow> sfs_inode \<Rightarrow> bool" where
  "inode_shape dk i \<longleftrightarrow> inode_wf i \<and> (sfi_indirect i \<noteq> 0 \<longrightarrow> length (dk (sfi_indirect i)) = 512)"

lemma length_id_words: "inode_shape dk i \<Longrightarrow> length (id_words dk i) = 128"
  by (simp add: id_words_def inode_shape_def)

lemma length_fmap: "inode_shape dk i \<Longrightarrow> length (fmap dk i) = 143"
  by (simp add: fmap_def length_id_words) (simp add: inode_shape_def inode_wf_def)

lemma fmap_direct: "inode_shape dk i \<Longrightarrow> fb < 15 \<Longrightarrow> fmap dk i ! fb = sfi_direct i ! fb"
  by (simp add: fmap_def nth_append inode_shape_def inode_wf_def)

lemma fmap_indirect: "inode_shape dk i \<Longrightarrow> 15 \<le> fb \<Longrightarrow> fmap dk i ! fb = id_words dk i ! (fb - 15)"
  by (simp add: fmap_def nth_append inode_shape_def inode_wf_def)

lemma own_set: "set (own dk a i) = insert a (set (slots dk i) - {0})"
  by (auto simp: own_def)

lemma fmap_own: "inode_shape dk i \<Longrightarrow> fb < 143 \<Longrightarrow> fmap dk i ! fb \<noteq> 0 \<Longrightarrow> fmap dk i ! fb \<in> set (own dk a i)"
  using length_fmap [of dk i] by (auto simp: own_set slots_def)

lemma filter_nz_split:
  assumes "k < length xs" "xs ! k = (0::nat)"
  shows "filter (\<lambda>b. b \<noteq> 0) xs = filter (\<lambda>b. b \<noteq> 0) (take k xs) @ filter (\<lambda>b. b \<noteq> 0) (drop (Suc k) xs)"
  using id_take_nth_drop [OF assms(1)] assms(2)
  by (metis (mono_tags, lifting) filter.simps(2) filter_append)

text \<open>Filling one free slot adds exactly the new block to the blocks of the file.\<close>

lemma own_fill:
  assumes "slots dk' i' = (slots dk i)[k := b]" "k < length (slots dk i)" "slots dk i ! k = 0"
    "b \<noteq> 0" "b \<notin> set (own dk a i)" "distinct (own dk a i)"
  shows "set (own dk' a i') = insert b (set (own dk a i))" "distinct (own dk' a i')"
proof -
  let ?f = "filter (\<lambda>b. b \<noteq> (0::nat))" and ?xs = "slots dk i"
  have 1: "?f ?xs = ?f (take k ?xs) @ ?f (drop (Suc k) ?xs)" using assms(2,3) by (rule filter_nz_split)
  have 2: "?f (slots dk' i') = ?f (take k ?xs) @ b # ?f (drop (Suc k) ?xs)"
    using assms(1,2,4) by (simp add: upd_conv_take_nth_drop)
  have "own dk a i = a # ?f (take k ?xs) @ ?f (drop (Suc k) ?xs)" using 1 by (simp only: own_def)
  moreover have "own dk' a i' = a # ?f (take k ?xs) @ b # ?f (drop (Suc k) ?xs)" using 2 by (simp only: own_def)
  ultimately show "set (own dk' a i') = insert b (set (own dk a i))" "distinct (own dk' a i')"
    using assms(5,6) by auto
qed

lemma own_cong:
  assumes "\<forall>b \<in> set (own dk a i). dk' b = dk b" "inode_shape dk i"
  shows "slots dk' i = slots dk i" "own dk' a i = own dk a i" "fmap dk' i = fmap dk i" "inode_shape dk' i"
    "content dk' i = content dk i"
proof -
  have id: "sfi_indirect i = 0 \<or> dk' (sfi_indirect i) = dk (sfi_indirect i)"
    using assms(1) by (auto simp: own_set slots_def)
  then show fm: "fmap dk' i = fmap dk i" and sh: "inode_shape dk' i"
    using assms(2) by (auto simp: fmap_def id_words_def inode_shape_def)
  then show "slots dk' i = slots dk i" "own dk' a i = own dk a i"
    by (simp_all add: slots_def own_def)
  show "content dk' i = content dk i"
  proof
    fix k
    show "content dk' i k = content dk i k"
      using fm assms(1) fmap_own [OF assms(2), of "k div 512" a]
      by (auto simp: content_def blk_byte_def less_mult_imp_div_less)
  qed
qed

lemma content_alloc:
  assumes "inode_shape dk i" "fmap dk' i' = (fmap dk i)[fb := b]" "fb < 143" "fmap dk i ! fb = 0"
    "dk' b = replicate 512 0" "\<forall>x \<in> set (fmap dk i) - {0}. dk' x = dk x"
  shows "content dk' i' = content dk i"
proof
  fix k
  have l: "length (fmap dk i) = 143" using assms(1) by (rule length_fmap)
  show "content dk' i' k = content dk i k"
  proof (cases "k < 143 * 512")
    case True
    then have k: "k div 512 < 143" by (simp add: less_mult_imp_div_less)
    then have "fmap dk i ! (k div 512) \<in> set (fmap dk i)" using l by simp
    with assms l k show ?thesis by (auto simp: content_def blk_byte_def nth_list_update)
  qed (simp add: content_def)
qed

text \<open>Overwriting a part of a file.\<close>

definition overlay :: "(nat \<Rightarrow> byte) \<Rightarrow> nat \<Rightarrow> byte list \<Rightarrow> nat \<Rightarrow> byte" where
  "overlay f off bs = (\<lambda>k. if off \<le> k \<and> k < off + length bs then bs ! (k - off) else f k)"

lemma overlay_Nil [simp]: "overlay f off [] = f"
  by (rule ext) (auto simp: overlay_def)

lemma overlay_append: "overlay (overlay f off xs) (off + length xs) ys = overlay f off (xs @ ys)"
  by (rule ext) (auto simp: overlay_def nth_append)

lemma distinct_filter_nth:
  "distinct (filter P xs) \<Longrightarrow> i < length xs \<Longrightarrow> j < length xs \<Longrightarrow> xs ! i = xs ! j \<Longrightarrow> P (xs ! i) \<Longrightarrow> i = j"
proof (induction xs arbitrary: i j)
  case (Cons x xs)
  then show ?case by (cases i; cases j) (auto split: if_splits)
qed simp

lemma content_write:
  assumes "inode_shape dk i" "distinct (own dk a i)" "fb < 143" "fmap dk i ! fb = b" "b \<noteq> 0" "b \<noteq> sfi_indirect i"
    "length (dk b) = 512" "skip + length data \<le> 512"
  shows "content (dk(b := take skip (dk b) @ data @ drop (skip + length data) (dk b))) i
       = overlay (content dk i) (fb * 512 + skip) data"
proof
  fix k
  let ?d = "take skip (dk b) @ data @ drop (skip + length data) (dk b)"
  let ?dk = "dk(b := ?d)"
  have fm: "fmap ?dk i = fmap dk i" using assms(6) by (simp add: fmap_def id_words_def)
  have l: "length (fmap dk i) = 143" using assms(1) by (rule length_fmap)
  show "content ?dk i k = overlay (content dk i) (fb * 512 + skip) data k"
  proof (cases "k < 143 * 512")
    case True
    then have k: "k div 512 < 143" by (simp add: less_mult_imp_div_less)
    show ?thesis
    proof (cases "k div 512 = fb")
      case same: True
      define m where "m = k mod 512"
      have m: "k = fb * 512 + m" "m < 512" using div_mult_mod_eq [of k 512] same by (simp_all add: m_def)
      have "?d ! m = (if skip \<le> m \<and> m < skip + length data then data ! (m - skip) else dk b ! m)"
        using assms(7,8) by (auto simp: nth_append)
      then have "content ?dk i k = (if skip \<le> m \<and> m < skip + length data then data ! (m - skip) else dk b ! m)"
        using True assms(4,5) fm same by (simp add: content_def blk_byte_def m_def)
      moreover have "content dk i k = dk b ! m"
        using True assms(4,5) same by (simp add: content_def blk_byte_def m_def)
      ultimately show ?thesis using m(1) by (simp add: overlay_def)
    next
      case False
      have dst: "distinct (filter (\<lambda>b. b \<noteq> 0) (fmap dk i))" using assms(2)
        by (simp add: own_def slots_def split: if_splits)
      have "fmap dk i ! (k div 512) \<noteq> b"
        using distinct_filter_nth [OF dst, of fb "k div 512"] assms(3-5) False k l by auto
      moreover have "\<not> (fb * 512 + skip \<le> k \<and> k < fb * 512 + skip + length data)"
      proof
        assume h: "fb * 512 + skip \<le> k \<and> k < fb * 512 + skip + length data"
        then have "fb * 512 \<le> k" "k < Suc fb * 512" using assms(8) by auto
        then have "k div 512 = fb" by (simp add: div_nat_eqI)
        with False show False by simp
      qed
      ultimately show ?thesis using fm True by (auto simp: content_def blk_byte_def overlay_def)
    qed
  next
    case False
    moreover have "fb * 512 + skip + length data \<le> 143 * 512" using assms(3,8) by linarith
    ultimately show ?thesis by (simp add: content_def overlay_def)
  qed
qed

end
