(* ===== verification/SfsAlloc.thy ===== *)
theory SfsAlloc
  imports Sfs
begin

section \<open>SFS space allocation and block mapping\<close>

text \<open>
  The space invariant of a mounted file system (\<open>space_ok\<close>), the invariant of an open file
  (\<open>file_ok\<close>), and the relation \<open>vstep\<close> between the states before and after an operation on a file:
  the blocks of everything else keep their contents and stay allocated, and the file owns none of
  them. \<^verbatim>\<open>sfs_bmap\<close> finds the block of an offset and allocates it when asked, without changing what
  the file contains. At the end the transfer of a part of a block (\<^verbatim>\<open>sfs_partialio\<close>).
\<close>

abbreviation used :: "sfs_fs \<Rightarrow> nat set" where
  "used s \<equiv> marked (sfs_freemap s)"

abbreviation nblk :: "sfs_fs \<Rightarrow> nat" where
  "nblk s \<equiv> sp_nblocks (sfs_super s)"

text \<open>The superblock and the blocks of the free map.\<close>

definition sysblocks :: "sfs_fs \<Rightarrow> nat set" where
  "sysblocks s = insert 0 {2..<2 + SFS_BITBLOCKS (nblk s)}"

definition space_ok :: "sfs_fs \<Rightarrow> bool" where
  "space_ok s \<longleftrightarrow> dev_good s \<and> bitmap_ok (sfs_freemap s) \<and> nblk s \<le> bm_nbits (sfs_freemap s)
     \<and> nblk s \<le> d_blocks (sfs_device s) \<and> {nblk s..<bm_nbits (sfs_freemap s)} \<subseteq> used s
     \<and> sysblocks s \<subseteq> used s"

subsection \<open>State changes\<close>

definition fs_moves ::
  "sfs_fs \<Rightarrow> (nat \<Rightarrow> byte list) \<Rightarrow> nat set \<Rightarrow> (nat \<Rightarrow> sfs_vnode option) \<Rightarrow> sfs_fs \<Rightarrow> bool" where
  "fs_moves s dk M P s' \<longleftrightarrow> sfs_super s' = sfs_super s \<and> sfs_superdirty s' = sfs_superdirty s
     \<and> sfs_vnodes s' = sfs_vnodes s \<and> disk s' = dk \<and> used s' = M \<and> sfs_pool s' = P
     \<and> dev_good s' \<and> bitmap_ok (sfs_freemap s') \<and> bm_nbits (sfs_freemap s') = bm_nbits (sfs_freemap s)
     \<and> d_blocks (sfs_device s') = d_blocks (sfs_device s)
     \<and> (sfs_freemap s' = sfs_freemap s \<and> sfs_freemapdirty s' = sfs_freemapdirty s \<or> sfs_freemapdirty s')"

lemma fs_moves_dev:
  assumes "space_ok s" "dev_moves s dk s'"
  shows "fs_moves s dk (used s) (sfs_pool s) s'"
  using assms dev_moves_fields [OF assms(2)] by (simp add: fs_moves_def space_ok_def)

lemma fs_moves_trans: "fs_moves s dk M P s1 \<Longrightarrow> fs_moves s1 dk' M' P' s2 \<Longrightarrow> fs_moves s dk' M' P' s2"
  by (auto simp: fs_moves_def)

lemma fs_moves_refl: "space_ok s \<Longrightarrow> fs_moves s (disk s) (used s) (sfs_pool s) s"
  by (simp add: fs_moves_def space_ok_def)

lemma fs_movesD:
  assumes "fs_moves s dk M P s'"
  shows "disk s' = dk" "used s' = M" "sfs_pool s' = P" "sfs_super s' = sfs_super s"
    "sfs_vnodes s' = sfs_vnodes s" "sysblocks s' = sysblocks s" "dev_good s'"
    "d_blocks (sfs_device s') = d_blocks (sfs_device s)"
  using assms by (simp_all add: fs_moves_def sysblocks_def)

lemma fs_moves_space:
  assumes "space_ok s" "fs_moves s dk M P s'" "used s \<subseteq> M"
  shows "space_ok s'"
  using assms fs_movesD(6) [OF assms(2)] by (auto simp: space_ok_def fs_moves_def)

lemma fs_moves_pool:
  "fs_moves s dk M P s' \<Longrightarrow> fs_moves s dk M P' (s'\<lparr>sfs_pool := P'\<rparr>)"
  by (simp add: fs_moves_def dev_good_def)

subsection \<open>Allocation\<close>

lemma zero_used: "space_ok s \<Longrightarrow> 0 \<in> used s"
  by (auto simp: space_ok_def sysblocks_def)

lemma sfs_balloc_cases:
  assumes "space_ok s"
  shows "sfs_balloc s = Some (Err ENOSPC, s) \<and> {..<nblk s} \<subseteq> used s
    \<or> (\<exists>b s'. sfs_balloc s = Some (Ok b, s') \<and> b \<notin> used s \<and> b < nblk s \<and> b \<noteq> 0
         \<and> fs_moves s ((disk s)(b := replicate 512 0)) (insert b (used s)) (sfs_pool s) s')"
proof -
  have bm: "bitmap_ok (sfs_freemap s)" using assms by (simp add: space_ok_def)
  from bm.alloc_cases [OF bm] show ?thesis
  proof (elim disjE exE conjE)
    fix b bmp
    assume a: "bitmap_alloc (sfs_freemap s) = Some (Ok b, bmp)" "b < bm_nbits (sfs_freemap s)" "b \<notin> used s"
      "bitmap_ok bmp" "bm_nbits bmp = bm_nbits (sfs_freemap s)" "marked bmp = insert b (used s)"
    have b: "b < nblk s" "b \<noteq> 0"
    proof -
      have "{nblk s..<bm_nbits (sfs_freemap s)} \<subseteq> used s" using assms by (simp add: space_ok_def)
      then show "b < nblk s" using a(2,3) by (meson atLeastLessThan_iff not_le subsetD)
      show "b \<noteq> 0" using a(3) zero_used [OF assms] by metis
    qed
    let ?s = "s\<lparr>sfs_freemap := bmp, sfs_freemapdirty := True\<rparr>"
    have "dev_good ?s" "b < d_blocks (sfs_device ?s)" using assms b by (simp_all add: space_ok_def dev_good_def)
    then obtain s' where s': "sfs_wblock (replicate 512 0) b ?s = Some (Ok (), s')"
      "dev_moves ?s ((disk ?s)(b := replicate 512 0)) s'"
      using sfs_wblock_ok [of ?s b "replicate 512 0"] by auto
    have "sfs_balloc s = Some (Ok b, s')" using a(1) b s'(1) by (simp add: sfs_balloc_def sfs_clearblock_def)
    moreover have "fs_moves s ((disk s)(b := replicate 512 0)) (insert b (used s)) (sfs_pool s) s'"
      using dev_moves_fields [OF s'(2)] a by (simp add: fs_moves_def)
    ultimately show ?thesis using a(3) b by blast
  next
    assume a: "bitmap_alloc (sfs_freemap s) = Some (Err ENOSPC, sfs_freemap s)"
      "used s = {..<bm_nbits (sfs_freemap s)}"
    then have "sfs_balloc s = Some (Err ENOSPC, s)" by (simp add: sfs_balloc_def)
    then show ?thesis using a(2) assms by (auto simp: space_ok_def)
  qed
qed

lemma sfs_bused_ok: "space_ok s \<Longrightarrow> b < nblk s \<Longrightarrow> sfs_bused b s = Some (b \<in> used s)"
  using bitmap_isset_iff [of "sfs_freemap s" b] by (auto simp: sfs_bused_def space_ok_def)

lemma bmap_result_ok:
  "space_ok s \<Longrightarrow> b = 0 \<or> b \<in> used s \<and> b < nblk s \<Longrightarrow> bmap_result b s = Some (Ok b, s)"
  by (auto simp: bmap_result_def sfs_bused_ok)

subsection \<open>Files and steps on a file\<close>

abbreviation fi :: "sfs_fs \<Rightarrow> nat \<Rightarrow> sfs_inode" where
  "fi s v \<equiv> sv_i (the (sfs_pool s v))"

abbreviation fino :: "sfs_fs \<Rightarrow> nat \<Rightarrow> nat" where
  "fino s v \<equiv> sv_ino (the (sfs_pool s v))"

abbreviation fown :: "sfs_fs \<Rightarrow> nat \<Rightarrow> nat list" where
  "fown s v \<equiv> own (disk s) (fino s v) (fi s v)"

abbreviation fblocks :: "sfs_fs \<Rightarrow> nat \<Rightarrow> nat list" where
  "fblocks s v \<equiv> fmap (disk s) (fi s v)"

abbreviation fbytes :: "sfs_fs \<Rightarrow> nat \<Rightarrow> nat \<Rightarrow> byte" where
  "fbytes s v \<equiv> content (disk s) (fi s v)"

abbreviation fsize :: "sfs_fs \<Rightarrow> nat \<Rightarrow> nat" where
  "fsize s v \<equiv> sfi_size (fi s v)"

definition file_ok :: "sfs_fs \<Rightarrow> nat \<Rightarrow> bool" where
  "file_ok s v \<longleftrightarrow> sfs_pool s v \<noteq> None \<and> inode_wf (fi s v) \<and> distinct (fown s v)
     \<and> set (fown s v) \<subseteq> used s \<inter> {..<nblk s} - sysblocks s"

definition same_vnode :: "sfs_vnode \<Rightarrow> sfs_vnode \<Rightarrow> bool" where
  "same_vnode sv sv' \<longleftrightarrow> sv_ino sv' = sv_ino sv \<and> sv_v sv' = sv_v sv \<and> (sv' = sv \<or> sv_dirty sv')
     \<and> sfi_type (sv_i sv') = sfi_type (sv_i sv) \<and> sfi_linkcount (sv_i sv') = sfi_linkcount (sv_i sv)"

definition vstep :: "nat \<Rightarrow> sfs_fs \<Rightarrow> sfs_fs \<Rightarrow> bool" where
  "vstep v s s' \<longleftrightarrow> space_ok s' \<and> file_ok s' v
     \<and> same_vnode (the (sfs_pool s v)) (the (sfs_pool s' v)) \<and> (\<forall>w. w \<noteq> v \<longrightarrow> sfs_pool s' w = sfs_pool s w)
     \<and> fs_moves s (disk s') (used s') (sfs_pool s') s'
     \<and> used s' = (used s - set (fown s v)) \<union> set (fown s' v)
     \<and> (\<forall>b \<in> used s - set (fown s v). disk s' b = disk s b \<and> b \<notin> set (fown s' v))
     \<and> disk s' (fino s v) = disk s (fino s v)"

lemma vstep_refl: "space_ok s \<Longrightarrow> file_ok s v \<Longrightarrow> vstep v s s"
  by (auto simp: vstep_def fs_moves_refl same_vnode_def file_ok_def)

lemma same_vnode_trans: "same_vnode a b \<Longrightarrow> same_vnode b c \<Longrightarrow> same_vnode a c"
  by (auto simp: same_vnode_def)

lemma vstep_trans:
  assumes "vstep v s s1" "vstep v s1 s2"
  shows "vstep v s s2"
proof -
  have "fs_moves s (disk s2) (used s2) (sfs_pool s2) s2"
    using assms fs_moves_trans unfolding vstep_def by blast
  moreover have "\<forall>b \<in> used s - set (fown s v). disk s2 b = disk s b \<and> b \<notin> set (fown s2 v)"
    using assms unfolding vstep_def by fastforce
  moreover have "used s2 = (used s - set (fown s v)) \<union> set (fown s2 v)"
    using assms unfolding vstep_def by fastforce
  moreover have "same_vnode (the (sfs_pool s v)) (the (sfs_pool s2 v))"
    using assms same_vnode_trans unfolding vstep_def by blast
  moreover have "fino s1 v = fino s v" "disk s1 (fino s v) = disk s (fino s v)" "disk s2 (fino s1 v) = disk s1 (fino s1 v)"
    using assms by (simp_all add: vstep_def same_vnode_def)
  ultimately show ?thesis using assms unfolding vstep_def by simp
qed

lemma vstep_fields:
  assumes "vstep v s s'"
  shows "space_ok s'" "file_ok s' v" "sfs_super s' = sfs_super s" "sfs_vnodes s' = sfs_vnodes s"
    "sysblocks s' = sysblocks s" "fino s' v = fino s v" "w \<noteq> v \<Longrightarrow> sfs_pool s' w = sfs_pool s w"
    "sfs_pool s' v \<noteq> None" "d_blocks (sfs_device s') = d_blocks (sfs_device s)"
  using assms by (auto simp: vstep_def file_ok_def same_vnode_def dest: fs_movesD)

lemma file_shape: "space_ok s \<Longrightarrow> file_ok s v \<Longrightarrow> inode_shape (disk s) (fi s v)"
  by (simp add: inode_shape_def file_ok_def dev_goodD space_ok_def)

lemma fblocks_used:
  assumes "space_ok s" "file_ok s v" "fb < 143" "fblocks s v ! fb \<noteq> 0"
  shows "fblocks s v ! fb \<in> used s" "fblocks s v ! fb < nblk s" "fblocks s v ! fb \<in> set (fown s v)"
    "fblocks s v ! fb \<noteq> fino s v" "fblocks s v ! fb \<noteq> sfi_indirect (fi s v)"
proof -
  have sh: "inode_shape (disk s) (fi s v)" using assms(1,2) by (rule file_shape)
  show o: "fblocks s v ! fb \<in> set (fown s v)" using fmap_own [OF sh assms(3,4)] .
  then show "fblocks s v ! fb \<in> used s" "fblocks s v ! fb < nblk s"
    using assms(2) by (auto simp: file_ok_def)
  have m: "fblocks s v ! fb \<in> set (filter (\<lambda>b. b \<noteq> 0) (fblocks s v))"
    using assms(3,4) length_fmap [OF sh] by simp
  have "distinct (fown s v)" using assms(2) by (simp add: file_ok_def)
  with m show "fblocks s v ! fb \<noteq> fino s v" "fblocks s v ! fb \<noteq> sfi_indirect (fi s v)"
    by (auto simp: own_def slots_def split: if_splits)
qed

lemma bmap_result_file:
  assumes "space_ok s" "file_ok s v" "fb < 143"
  shows "bmap_result (fblocks s v ! fb) s = Some (Ok (fblocks s v ! fb), s)"
  using fblocks_used(1,2) [OF assms] assms(1) by (intro bmap_result_ok) auto

lemma dev_moves_file:
  assumes "space_ok s" "file_ok s v" "dev_moves s (disk s) s'"
  shows "vstep v s s'" "fbytes s' v = fbytes s v" "fi s' v = fi s v" "fblocks s' v = fblocks s v"
    "space_ok s'" "file_ok s' v"
proof -
  note f = dev_moves_fields [OF assms(3)]
  have m: "fs_moves s (disk s) (used s) (sfs_pool s) s'" using assms(1,3) by (rule fs_moves_dev)
  show sp: "space_ok s'" using fs_moves_space [OF assms(1) m] by simp
  show fo: "file_ok s' v" using assms(2) f by (simp add: file_ok_def sysblocks_def)
  show "fbytes s' v = fbytes s v" "fi s' v = fi s v" "fblocks s' v = fblocks s v" using f by simp_all
  obtain sv where "sfs_pool s v = Some sv" using assms(2) by (auto simp: file_ok_def)
  then show "vstep v s s'" using sp fo m f assms(2) by (auto simp: vstep_def same_vnode_def file_ok_def)
qed

subsection \<open>Looking up a block\<close>

lemma fblocks_id:
  assumes "space_ok s" "file_ok s v" "sfi_indirect (fi s v) \<noteq> 0"
  shows "sfi_indirect (fi s v) < nblk s" "sfi_indirect (fi s v) < d_blocks (sfs_device s)"
    "sfi_indirect (fi s v) \<in> set (fown s v)"
proof -
  show "sfi_indirect (fi s v) \<in> set (fown s v)" using assms(3) by (simp add: own_def slots_def)
  then show "sfi_indirect (fi s v) < nblk s" "sfi_indirect (fi s v) < d_blocks (sfs_device s)"
    using assms(1,2) by (auto simp: file_ok_def space_ok_def)
qed

lemma sfs_bmap_lookup:
  assumes "space_ok s" "file_ok s v" "fb < 143" "fblocks s v ! fb \<noteq> 0 \<or> \<not> doalloc"
  shows "\<exists>s'. sfs_bmap v fb doalloc s = Some (Ok (fblocks s v ! fb), s') \<and> dev_moves s (disk s) s'"
proof -
  have sh: "inode_shape (disk s) (fi s v)" using assms(1,2) by (rule file_shape)
  have g: "dev_good s" using assms(1) by (simp add: space_ok_def)
  obtain sv where sv: "sfs_pool s v = Some sv" using assms(2) by (auto simp: file_ok_def)
  show ?thesis
  proof (cases "fb < 15")
    case True
    have "length (sfi_direct (sv_i sv)) = 15" using sh sv by (simp add: inode_shape_def inode_wf_def)
    then have "sfs_bmap v fb doalloc s = bmap_result (fblocks s v ! fb) s"
      using True assms(4) sv fmap_direct [OF sh True] by (auto simp: sfs_bmap_def bmap_direct_def)
    then show ?thesis using bmap_result_file [OF assms(1-3)] dev_moves_refl [OF g] by simp
  next
    case False
    then have idx: "(fb - 15) div 128 = 0" "(fb - 15) mod 128 = fb - 15" using assms(3) by auto
    have fm: "fblocks s v ! fb = id_words (disk s) (sv_i sv) ! (fb - 15)"
      using fmap_indirect [OF sh] False sv by simp
    show ?thesis
    proof (cases "sfi_indirect (sv_i sv) = 0")
      case True
      then have z: "fblocks s v ! fb = 0" using fm assms(3) False by (simp add: id_words_def)
      then show ?thesis using True False assms(4) sv idx dev_moves_refl [OF g]
        by (auto simp: sfs_bmap_def)
    next
      case nz: False
      have d: "sfi_indirect (sv_i sv) < d_blocks (sfs_device s)"
        using fblocks_id(2) [OF assms(1,2)] nz sv by simp
      obtain s' where s': "sfs_rblock (sfi_indirect (sv_i sv)) s = Some (Ok (disk s (sfi_indirect (sv_i sv))), s')"
        "dev_moves s (disk s) s'" using sfs_rblock_ok [OF g d] by blast
      note st = dev_moves_file [OF assms(1,2) s'(2)]
      have id: "id_words (disk s) (sv_i sv) = bytes_words (disk s (sfi_indirect (sv_i sv)))"
        using nz by (simp add: id_words_def)
      have n: "nth_run (bytes_words (disk s (sfi_indirect (sv_i sv)))) (fb - 15) = Some (fblocks s v ! fb)"
        using fm id dev_goodD(1) [OF g] assms(3) False by simp
      have "bmap_idblock v s = Some (Ok (sfi_indirect (sv_i sv), bytes_words (disk s (sfi_indirect (sv_i sv)))), s')"
        using nz sv s'(1) by (simp add: bmap_idblock_def Let_def)
      then have "sfs_bmap v fb doalloc s = bmap_result (fblocks s v ! fb) s'"
        using False nz sv idx n assms(4) by (auto simp: sfs_bmap_def)
      then show ?thesis using bmap_result_file [OF st(5,6) assms(3)] st(4) s'(2) by auto
    qed
  qed
qed

lemma sfs_bmap_toobig:
  assumes "sfs_pool s v \<noteq> None" "143 \<le> fb"
  shows "sfs_bmap v fb doalloc s = Some (Err EINVAL, s)"
proof -
  have "(fb - 15) div 128 > 0" using assms(2) by (simp add: div_greater_zero_iff)
  then show ?thesis using assms by (auto simp: sfs_bmap_def)
qed

subsection \<open>Allocating a block of a file\<close>

text \<open>The file afterwards has the same contents and size.\<close>

definition same_data :: "nat \<Rightarrow> sfs_fs \<Rightarrow> sfs_fs \<Rightarrow> bool" where
  "same_data v s s' \<longleftrightarrow> fbytes s' v = fbytes s v \<and> fsize s' v = fsize s v"

lemma same_data_trans: "same_data v s s1 \<Longrightarrow> same_data v s1 s2 \<Longrightarrow> same_data v s s2"
  by (simp add: same_data_def)

lemma same_data_refl [simp]: "same_data v s s"
  by (simp add: same_data_def)

lemma vstep_fill:
  assumes s: "space_ok s" "file_ok s v" "sfs_pool s v = Some sv"
    and b: "b \<notin> used s" "b < nblk s" "b \<noteq> 0"
    and m: "fs_moves s dk (insert b (used s)) ((sfs_pool s)(v \<mapsto> sv')) s'"
    and sv': "same_vnode sv sv'" "inode_wf (sv_i sv')"
    and k: "slots dk (sv_i sv') = (slots (disk s) (sv_i sv))[k := b]" "k < length (slots (disk s) (sv_i sv))"
      "slots (disk s) (sv_i sv) ! k = 0"
    and dk: "\<forall>x. x \<notin> insert b (set (fown s v) - {fino s v}) \<longrightarrow> dk x = disk s x"
  shows "vstep v s s'"
proof -
  note f = fs_movesD [OF m]
  have p: "the (sfs_pool s' v) = sv'" using f(3) by simp
  have bo: "b \<notin> set (own (disk s) (sv_ino sv) (sv_i sv))"
    using s(2,3) b(1) by (auto simp: file_ok_def)
  have d: "distinct (own (disk s) (sv_ino sv) (sv_i sv))" using s(2,3) by (simp add: file_ok_def)
  note o = own_fill [OF k b(3) bo d]
  have ino: "sv_ino sv' = sv_ino sv" using sv'(1) by (simp add: same_vnode_def)
  have own': "set (fown s' v) = insert b (set (fown s v))" "distinct (fown s' v)"
    using o p f(1) s(3) ino by simp_all
  have bs: "b \<notin> sysblocks s" using s(1) b(1) by (auto simp: space_ok_def)
  have fo: "file_ok s' v"
    using s(2) own' sv'(2) p f b bs by (auto simp: file_ok_def)
  have sp: "space_ok s'" using fs_moves_space [OF s(1) m] by blast
  have m': "fs_moves s (disk s') (used s') (sfs_pool s') s'" using m f by simp
  have k1: "\<forall>x \<in> used s - set (fown s v). disk s' x = disk s x \<and> x \<notin> set (fown s' v)"
    using dk own'(1) f(1,2) b(1) by auto
  have "used s' = (used s - set (fown s v)) \<union> set (fown s' v)"
    using own'(1) f(2) s(2) by (auto simp: file_ok_def)
  moreover have "disk s' (fino s v) = disk s (fino s v)" using dk bo s(3) f(1) by (simp add: own_def)
  ultimately show ?thesis using k1 fo sp m' p sv'(1) s(3) f(3) unfolding vstep_def by simp
qed

lemma inode_wf_direct:
  "inode_wf i \<Longrightarrow> b < 2 ^ 32 \<Longrightarrow> inode_wf (i\<lparr>sfi_direct := (sfi_direct i)[fb := b]\<rparr>)"
  using set_update_subset_insert [of "sfi_direct i" fb b] by (auto simp: inode_wf_def)

lemma inode_wf_indirect: "inode_wf i \<Longrightarrow> b < 2 ^ 32 \<Longrightarrow> inode_wf (i\<lparr>sfi_indirect := b\<rparr>)"
  by (simp add: inode_wf_def)

lemma nblk_less: "space_ok s \<Longrightarrow> b < nblk s \<Longrightarrow> b < 2 ^ 22" "space_ok s \<Longrightarrow> b < nblk s \<Longrightarrow> b < 2 ^ 32"
  using dev_goodD(2) [of s] by (auto simp: space_ok_def)

abbreviation full :: "sfs_fs \<Rightarrow> bool" where
  "full s \<equiv> {..<nblk s} \<subseteq> used s"

definition alloc_result :: "nat \<Rightarrow> nat \<Rightarrow> sfs_fs \<Rightarrow> (nat res \<times> sfs_fs) run \<Rightarrow> bool" where
  "alloc_result v fb s m \<longleftrightarrow>
     (\<exists>s'. m = Some (Err ENOSPC, s') \<and> full s' \<and> vstep v s s' \<and> same_data v s s' \<and> fblocks s v ! fb = 0)
   \<or> (\<exists>s'. m = Some (Ok (fblocks s' v ! fb), s') \<and> fblocks s' v ! fb \<noteq> 0 \<and> vstep v s s' \<and> same_data v s s')"

lemma edit_inode_eq:
  "sfs_pool s v = Some sv \<Longrightarrow>
   edit_inode v f s = Some (s\<lparr>sfs_pool := (sfs_pool s)(v \<mapsto> sv\<lparr>sv_i := f (sv_i sv), sv_dirty := True\<rparr>)\<rparr>)"
  by (simp add: edit_inode_def set_vnode_def)

lemma bmap_direct_alloc:
  assumes "space_ok s" "file_ok s v" "fb < 15" "fblocks s v ! fb = 0"
  shows "alloc_result v fb s (bmap_direct v fb True s)"
proof -
  have sh: "inode_shape (disk s) (fi s v)" using assms(1,2) by (rule file_shape)
  obtain sv where sv: "sfs_pool s v = Some sv" using assms(2) by (auto simp: file_ok_def)
  have wf: "inode_wf (sv_i sv)" using sh sv by (simp add: inode_shape_def)
  then have len: "length (sfi_direct (sv_i sv)) = 15" by (simp add: inode_wf_def)
  have z: "sfi_direct (sv_i sv) ! fb = 0" using assms(3,4) fmap_direct [OF sh assms(3)] sv by simp
  from sfs_balloc_cases [OF assms(1)] show ?thesis
  proof (elim disjE exE conjE)
    assume "sfs_balloc s = Some (Err ENOSPC, s)" "full s"
    then have "bmap_direct v fb True s = Some (Err ENOSPC, s)"
      using sv len assms(3) z by (simp add: bmap_direct_def)
    then show ?thesis using vstep_refl [OF assms(1,2)] \<open>full s\<close> assms(4) by (auto simp: alloc_result_def)
  next
    fix b s1
    assume b: "sfs_balloc s = Some (Ok b, s1)" "b \<notin> used s" "b < nblk s" "b \<noteq> 0"
      and m: "fs_moves s ((disk s)(b := replicate 512 0)) (insert b (used s)) (sfs_pool s) s1"
    note f = fs_movesD [OF m]
    let ?i = "sv_i sv\<lparr>sfi_direct := (sfi_direct (sv_i sv))[fb := b]\<rparr>"
    let ?sv = "sv\<lparr>sv_i := ?i, sv_dirty := True\<rparr>"
    let ?s = "s1\<lparr>sfs_pool := (sfs_pool s)(v \<mapsto> ?sv)\<rparr>"
    let ?dk = "(disk s)(b := replicate 512 0)"
    have bo: "b \<notin> set (fown s v)" using assms(2) b(2) by (auto simp: file_ok_def)
    have m': "fs_moves s ?dk (insert b (used s)) ((sfs_pool s)(v \<mapsto> ?sv)) ?s" using m by (rule fs_moves_pool)
    have fm: "fmap ?dk ?i = (fmap (disk s) (sv_i sv))[fb := b]"
      using bo sv assms(3) len by (auto simp: fmap_def id_words_def own_set slots_def list_update_append)
    then have sl: "slots ?dk ?i = (slots (disk s) (sv_i sv))[Suc fb := b]" by (simp add: slots_def)
    have lf: "length (fmap (disk s) (sv_i sv)) = 143" using length_fmap [OF sh] sv by simp
    have zf: "fmap (disk s) (sv_i sv) ! fb = 0" using assms(4) sv by simp
    have st: "vstep v s ?s"
    proof (rule vstep_fill [OF assms(1,2) sv b(2,3,4) m'])
      show "slots ?dk (sv_i ?sv) = (slots (disk s) (sv_i sv))[Suc fb := b]" using sl by simp
      show "same_vnode sv ?sv" by (simp add: same_vnode_def)
      show "inode_wf (sv_i ?sv)" using inode_wf_direct [OF wf] nblk_less(2) [OF assms(1) b(3)] by simp
      show "Suc fb < length (slots (disk s) (sv_i sv))" using lf assms(3) by (simp add: slots_def)
      show "slots (disk s) (sv_i sv) ! Suc fb = 0" using zf by (simp add: slots_def)
    qed simp
    have d: "disk ?s = ?dk" using f(1) by simp
    have bl: "fblocks ?s v ! fb = b" using d fm lf assms(3) by simp
    have "content ?dk ?i = content (disk s) (sv_i sv)"
      using sh sv fm assms(3) zf bo
      by (intro content_alloc [where fb = fb and b = b]) (auto simp: own_set slots_def)
    then have sd: "same_data v s ?s" using d sv by (simp add: same_data_def)
    have "edit_inode v (\<lambda>i. i\<lparr>sfi_direct := (sfi_direct i)[fb := b]\<rparr>) s1 = Some ?s"
      using edit_inode_eq [of s1 v sv] f(3) sv by simp
    moreover have "bmap_result b ?s = Some (Ok b, ?s)"
      using bmap_result_file [OF vstep_fields(1,2) [OF st], of fb] bl assms(3) by simp
    ultimately have "bmap_direct v fb True s = Some (Ok b, ?s)"
      using sv len assms(3) z b(1) by (simp add: bmap_direct_def)
    then show ?thesis using st sd bl b(4) unfolding alloc_result_def by metis
  qed
qed

lemma bmap_idblock_cases:
  assumes "space_ok s" "file_ok s v"
  shows "bmap_idblock v s = Some (Err ENOSPC, s) \<and> full s
    \<or> (\<exists>s'. bmap_idblock v s = Some (Ok (sfi_indirect (fi s' v), id_words (disk s') (fi s' v)), s')
          \<and> sfi_indirect (fi s' v) \<noteq> 0 \<and> vstep v s s' \<and> same_data v s s' \<and> fblocks s' v = fblocks s v)"
proof -
  have sh: "inode_shape (disk s) (fi s v)" using assms by (rule file_shape)
  have g: "dev_good s" using assms(1) by (simp add: space_ok_def)
  obtain sv where sv: "sfs_pool s v = Some sv" using assms(2) by (auto simp: file_ok_def)
  have wf: "inode_wf (sv_i sv)" using sh sv by (simp add: inode_shape_def)
  show ?thesis
  proof (cases "sfi_indirect (sv_i sv) = 0")
    case False
    have d: "sfi_indirect (sv_i sv) < d_blocks (sfs_device s)" using fblocks_id(2) [OF assms] False sv by simp
    obtain s' where s': "sfs_rblock (sfi_indirect (sv_i sv)) s = Some (Ok (disk s (sfi_indirect (sv_i sv))), s')"
      "dev_moves s (disk s) s'" using sfs_rblock_ok [OF g d] by blast
    note st = dev_moves_file [OF assms s'(2)] and f = dev_moves_fields [OF s'(2)]
    have "bmap_idblock v s = Some (Ok (sfi_indirect (fi s' v), id_words (disk s') (fi s' v)), s')"
      using False sv s'(1) f by (simp add: bmap_idblock_def Let_def id_words_def)
    then show ?thesis using st False sv by (auto simp: same_data_def)
  next
    case True
    from sfs_balloc_cases [OF assms(1)] show ?thesis
    proof (elim disjE exE conjE)
      assume "sfs_balloc s = Some (Err ENOSPC, s)" "full s"
      then show ?thesis using True sv by (simp add: bmap_idblock_def)
    next
      fix b s1
      assume b: "sfs_balloc s = Some (Ok b, s1)" "b \<notin> used s" "b < nblk s" "b \<noteq> 0"
        and m: "fs_moves s ((disk s)(b := replicate 512 0)) (insert b (used s)) (sfs_pool s) s1"
      note f = fs_movesD [OF m]
      let ?i = "sv_i sv\<lparr>sfi_indirect := b\<rparr>" and ?dk = "(disk s)(b := replicate 512 0)"
      let ?sv = "sv\<lparr>sv_i := ?i, sv_dirty := True\<rparr>"
      let ?s = "s1\<lparr>sfs_pool := (sfs_pool s)(v \<mapsto> ?sv)\<rparr>"
      have bo: "b \<notin> set (fown s v)" using assms(2) b(2) by (auto simp: file_ok_def)
      have m': "fs_moves s ?dk (insert b (used s)) ((sfs_pool s)(v \<mapsto> ?sv)) ?s" using m by (rule fs_moves_pool)
      have fm: "fmap ?dk ?i = fmap (disk s) (sv_i sv)"
        using True b(4) bytes_words_zeros [of 128] by (simp add: fmap_def id_words_def)
      have sl: "slots ?dk ?i = (slots (disk s) (sv_i sv))[0 := b]" using fm by (simp add: slots_def)
      have st: "vstep v s ?s"
      proof (rule vstep_fill [OF assms sv b(2,3,4) m'])
        show "slots ?dk (sv_i ?sv) = (slots (disk s) (sv_i sv))[0 := b]" using sl by simp
        show "same_vnode sv ?sv" by (simp add: same_vnode_def)
        show "inode_wf (sv_i ?sv)" using inode_wf_indirect [OF wf] nblk_less(2) [OF assms(1) b(3)] by simp
        show "0 < length (slots (disk s) (sv_i sv))" "slots (disk s) (sv_i sv) ! 0 = 0"
          using True by (simp_all add: slots_def)
      qed simp
      have d: "disk ?s = ?dk" using f(1) by simp
      have bf: "b \<notin> set (fmap (disk s) (sv_i sv))" using bo sv b(4) by (auto simp: own_set slots_def)
      have "content ?dk ?i = content (disk s) (sv_i sv)"
      proof
        fix k
        have "fmap (disk s) (sv_i sv) ! (k div 512) \<noteq> b" if "k < 143 * 512"
          using bf that length_fmap [OF sh] sv by (metis nth_mem less_mult_imp_div_less option.sel)
        then show "content ?dk ?i k = content (disk s) (sv_i sv) k"
          using fm by (simp add: content_def blk_byte_def)
      qed
      then have sd: "same_data v s ?s" using d sv by (simp add: same_data_def)
      have "edit_inode v (\<lambda>i. i\<lparr>sfi_indirect := b\<rparr>) s1 = Some ?s"
        using edit_inode_eq [of s1 v sv] f(3) sv by simp
      moreover have "id_words ?dk ?i = replicate 128 0"
        using b(4) bytes_words_zeros [of 128] by (simp add: id_words_def)
      ultimately have "bmap_idblock v s = Some (Ok (sfi_indirect (fi ?s v), id_words (disk ?s) (fi ?s v)), ?s)"
        using sv True b(1) d by (simp add: bmap_idblock_def)
      moreover have "fblocks ?s v = fblocks s v" "sfi_indirect (fi ?s v) \<noteq> 0" using d fm sv b(4) by simp_all
      ultimately show ?thesis using st sd by blast
    qed
  qed
qed

lemma bmap_entry_alloc:
  assumes "space_ok s" "file_ok s v" "15 \<le> fb" "fb < 143" "fblocks s v ! fb = 0" "sfi_indirect (fi s v) \<noteq> 0"
    and that: "ws = id_words (disk s) (fi s v)" "idb = sfi_indirect (fi s v)"
  shows "alloc_result v fb s (if_ok (if_ok (sfs_balloc s) (\<lambda>blk s.
      if_ok (sfs_wblock (words_bytes (ws[fb - 15 := blk])) idb s)
        (\<lambda>_ s. Some (Ok blk, s)))) bmap_result)"
proof -
  have sh: "inode_shape (disk s) (fi s v)" using assms(1,2) by (rule file_shape)
  obtain sv where sv: "sfs_pool s v = Some sv" using assms(2) by (auto simp: file_ok_def)
  let ?id = "sfi_indirect (sv_i sv)" and ?ws = "id_words (disk s) (sv_i sv)"
  have wf: "inode_wf (sv_i sv)" using sh sv by (simp add: inode_shape_def)
  have lw: "length ?ws = 128" using length_id_words [OF sh] sv by simp
  from sfs_balloc_cases [OF assms(1)] show ?thesis
  proof (elim disjE exE conjE)
    assume "sfs_balloc s = Some (Err ENOSPC, s)" "full s"
    then show ?thesis using vstep_refl [OF assms(1,2)] assms(5) by (simp add: alloc_result_def)
  next
    fix b s1
    assume b: "sfs_balloc s = Some (Ok b, s1)" "b \<notin> used s" "b < nblk s" "b \<noteq> 0"
      and m: "fs_moves s ((disk s)(b := replicate 512 0)) (insert b (used s)) (sfs_pool s) s1"
    note f = fs_movesD [OF m]
    let ?data = "words_bytes (?ws[fb - 15 := b])"
    have g1: "dev_good s1" and d1: "?id < d_blocks (sfs_device s1)"
      using f fblocks_id(2) [OF assms(1,2)] assms(6) sv by simp_all
    obtain s2 where s2: "sfs_wblock ?data ?id s1 = Some (Ok (), s2)" "dev_moves s1 ((disk s1)(?id := ?data)) s2"
      using sfs_wblock_ok [OF g1 d1, of ?data] lw by auto
    let ?dk = "(disk s)(b := replicate 512 0, ?id := ?data)"
    note f2 = dev_moves_fields [OF s2(2)]
    have sp1: "space_ok s1" using fs_moves_space [OF assms(1) m] by blast
    have m2: "fs_moves s ?dk (insert b (used s)) (sfs_pool s) s2"
      using fs_moves_trans [OF m fs_moves_dev [OF sp1 s2(2)]] f by simp
    have pv: "(sfs_pool s)(v \<mapsto> sv) = sfs_pool s" using sv by auto
    have bo: "b \<notin> set (fown s v)" using assms(2) b(2) by (auto simp: file_ok_def)
    have bid: "b \<noteq> ?id" using bo fblocks_id(3) [OF assms(1,2,6)] sv by auto
    have "\<forall>w \<in> set (?ws[fb - 15 := b]). w < 2 ^ 32"
      using set_update_subset_insert [of ?ws "fb - 15" b] nblk_less(2) [OF assms(1) b(3)] assms(6) sv
      by (auto simp: id_words_def dest!: bytes_words_less)
    then have ws: "bytes_words ?data = ?ws[fb - 15 := b]" by (rule bytes_words_bytes)
    have l15: "length (sfi_direct (sv_i sv)) = 15" using wf by (simp add: inode_wf_def)
    have fm: "fmap ?dk (sv_i sv) = (fmap (disk s) (sv_i sv))[fb := b]"
      using ws assms(3,6) sv l15 by (simp add: fmap_def id_words_def list_update_append)
    then have sl: "slots ?dk (sv_i sv) = (slots (disk s) (sv_i sv))[Suc fb := b]" by (simp add: slots_def)
    have lf: "length (fmap (disk s) (sv_i sv)) = 143" using length_fmap [OF sh] sv by simp
    have zf: "fmap (disk s) (sv_i sv) ! fb = 0" using assms(5) sv by simp
    have ido: "?id \<in> set (fown s v)" using fblocks_id(3) [OF assms(1,2,6)] sv by simp
    have idi: "?id \<noteq> fino s v" using assms(2,6) sv by (auto simp: file_ok_def own_def slots_def)
    have st: "vstep v s s2"
    proof (rule vstep_fill [OF assms(1,2) sv b(2,3,4) _ _ wf sl])
      show "fs_moves s ?dk (insert b (used s)) ((sfs_pool s)(v \<mapsto> sv)) s2" using m2 pv by simp
      show "same_vnode sv sv" by (simp add: same_vnode_def)
      show "Suc fb < length (slots (disk s) (sv_i sv))" using lf assms(4) by (simp add: slots_def)
      show "slots (disk s) (sv_i sv) ! Suc fb = 0" using zf by (simp add: slots_def)
      show "\<forall>x. x \<notin> insert b (set (fown s v) - {fino s v}) \<longrightarrow> ?dk x = disk s x" using ido idi by auto
    qed
    have p2: "fi s2 v = sv_i sv" "disk s2 = ?dk" using fs_movesD(1,3) [OF m2] sv by simp_all
    have bl: "fblocks s2 v ! fb = b" using p2 fm lf assms(4) by simp
    have idf: "?id \<notin> set (fmap (disk s) (sv_i sv))"
    proof -
      have "distinct (fown s v)" using assms(2) by (simp add: file_ok_def)
      then show ?thesis using assms(6) sv by (auto simp: own_def slots_def)
    qed
    have "content ?dk (sv_i sv) = content (disk s) (sv_i sv)"
      using sh sv fm assms(4) zf bo bid idf
      by (intro content_alloc [where fb = fb and b = b]) (auto simp: own_set slots_def)
    then have sd: "same_data v s s2" using p2 sv by (simp add: same_data_def)
    have "bmap_result b s2 = Some (Ok b, s2)"
      using bmap_result_file [OF vstep_fields(1,2) [OF st], of fb] bl assms(4) by simp
    then show ?thesis using b(1) s2(1) that sv st sd bl b(4) by (auto simp: alloc_result_def)
  qed
qed

lemma alloc_result_trans:
  assumes "vstep v s s1" "same_data v s s1" "fblocks s1 v = fblocks s v" "alloc_result v fb s1 m"
  shows "alloc_result v fb s m"
  using assms(4) vstep_trans [OF assms(1)] same_data_trans [OF assms(2)] assms(3)
  unfolding alloc_result_def by (elim disjE exE conjE) auto

lemma sfs_bmap_alloc:
  assumes "space_ok s" "file_ok s v" "fb < 143"
  shows "alloc_result v fb s (sfs_bmap v fb True s)"
proof (cases "fblocks s v ! fb = 0")
  case False
  then obtain s' where s': "sfs_bmap v fb True s = Some (Ok (fblocks s v ! fb), s')" "dev_moves s (disk s) s'"
    using sfs_bmap_lookup [OF assms] by blast
  note st = dev_moves_file [OF assms(1,2) s'(2)]
  show ?thesis using s'(1) st False by (auto simp: alloc_result_def same_data_def)
next
  case zero: True
  show ?thesis
  proof (cases "fb < 15")
    case True
    then show ?thesis using bmap_direct_alloc [OF assms(1,2) True zero] by (simp add: sfs_bmap_def)
  next
    case False
    then have idx: "(fb - 15) div 128 = 0" "(fb - 15) mod 128 = fb - 15" using assms(3) by auto
    obtain sv where sv: "sfs_pool s v = Some sv" using assms(2) by (auto simp: file_ok_def)
    have eq: "sfs_bmap v fb True s = if_ok (bmap_idblock v s) (\<lambda>(idblock, idbuf) s. do {
          blk \<leftarrow> nth_run idbuf (fb - 15);
          if_ok (if blk = 0 then
                   if_ok (sfs_balloc s) (\<lambda>blk s.
                     if_ok (sfs_wblock (words_bytes (idbuf[fb - 15 := blk])) idblock s)
                       (\<lambda>_ s. Some (Ok blk, s)))
                 else Some (Ok blk, s))
            bmap_result
        })" using False idx sv by (simp add: sfs_bmap_def Let_def cong: if_cong)
    from bmap_idblock_cases [OF assms(1,2)] show ?thesis
    proof (elim disjE exE conjE)
      assume "bmap_idblock v s = Some (Err ENOSPC, s)" "full s"
      then show ?thesis using eq zero vstep_refl [OF assms(1,2)] by (simp add: alloc_result_def)
    next
      fix s1
      assume s1: "bmap_idblock v s = Some (Ok (sfi_indirect (fi s1 v), id_words (disk s1) (fi s1 v)), s1)"
        "sfi_indirect (fi s1 v) \<noteq> 0" "vstep v s s1" "same_data v s s1" "fblocks s1 v = fblocks s v"
      note v1 = vstep_fields(1,2) [OF s1(3)]
      have sh1: "inode_shape (disk s1) (fi s1 v)" using v1 by (rule file_shape)
      have fb1: "15 \<le> fb" "fblocks s1 v ! fb = 0" using False zero s1(5) by simp_all
      have "id_words (disk s1) (fi s1 v) ! (fb - 15) = 0" using fmap_indirect [OF sh1 fb1(1)] fb1(2) by simp
      moreover have "fb - 15 < length (id_words (disk s1) (fi s1 v))"
        using length_id_words [OF sh1] assms(3) fb1(1) by simp
      ultimately have "alloc_result v fb s1 (sfs_bmap v fb True s)"
        using eq s1(1) bmap_entry_alloc [OF v1 fb1(1) assms(3) fb1(2) s1(2) refl refl] by simp
      then show ?thesis using alloc_result_trans [OF s1(3-5)] by simp
    qed
  qed
qed

subsection \<open>Writing into a block of a file\<close>

lemma write_data_block:
  assumes "space_ok s" "file_ok s v" "fb < 143" "fblocks s v ! fb = b" "b \<noteq> 0" "skip + length data \<le> 512"
    "dev_moves s ((disk s)(b := take skip (disk s b) @ data @ drop (skip + length data) (disk s b))) s'"
  shows "vstep v s s'" "fbytes s' v = overlay (fbytes s v) (fb * 512 + skip) data" "fsize s' v = fsize s v"
proof -
  let ?d = "take skip (disk s b) @ data @ drop (skip + length data) (disk s b)"
  let ?dk = "(disk s)(b := ?d)"
  have sh: "inode_shape (disk s) (fi s v)" using assms(1,2) by (rule file_shape)
  note f = dev_moves_fields [OF assms(7)]
  have nz: "fblocks s v ! fb \<noteq> 0" using assms(4,5) by simp
  have b: "b \<in> set (fown s v)" "b \<noteq> sfi_indirect (fi s v)" "b \<noteq> fino s v"
    using fblocks_used(3-5) [OF assms(1-3) nz] assms(4) by simp_all
  have len: "length (disk s b) = 512" using assms(1) by (simp add: space_ok_def dev_goodD)
  have sl: "slots ?dk (fi s v) = slots (disk s) (fi s v)"
    using b(2) by (simp add: slots_def fmap_def id_words_def)
  then have ow: "fown s' v = fown s v" using f(6,7) by (simp add: own_def)
  have m: "fs_moves s ?dk (used s) (sfs_pool s) s'" using assms(1,7) by (rule fs_moves_dev)
  have sp: "space_ok s'" using fs_moves_space [OF assms(1) m] by simp
  have fo: "file_ok s' v" using assms(2) f(6) ow fs_movesD(2,4,6) [OF m] by (simp add: file_ok_def)
  show "vstep v s s'"
    using sp fo m f ow b(1,3) assms(2) by (auto simp: vstep_def same_vnode_def file_ok_def)
  have d: "distinct (fown s v)" using assms(2) by (simp add: file_ok_def)
  show "fbytes s' v = overlay (fbytes s v) (fb * 512 + skip) data"
    using content_write [OF sh d assms(3,4,5) b(2) len assms(6)] f(6,7) by simp
  show "fsize s' v = fsize s v" using f(6) by simp
qed

lemma file_chunk:
  assumes "space_ok s" "fb < 143" "skip + len \<le> 512" "fblocks s v ! fb = b"
  shows "take len (drop skip (if b = 0 then replicate 512 0 else disk s b))
       = map (fbytes s v) [fb * 512 + skip..<fb * 512 + skip + len]"
proof (rule nth_equalityI)
  have l: "length (disk s b) = 512" using assms(1) by (simp add: space_ok_def dev_goodD)
  then show "length (take len (drop skip (if b = 0 then replicate 512 0 else disk s b)))
      = length (map (fbytes s v) [fb * 512 + skip..<fb * 512 + skip + len])"
    using assms(3) by simp
  fix j
  assume "j < length (take len (drop skip (if b = 0 then replicate 512 0 else disk s b)))"
  then have j: "j < len" using l assms(3) by (simp split: if_splits)
  then have m: "(fb * 512 + skip + j) div 512 = fb" "(fb * 512 + skip + j) mod 512 = skip + j"
    "fb * 512 + skip + j < 143 * 512"
    using assms(2,3) by (auto simp: div_nat_eqI mod_nat_eqI)
  then show "take len (drop skip (if b = 0 then replicate 512 0 else disk s b)) ! j
      = map (fbytes s v) [fb * 512 + skip..<fb * 512 + skip + len] ! j"
    using j l assms(3,4) by (simp add: content_def blk_byte_def)
qed

lemma uio_fileblock_eq: "uio_offset u = int off \<Longrightarrow> off < 2 ^ 31 \<Longrightarrow> uio_fileblock u = off div 512"
  by (simp add: uio_fileblock_def signed_divide_int_def sgn_if nat_div_distrib)

subsection \<open>Results of transfers\<close>

definition read_result :: "nat \<Rightarrow> nat \<Rightarrow> nat \<Rightarrow> sfs_fs \<Rightarrow> uio \<Rightarrow> (unit res \<times> sfs_fs \<times> uio) run \<Rightarrow> bool" where
  "read_result v off n s u m \<longleftrightarrow>
     (\<exists>s'. m = Some (Ok (), s', uio_fill (map (fbytes s v) [off..<off + n]) u) \<and> dev_moves s (disk s) s')"

text \<open>
  A write transfers the first \<open>k\<close> bytes. It transfers all of them unless the disk is full or the file would
  exceed its largest size.
\<close>

definition write_result :: "nat \<Rightarrow> nat \<Rightarrow> nat \<Rightarrow> sfs_fs \<Rightarrow> uio \<Rightarrow> (unit res \<times> sfs_fs \<times> uio) run \<Rightarrow> bool" where
  "write_result v off n s u m \<longleftrightarrow>
     (\<exists>r k s'. m = Some (r, s', uio_advance k u) \<and> k \<le> n \<and> (k = 0 \<or> off + k \<le> 143 * 512)
        \<and> (r = Ok () \<and> k = n \<or> r = Err ENOSPC \<and> full s' \<or> r = Err EINVAL \<and> 143 * 512 < off + n)
        \<and> vstep v s s' \<and> fbytes s' v = overlay (fbytes s v) off (uio_data u k) \<and> fsize s' v = fsize s v)"

lemma write_resultI:
  "m = Some (r, s', uio_advance k u) \<Longrightarrow> k \<le> n \<Longrightarrow> k = 0 \<or> off + k \<le> 143 * 512 \<Longrightarrow>
   r = Ok () \<and> k = n \<or> r = Err ENOSPC \<and> full s' \<or> r = Err EINVAL \<and> 143 * 512 < off + n \<Longrightarrow>
   vstep v s s' \<Longrightarrow> fbytes s' v = overlay (fbytes s v) off (uio_data u k) \<Longrightarrow> fsize s' v = fsize s v \<Longrightarrow>
   write_result v off n s u m"
  unfolding write_result_def by blast

text \<open>A transfer within one block happens completely or not at all.\<close>

definition chunk_result :: "nat \<Rightarrow> nat \<Rightarrow> nat \<Rightarrow> sfs_fs \<Rightarrow> uio \<Rightarrow> (unit res \<times> sfs_fs \<times> uio) run \<Rightarrow> bool" where
  "chunk_result v off n s u m \<longleftrightarrow>
     (\<exists>r s'. m = Some (r, s', u) \<and> vstep v s s' \<and> same_data v s s'
        \<and> (r = Err ENOSPC \<and> full s' \<and> fblocks s v ! (off div 512) = 0 \<or> r = Err EINVAL \<and> 143 * 512 < off + n))
   \<or> (\<exists>s'. m = Some (Ok (), s', uio_advance n u) \<and> vstep v s s' \<and> off + n \<le> 143 * 512
        \<and> fbytes s' v = overlay (fbytes s v) off (uio_data u n) \<and> fsize s' v = fsize s v)"

lemma chunk_stop:
  "vstep v s s' \<Longrightarrow> same_data v s s' \<Longrightarrow>
     r = Err ENOSPC \<and> full s' \<and> fblocks s v ! (off div 512) = 0 \<or> r = Err EINVAL \<and> 143 * 512 < off + n \<Longrightarrow>
   chunk_result v off n s u (Some (r, s', u))"
  unfolding chunk_result_def by blast

lemma chunk_ok:
  "vstep v s s' \<Longrightarrow> fbytes s' v = overlay (fbytes s v) off (uio_data u n) \<Longrightarrow> fsize s' v = fsize s v \<Longrightarrow>
   off + n \<le> 143 * 512 \<Longrightarrow> chunk_result v off n s u (Some (Ok (), s', uio_advance n u))"
  unfolding chunk_result_def by blast

lemma chunk_write:
  assumes "chunk_result v off n s u m" "uio_ready cs u n"
  shows "write_result v off n s u m"
proof -
  have u0: "uio_advance 0 u = u" using uio_ready_mono [OF assms(2), of 0] uio_advance_0 by auto
  from assms(1) show ?thesis unfolding chunk_result_def
  proof (elim disjE exE conjE)
    fix r s'
    assume "m = Some (r, s', u)" "vstep v s s'" "same_data v s s'" "r = Err ENOSPC" "full s'"
    then show ?thesis using u0
      by (intro write_resultI [where k = 0 and r = r and s' = s']) (auto simp: same_data_def)
  next
    fix r s'
    assume "m = Some (r, s', u)" "vstep v s s'" "same_data v s s'" "r = Err EINVAL" "143 * 512 < off + n"
    then show ?thesis using u0
      by (intro write_resultI [where k = 0 and r = r and s' = s']) (auto simp: same_data_def)
  next
    fix s'
    assume "m = Some (Ok (), s', uio_advance n u)" "vstep v s s'" "off + n \<le> 143 * 512"
      "fbytes s' v = overlay (fbytes s v) off (uio_data u n)" "fsize s' v = fsize s v"
    then show ?thesis by (intro write_resultI [where k = n and r = "Ok ()" and s' = s']) auto
  qed
qed

lemma read_result_seq:
  assumes "read_result v off n s u m" "uio_ready cs u (n + k)" "space_ok s" "file_ok s v"
    and "\<And>s'. dev_moves s (disk s) s' \<Longrightarrow> space_ok s' \<Longrightarrow> file_ok s' v \<Longrightarrow>
      read_result v (off + n) k s' (uio_fill (map (fbytes s v) [off..<off + n]) u)
        (f () (s', uio_fill (map (fbytes s v) [off..<off + n]) u))"
  shows "read_result v off (n + k) s u (if_ok m f)"
proof -
  let ?u = "uio_fill (map (fbytes s v) [off..<off + n]) u"
  obtain s1 where s1: "m = Some (Ok (), s1, ?u)" "dev_moves s (disk s) s1"
    using assms(1) by (auto simp: read_result_def)
  note st = dev_moves_file [OF assms(3,4) s1(2)]
  obtain s2 where s2: "f () (s1, ?u) = Some (Ok (), s2, uio_fill (map (fbytes s1 v) [off + n..<off + n + k]) ?u)"
    "dev_moves s1 (disk s1) s2"
    using assms(5) [OF s1(2) st(5,6)] by (auto simp: read_result_def)
  have up: "[off..<off + (n + k)] = [off..<off + n] @ [off + n..<off + n + k]"
    using upt_add_eq_append [of off "off + n" k] by (simp add: add.assoc)
  have "uio_fill (map (fbytes s1 v) [off + n..<off + n + k]) ?u = uio_fill (map (fbytes s v) [off..<off + (n + k)]) u"
    using uio_fill_append [of cs u "map (fbytes s v) [off..<off + n]" "map (fbytes s v) [off + n..<off + n + k]"]
      assms(2) st(2) up by simp
  moreover have "dev_moves s (disk s) s2"
    using dev_moves_trans [OF s1(2) s2(2)] dev_moves_fields(7) [OF s1(2)] by simp
  ultimately show ?thesis using s1(1) s2(1) by (simp add: read_result_def)
qed

lemma write_result_seq:
  assumes "write_result v off n s u m" "uio_ready cs u (n + k)"
    and "\<And>s'. vstep v s s' \<Longrightarrow> space_ok s' \<Longrightarrow> file_ok s' v \<Longrightarrow>
      write_result v (off + n) k s' (uio_advance n u) (f () (s', uio_advance n u))"
  shows "write_result v off (n + k) s u (if_ok m f)"
proof -
  obtain r j s1 where s1: "m = Some (r, s1, uio_advance j u)" "j \<le> n" "j = 0 \<or> off + j \<le> 143 * 512"
    "r = Ok () \<and> j = n \<or> r = Err ENOSPC \<and> full s1 \<or> r = Err EINVAL \<and> 143 * 512 < off + n"
    "vstep v s s1" "fbytes s1 v = overlay (fbytes s v) off (uio_data u j)" "fsize s1 v = fsize s v"
    using assms(1) unfolding write_result_def by blast
  show ?thesis
  proof (cases "r = Ok ()")
    case False
    then show ?thesis using s1 by (intro write_resultI [where k = j and r = r and s' = s1]) auto
  next
    case True
    then have j: "j = n" using s1(4) by auto
    have ru: "uio_ready cs u n" using assms(2) by (rule uio_ready_mono) simp
    obtain r2 i s2 where s2: "f () (s1, uio_advance n u) = Some (r2, s2, uio_advance i (uio_advance n u))" "i \<le> k" "i = 0 \<or> off + n + i \<le> 143 * 512"
      "r2 = Ok () \<and> i = k \<or> r2 = Err ENOSPC \<and> full s2 \<or> r2 = Err EINVAL \<and> 143 * 512 < off + n + k"
      "vstep v s1 s2" "fbytes s2 v = overlay (fbytes s1 v) (off + n) (uio_data (uio_advance n u) i)"
      "fsize s2 v = fsize s1 v"
      using assms(3) [OF s1(5) vstep_fields(1,2) [OF s1(5)]] unfolding write_result_def by blast
    have "uio_ready cs u (n + i)" using assms(2) by (rule uio_ready_mono) (use s2(2) in simp)
    then have "uio_advance i (uio_advance n u) = uio_advance (n + i) u" by (rule uio_advance_add)
    moreover have "fbytes s2 v = overlay (fbytes s v) off (uio_data u (n + i))"
      using s2(6) s1(6) j uio_advance_simps(1,5) [OF ru] overlay_append [of "fbytes s v" off "uio_data u n"]
      by (simp add: bytes_at_add)
    moreover have "vstep v s s2" using vstep_trans [OF s1(5) s2(5)] .
    ultimately show ?thesis using s1(1,3,7) s2(1,2,3,4,7) True j
      by (intro write_resultI [where k = "n + i" and r = r2 and s' = s2]) auto
  qed
qed

subsection \<open>Partial and whole blocks\<close>

lemma partialio_read:
  assumes "space_ok s" "file_ok s v" "uio_rw u = UIO_READ" "uio_offset u = int off" "off < 143 * 512"
    "off mod 512 + len \<le> 512" "uio_ready cs u len"
  shows "read_result v off len s u (sfs_partialio cs v (off mod 512) len (s, u))"
proof -
  let ?fb = "off div 512" and ?skip = "off mod 512"
  have fb: "?fb < 143" using assms(5) by (simp add: less_mult_imp_div_less)
  have ub: "uio_fileblock u = ?fb" using assms(4,5) by (intro uio_fileblock_eq) simp_all
  have off: "?fb * 512 + ?skip = off" by simp
  let ?b = "fblocks s v ! ?fb"
  obtain s1 where s1: "sfs_bmap v ?fb False s = Some (Ok ?b, s1)" "dev_moves s (disk s) s1"
    using sfs_bmap_lookup [OF assms(1,2) fb] by blast
  note st = dev_moves_file [OF assms(1,2) s1(2)] and f1 = dev_moves_fields [OF s1(2)]
  define buf where "buf = (if ?b = 0 then replicate 512 0 else disk s ?b)"
  have "\<exists>s2. (if ?b = 0 then do { kassert (uio_rw u = UIO_READ); Some (Ok (replicate 512 0), s1, u) }
        else with_uio (sfs_rblock ?b s1) u) = Some (Ok buf, s2, u) \<and> dev_moves s (disk s) s2"
  proof (cases "?b = 0")
    case True
    then show ?thesis using s1(2) assms(3) by (simp add: buf_def)
  next
    case False
    have g: "dev_good s1" "?b < d_blocks (sfs_device s1)"
      using f1(8,9) fblocks_used(2) [OF assms(1,2) fb False] assms(1) by (auto simp: space_ok_def)
    obtain s2 where "sfs_rblock ?b s1 = Some (Ok (disk s1 ?b), s2)" "dev_moves s1 (disk s1) s2"
      using sfs_rblock_ok [OF g] by blast
    then show ?thesis using False f1(7) dev_moves_trans [OF s1(2)] by (auto simp: with_uio_def buf_def)
  qed
  then obtain s2 where s2: "(if ?b = 0 then do { kassert (uio_rw u = UIO_READ); Some (Ok (replicate 512 0), s1, u) }
        else with_uio (sfs_rblock ?b s1) u) = Some (Ok buf, s2, u)" "dev_moves s (disk s) s2" by blast
  have lb: "length buf = 512" using assms(1) by (simp add: space_ok_def dev_goodD buf_def)
  have chunk: "take len (drop ?skip buf) = map (fbytes s v) [off..<off + len]"
    using file_chunk [OF assms(1) fb assms(6) refl] off by (simp add: buf_def)
  have mv: "uiomove cs (drop ?skip buf) len u = Some (Ok (), drop ?skip buf, uio_fill (map (fbytes s v) [off..<off + len]) u)"
    using uiomove_read [OF assms(3,7), of "drop ?skip buf"] lb assms(6) chunk by simp
  have rw: "uio_rw (uio_fill (map (fbytes s v) [off..<off + len]) u) = UIO_READ"
    using uio_fill_simps(6) [of cs u "map (fbytes s v) [off..<off + len]"] assms(3,7) by simp
  have "u32 (?skip + len) \<le> 512" using assms(6) by simp
  then have "sfs_partialio cs v ?skip len (s, u) = Some (Ok (), s2, uio_fill (map (fbytes s v) [off..<off + len]) u)"
    using s1(1) s2(1) mv rw assms(3) ub
    by (simp add: sfs_partialio_def with_uio_def [of "sfs_bmap v _ _ _"] cong: if_cong)
  then show ?thesis using s2(2) by (simp add: read_result_def)
qed

lemma block_end: "r + n \<le> 512 \<Longrightarrow> q < 143 \<Longrightarrow> q * 512 + r + n \<le> 143 * 512" for q :: nat
  by simp

lemma partialio_write:
  assumes "space_ok s" "file_ok s v" "uio_rw u = UIO_WRITE" "uio_offset u = int off"
    "off mod 512 + len \<le> 512" "uio_ready cs u len" "off < 143 * 512 \<or> 143 * 512 < off + len"
  shows "chunk_result v off len s u (sfs_partialio cs v (off mod 512) len (s, u))"
proof -
  let ?fb = "off div 512" and ?skip = "off mod 512"
  have o31: "off < 2 ^ 31" using assms(4,6) by (simp add: uio_ready_def)
  have ub: "uio_fileblock u = ?fb" using assms(4) o31 by (rule uio_fileblock_eq)
  have sk: "u32 (?skip + len) \<le> 512" using assms(5) by simp
  show ?thesis
  proof (cases "?fb < 143")
    case False
    then have "sfs_bmap v ?fb True s = Some (Err EINVAL, s)"
      using assms(2) by (intro sfs_bmap_toobig) (simp_all add: file_ok_def)
    then have "sfs_partialio cs v ?skip len (s, u) = Some (Err EINVAL, s, u)"
      using sk ub assms(3) by (simp add: sfs_partialio_def with_uio_def)
    moreover have "143 * 512 < off + len"
      using False assms(7) less_mult_imp_div_less [of off 143 512] by auto
    ultimately show ?thesis using chunk_stop [OF vstep_refl [OF assms(1,2)]] by simp
  next
    case fb: True
    have off: "?fb * 512 + ?skip = off" by simp
    from sfs_bmap_alloc [OF assms(1,2) fb] show ?thesis unfolding alloc_result_def
    proof (elim disjE exE conjE)
      fix s1
      assume s1: "sfs_bmap v ?fb True s = Some (Err ENOSPC, s1)" "full s1" "vstep v s s1" "same_data v s s1"
        "fblocks s v ! ?fb = 0"
      then have "sfs_partialio cs v ?skip len (s, u) = Some (Err ENOSPC, s1, u)"
        using sk ub assms(3) by (simp add: sfs_partialio_def with_uio_def)
      then show ?thesis using chunk_stop [OF s1(3,4)] s1(2,5) by simp
    next
      fix s1
      let ?b = "fblocks s1 v ! ?fb"
      assume s1: "sfs_bmap v ?fb True s = Some (Ok ?b, s1)" "?b \<noteq> 0" "vstep v s s1" "same_data v s s1"
      note v1 = vstep_fields(1,2) [OF s1(3)]
      have g: "dev_good s1" "?b < d_blocks (sfs_device s1)"
        using v1 fblocks_used(2) [OF v1 fb s1(2)] by (auto simp: space_ok_def)
      obtain s2 where s2: "sfs_rblock ?b s1 = Some (Ok (disk s1 ?b), s2)" "dev_moves s1 (disk s1) s2"
        using sfs_rblock_ok [OF g] by blast
      note f2 = dev_moves_fields [OF s2(2)] and st2 = dev_moves_file [OF v1 s2(2)]
      have lb: "length (disk s1 ?b) = 512" using g(1) by (simp add: dev_goodD)
      let ?data = "uio_data u len"
      let ?blk = "take ?skip (disk s1 ?b) @ ?data @ drop (?skip + len) (disk s1 ?b)"
      have mv: "uiomove cs (drop ?skip (disk s1 ?b)) len u
          = Some (Ok (), ?data @ drop (?skip + len) (disk s1 ?b), uio_advance len u)"
        using uiomove_write [OF assms(3,6), of "drop ?skip (disk s1 ?b)"] lb assms(5) by (simp add: add.commute)
      have g2: "dev_good s2" "?b < d_blocks (sfs_device s2)" using f2 g by simp_all
      obtain s3 where s3: "sfs_wblock ?blk ?b s2 = Some (Ok (), s3)" "dev_moves s2 ((disk s2)(?b := ?blk)) s3"
        using sfs_wblock_ok [OF g2, of ?blk] lb assms(5) by auto
      have m3: "dev_moves s1 ((disk s1)(?b := take ?skip (disk s1 ?b) @ ?data @ drop (?skip + length ?data) (disk s1 ?b))) s3"
        using dev_moves_trans [OF s2(2)] s3(2) f2(7) by simp
      have sl: "?skip + length ?data \<le> 512" using assms(5) by simp
      note w = write_data_block [OF v1 fb refl s1(2) sl m3]
      have "sfs_partialio cs v ?skip len (s, u) = Some (Ok (), s3, uio_advance len u)"
        using sk ub assms(3) s1(1,2) s2(1) mv s3(1) uio_advance_simps(6) [OF assms(6)]
        by (simp add: sfs_partialio_def with_uio_def)
      moreover have "off + len \<le> 143 * 512" using block_end [OF assms(5) fb] off by simp
      moreover have "fbytes s3 v = overlay (fbytes s v) off ?data" "fsize s3 v = fsize s v"
        using w(2,3) s1(4) off by (simp_all add: same_data_def)
      ultimately show ?thesis using chunk_ok [OF vstep_trans [OF s1(3) w(1)], of off u len] by simp
    qed
  qed
qed

end
