(* ===== verification/SfsIo.thy ===== *)
theory SfsIo
  imports SfsAlloc
begin

section \<open>SFS file I/O\<close>

text \<open>
  Correctness of \<^verbatim>\<open>sfs_io\<close> on a disk without media errors: a read delivers the contents of the file
  up to its end, a write overlays them, at any offset and length, and nothing else in the file
  system changes. Then what happens when the disk does report media errors, and when a write fails.
\<close>

subsection \<open>Whole blocks\<close>

text \<open>The uio that \<^verbatim>\<open>sfs_blockio\<close> hands to the device, and what it makes of the result.\<close>

definition dev_uio :: "uio \<Rightarrow> nat \<Rightarrow> uio" where
  "dev_uio u b = u\<lparr>uio_offset := int b * 512, uio_resid := 512\<rparr>"

definition undev_uio :: "uio \<Rightarrow> nat \<Rightarrow> uio \<Rightarrow> uio" where
  "undev_uio u b u' = u'\<lparr>uio_offset := s32 (uio_offset u' - int b * 512 + uio_offset u),
     uio_resid := nat ((int (uio_resid u') - 512 + int (uio_resid u)) mod 2 ^ 32)\<rparr>"

lemma dev_uio_ready: "uio_ready cs u 512 \<Longrightarrow> b + 1 < 2 ^ 22 \<Longrightarrow> uio_ready cs (dev_uio u b) 512"
  by (simp add: uio_ready_def dev_uio_def)

lemma undev_uio_advance:
  assumes "uio_ready cs u 512" "b + 1 < 2 ^ 22"
  shows "undev_uio u b (uio_advance 512 (dev_uio u b)) = uio_advance 512 u"
proof -
  note a = uio_advance_simps [OF dev_uio_ready [OF assms]] uio_advance_simps [OF assms(1)]
  have "uio_resid u < 2 ^ 32" "512 \<le> uio_resid u" "uio_offset u + 512 < 2 ^ 31" "0 \<le> uio_offset u"
    using assms(1) by (simp_all add: uio_ready_def)
  with a show ?thesis by (intro uio.equality) (simp_all add: undev_uio_def dev_uio_def nat_diff_distrib)
qed

lemma dev_uio_mem: "dev_uio (u\<lparr>iov_mem := m\<rparr>) b = (dev_uio u b)\<lparr>iov_mem := m\<rparr>"
  by (cases u) (simp add: dev_uio_def)

lemma undev_uio_fill:
  assumes "uio_ready cs u 512" "b + 1 < 2 ^ 22" "length bs = 512"
  shows "undev_uio u b (uio_fill bs (dev_uio u b)) = uio_fill bs u"
proof -
  let ?u = "u\<lparr>iov_mem := put (iov_mem u) (iov_base u) bs\<rparr>"
  have "uio_fill bs (dev_uio u b) = uio_advance 512 (dev_uio ?u b)" "uio_fill bs u = uio_advance 512 ?u"
    using assms(3) unfolding uio_fill_def dev_uio_mem by (simp_all add: dev_uio_def)
  moreover have "undev_uio u b x = undev_uio ?u b x" for x by (simp add: undev_uio_def)
  ultimately show ?thesis using undev_uio_advance [OF uio_ready_put [OF assms(1)] assms(2)] by simp
qed

lemma sfs_blockio_eq:
  "uio_resid u \<ge> 512 \<Longrightarrow> sfs_blockio cs v (s, u) =
     if_ok (with_uio (sfs_bmap v (uio_fileblock u) (uio_rw u = UIO_WRITE) s) u) (\<lambda>b (s, u).
       if b = 0 then do { kassert (uio_rw u = UIO_READ); (r, u) \<leftarrow> uiomovezeros cs 512 u; Some (r, s, u) }
       else do {
         kassert (uio_resid u \<ge> 512);
         (r, s, u') \<leftarrow> sfs_rwblock cs (s, u\<lparr>uio_offset := s32 (int (b * 512)), uio_resid := 512\<rparr>);
         Some (r, s, u'\<lparr>uio_offset := s32 (uio_offset u' - s32 (int (b * 512)) + uio_offset u),
                 uio_resid := nat ((int (uio_resid u') - 512 + int (uio_resid u)) mod 2 ^ 32)\<rparr>)
       })"
  by (simp add: sfs_blockio_def Let_def cong: if_cong)

lemma blockio_read:
  assumes "space_ok s" "file_ok s v" "uio_rw u = UIO_READ" "uio_offset u = int off" "off < 143 * 512"
    "off mod 512 = 0" "uio_ready cs u 512"
  shows "read_result v off 512 s u (sfs_blockio cs v (s, u))"
proof -
  let ?fb = "off div 512"
  have fb: "?fb < 143" using assms(5) by (simp add: less_mult_imp_div_less)
  have ub: "uio_fileblock u = ?fb" using assms(4,5) by (intro uio_fileblock_eq) simp_all
  have off: "?fb * 512 = off" using assms(6) by auto
  have rs: "512 \<le> uio_resid u" using assms(7) by (simp add: uio_ready_def)
  let ?b = "fblocks s v ! ?fb"
  obtain s1 where s1: "sfs_bmap v ?fb False s = Some (Ok ?b, s1)" "dev_moves s (disk s) s1"
    using sfs_bmap_lookup [OF assms(1,2) fb] by blast
  note f1 = dev_moves_fields [OF s1(2)]
  have lb: "length (disk s ?b) = 512" using assms(1) by (simp add: space_ok_def dev_goodD)
  have chunk: "(if ?b = 0 then replicate 512 0 else disk s ?b) = map (fbytes s v) [off..<off + 512]"
    using file_chunk [OF assms(1) fb, where skip = 0 and len = 512 and v = v and b = ?b] off lb
    by (cases "?b = 0") simp_all
  show ?thesis
  proof (cases "?b = 0")
    case True
    then have "sfs_blockio cs v (s, u) = Some (Ok (), s1, uio_fill (replicate 512 0) u)"
      using rs s1(1) assms(3) ub uiomovezeros_ok [OF assms(3,7)] by (simp add: sfs_blockio_eq with_uio_def)
    then show ?thesis using chunk True s1(2) by (simp add: read_result_def)
  next
    case False
    have b: "?b < d_blocks (sfs_device s1)" "?b + 1 < 2 ^ 22"
      using f1(9) fblocks_used(2) [OF assms(1,2) fb False] assms(1) dev_goodD(2) [of s] by (auto simp: space_ok_def)
    have d: "s32 (int ?b * 512) = int ?b * 512" using b(2) by simp
    have du: "uio_rw (dev_uio u ?b) = UIO_READ" "uio_offset (dev_uio u ?b) = int ?b * 512" "uio_resid (dev_uio u ?b) = 512"
      using assms(3) by (simp_all add: dev_uio_def)
    obtain s2 where s2: "sfs_rwblock cs (s1, dev_uio u ?b) = Some (Ok (), s2, uio_fill (disk s1 ?b) (dev_uio u ?b))"
      "dev_moves s1 (disk s1) s2"
      using sfs_rwblock_read [OF f1(8) b(1) du dev_uio_ready [OF assms(7) b(2)]] by blast
    have "sfs_blockio cs v (s, u) = Some (Ok (), s2, undev_uio u ?b (uio_fill (disk s1 ?b) (dev_uio u ?b)))"
      using rs s1(1) assms(3) ub False s2(1) unfolding sfs_blockio_eq [OF rs] with_uio_def dev_uio_def undev_uio_def
      by (simp add: d)
    then have "sfs_blockio cs v (s, u) = Some (Ok (), s2, uio_fill (disk s ?b) u)"
      using undev_uio_fill [OF assms(7) b(2) lb] f1(7) by simp
    then show ?thesis using chunk False dev_moves_trans [OF s1(2) s2(2)] f1(7) by (simp add: read_result_def)
  qed
qed

lemma blockio_write:
  assumes "space_ok s" "file_ok s v" "uio_rw u = UIO_WRITE" "uio_offset u = int off"
    "off mod 512 = 0" "uio_ready cs u 512"
  shows "chunk_result v off 512 s u (sfs_blockio cs v (s, u))"
proof -
  let ?fb = "off div 512"
  have o31: "off < 2 ^ 31" using assms(4,6) by (simp add: uio_ready_def)
  have ub: "uio_fileblock u = ?fb" using assms(4) o31 by (rule uio_fileblock_eq)
  have off: "?fb * 512 = off" using assms(5) by auto
  have rs: "512 \<le> uio_resid u" using assms(6) by (simp add: uio_ready_def)
  show ?thesis
  proof (cases "?fb < 143")
    case False
    then have "sfs_bmap v ?fb True s = Some (Err EINVAL, s)"
      using assms(2) by (intro sfs_bmap_toobig) (simp_all add: file_ok_def)
    then have "sfs_blockio cs v (s, u) = Some (Err EINVAL, s, u)"
      using rs ub assms(3) by (simp add: sfs_blockio_eq with_uio_def)
    moreover have "143 * 512 < off + 512" using False less_mult_imp_div_less [of off 143 512] by auto
    ultimately show ?thesis using chunk_stop [OF vstep_refl [OF assms(1,2)]] by simp
  next
    case fb: True
    from sfs_bmap_alloc [OF assms(1,2) fb] show ?thesis unfolding alloc_result_def
    proof (elim disjE exE conjE)
      fix s1
      assume s1: "sfs_bmap v ?fb True s = Some (Err ENOSPC, s1)" "full s1" "vstep v s s1" "same_data v s s1"
        "fblocks s v ! ?fb = 0"
      then have "sfs_blockio cs v (s, u) = Some (Err ENOSPC, s1, u)"
        using rs ub assms(3) by (simp add: sfs_blockio_eq with_uio_def)
      then show ?thesis using chunk_stop [OF s1(3,4)] s1(2,5) by simp
    next
      fix s1
      let ?b = "fblocks s1 v ! ?fb"
      assume s1: "sfs_bmap v ?fb True s = Some (Ok ?b, s1)" "?b \<noteq> 0" "vstep v s s1" "same_data v s s1"
      note v1 = vstep_fields(1,2) [OF s1(3)]
      have b: "dev_good s1" "?b < d_blocks (sfs_device s1)" "?b + 1 < 2 ^ 22"
        using v1 fblocks_used(2) [OF v1 fb s1(2)] dev_goodD(2) [of s1] by (auto simp: space_ok_def)
      have d: "s32 (int ?b * 512) = int ?b * 512" using b(3) by simp
      have du: "uio_rw (dev_uio u ?b) = UIO_WRITE" "uio_offset (dev_uio u ?b) = int ?b * 512" "uio_resid (dev_uio u ?b) = 512"
        "uio_data (dev_uio u ?b) 512 = uio_data u 512"
        using assms(3) by (simp_all add: dev_uio_def)
      obtain s2 where s2: "sfs_rwblock cs (s1, dev_uio u ?b) = Some (Ok (), s2, uio_advance 512 (dev_uio u ?b))"
        "dev_moves s1 ((disk s1)(?b := uio_data u 512)) s2"
        using sfs_rwblock_write [OF b(1,2) du(1-3) dev_uio_ready [OF assms(6) b(3)]] du(4) by auto
      have "sfs_blockio cs v (s, u) = Some (Ok (), s2, undev_uio u ?b (uio_advance 512 (dev_uio u ?b)))"
        using rs s1(1,2) assms(3) ub s2(1) unfolding sfs_blockio_eq [OF rs] with_uio_def dev_uio_def undev_uio_def
        by (simp add: d)
      then have r: "sfs_blockio cs v (s, u) = Some (Ok (), s2, uio_advance 512 u)"
        using undev_uio_advance [OF assms(6) b(3)] by simp
      have lb: "length (disk s1 ?b) = 512" using b(1) by (simp add: dev_goodD)
      then have m: "dev_moves s1 ((disk s1)(?b := take 0 (disk s1 ?b) @ uio_data u 512
          @ drop (0 + length (uio_data u 512)) (disk s1 ?b))) s2" using s2(2) by simp
      have l0: "0 + length (uio_data u 512) \<le> 512" by simp
      note w = write_data_block [OF v1 fb refl s1(2) l0 m]
      have "off + 512 \<le> 143 * 512" using off fb by linarith
      moreover have "fbytes s2 v = overlay (fbytes s v) off (uio_data u 512)" "fsize s2 v = fsize s v"
        using w(2,3) s1(4) off by (simp_all add: same_data_def)
      ultimately show ?thesis using r chunk_ok [OF vstep_trans [OF s1(3) w(1)], of off u 512] by simp
    qed
  qed
qed

subsection \<open>Whole transfers\<close>

lemma blocks_read:
  assumes "space_ok s" "file_ok s v" "uio_rw u = UIO_READ" "uio_offset u = int off" "off + 512 * n \<le> 143 * 512"
    "off mod 512 = 0" "uio_ready cs u (512 * n)"
  shows "read_result v off (512 * n) s u (sfs_blocks cs v n (s, u))"
  using assms
proof (induction n arbitrary: s u off)
  case 0
  then show ?case using uio_fill_Nil dev_moves_refl by (auto simp: read_result_def space_ok_def)
next
  case (Suc n)
  have ru: "uio_ready cs u 512" using Suc.prems(7) by (rule uio_ready_mono) simp
  have lt: "off < 143 * 512" using Suc.prems(5) by simp
  have "read_result v off (512 + 512 * n) s u (if_ok (sfs_blockio cs v (s, u)) (\<lambda>_. sfs_blocks cs v n))"
  proof (rule read_result_seq [OF blockio_read [OF Suc.prems(1-4) lt Suc.prems(6) ru]])
    show rk: "uio_ready cs u (512 + 512 * n)" using Suc.prems(7) by simp
    show "space_ok s" "file_ok s v" using Suc.prems(1,2) .
    fix s'
    let ?u = "uio_fill (map (fbytes s v) [off..<off + 512]) u"
    assume s': "space_ok s'" "file_ok s' v"
    have f: "uio_rw ?u = UIO_READ" "uio_offset ?u = int (off + 512)"
      using uio_fill_simps(4,6) [of cs u "map (fbytes s v) [off..<off + 512]"] ru Suc.prems(3,4) by simp_all
    have r: "uio_ready cs ?u (512 * n)"
      using uio_ready_fill [of cs u "map (fbytes s v) [off..<off + 512]" "512 * n"] rk by simp
    have a: "off + 512 + 512 * n \<le> 143 * 512" "(off + 512) mod 512 = 0" using Suc.prems(5,6) by simp_all
    show "read_result v (off + 512) (512 * n) s' ?u (sfs_blocks cs v n (s', ?u))"
      by (rule Suc.IH [OF s' f a r])
  qed
  then show ?case by simp
qed

lemma write_result_0:
  assumes "uio_ready cs u 0" "vstep v s s'" "same_data v s s'"
  shows "write_result v off 0 s u (Some (Ok (), s', u))"
proof -
  have "uio_advance 0 u = u" using assms(1) by (rule uio_advance_0)
  then show ?thesis using assms
    by (intro write_resultI [where k = 0 and r = "Ok ()" and s' = s']) (auto simp: same_data_def)
qed

lemma blocks_write:
  assumes "space_ok s" "file_ok s v" "uio_rw u = UIO_WRITE" "uio_offset u = int off"
    "off mod 512 = 0" "uio_ready cs u (512 * n)"
  shows "write_result v off (512 * n) s u (sfs_blocks cs v n (s, u))"
  using assms
proof (induction n arbitrary: s u off)
  case 0
  then have "uio_ready cs u 0" by simp
  then show ?case using write_result_0 [OF _ vstep_refl [OF 0(1,2)]] by auto
next
  case (Suc n)
  have ru: "uio_ready cs u 512" using Suc.prems(6) by (rule uio_ready_mono) simp
  have "write_result v off (512 + 512 * n) s u (if_ok (sfs_blockio cs v (s, u)) (\<lambda>_. sfs_blocks cs v n))"
  proof (rule write_result_seq [OF chunk_write [OF blockio_write [OF Suc.prems(1-5) ru] ru]])
    show rk: "uio_ready cs u (512 + 512 * n)" using Suc.prems(6) by simp
    fix s'
    assume s': "space_ok s'" "file_ok s' v"
    have f: "uio_rw (uio_advance 512 u) = UIO_WRITE" "uio_offset (uio_advance 512 u) = int (off + 512)"
      using uio_advance_simps(4,6) [OF ru] Suc.prems(3,4) by simp_all
    have a: "(off + 512) mod 512 = 0" using Suc.prems(5) by simp
    show "write_result v (off + 512) (512 * n) s' (uio_advance 512 u) (sfs_blocks cs v n (s', uio_advance 512 u))"
      by (rule Suc.IH [OF s' f a uio_ready_advance [OF rk]])
  qed
  then show ?case by simp
qed

lemma aligned: "uio_offset u = int off \<Longrightarrow> uio_offset u smod 512 = int (off mod 512)"
  by (simp add: signed_modulo_int_def signed_divide_int_def sgn_if zmod_int minus_div_mult_eq_mod
      minus_mult_div_eq_mod)

lemma io_rest_read:
  assumes "space_ok s" "file_ok s v" "uio_rw u = UIO_READ" "uio_offset u = int off" "off + n \<le> 143 * 512"
    "n = 0 \<or> off mod 512 = 0" "uio_resid u = n" "uio_ready cs u n"
  shows "read_result v off n s u (io_rest cs v (s, u))"
proof (cases "n = 0")
  case True
  then show ?thesis using assms uio_fill_Nil dev_moves_refl by (auto simp: io_rest_def read_result_def space_ok_def)
next
  case False
  let ?q = "n div 512" and ?r = "n mod 512"
  have n: "n = 512 * ?q + ?r" by simp
  have al: "off mod 512 = 0" using assms(6) False by simp
  have rq: "uio_ready cs u (512 * ?q)" using assms(8) by (rule uio_ready_mono) simp
  have le: "off + 512 * ?q \<le> 143 * 512" using assms(5) n by linarith
  let ?f = "\<lambda>_ (s, u). do { kassert (uio_resid u < 512);
      if uio_resid u > 0 then sfs_partialio cs v 0 (uio_resid u) (s, u) else Some (Ok (), s, u) }"
  have "read_result v off (512 * ?q + ?r) s u (if_ok (sfs_blocks cs v ?q (s, u)) ?f)"
  proof (rule read_result_seq [OF blocks_read [OF assms(1-4) le al rq]])
    show rk: "uio_ready cs u (512 * ?q + ?r)" using assms(8) by simp
    show "space_ok s" "file_ok s v" using assms(1,2) .
    fix s'
    let ?bs = "map (fbytes s v) [off..<off + 512 * ?q]" and ?o = "off + 512 * ?q"
    let ?u = "uio_fill ?bs u"
    assume s': "space_ok s'" "file_ok s' v" "dev_moves s (disk s) s'"
    have f: "uio_rw ?u = UIO_READ" "uio_offset ?u = int ?o" "uio_resid ?u = ?r"
      using uio_fill_simps(3,4,6) [of cs u ?bs] rq assms(3,4,7)
      by (simp_all add: minus_mult_div_eq_mod)
    have r: "uio_ready cs ?u ?r" using uio_ready_fill [of cs u ?bs ?r] rk by simp
    show "read_result v ?o ?r s' ?u (?f () (s', ?u))"
    proof (cases "?r = 0")
      case True
      then show ?thesis using f r uio_fill_Nil dev_moves_refl s'(1) by (auto simp: read_result_def space_ok_def)
    next
      case False
      then have lt: "?o < 143 * 512" using assms(5) n by linarith
      have m0: "?o mod 512 = 0" using al by simp
      have "read_result v ?o ?r s' ?u (sfs_partialio cs v 0 ?r (s', ?u))"
        using partialio_read [OF s'(1,2) f(1,2) lt _ r] m0 by simp
      then show ?thesis using f False by simp
    qed
  qed
  then show ?thesis using False assms(7) al aligned [OF assms(4)] n by (simp add: io_rest_def)
qed

lemma io_rest_write:
  assumes "space_ok s" "file_ok s v" "uio_rw u = UIO_WRITE" "uio_offset u = int off"
    "n = 0 \<or> off mod 512 = 0" "uio_resid u = n" "uio_ready cs u n"
  shows "write_result v off n s u (io_rest cs v (s, u))"
proof (cases "n = 0")
  case True
  then show ?thesis using assms write_result_0 [OF _ vstep_refl [OF assms(1,2)]] by (auto simp: io_rest_def)
next
  case False
  let ?q = "n div 512" and ?r = "n mod 512"
  have n: "n = 512 * ?q + ?r" by simp
  have al: "off mod 512 = 0" using assms(5) False by simp
  have rq: "uio_ready cs u (512 * ?q)" using assms(7) by (rule uio_ready_mono) simp
  let ?f = "\<lambda>_ (s, u). do { kassert (uio_resid u < 512);
      if uio_resid u > 0 then sfs_partialio cs v 0 (uio_resid u) (s, u) else Some (Ok (), s, u) }"
  have "write_result v off (512 * ?q + ?r) s u (if_ok (sfs_blocks cs v ?q (s, u)) ?f)"
  proof (rule write_result_seq [OF blocks_write [OF assms(1-4) al rq]])
    show rk: "uio_ready cs u (512 * ?q + ?r)" using assms(7) by simp
    fix s'
    let ?u = "uio_advance (512 * ?q) u" and ?o = "off + 512 * ?q"
    assume s': "space_ok s'" "file_ok s' v"
    have f: "uio_rw ?u = UIO_WRITE" "uio_offset ?u = int ?o" "uio_resid ?u = ?r"
      using uio_advance_simps(3,4,6) [OF rq] assms(3,4,6) by (simp_all add: minus_mult_div_eq_mod)
    have r: "uio_ready cs ?u ?r" using uio_ready_advance [OF rk] .
    show "write_result v ?o ?r s' ?u (?f () (s', ?u))"
    proof (cases "?r = 0")
      case True
      then show ?thesis using f r write_result_0 [OF _ vstep_refl [OF s']] by auto
    next
      case False
      have m0: "?o mod 512 = 0" using al by simp
      have lt: "?o < 143 * 512 \<or> 143 * 512 < ?o + ?r" using False by linarith
      have "write_result v ?o ?r s' ?u (sfs_partialio cs v 0 ?r (s', ?u))"
        using chunk_write [OF partialio_write [OF s' f(1,2) _ r lt] r] m0 by simp
      then show ?thesis using f False by simp
    qed
  qed
  then show ?thesis using False assms(6) al aligned [OF assms(4)] n by (simp add: io_rest_def)
qed

lemma io_leading_eq:
  assumes "uio_offset u = int off" "off < 2 ^ 31"
  shows "io_leading cs v (s, u) =
     (if off mod 512 \<noteq> 0 then sfs_partialio cs v (off mod 512) (min (512 - off mod 512) (uio_resid u)) (s, u)
      else Some (Ok (), s, u))"
proof -
  have m: "off mod 512 < 512" by simp
  then have "u32 (512 + 2 ^ 32 - off mod 512) = 512 - off mod 512"
  proof -
    have "512 + 2 ^ 32 - off mod 512 = (512 - off mod 512) + 2 ^ 32" using m by simp
    then have "u32 (512 + 2 ^ 32 - off mod 512) = (512 - off mod 512) mod 2 ^ 32"
      by (simp only: u32_def mod_add_self2)
    then show ?thesis by simp
  qed
  then show ?thesis using aligned [OF assms(1)] by (simp add: io_leading_def Let_def)
qed

lemma leading_rest: "(n::nat) - min (512 - o' mod 512) n = 0 \<or> (o' + min (512 - o' mod 512) n) mod 512 = 0"
proof (cases "n \<le> 512 - o' mod 512")
  case False
  have "o' + (512 - o' mod 512) = (o' div 512 + 1) * 512"
  proof -
    have "r < 512 \<Longrightarrow> q * 512 + r = x \<Longrightarrow> x + (512 - r) = (q + 1) * 512" for q r x :: nat by simp
    from this [of "o' mod 512" "o' div 512" o'] show ?thesis by simp
  qed
  with False show ?thesis by simp
qed simp

lemma io_body_read:
  assumes "space_ok s" "file_ok s v" "uio_rw u = UIO_READ" "uio_offset u = int off" "off < 143 * 512"
    "off + n \<le> 143 * 512" "uio_resid u = n" "uio_ready cs u n"
  shows "read_result v off n s u (if_ok (io_leading cs v (s, u)) (\<lambda>_. io_rest cs v))"
proof (cases "off mod 512 = 0")
  case True
  then have "io_leading cs v (s, u) = Some (Ok (), s, u)" using io_leading_eq [OF assms(4)] assms(5) by simp
  then show ?thesis using io_rest_read [OF assms(1-4,6) _ assms(7,8)] True by simp
next
  case False
  define len where "len = min (512 - off mod 512) n"
  have eq: "io_leading cs v (s, u) = sfs_partialio cs v (off mod 512) len (s, u)"
    using io_leading_eq [OF assms(4)] assms(5,7) False by (simp add: len_def)
  have l: "off mod 512 + len \<le> 512" "len + (n - len) = n" by (auto simp: len_def min_def)
  have ru: "uio_ready cs u len" using assms(8) by (rule uio_ready_mono) (simp add: len_def)
  have "read_result v off (len + (n - len)) s u (if_ok (io_leading cs v (s, u)) (\<lambda>_. io_rest cs v))"
    unfolding eq
  proof (rule read_result_seq [OF partialio_read [OF assms(1-5) l(1) ru]])
    show rk: "uio_ready cs u (len + (n - len))" using assms(8) l(2) by simp
    show "space_ok s" "file_ok s v" using assms(1,2) .
    fix s'
    let ?bs = "map (fbytes s v) [off..<off + len]" and ?o = "off + len"
    let ?u = "uio_fill ?bs u"
    assume s': "space_ok s'" "file_ok s' v"
    have f: "uio_rw ?u = UIO_READ" "uio_offset ?u = int ?o" "uio_resid ?u = n - len"
      using uio_fill_simps(3,4,6) [of cs u ?bs] ru assms(3,4,7) by simp_all
    have r: "uio_ready cs ?u (n - len)" using uio_ready_fill [of cs u ?bs "n - len"] rk by simp
    have "?o + (n - len) \<le> 143 * 512" using assms(6) l(2) by simp
    moreover have "n - len = 0 \<or> ?o mod 512 = 0" using leading_rest [of n off] by (simp add: len_def)
    ultimately show "read_result v ?o (n - len) s' ?u (io_rest cs v (s', ?u))"
      by (intro io_rest_read [OF s' f(1,2) _ _ f(3) r])
  qed
  then show ?thesis using l(2) by simp
qed

lemma io_body_write:
  assumes "space_ok s" "file_ok s v" "uio_rw u = UIO_WRITE" "uio_offset u = int off"
    "uio_resid u = n" "uio_ready cs u n"
  shows "write_result v off n s u (if_ok (io_leading cs v (s, u)) (\<lambda>_. io_rest cs v))"
proof -
  have o31: "off < 2 ^ 31" using assms(4,6) by (simp add: uio_ready_def)
  show ?thesis
  proof (cases "off mod 512 = 0")
    case True
    then have "io_leading cs v (s, u) = Some (Ok (), s, u)" using io_leading_eq [OF assms(4) o31] by simp
    then show ?thesis using io_rest_write [OF assms(1-4) _ assms(5,6)] True by simp
  next
    case False
    define len where "len = min (512 - off mod 512) n"
    have eq: "io_leading cs v (s, u) = sfs_partialio cs v (off mod 512) len (s, u)"
      using io_leading_eq [OF assms(4) o31] assms(5) False by (simp add: len_def)
    have l: "off mod 512 + len \<le> 512" "len + (n - len) = n" by (auto simp: len_def min_def)
    have ru: "uio_ready cs u len" using assms(6) by (rule uio_ready_mono) (simp add: len_def)
    have big: "off < 143 * 512 \<or> 143 * 512 < off + len"
    proof (cases "off < 143 * 512")
      case False
      moreover have "off \<noteq> 143 * 512" using \<open>off mod 512 \<noteq> 0\<close> by auto
      ultimately show ?thesis by simp
    qed simp
    have "write_result v off (len + (n - len)) s u (if_ok (io_leading cs v (s, u)) (\<lambda>_. io_rest cs v))"
      unfolding eq
    proof (rule write_result_seq [OF chunk_write [OF partialio_write [OF assms(1-4) l(1) ru big] ru]])
      show rk: "uio_ready cs u (len + (n - len))" using assms(6) l(2) by simp
      fix s'
      let ?u = "uio_advance len u" and ?o = "off + len"
      assume s': "space_ok s'" "file_ok s' v"
      have f: "uio_rw ?u = UIO_WRITE" "uio_offset ?u = int ?o" "uio_resid ?u = n - len"
        using uio_advance_simps(3,4,6) [OF ru] assms(3,4,5) by simp_all
      have r: "uio_ready cs ?u (n - len)" using uio_ready_advance [OF rk] .
      have "n - len = 0 \<or> ?o mod 512 = 0" using leading_rest [of n off] by (simp add: len_def)
      then show "write_result v ?o (n - len) s' ?u (io_rest cs v (s', ?u))"
        by (intro io_rest_write [OF s' f(1,2) _ f(3) r])
    qed
    then show ?thesis using l(2) by simp
  qed
qed

subsection \<open>\<^verbatim>\<open>sfs_io\<close>\<close>

lemma sfs_io_read:
  assumes "space_ok s" "file_ok s v" "uio_rw u = UIO_READ" "uio_offset u = int off" "uio_resid u = n"
    "off + n < 2 ^ 31" "fsize s v < 2 ^ 31"
    and m: "m = min n (fsize s v - off)" "m = 0 \<or> off + m \<le> 143 * 512" "off < fsize s v \<longrightarrow> off < 143 * 512"
    and r: "uio_ready cs u m"
  shows "\<exists>s'. sfs_io cs v (s, u) = Some (Ok (), s', uio_fill (map (fbytes s v) [off..<off + m]) u)
           \<and> dev_moves s (disk s) s'"
proof -
  obtain sv where sv: "sfs_pool s v = Some sv" using assms(2) by (auto simp: file_ok_def)
  have sz: "s32 (int (fsize s v)) = int (fsize s v)" "s32 (int off + int n) = int off + int n"
    using assms(6,7) by simp_all
  show ?thesis
  proof (cases "off \<ge> fsize s v")
    case True
    then have "m = 0" using m(1) by simp
    then have "uio_fill (map (fbytes s v) [off..<off + m]) u = u" using r uio_fill_Nil by simp
    moreover have "sfs_io cs v (s, u) = Some (Ok (), s, u)"
      using True sv sz assms(3,4) by (simp add: sfs_io_def)
    ultimately show ?thesis using dev_moves_refl assms(1) by (auto simp: space_ok_def)
  next
    case False
    define ex where "ex = n - m"
    let ?u = "u\<lparr>uio_resid := m\<rparr>"
    have n32: "n < 2 ^ 32" using assms(5) r by (simp add: uio_ready_def)
    have ex: "(if int off + int n > int (fsize s v) then nat (int off + int n - int (fsize s v)) else 0) = ex"
      "n - ex = m" "ex = 0 \<or> ex < n"
      using False m(1) by (auto simp: ex_def min_def)
    have ru: "uio_ready cs ?u m" using r n32 assms(5) m(1) by (simp add: uio_ready_def)
    have o: "off < 143 * 512" "off + m \<le> 143 * 512" using False m(2,3) by auto
    obtain s' where s': "if_ok (io_leading cs v (s, ?u)) (\<lambda>_. io_rest cs v)
        = Some (Ok (), s', uio_fill (map (fbytes s v) [off..<off + m]) ?u)" "dev_moves s (disk s) s'"
      using io_body_read [OF assms(1,2) _ _ o _ ru] assms(3,4) by (auto simp: read_result_def)
    let ?bs = "map (fbytes s v) [off..<off + m]"
    have lb: "uio_ready cs ?u (length ?bs)" "uio_ready cs u (length ?bs)" using ru r by simp_all
    have rw: "uio_rw (uio_fill ?bs ?u) = UIO_READ" using uio_fill_simps(6) [OF lb(1)] assms(3) by simp
    have "(uio_fill ?bs ?u)\<lparr>uio_resid := u32 (uio_resid (uio_fill ?bs ?u) + ex)\<rparr> = uio_fill ?bs u"
      using uio_fill_simps [OF lb(1)] uio_fill_simps [OF lb(2)] n32 assms(5)
      by (intro uio.equality) (simp_all add: ex_def)
    moreover have "sfs_io cs v (s, u)
        = Some (Ok (), s', (uio_fill ?bs ?u)\<lparr>uio_resid := u32 (uio_resid (uio_fill ?bs ?u) + ex)\<rparr>)"
      using sv sz assms(3,4,5) False ex s'(1) rw dev_moves_fields(6) [OF s'(2)]
      by (simp add: sfs_io_def Let_def cong: if_cong)
    ultimately show ?thesis using s'(2) by simp
  qed
qed

lemma set_size_step:
  assumes "space_ok s" "file_ok s v" "n < 2 ^ 32"
  shows "\<exists>s'. edit_inode v (\<lambda>i. i\<lparr>sfi_size := n\<rparr>) s = Some s' \<and> vstep v s s' \<and> fbytes s' v = fbytes s v \<and> fsize s' v = n
     \<and> used s' = used s"
proof -
  obtain sv where sv: "sfs_pool s v = Some sv" using assms(2) by (auto simp: file_ok_def)
  let ?sv = "sv\<lparr>sv_i := sv_i sv\<lparr>sfi_size := n\<rparr>, sv_dirty := True\<rparr>"
  let ?s = "s\<lparr>sfs_pool := (sfs_pool s)(v \<mapsto> ?sv)\<rparr>"
  have fm: "fmap dk (i\<lparr>sfi_size := n\<rparr>) = fmap dk i" for dk i by (simp add: fmap_def id_words_def)
  have ow: "own dk a (i\<lparr>sfi_size := n\<rparr>) = own dk a i" for dk a i by (simp add: own_def slots_def fm)
  have m: "fs_moves s (disk s) (used s) ((sfs_pool s)(v \<mapsto> ?sv)) ?s"
    using fs_moves_pool [OF fs_moves_refl [OF assms(1)]] .
  have sp: "space_ok ?s" using fs_moves_space [OF assms(1) m] by simp
  have fo: "file_ok ?s v"
    using assms(2,3) sv ow by (simp add: file_ok_def inode_wf_def sysblocks_def)
  have "vstep v s ?s" using sp fo m sv ow assms(2) by (auto simp: vstep_def same_vnode_def file_ok_def)
  moreover have "content dk (i\<lparr>sfi_size := n\<rparr>) = content dk i" for dk i
    by (rule ext) (simp add: content_def fm)
  then have "fbytes ?s v = fbytes s v" using sv by simp
  ultimately show ?thesis using edit_inode_eq [OF sv] by simp
qed

text \<open>The end of \<^verbatim>\<open>sfs_io\<close> for a write, from the label \<^verbatim>\<open>out\<close> on.\<close>

lemma sfs_io_out:
  assumes "file_ok s v" "uio_rw u = UIO_WRITE" "fsize s v < 2 ^ 31"
    and body: "if_ok (io_leading cs v (s, u)) (\<lambda>_. io_rest cs v) = Some (r, s1, u1)" "vstep v s s1" "fsize s1 v = fsize s v"
    and u1: "uio_rw u1 = UIO_WRITE" "uio_offset u1 = int o1" "o1 < 2 ^ 31" "uio_resid u1 < 2 ^ 32"
  shows "\<exists>s2. sfs_io cs v (s, u) = Some (r, s2, u1) \<and> vstep v s s2 \<and> fbytes s2 v = fbytes s1 v
           \<and> fsize s2 v = max (fsize s v) o1 \<and> used s2 = used s1"
proof -
  obtain sv where sv: "sfs_pool s v = Some sv" using assms(1) by (auto simp: file_ok_def)
  obtain sv1 where sv1: "sfs_pool s1 v = Some sv1" using vstep_fields(8) [OF body(2)] by auto
  have ru: "u1\<lparr>uio_resid := u32 (uio_resid u1)\<rparr> = u1" using u1(4) by simp
  have sz: "s32 (int (sfi_size (sv_i sv1))) = int (fsize s v)" using body(3) sv1 assms(3) by simp
  have io: "sfs_io cs v (s, u) = do {
      s2 \<leftarrow> (if int o1 > int (fsize s v) then edit_inode v (\<lambda>i. i\<lparr>sfi_size := nat (int o1 mod 2 ^ 32)\<rparr>) s1 else Some s1);
      Some (r, s2, u1) }"
    using sv sv1 assms(2) body(1) u1(1,2) sz ru by (simp add: sfs_io_def Let_def)
  show ?thesis
  proof (cases "fsize s v < o1")
    case False
    then show ?thesis using io body(2,3) by simp
  next
    case True
    have o32: "nat (int o1 mod 2 ^ 32) = o1" "o1 < 2 ^ 32" using u1(3) by simp_all
    obtain s2 where s2: "edit_inode v (\<lambda>i. i\<lparr>sfi_size := o1\<rparr>) s1 = Some s2" "vstep v s1 s2"
      "fbytes s2 v = fbytes s1 v" "fsize s2 v = o1" "used s2 = used s1"
      using set_size_step [OF vstep_fields(1,2) [OF body(2)] o32(2)] by blast
    have "sfs_io cs v (s, u) = Some (r, s2, u1)" using io True s2(1) u1(3) by simp
    then show ?thesis using s2 True vstep_trans [OF body(2) s2(2)] by simp
  qed
qed

lemma uio_advance_bounds:
  assumes "uio_ready cs u k" "uio_rw u = UIO_WRITE" "uio_offset u = int off"
  shows "uio_rw (uio_advance k u) = UIO_WRITE" "uio_offset (uio_advance k u) = int (off + k)" "off + k < 2 ^ 31"
    "uio_resid (uio_advance k u) < 2 ^ 32"
  using uio_advance_simps [OF assms(1)] assms le_less_trans [OF diff_le_self, of "uio_resid u" "2 ^ 32" k]
  by (simp_all add: uio_ready_def)

lemma sfs_io_write:
  assumes "space_ok s" "file_ok s v" "uio_rw u = UIO_WRITE" "uio_offset u = int off" "uio_resid u = n"
    "uio_ready cs u n" "fsize s v < 2 ^ 31"
  shows "\<exists>r k s'. sfs_io cs v (s, u) = Some (r, s', uio_advance k u) \<and> k \<le> n \<and> (k = 0 \<or> off + k \<le> 143 * 512)
        \<and> (r = Ok () \<and> k = n \<or> r = Err ENOSPC \<and> full s' \<or> r = Err EINVAL \<and> 143 * 512 < off + n)
        \<and> vstep v s s' \<and> fbytes s' v = overlay (fbytes s v) off (uio_data u k)
        \<and> fsize s' v = max (fsize s v) (off + k)"
proof -
  obtain r k s1 where s1: "if_ok (io_leading cs v (s, u)) (\<lambda>_. io_rest cs v) = Some (r, s1, uio_advance k u)"
    "k \<le> n" "k = 0 \<or> off + k \<le> 143 * 512"
    "r = Ok () \<and> k = n \<or> r = Err ENOSPC \<and> full s1 \<or> r = Err EINVAL \<and> 143 * 512 < off + n"
    "vstep v s s1" "fbytes s1 v = overlay (fbytes s v) off (uio_data u k)" "fsize s1 v = fsize s v"
    using io_body_write [OF assms(1-6)] unfolding write_result_def by blast
  have rk: "uio_ready cs u k" using assms(6) s1(2) by (rule uio_ready_mono)
  obtain s2 where s2: "sfs_io cs v (s, u) = Some (r, s2, uio_advance k u)" "vstep v s s2" "fbytes s2 v = fbytes s1 v"
    "fsize s2 v = max (fsize s v) (off + k)" "used s2 = used s1"
    using sfs_io_out [OF assms(2,3,7) s1(1,5,7) uio_advance_bounds [OF rk assms(3,4)]] by blast
  have "sfs_super s2 = sfs_super s1" using vstep_fields(3) [OF s2(2)] vstep_fields(3) [OF s1(5)] by simp
  then have "r = Ok () \<and> k = n \<or> r = Err ENOSPC \<and> full s2 \<or> r = Err EINVAL \<and> 143 * 512 < off + n"
    using s1(4) s2(5) by auto
  with s1(2,3,6) s2 show ?thesis by (metis (no_types, lifting))
qed

text \<open>A write within one block is done completely or leaves contents and size as they were.\<close>

lemma sfs_io_write_within:
  assumes "space_ok s" "file_ok s v" "uio_rw u = UIO_WRITE" "uio_offset u = int off" "uio_resid u = n"
    "uio_ready cs u n" "0 < n" "n < 512" "off mod 512 + n \<le> 512" "off \<le> fsize s v" "fsize s v < 2 ^ 31"
  shows "(\<exists>e s'. sfs_io cs v (s, u) = Some (Err e, s', u) \<and> vstep v s s' \<and> same_data v s s'
            \<and> (e = ENOSPC \<and> full s' \<and> fblocks s v ! (off div 512) = 0 \<or> e = EINVAL \<and> 143 * 512 < off + n))
       \<or> (\<exists>s'. sfs_io cs v (s, u) = Some (Ok (), s', uio_advance n u) \<and> vstep v s s' \<and> off + n \<le> 143 * 512
            \<and> fbytes s' v = overlay (fbytes s v) off (uio_data u n) \<and> fsize s' v = max (fsize s v) (off + n))"
proof -
  have o31: "off < 2 ^ 31" using assms(4,6) by (simp add: uio_ready_def)
  have adv: "uio_resid (uio_advance n u) = 0" using uio_advance_simps(3) [OF assms(6)] assms(5) by simp
  let ?p = "sfs_partialio cs v (off mod 512) n (s, u)"
  have lt: "off < 143 * 512 \<or> 143 * 512 < off + n" using assms(7) by linarith
  have c: "chunk_result v off n s u ?p" by (rule partialio_write [OF assms(1-4,9,6) lt])
  have body: "if_ok (io_leading cs v (s, u)) (\<lambda>_. io_rest cs v) = ?p"
  proof (cases "off mod 512 = 0")
    case True
    then have "io_rest cs v (s, u) = ?p"
      using assms(5,7,8) aligned [OF assms(4)] by (simp add: io_rest_def)
    then show ?thesis using True io_leading_eq [OF assms(4) o31] by simp
  next
    case False
    have "min (512 - off mod 512) n = n" using assms(9) by simp
    then have "io_leading cs v (s, u) = ?p"
      using io_leading_eq [OF assms(4) o31] assms(5) False by simp
    moreover have "if_ok ?p (\<lambda>_. io_rest cs v) = ?p"
      using c adv by (auto simp: chunk_result_def io_rest_def)
    ultimately show ?thesis by simp
  qed
  have u32: "uio_resid u < 2 ^ 32" using assms(6) by (simp add: uio_ready_def)
  from c show ?thesis unfolding chunk_result_def
  proof (elim disjE exE conjE)
    fix s1
    assume s1: "?p = Some (Ok (), s1, uio_advance n u)" "vstep v s s1" "off + n \<le> 143 * 512"
      "fbytes s1 v = overlay (fbytes s v) off (uio_data u n)" "fsize s1 v = fsize s v"
    have b1: "if_ok (io_leading cs v (s, u)) (\<lambda>_. io_rest cs v) = Some (Ok (), s1, uio_advance n u)"
      using body s1(1) by simp
    show ?thesis
      using sfs_io_out [OF assms(2,3,11) b1 s1(2,5) uio_advance_bounds [OF assms(6,3,4)]] s1 by auto
  next
    fix r s1
    assume s1: "?p = Some (r, s1, u)" "vstep v s s1" "same_data v s s1" "r = Err ENOSPC" "full s1"
      "fblocks s v ! (off div 512) = 0"
    have sz: "fsize s1 v = fsize s v" using s1(3) by (simp add: same_data_def)
    have b1: "if_ok (io_leading cs v (s, u)) (\<lambda>_. io_rest cs v) = Some (r, s1, u)" using body s1(1) by simp
    obtain s2 where "sfs_io cs v (s, u) = Some (r, s2, u)" "vstep v s s2" "fbytes s2 v = fbytes s1 v"
      "fsize s2 v = max (fsize s v) off" "used s2 = used s1"
      using sfs_io_out [OF assms(2,3,11) b1 s1(2) sz assms(3,4) o31 u32] by blast
    moreover have "sfs_super s2 = sfs_super s1"
      using vstep_fields(3) [OF s1(2)] vstep_fields(3) [of v s s2] calculation(2) by simp
    ultimately show ?thesis using s1 assms(10) by (simp add: same_data_def)
  next
    fix r s1
    assume s1: "?p = Some (r, s1, u)" "vstep v s s1" "same_data v s s1" "r = Err EINVAL" "143 * 512 < off + n"
    have sz: "fsize s1 v = fsize s v" using s1(3) by (simp add: same_data_def)
    have b1: "if_ok (io_leading cs v (s, u)) (\<lambda>_. io_rest cs v) = Some (r, s1, u)" using body s1(1) by simp
    show ?thesis
      using sfs_io_out [OF assms(2,3,11) b1 s1(2) sz assms(3,4) o31 u32] s1 assms(10)
      by (auto simp: same_data_def)
  qed
qed

subsection \<open>Media errors\<close>

lemma lhd_io_one:
  assumes "dev_ok lh" "b < d_blocks lh" "uio_offset u = int b * 512" "uio_resid u = 512"
  shows "lhd_io cs lh u = (case lhd_sector cs (if uio_rw u = UIO_WRITE then 3 else 1) b lh u of
        None \<Rightarrow> None | Some (Inl e, lh, u) \<Rightarrow> Some (Err e, lh, u) | Some (Inr _, lh, u) \<Rightarrow> Some (Ok (), lh, u))"
proof -
  have "lhd_io cs lh u = lhd_sectors cs (if uio_rw u = UIO_WRITE then 3 else 1) b (Suc 0) lh u"
    using lhd_io_eq [OF assms(1), of u b 1 cs] assms by simp
  then show ?thesis by (simp split: option.split sum.split prod.split)
qed

lemma rw_retry_read:
  assumes "dev_ok lh" "b < d_blocks lh" "uio_rw u = UIO_READ" "uio_offset u = int b * 512" "uio_resid u = 512"
    "uio_ready cs u 512" "tries + j \<le> 10"
    "\<forall>i < j. dd_fate (lh_disk lh) (dd_transfers (lh_disk lh) + i) \<noteq> None"
    "dd_fate (lh_disk lh) (dd_transfers (lh_disk lh) + j) = None"
  shows "\<exists>lh'. rw_retry cs tries lh u = Some (Ok (), lh', uio_fill (sectors lh b) u)
           \<and> dev_ok lh' \<and> sectors lh' = sectors lh"
  using assms
proof (induction j arbitrary: tries lh)
  case 0
  let ?lh = "dev_done lh b (sectors lh) (sectors lh b) None"
  have "lhd_sector cs 1 b lh u = Some (Ok (), ?lh, uio_fill (sectors lh b) u)"
    using 0 by (intro lhd_sector_read) (simp_all add: fate_now_def)
  then have "rw_retry cs tries lh u = Some (Ok (), ?lh, uio_fill (sectors lh b) u)"
    using lhd_io_one [OF 0(1,2,4,5), of cs] 0(3) by (simp add: rw_retry.simps [of cs tries])
  moreover have "dev_ok ?lh" using 0(1) by (simp add: dev_ok_def [of lh])
  ultimately show ?case by simp
next
  case (Suc j)
  obtain k where k: "dd_fate (lh_disk lh) (dd_transfers (lh_disk lh)) = Some k" using Suc.prems(8) by fastforce
  let ?buf = "take k (sectors lh b) @ drop k (dd_buf (lh_disk lh))"
  let ?lh = "dev_done lh b (sectors lh) ?buf (Some EIO)"
  have "lhd_sector cs 1 b lh u = Some (Err EIO, ?lh, u)"
    using Suc.prems k by (intro lhd_sector_read_fails) (simp_all add: fate_now_def)
  then have r: "rw_retry cs tries lh u = rw_retry cs (tries + 1) ?lh u"
    using lhd_io_one [OF Suc.prems(1,2,4,5), of cs] Suc.prems(3,7) by (simp add: rw_retry.simps [of cs tries])
  have ok: "dev_ok ?lh" "b < d_blocks ?lh" using Suc.prems(1,2) by (simp_all add: dev_ok_def [of lh] min_def)
  have t: "tries + 1 + j \<le> 10" using Suc.prems(7) by simp
  have f: "dd_fate (lh_disk ?lh) = dd_fate (lh_disk lh)" "dd_transfers (lh_disk ?lh) = dd_transfers (lh_disk lh) + 1"
    by (simp_all add: dev_done_def)
  have "\<forall>i < j. dd_fate (lh_disk ?lh) (dd_transfers (lh_disk ?lh) + i) \<noteq> None"
    "dd_fate (lh_disk ?lh) (dd_transfers (lh_disk ?lh) + j) = None"
    using Suc.prems(8,9) f by auto
  then show ?case using Suc.IH [OF ok Suc.prems(3-6) t] r by auto
qed


text \<open>
  C38. A write that meets a media error is lost, and reported as a success. The driver has already taken the
  data out of the uio when the error arrives, so the repeated request in \<^verbatim>\<open>sfs_rwblock\<close> is
  empty and succeeds at once: \<^verbatim>\<open>sfs_wblock\<close> returns 0, while the sector holds only the \<open>k\<close> bytes that
  the failed transfer had stored.
\<close>

theorem sfs_wblock_loses_data:
  assumes "dev_ok (sfs_device s)" "b < d_blocks (sfs_device s)" "length data = 512"
    "fate_now (sfs_device s) = Some k"
  shows "\<exists>s'. sfs_wblock data b s = Some (Ok (), s') \<and> disk s' b = take k data @ drop k (disk s b)"
proof -
  let ?u = "mk_kuio data 512 (int b * 512) UIO_WRITE" and ?lh = "sfs_device s"
  have b: "b + 1 < 2 ^ 22" using assms(1,2) by (simp add: dev_ok_def)
  have r: "uio_ready None ?u 512" using b assms(3) by (intro block_uio_ready) simp_all
  have d: "uio_data ?u 512 = data" using bytes_at_mem_of [of 0 512 data] assms(3) by (simp add: mk_kuio_def)
  let ?lh1 = "dev_done ?lh b ((disk s)(b := take k data @ drop k (disk s b))) data (Some EIO)"
  have "lhd_sector None 3 b ?lh ?u = Some (Err EIO, ?lh1, uio_advance 512 ?u)"
    using lhd_sector_write_fails [OF assms(1,2,4) _ r] d by (simp add: mk_kuio_def)
  then have io: "lhd_io None ?lh ?u = Some (Err EIO, ?lh1, uio_advance 512 ?u)"
    using lhd_io_one [OF assms(1,2), of ?u None] by (simp add: mk_kuio_def)
  have ok: "dev_ok ?lh1" using assms(1,3) by (simp add: dev_ok_def [of ?lh] min_def)
  have a: "uio_offset (uio_advance 512 ?u) = int (512 * (b + 1))" "uio_resid (uio_advance 512 ?u) = 512 * 0"
    using uio_advance_simps(3,4) [OF r] by (simp_all add: mk_kuio_def)
  have "b + 1 + 0 \<le> d_blocks ?lh1" using assms(2) by simp
  then have "lhd_io None ?lh1 (uio_advance 512 ?u) = Some (Ok (), ?lh1, uio_advance 512 ?u)"
    using lhd_io_eq [OF ok a] by simp
  then have "rw_retry None 0 ?lh ?u = Some (Ok (), ?lh1, uio_advance 512 ?u)"
    using io rw_retry_ok by (simp add: rw_retry.simps [of None 0])
  moreover have "s32 (int b * 512) = int b * 512" using b by simp
  ultimately show ?thesis by (simp add: sfs_wblock_def sfs_rwblock_def)
qed

subsection \<open>Files as byte sequences\<close>

text \<open>
  What a file system client sees of a file: its size and the byte at every offset. The abstract read and
  write are those of a byte sequence that grows.
\<close>

type_synonym afile = "nat \<times> (nat \<Rightarrow> byte)"

definition file_of :: "sfs_fs \<Rightarrow> nat \<Rightarrow> afile" where
  "file_of s v = (fsize s v, fbytes s v)"

definition spec_read :: "nat \<Rightarrow> nat \<Rightarrow> afile \<Rightarrow> byte list" where
  "spec_read off n f = map (snd f) [off..<off + min n (fst f - off)]"

definition spec_write :: "nat \<Rightarrow> byte list \<Rightarrow> afile \<Rightarrow> afile" where
  "spec_write off bs f = (max (fst f) (off + length bs), overlay (snd f) off bs)"

lemma spec_read_write:
  "spec_read off (length bs) (spec_write off bs f) = bs"
proof -
  have "min (length bs) (max (fst f) (off + length bs) - off) = length bs" by simp
  then show ?thesis
    by (intro nth_equalityI) (simp_all add: spec_read_def spec_write_def overlay_def)
qed

text \<open>Another file, or anything else whose blocks are in use and not this file's, is left alone.\<close>

lemma vstep_other:
  assumes "vstep v s s'" "inode_shape (disk s) i" "set (own (disk s) a i) \<subseteq> used s - set (fown s v)"
  shows "own (disk s') a i = own (disk s) a i" "content (disk s') i = content (disk s) i"
    "inode_shape (disk s') i" "set (own (disk s') a i) \<subseteq> used s' - set (fown s' v)"
proof -
  have d: "\<forall>b \<in> set (own (disk s) a i). disk s' b = disk s b"
    using assms(1,3) unfolding vstep_def by blast
  note c = own_cong [OF d assms(2)]
  show "own (disk s') a i = own (disk s) a i" "content (disk s') i = content (disk s) i" "inode_shape (disk s') i"
    using c by simp_all
  show "set (own (disk s') a i) \<subseteq> used s' - set (fown s' v)"
    using c(2) assms(1,3) unfolding vstep_def by auto
qed

definition io_request :: "nat ptr \<Rightarrow> uio_rw \<Rightarrow> nat \<Rightarrow> nat \<Rightarrow> uio \<Rightarrow> bool" where
  "io_request cs rw off n u \<longleftrightarrow> uio_rw u = rw \<and> uio_offset u = int off \<and> uio_resid u = n \<and> uio_ready cs u n"

lemma sfs_read_eq:
  assumes "space_ok s" "file_ok s v" "io_request cs UIO_READ off n u" "fsize s v \<le> 143 * 512"
  shows "\<exists>s'. sfs_read cs v (s, u) = Some (Ok (), s', uio_fill (spec_read off n (file_of s v)) u)
           \<and> dev_moves s (disk s) s'"
proof -
  define m where "m = min n (fsize s v - off)"
  have u: "uio_rw u = UIO_READ" "uio_offset u = int off" "uio_resid u = n" "uio_ready cs u n"
    using assms(3) by (simp_all add: io_request_def)
  have r: "uio_ready cs u m" using u(4) by (rule uio_ready_mono) (simp add: m_def)
  have o: "off + n < 2 ^ 31" using u(2,4) by (simp add: uio_ready_def)
  have "m = 0 \<or> off + m \<le> 143 * 512" using assms(4) by (auto simp: m_def)
  moreover have "off < fsize s v \<longrightarrow> off < 143 * 512" using assms(4) by simp
  moreover have "fsize s v < 2 ^ 31" using assms(4) by simp
  ultimately have "\<exists>s'. sfs_io cs v (s, u) = Some (Ok (), s', uio_fill (map (fbytes s v) [off..<off + m]) u)
      \<and> dev_moves s (disk s) s'"
    using sfs_io_read [OF assms(1,2) u(1-3) o _ m_def _ _ r] by blast
  then show ?thesis using u(1) by (simp add: sfs_read_def spec_read_def file_of_def m_def)
qed

text \<open>A file has at most 145 blocks, so a write cannot fill a disk with more free blocks than that.\<close>

lemma vstep_not_full:
  assumes "space_ok s" "file_ok s v" "vstep v s s'" "145 \<le> card ({..<nblk s} - used s)"
  shows "\<not> full s'"
proof
  assume f: "full s'"
  have sh: "inode_shape (disk s') (fi s' v)" using vstep_fields(1,2) [OF assms(3)] by (rule file_shape)
  have "length (fown s' v) \<le> Suc (length (slots (disk s') (fi s' v)))" by (simp add: own_def)
  also have "\<dots> = 145" using length_fmap [OF sh] by (simp add: slots_def)
  finally have le: "length (fown s' v) \<le> 145" .
  have ino: "fino s v \<in> used s" "fino s' v = fino s v"
    using assms(2) vstep_fields(6) [OF assms(3)] by (auto simp: file_ok_def own_def)
  have "{..<nblk s} - used s \<subseteq> set (fown s' v) - {fino s v}"
    using f assms(3) vstep_fields(3) [OF assms(3)] ino(1) unfolding vstep_def by auto
  then have "card ({..<nblk s} - used s) \<le> card (set (fown s' v) - {fino s v})" by (intro card_mono) simp_all
  also have "\<dots> = card (set (fown s' v)) - 1"
    using ino(2) by (intro card_Diff_singleton) (simp add: own_def)
  also have "\<dots> < 145" using card_length [of "fown s' v"] le by simp
  finally show False using assms(4) by simp
qed

subsection \<open>A sample file system\<close>

text \<open>
  A file system of 512 blocks: superblock, root inode, free map, and in block 3 the inode of an empty
  file whose vnode is at address 100.
\<close>

definition sample_inode :: sfs_inode where
  "sample_inode = \<lparr>sfi_size = 0, sfi_type = 1, sfi_linkcount = 1, sfi_direct = replicate 15 0,
     sfi_indirect = 0, sfi_waste = replicate 110 0\<rparr>"

definition sample_vnode :: sfs_vnode where
  "sample_vnode = \<lparr>sv_v = \<lparr>vn_refcount = 1, vn_opencount = 0, vn_countlock = Some \<lparr>lk_name = ''vnode-countlock''\<rparr>,
       vn_fs = Some 0, vn_ops = Some Sfs_fileops\<rparr>, sv_i = sample_inode, sv_ino = 3, sv_dirty = True\<rparr>"

definition sample_fs :: sfs_fs where
  "sample_fs = \<lparr>sfs_super = \<lparr>sp_magic = SFS_MAGIC, sp_nblocks = 512, sp_volname = replicate 32 0,
       sp_reserved = replicate 118 0\<rparr>, sfs_superdirty = False, sfs_device = sample_disk 512,
     sfs_vnodes = \<lparr>anum = 1, amax = 1, av = Some [Some 100]\<rparr>,
     sfs_freemap = \<lparr>bm_nbits = 4096, bm_v = 0x0f # replicate 63 0 @ replicate 448 0xff\<rparr>,
     sfs_freemapdirty = True, sfs_pool = [100 \<mapsto> sample_vnode]\<rparr>"

lemma sample_marked: "used sample_fs = {..<4} \<union> {512..<4096}"
proof -
  have bits: "bit (0xff :: byte) k \<longleftrightarrow> k < 8" "bit (0x0f :: byte) k \<longleftrightarrow> k < 4" for k
  proof -
    have m: "(0xff :: byte) = mask 8" "(0x0f :: byte) = mask 4" by (simp_all add: mask_eq_exp_minus_1)
    show "bit (0xff :: byte) k \<longleftrightarrow> k < 8" unfolding m(1) bit_mask_iff by auto
    show "bit (0x0f :: byte) k \<longleftrightarrow> k < 4" unfolding m(2) bit_mask_iff by auto
  qed
  have "i \<in> used sample_fs \<longleftrightarrow> i \<in> {..<4} \<union> {512..<4096}" for i
  proof (cases "i < 4096")
    case True
    have d: "i div 8 < 512" using True by (simp add: less_mult_imp_div_less)
    have "(0x0f # replicate 63 0 @ replicate 448 0xff :: byte list) ! q
        = (if q = 0 then 0x0f else if q < 64 then 0 else 0xff)" if "q < 512" for q
      using that by (auto simp: nth_Cons' nth_append)
    from this [OF d] have v: "(0x0f # replicate 63 0 @ replicate 448 0xff :: byte list) ! (i div 8)
        = (if i div 8 = 0 then 0x0f else if i div 8 < 64 then 0 else 0xff)" .
    have dv: "i div 8 = 0 \<longleftrightarrow> i < 8" "i div 8 < 64 \<longleftrightarrow> i < 512"
      by (simp_all add: div_eq_0_iff less_mult_imp_div_less div_less_iff_less_mult)
    have "bit_at (sfs_freemap sample_fs) i \<longleftrightarrow> bit (if i < 8 then 0x0f else if i < 512 then 0 else 0xff :: byte) (i mod 8)"
      unfolding bit_at_def sample_fs_def using v dv by simp
    also have "\<dots> \<longleftrightarrow> i < 4 \<or> 512 \<le> i"
    proof -
      consider "i < 8" | "8 \<le> i" "i < 512" | "512 \<le> i" by linarith
      then show ?thesis using bits(1) [of "i mod 8"] bits(2) [of i] by cases simp_all
    qed
    finally show ?thesis using True by (auto simp: marked_def) (simp_all add: sample_fs_def)
  qed (simp add: sample_fs_def marked_def)
  then show ?thesis by blast
qed

lemma sample_bitmap_full: "bitmap_ok (sfs_freemap sample_fs)"
  by (simp add: bitmap_ok_def sample_fs_def DIVROUNDUP_def)

lemma sample_sys: "sysblocks sample_fs = {0, 2}"
  by (auto simp: sysblocks_def sample_fs_def SFS_BITBLOCKS_def SFS_BITMAPSIZE_def SFS_ROUNDUP_def)

lemma sample_fs_ok: "space_ok sample_fs" "file_ok sample_fs 100" "fsize sample_fs 100 = 0"
proof -
  have d: "dev_good sample_fs" using sample_disk_ok [of 512] by (simp add: dev_good_def sample_fs_def)
  have "{nblk sample_fs..<bm_nbits (sfs_freemap sample_fs)} = {512..<4096}" by (simp add: sample_fs_def)
  then show "space_ok sample_fs"
    using d sample_bitmap_full sample_marked sample_sys sample_disk_ok [of 512]
    by (simp add: space_ok_def) (simp add: sample_fs_def)
  have "fown sample_fs 100 = [3]"
    by (simp add: own_def slots_def fmap_def id_words_def sample_fs_def sample_vnode_def sample_inode_def)
  then show "file_ok sample_fs 100"
    using sample_marked sample_sys
    by (simp add: file_ok_def) (simp add: sample_fs_def sample_vnode_def sample_inode_def inode_wf_def)
  show "fsize sample_fs 100 = 0" by (simp add: sample_fs_def sample_vnode_def sample_inode_def)
qed

subsection \<open>Properties\<close>

text \<open>
  C4. \<^verbatim>\<open>sfs_write\<close> refines the write of a byte sequence. For a request at any offset and length, on a
  consistent file system without media errors, the call returns; the file afterwards is the old one
  overlaid with the first \<open>k\<close> bytes of the data, where \<open>k\<close> is the amount the uio advanced. All bytes are
  written unless the disk is full (\<^const>\<open>ENOSPC\<close>) or the file would exceed 143 blocks
  (\<^const>\<open>EINVAL\<close>). Every other file keeps its blocks and its contents, and the invariants hold again.
\<close>

theorem sfs_write_refines:
  assumes "space_ok s" "file_ok s v" "io_request cs UIO_WRITE off n u" "fsize s v < 2 ^ 31"
  shows "\<exists>r k s'. sfs_write cs v (s, u) = Some (r, s', uio_advance k u) \<and> k \<le> n
     \<and> file_of s' v = spec_write off (uio_data u k) (file_of s v)
     \<and> (r = Ok () \<and> k = n \<or> r = Err ENOSPC \<and> full s' \<or> r = Err EINVAL \<and> 143 * 512 < off + n)
     \<and> space_ok s' \<and> file_ok s' v
     \<and> (\<forall>a i. inode_shape (disk s) i \<and> set (own (disk s) a i) \<subseteq> used s - set (fown s v) \<longrightarrow>
          own (disk s') a i = own (disk s) a i \<and> content (disk s') i = content (disk s) i
          \<and> set (own (disk s') a i) \<subseteq> used s' - set (fown s' v))"
proof -
  have u: "uio_rw u = UIO_WRITE" "uio_offset u = int off" "uio_resid u = n" "uio_ready cs u n"
    using assms(3) by (simp_all add: io_request_def)
  obtain r k s' where s': "sfs_io cs v (s, u) = Some (r, s', uio_advance k u)" "k \<le> n"
    "r = Ok () \<and> k = n \<or> r = Err ENOSPC \<and> full s' \<or> r = Err EINVAL \<and> 143 * 512 < off + n"
    "vstep v s s'" "fbytes s' v = overlay (fbytes s v) off (uio_data u k)" "fsize s' v = max (fsize s v) (off + k)"
    using sfs_io_write [OF assms(1,2) u assms(4)] by blast
  have "file_of s' v = spec_write off (uio_data u k) (file_of s v)"
    using s'(5,6) by (simp add: file_of_def spec_write_def)
  moreover have "sfs_write cs v (s, u) = Some (r, s', uio_advance k u)" using s'(1) u(1) by (simp add: sfs_write_def)
  ultimately show ?thesis using s'(2,3) vstep_fields(1,2) [OF s'(4)] vstep_other [OF s'(4)] by blast
qed

text \<open>
  C14. \<^verbatim>\<open>sfs_read\<close> delivers the contents of the file. On a consistent file system, a read at any offset
  fills the buffer with the bytes of the file from there up to the requested length or the end of the
  file, advances the uio by exactly that amount, and changes neither the file system nor any sector.
\<close>

theorem sfs_read_refines:
  assumes "space_ok s" "file_ok s v" "io_request cs UIO_READ off n u" "fsize s v \<le> 143 * 512"
  shows "\<exists>s'. sfs_read cs v (s, u) = Some (Ok (), s', uio_fill (spec_read off n (file_of s v)) u)
     \<and> disk s' = disk s \<and> sfs_pool s' = sfs_pool s \<and> sfs_freemap s' = sfs_freemap s \<and> space_ok s' \<and> file_ok s' v"
proof -
  obtain s' where s': "sfs_read cs v (s, u) = Some (Ok (), s', uio_fill (spec_read off n (file_of s v)) u)"
    "dev_moves s (disk s) s'" using sfs_read_eq [OF assms] by blast
  then show ?thesis using dev_moves_fields [OF s'(2)] dev_moves_file(5,6) [OF assms(1,2) s'(2)] by simp
qed

text \<open>
  C17. What was written is read back: after a successful write of \<open>n\<close> bytes, a read of \<open>n\<close> bytes at the same
  offset delivers exactly the data of the write, through a buffer in any address space.
\<close>

theorem sfs_write_then_read:
  assumes "space_ok s" "file_ok s v" "io_request cs UIO_WRITE off n u" "0 < n" "fsize s v \<le> 143 * 512"
    "sfs_write cs v (s, u) = Some (Ok (), s1, u1)" "io_request cs' UIO_READ off n u2"
  shows "\<exists>s2. sfs_read cs' v (s1, u2) = Some (Ok (), s2, uio_fill (uio_data u n) u2)"
proof -
  have u: "uio_rw u = UIO_WRITE" "uio_offset u = int off" "uio_resid u = n" "uio_ready cs u n"
    using assms(3) by (simp_all add: io_request_def)
  have sz: "fsize s v < 2 ^ 31" using assms(5) by simp
  obtain r k s' where s': "sfs_io cs v (s, u) = Some (r, s', uio_advance k u)" "k = 0 \<or> off + k \<le> 143 * 512"
    "r = Ok () \<and> k = n \<or> r = Err ENOSPC \<and> full s' \<or> r = Err EINVAL \<and> 143 * 512 < off + n"
    "vstep v s s'" "fbytes s' v = overlay (fbytes s v) off (uio_data u k)" "fsize s' v = max (fsize s v) (off + k)"
    using sfs_io_write [OF assms(1,2) u sz] by blast
  have e: "s' = s1" "r = Ok ()" "k = n" using s'(1,3) assms(6) u(1) by (auto simp: sfs_write_def)
  have f: "file_of s1 v = spec_write off (uio_data u n) (file_of s v)"
    using s'(5,6) e by (simp add: file_of_def spec_write_def)
  have "fsize s1 v \<le> 143 * 512" using s'(2,6) e assms(4,5) by simp
  then obtain s2 where "sfs_read cs' v (s1, u2) = Some (Ok (), s2, uio_fill (spec_read off n (file_of s1 v)) u2)"
    using sfs_read_eq [OF vstep_fields(1,2) [OF s'(4)]] e assms(7) by blast
  moreover have "spec_read off n (file_of s1 v) = uio_data u n"
    using f spec_read_write [of off "uio_data u n" "file_of s v"] assms(4) by simp
  ultimately show ?thesis by simp
qed

text \<open>
  A write that fails can still grow the file. When the offset lies beyond the largest possible file, no
  byte is transferred and the call returns an error, but \<^verbatim>\<open>sfs_io\<close> sets the size of the file to that
  offset all the same.
\<close>

theorem failed_write_grows_file:
  assumes "space_ok s" "file_ok s v" "io_request cs UIO_WRITE off n u" "0 < n" "143 * 512 \<le> off" "fsize s v < off"
  shows "\<exists>e s'. sfs_write cs v (s, u) = Some (Err e, s', u) \<and> fsize s' v = off \<and> fbytes s' v = fbytes s v"
proof -
  have u: "uio_rw u = UIO_WRITE" "uio_offset u = int off" "uio_resid u = n" "uio_ready cs u n"
    using assms(3) by (simp_all add: io_request_def)
  have o: "off < 2 ^ 31" using u(2,4) by (simp add: uio_ready_def)
  then have sz: "fsize s v < 2 ^ 31" using assms(6) by simp
  obtain r k s' where s': "sfs_io cs v (s, u) = Some (r, s', uio_advance k u)" "k = 0 \<or> off + k \<le> 143 * 512"
    "r = Ok () \<and> k = n \<or> r = Err ENOSPC \<and> full s' \<or> r = Err EINVAL \<and> 143 * 512 < off + n"
    "fbytes s' v = overlay (fbytes s v) off (uio_data u k)" "fsize s' v = max (fsize s v) (off + k)"
    using sfs_io_write [OF assms(1,2) u sz] by blast
  have k: "k = 0" using s'(2) assms(5) by auto
  have u0: "uio_advance 0 u = u" using uio_ready_mono [OF u(4), of 0] uio_advance_0 by auto
  have "sfs_write cs v (s, u) = Some (r, s', u)" using s'(1) k u0 u(1) by (simp add: sfs_write_def)
  then show ?thesis using s'(3-5) k assms(4,6) by auto
qed

text \<open>
  C16. A write that stays within the largest file size succeeds, and takes all its data, whenever 145 blocks are
  free.
\<close>

theorem sfs_write_succeeds:
  assumes "space_ok s" "file_ok s v" "io_request cs UIO_WRITE off n u" "fsize s v \<le> 143 * 512"
    "off + n \<le> 143 * 512" "145 \<le> card ({..<nblk s} - used s)"
  shows "\<exists>s'. sfs_write cs v (s, u) = Some (Ok (), s', uio_advance n u)
     \<and> file_of s' v = spec_write off (uio_data u n) (file_of s v)"
proof -
  have u: "uio_rw u = UIO_WRITE" "uio_offset u = int off" "uio_resid u = n" "uio_ready cs u n"
    using assms(3) by (simp_all add: io_request_def)
  have sz: "fsize s v < 2 ^ 31" using assms(4) by simp
  obtain r k s' where s': "sfs_io cs v (s, u) = Some (r, s', uio_advance k u)"
    "r = Ok () \<and> k = n \<or> r = Err ENOSPC \<and> full s' \<or> r = Err EINVAL \<and> 143 * 512 < off + n"
    "vstep v s s'" "fbytes s' v = overlay (fbytes s v) off (uio_data u k)" "fsize s' v = max (fsize s v) (off + k)"
    using sfs_io_write [OF assms(1,2) u sz] by blast
  have r: "r = Ok ()" "k = n" using s'(2) vstep_not_full [OF assms(1,2) s'(3) assms(6)] assms(5) by auto
  have "file_of s' v = spec_write off (uio_data u n) (file_of s v)"
    using s'(4,5) r(2) by (simp add: file_of_def spec_write_def)
  moreover have "sfs_write cs v (s, u) = Some (Ok (), s', uio_advance n u)"
    using s'(1) r u(1) by (simp add: sfs_write_def)
  ultimately show ?thesis by blast
qed

subsection \<open>Witnesses\<close>

lemma sample_request:
  "length bs = n \<Longrightarrow> off + n < 2 ^ 31 \<Longrightarrow> io_request None rw off n (mk_kuio bs n (int off) rw)"
  by (simp add: io_request_def uio_ready_def mk_kuio_def)

lemma sample_free: "card ({..<nblk sample_fs} - used sample_fs) = 508"
proof -
  have "{..<nblk sample_fs} - used sample_fs = {4..<512}"
    unfolding sample_marked by (auto simp: sample_fs_def)
  then show ?thesis by simp
qed

theorem sfs_write_refines_witness:
  "\<exists>r k s'. sfs_write None 100 (sample_fs, mk_kuio [1, 2, 3] 3 1000 UIO_WRITE)
       = Some (r, s', uio_advance k (mk_kuio [1, 2, 3] 3 1000 UIO_WRITE)) \<and> k \<le> 3
     \<and> file_of s' 100 = spec_write 1000 (uio_data (mk_kuio [1, 2, 3] 3 1000 UIO_WRITE) k) (file_of sample_fs 100)"
proof -
  have r: "io_request None UIO_WRITE 1000 3 (mk_kuio [1, 2, 3] 3 1000 UIO_WRITE)"
    using sample_request [of "[1, 2, 3]" 3 1000 UIO_WRITE] by simp
  have "fsize sample_fs 100 < 2 ^ 31" using sample_fs_ok(3) by simp
  from sfs_write_refines [OF sample_fs_ok(1,2) r this] show ?thesis by blast
qed

theorem sfs_read_refines_witness:
  "\<exists>s'. sfs_read None 100 (sample_fs, mk_kuio [0, 0] 2 0 UIO_READ)
     = Some (Ok (), s', uio_fill (spec_read 0 2 (file_of sample_fs 100)) (mk_kuio [0, 0] 2 0 UIO_READ))"
proof -
  have r: "io_request None UIO_READ 0 2 (mk_kuio [0, 0] 2 0 UIO_READ)"
    using sample_request [of "[0, 0]" 2 0 UIO_READ] by simp
  have "fsize sample_fs 100 \<le> 143 * 512" using sample_fs_ok(3) by simp
  from sfs_read_refines [OF sample_fs_ok(1,2) r this] show ?thesis by blast
qed

lemma sample_written:
  "\<exists>s'. sfs_write None 100 (sample_fs, mk_kuio [1, 2, 3] 3 1000 UIO_WRITE)
     = Some (Ok (), s', uio_advance 3 (mk_kuio [1, 2, 3] 3 1000 UIO_WRITE))"
proof -
  let ?u = "mk_kuio [1, 2, 3] 3 1000 UIO_WRITE"
  have u: "uio_rw ?u = UIO_WRITE" "uio_offset ?u = int 1000" "uio_resid ?u = 3" "uio_ready None ?u 3"
    using sample_request [of "[1, 2, 3]" 3 1000 UIO_WRITE] by (simp_all add: io_request_def)
  have "fsize sample_fs 100 < 2 ^ 31" using sample_fs_ok(3) by simp
  then obtain r k s' where s': "sfs_io None 100 (sample_fs, ?u) = Some (r, s', uio_advance k ?u)"
    "r = Ok () \<and> k = 3 \<or> r = Err ENOSPC \<and> full s' \<or> r = Err EINVAL \<and> 143 * 512 < 1000 + (3::nat)"
    "vstep 100 sample_fs s'"
    using sfs_io_write [OF sample_fs_ok(1,2) u] by blast
  have "145 \<le> card ({..<nblk sample_fs} - used sample_fs)" using sample_free by simp
  with s' vstep_not_full [OF sample_fs_ok(1,2) s'(3)] u(1) show ?thesis by (auto simp: sfs_write_def)
qed

theorem sfs_write_then_read_witness:
  "\<exists>s1 u1 s2. sfs_write None 100 (sample_fs, mk_kuio [1, 2, 3] 3 1000 UIO_WRITE) = Some (Ok (), s1, u1)
     \<and> sfs_read None 100 (s1, mk_kuio [0, 0, 0] 3 1000 UIO_READ)
       = Some (Ok (), s2, uio_fill [1, 2, 3] (mk_kuio [0, 0, 0] 3 1000 UIO_READ))"
proof -
  let ?w = "mk_kuio [1, 2, 3] 3 1000 UIO_WRITE" and ?r = "mk_kuio [0, 0, 0] 3 1000 UIO_READ"
  have w: "io_request None UIO_WRITE 1000 3 ?w" and r: "io_request None UIO_READ 1000 3 ?r"
    using sample_request [of "[1, 2, 3]" 3 1000 UIO_WRITE] sample_request [of "[0, 0, 0]" 3 1000 UIO_READ] by simp_all
  have sz: "fsize sample_fs 100 \<le> 143 * 512" using sample_fs_ok(3) by simp
  obtain s1 where s1: "sfs_write None 100 (sample_fs, ?w) = Some (Ok (), s1, uio_advance 3 ?w)"
    using sample_written by blast
  have "uio_data ?w 3 = [1, 2, 3]" by (simp add: mk_kuio_def bytes_at_mem_of)
  then show ?thesis using sfs_write_then_read [OF sample_fs_ok(1,2) w _ sz s1 r] s1 by auto
qed

theorem failed_write_grows_file_witness:
  "\<exists>e s'. sfs_write None 100 (sample_fs, mk_kuio [1] 1 1000000 UIO_WRITE)
      = Some (Err e, s', mk_kuio [1] 1 1000000 UIO_WRITE) \<and> fsize s' 100 = 1000000"
proof -
  have w: "io_request None UIO_WRITE 1000000 1 (mk_kuio [1] 1 1000000 UIO_WRITE)"
    using sample_request [of "[1]" 1 1000000 UIO_WRITE] by simp
  have "fsize sample_fs 100 < 1000000" using sample_fs_ok(3) by simp
  from failed_write_grows_file [OF sample_fs_ok(1,2) w _ _ this] show ?thesis by auto
qed

theorem sfs_write_succeeds_witness:
  "\<exists>s'. sfs_write None 100 (sample_fs, mk_kuio (replicate 5000 9) 5000 20 UIO_WRITE)
      = Some (Ok (), s', uio_advance 5000 (mk_kuio (replicate 5000 9) 5000 20 UIO_WRITE))"
proof -
  have w: "io_request None UIO_WRITE 20 5000 (mk_kuio (replicate 5000 9) 5000 20 UIO_WRITE)"
    using sample_request [of "replicate 5000 9" 5000 20 UIO_WRITE] by simp
  have "fsize sample_fs 100 \<le> 143 * 512" "145 \<le> card ({..<nblk sample_fs} - used sample_fs)"
    using sample_fs_ok(3) sample_free by simp_all
  from sfs_write_succeeds [OF sample_fs_ok(1,2) w this(1) _ this(2)] show ?thesis by auto
qed

text \<open>A file system on a disk whose next transfers fail, the failing ones after 100 bytes.\<close>

definition ailing_fs :: "nat \<Rightarrow> sfs_fs" where
  "ailing_fs n = sample_fs\<lparr>sfs_device := (sample_disk 512)\<lparr>lh_disk := (lh_disk (sample_disk 512))
     \<lparr>dd_fate := (\<lambda>i. if i < n then Some 100 else None)\<rparr>\<rparr>\<rparr>"

lemma ailing_dev:
  "dev_ok (sfs_device (ailing_fs n))" "d_blocks (sfs_device (ailing_fs n)) = 512"
  "dd_transfers (lh_disk (sfs_device (ailing_fs n))) = 0"
  "dd_fate (lh_disk (sfs_device (ailing_fs n))) = (\<lambda>i. if i < n then Some 100 else None)"
  "disk (ailing_fs n) b = replicate 512 0"
  by (simp_all add: ailing_fs_def dev_ok_def sample_disk_def)


theorem sfs_wblock_loses_data_witness:
  "\<exists>s'. sfs_wblock (replicate 512 1) 7 (ailing_fs 1) = Some (Ok (), s')
     \<and> disk s' 7 = replicate 100 1 @ replicate 412 0"
  using sfs_wblock_loses_data [of "ailing_fs 1" 7 "replicate 512 1" 100]
  by (simp add: ailing_dev fate_now_def)

end
