(* ===== verification/SfsDir.thy ===== *)
theory SfsDir
  imports SfsIo
begin

section \<open>SFS directories\<close>

text \<open>
  The directory part of \<^verbatim>\<open>kern/fs/sfs/sfs_vnode.c\<close>. A directory is a file of 64-byte entries; an entry whose inode
  number is 0 is free. Names are C strings, here the list of their bytes without the terminator.
\<close>

definition sizeof_sfs_dir :: nat where [simp]: "sizeof_sfs_dir = 64"

definition sfs_readdir :: "nat \<Rightarrow> int \<Rightarrow> sfs_fs \<Rightarrow> (sfs_dir res \<times> sfs_fs) run" where
  "sfs_readdir v slot s = do {
     let actualpos = s32 (slot * int sizeof_sfs_dir);
     let ku = mk_kuio (replicate 64 0) sizeof_sfs_dir actualpos UIO_READ;
     (r, s, ku) \<leftarrow> sfs_io NULL v (s, ku);
     case r of
       Inl e \<Rightarrow> Some (Err e, s)
     | Inr _ \<Rightarrow> do {
         kassert (\<not> uio_resid ku > 0);
         Some (Ok (bytes_dir (bytes_at (iov_mem ku) 0 sizeof_sfs_dir)), s)
       }
   }"

definition sfs_writedir :: "nat \<Rightarrow> sfs_dir \<Rightarrow> int \<Rightarrow> sfs_fs \<Rightarrow> (unit res \<times> sfs_fs) run" where
  "sfs_writedir v sd slot s = do {
     kassert (slot \<ge> 0);
     let actualpos = s32 (slot * int sizeof_sfs_dir);
     let ku = mk_kuio (dir_bytes sd) sizeof_sfs_dir actualpos UIO_WRITE;
     (r, s, ku) \<leftarrow> sfs_io NULL v (s, ku);
     case r of
       Inl e \<Rightarrow> Some (Err e, s)
     | Inr _ \<Rightarrow> do {
         kassert (\<not> uio_resid ku > 0);
         Some (Ok (), s)
       }
   }"

definition sfs_dir_nentries :: "nat \<Rightarrow> sfs_fs \<Rightarrow> nat run" where
  "sfs_dir_nentries v s = do {
     sv \<leftarrow> sfs_pool s v;
     kassert (sfi_type (sv_i sv) = SFS_TYPE_DIR);
     kassert (sfi_size (sv_i sv) mod sizeof_sfs_dir = 0);
     Some (sfi_size (sv_i sv) div sizeof_sfs_dir)
   }"

text \<open>The string in a name field, with the last byte set to the terminator.\<close>

definition name_of :: "sfs_dir \<Rightarrow> byte list" where
  "name_of sd = takeWhile (\<lambda>c. c \<noteq> 0) ((sfd_name sd)[SFS_NAMELEN - 1 := 0])"

text \<open>
  The loop of \<^verbatim>\<open>sfs_dir_findname\<close>: the inode number and slot of the name, if it was found, and the
  last free slot seen. Returning \<^const>\<open>ENOENT\<close> is the result \<open>Ok (None, _)\<close> here.
\<close>

fun findname_loop ::
  "nat \<Rightarrow> byte list \<Rightarrow> nat list \<Rightarrow> (nat \<times> nat) option \<times> nat option \<Rightarrow> sfs_fs
     \<Rightarrow> (((nat \<times> nat) option \<times> nat option) res \<times> sfs_fs) run" where
  "findname_loop v name [] acc s = Some (Ok acc, s)"
| "findname_loop v name (i # is) (found, emptyslot) s =
     if_ok (sfs_readdir v (int i) s) (\<lambda>tsd s.
       if sfd_ino tsd = SFS_NOINO then findname_loop v name is (found, Some i) s
       else if name_of tsd = name then do {
         kassert (found = None);
         findname_loop v name is (Some (sfd_ino tsd, i), emptyslot) s
       }
       else findname_loop v name is (found, emptyslot) s)"

definition sfs_dir_findname ::
  "nat \<Rightarrow> byte list \<Rightarrow> sfs_fs \<Rightarrow> (((nat \<times> nat) option \<times> nat option) res \<times> sfs_fs) run" where
  "sfs_dir_findname v name s = do {
     nentries \<leftarrow> sfs_dir_nentries v s;
     findname_loop v name [0..<nentries] (None, None) s
   }"

text \<open>The result is the slot of the new entry.\<close>

definition sfs_dir_link :: "nat \<Rightarrow> byte list \<Rightarrow> nat \<Rightarrow> sfs_fs \<Rightarrow> (nat res \<times> sfs_fs) run" where
  "sfs_dir_link v name ino s =
     if_ok (sfs_dir_findname v name s) (\<lambda>(found, emptyslot) s.
       if found \<noteq> None then Some (Err EEXIST, s)
       else if length name + 1 > SFS_NAMELEN then Some (Err ENAMETOOLONG, s)
       else do {
         slot \<leftarrow> (case emptyslot of Some e \<Rightarrow> Some e | None \<Rightarrow> sfs_dir_nentries v s);
         let sd = \<lparr>sfd_ino = ino, sfd_name = name @ replicate (SFS_NAMELEN - length name) 0\<rparr>;
         if_ok (sfs_writedir v sd (int slot) s) (\<lambda>_ s. Some (Ok slot, s))
       })"

definition sfs_dir_unlink :: "nat \<Rightarrow> nat \<Rightarrow> sfs_fs \<Rightarrow> (unit res \<times> sfs_fs) run" where
  "sfs_dir_unlink v slot s =
     sfs_writedir v \<lparr>sfd_ino = SFS_NOINO, sfd_name = replicate SFS_NAMELEN 0\<rparr> (int slot) s"

subsection \<open>Reading and writing entries\<close>

text \<open>The entries of a directory are read off the contents of its file.\<close>

definition dent :: "(nat \<Rightarrow> byte) \<Rightarrow> nat \<Rightarrow> sfs_dir" where
  "dent f k = bytes_dir (map f [64 * k..<64 * k + 64])"

definition dents :: "sfs_fs \<Rightarrow> nat \<Rightarrow> sfs_dir list" where
  "dents s v = map (dent (fbytes s v)) [0..<fsize s v div 64]"

abbreviation live :: "sfs_dir \<Rightarrow> bool" where
  "live d \<equiv> sfd_ino d \<noteq> 0"

definition names_ok :: "sfs_dir list \<Rightarrow> bool" where
  "names_ok ds \<longleftrightarrow> (\<forall>i < length ds. \<forall>j < length ds. live (ds ! i) \<and> live (ds ! j) \<and> name_of (ds ! i) = name_of (ds ! j) \<longrightarrow> i = j)"

definition dir_ok :: "sfs_fs \<Rightarrow> nat \<Rightarrow> bool" where
  "dir_ok s v \<longleftrightarrow> file_ok s v \<and> sfi_type (fi s v) = SFS_TYPE_DIR \<and> fsize s v mod 64 = 0
     \<and> fsize s v \<le> 143 * 512 \<and> names_ok (dents s v)"

lemma length_dents [simp]: "length (dents s v) = fsize s v div 64"
  by (simp add: dents_def)

lemma dents_nth [simp]: "k < fsize s v div 64 \<Longrightarrow> dents s v ! k = dent (fbytes s v) k"
  by (simp add: dents_def)

lemma dents_same_data: "same_data v s s' \<Longrightarrow> dents s' v = dents s v"
  by (simp add: dents_def same_data_def)

lemma dir_ok_size: "dir_ok s v \<Longrightarrow> fsize s v = 64 * (fsize s v div 64)" "dir_ok s v \<Longrightarrow> fsize s v div 64 \<le> 1144"
  by (auto simp: dir_ok_def)

lemma entry_uio_ready:
  "k \<le> 1144 \<Longrightarrow> length data = 64 \<Longrightarrow> uio_ready cs (mk_kuio data 64 (int k * 64) rw) 64"
  by (simp add: uio_ready_def mk_kuio_def)

lemma sfs_readdir_ok:
  assumes "space_ok s" "dir_ok s v" "k < fsize s v div 64"
  shows "\<exists>s'. sfs_readdir v (int k) s = Some (Ok (dents s v ! k), s') \<and> dev_moves s (disk s) s'"
proof -
  let ?u = "mk_kuio (replicate 64 0) 64 (int k * 64) UIO_READ"
  let ?bs = "map (fbytes s v) [k * 64..<k * 64 + 64]"
  have k: "k < 1144" "64 * k + 64 \<le> fsize s v" "fsize s v \<le> 143 * 512"
    using dir_ok_size [OF assms(2)] assms(2,3) by (auto simp: dir_ok_def)
  have r: "uio_ready NULL ?u 64" using k(1) by (intro entry_uio_ready) simp_all
  have pos: "s32 (int k * 64) = int k * 64" using k(1) by simp
  have m: "64 = min 64 (fsize s v - k * 64)" using k(2) by simp
  obtain s' where s': "sfs_io NULL v (s, ?u) = Some (Ok (), s', uio_fill ?bs ?u)" "dev_moves s (disk s) s'"
    using sfs_io_read [OF assms(1) _ _ _ _ _ _ m _ _ r] assms(2) k by (auto simp: mk_kuio_def dir_ok_def)
  have r': "uio_ready NULL ?u (length ?bs)" using r by simp
  have "uio_resid (uio_fill ?bs ?u) = 0" using uio_fill_simps(3) [OF r'] by (simp add: mk_kuio_def)
  moreover have "bytes_at (iov_mem (uio_fill ?bs ?u)) 0 64 = ?bs"
    using uio_fill_simps(5) [OF r'] bytes_at_put [of _ 0 ?bs] by (simp add: mk_kuio_def)
  ultimately show ?thesis
    using s' pos assms(3) by (auto simp: sfs_readdir_def Let_def dent_def mult.commute)
qed

definition store_slot :: "nat \<Rightarrow> 'a \<Rightarrow> 'a list \<Rightarrow> 'a list" where
  "store_slot k d ds = (if k < length ds then ds[k := d] else ds @ [d])"

lemma dents_overlay:
  assumes "fbytes s' v = overlay (fbytes s v) (k * 64) (dir_bytes sd)" "fsize s' v = max (fsize s v) (k * 64 + 64)"
    "fsize s v = 64 * n" "k \<le> n" "dir_wf sd"
  shows "dents s' v = store_slot k sd (dents s v)"
proof -
  have ent: "dent (overlay f (k * 64) (dir_bytes sd)) i = (if i = k then sd else dent f i)" for f i
  proof (cases "i = k")
    case True
    have "map (overlay f (k * 64) (dir_bytes sd)) [64 * k..<64 * k + 64] = dir_bytes sd"
      using length_dir_bytes [OF assms(5)] by (intro nth_equalityI) (auto simp: overlay_def)
    then show ?thesis using True bytes_dir_bytes [OF assms(5)] by (simp add: dent_def)
  next
    case False
    then have "\<not> (k * 64 \<le> x \<and> x < k * 64 + 64)" if "64 * i \<le> x" "x < 64 * i + 64" for x
      using that by linarith
    then have "map (overlay f (k * 64) (dir_bytes sd)) [64 * i..<64 * i + 64] = map f [64 * i..<64 * i + 64]"
      using length_dir_bytes [OF assms(5)] by (intro map_cong refl) (force simp: overlay_def)
    then show ?thesis using False by (simp only: dent_def if_False)
  qed
  have l: "fsize s' v div 64 = (if k < n then n else Suc n)" "fsize s v div 64 = n"
    using assms(2-4) by (auto simp: max_def)
  show ?thesis
  proof (cases "k < n")
    case True
    then show ?thesis using assms(1) ent l
      by (intro nth_equalityI) (auto simp: dents_def store_slot_def nth_list_update)
  next
    case False
    then have "k = n" using assms(4) by simp
    then show ?thesis using assms(1) ent l
      by (intro nth_equalityI) (auto simp: dents_def store_slot_def nth_append less_Suc_eq)
  qed
qed

lemma hole_entry:
  assumes "fblocks s v ! (k * 64 div 512) = 0"
  shows "\<not> live (dent (fbytes s v) k)"
proof -
  have z: "fbytes s v x = 0" if "64 * k \<le> x" "x < 64 * k + 64" for x
  proof -
    have "x div 512 = k div 8" using that by auto
    then show ?thesis using assms by (simp add: content_def blk_byte_def)
  qed
  have "map (fbytes s v) [64 * k..<64 * k + 64] = replicate 64 0"
    by (rule nth_equalityI) (simp_all add: z)
  then show ?thesis by (simp add: dent_def bytes_dir_def)
qed

text \<open>Writing an entry replaces or appends it, or leaves the directory as it was.\<close>

lemma sfs_writedir_cases:
  assumes "space_ok s" "dir_ok s v" "k \<le> fsize s v div 64" "dir_wf sd"
  shows "(\<exists>e s'. sfs_writedir v sd (int k) s = Some (Err e, s') \<and> vstep v s s' \<and> same_data v s s'
            \<and> (e = ENOSPC \<and> full s' \<and> (k < fsize s v div 64 \<longrightarrow> \<not> live (dents s v ! k)) \<or> e = EINVAL \<and> k = 1144))
       \<or> (\<exists>s'. sfs_writedir v sd (int k) s = Some (Ok (), s') \<and> vstep v s s' \<and> k < 1144
            \<and> dents s' v = store_slot k sd (dents s v) \<and> fsize s' v = max (fsize s v) (k * 64 + 64))"
proof -
  let ?u = "mk_kuio (dir_bytes sd) 64 (int k * 64) UIO_WRITE"
  note sz = dir_ok_size [OF assms(2)]
  have k: "k \<le> 1144" using sz(2) assms(3) by simp
  have r: "uio_ready NULL ?u 64" using k length_dir_bytes [OF assms(4)] by (intro entry_uio_ready) simp_all
  have pos: "s32 (int k * 64) = int k * 64" using k by simp
  have d: "uio_data ?u 64 = dir_bytes sd"
    using bytes_at_mem_of [of 0 64 "dir_bytes sd"] length_dir_bytes [OF assms(4)] by (simp add: mk_kuio_def)
  have al: "k * 64 mod 512 + 64 \<le> 512"
  proof -
    have "k * 64 mod 512 = (k mod 8) * 64" using mult_mod_left [of k 8 64] by simp
    then show ?thesis using mod_less_divisor [of 8 k] by linarith
  qed
  have f: "file_ok s v" "k * 64 \<le> fsize s v" "fsize s v < 2 ^ 31"
    using assms(2,3) sz by (auto simp: dir_ok_def)
  have res: "uio_resid (uio_advance 64 ?u) = 0"
    using uio_advance_simps(3) [OF r] by (simp add: mk_kuio_def)
  have wd: "sfs_writedir v sd (int k) s = do { (r, s, ku) \<leftarrow> sfs_io NULL v (s, ?u);
       case r of Inl e \<Rightarrow> Some (Err e, s) | Inr _ \<Rightarrow> do { kassert (\<not> uio_resid ku > 0); Some (Ok (), s) } }"
    using pos by (simp add: sfs_writedir_def Let_def)
  have q: "uio_rw ?u = UIO_WRITE" "uio_offset ?u = int (k * 64)" "uio_resid ?u = 64" by (simp_all add: mk_kuio_def)
  have n: "0 < (64::nat)" "64 < (512::nat)" by simp_all
  from sfs_io_write_within [OF assms(1) f(1) q r n al f(2,3)] show ?thesis
  proof (elim disjE exE conjE)
    fix e s'
    assume "sfs_io NULL v (s, ?u) = Some (Err e, s', ?u)" "vstep v s s'" "same_data v s s'" "e = ENOSPC" "full s'"
      "fblocks s v ! (k * 64 div 512) = 0"
    then show ?thesis using wd hole_entry [of s v k] by auto
  next
    fix e s'
    assume "sfs_io NULL v (s, ?u) = Some (Err e, s', ?u)" "vstep v s s'" "same_data v s s'" "e = EINVAL"
      "143 * 512 < k * 64 + 64"
    then show ?thesis using wd k by auto
  next
    fix s'
    assume s': "sfs_io NULL v (s, ?u) = Some (Ok (), s', uio_advance 64 ?u)" "vstep v s s'"
      "k * 64 + 64 \<le> 143 * 512" "fbytes s' v = overlay (fbytes s v) (k * 64) (uio_data ?u 64)"
      "fsize s' v = max (fsize s v) (k * 64 + 64)"
    then have "dents s' v = store_slot k sd (dents s v)"
      using dents_overlay [of s' v s k sd, OF _ _ sz(1) assms(3,4)] d by simp
    then show ?thesis using wd s' res by auto
  qed
qed

subsection \<open>A directory as a map from names to inode numbers\<close>

definition named :: "byte list \<Rightarrow> sfs_dir \<Rightarrow> bool" where
  "named name d \<longleftrightarrow> live d \<and> name_of d = name"

definition slot_of :: "byte list \<Rightarrow> sfs_dir list \<Rightarrow> nat option" where
  "slot_of name ds = find (\<lambda>i. named name (ds ! i)) [0..<length ds]"

definition dir_map :: "sfs_dir list \<Rightarrow> byte list \<Rightarrow> nat option" where
  "dir_map ds name = map_option (\<lambda>i. sfd_ino (ds ! i)) (slot_of name ds)"

lemma names_okD:
  "names_ok ds \<Longrightarrow> named n (ds ! i) \<Longrightarrow> named n (ds ! j) \<Longrightarrow> i < length ds \<Longrightarrow> j < length ds \<Longrightarrow> i = j"
  by (simp add: names_ok_def named_def)

lemma slot_of_None: "slot_of name ds = None \<longleftrightarrow> (\<forall>i < length ds. \<not> named name (ds ! i))"
  by (auto simp: slot_of_def find_None_iff)

lemma slot_of_Some:
  assumes "names_ok ds"
  shows "slot_of name ds = Some k \<longleftrightarrow> k < length ds \<and> named name (ds ! k)"
proof
  show "slot_of name ds = Some k \<Longrightarrow> k < length ds \<and> named name (ds ! k)"
    by (auto simp: slot_of_def find_Some_iff)
  assume k: "k < length ds \<and> named name (ds ! k)"
  then obtain j where j: "slot_of name ds = Some j" using slot_of_None [of name ds] by (cases "slot_of name ds") auto
  then have "j < length ds \<and> named name (ds ! j)" by (auto simp: slot_of_def find_Some_iff)
  then show "slot_of name ds = Some k" using j k names_okD [OF assms] by metis
qed

lemma dir_map_Some:
  "names_ok ds \<Longrightarrow> dir_map ds name = Some i \<longleftrightarrow> (\<exists>k < length ds. named name (ds ! k) \<and> sfd_ino (ds ! k) = i)"
  by (auto simp: dir_map_def slot_of_Some)

lemma dir_map_eqI:
  assumes "names_ok ds" "\<And>n i. m n = Some i \<longleftrightarrow> (\<exists>k < length ds. named n (ds ! k) \<and> sfd_ino (ds ! k) = i)"
  shows "dir_map ds = m"
proof
  show "dir_map ds n = m n" for n
    using assms(2) [of n] dir_map_Some [OF assms(1), of n] by (cases "dir_map ds n"; cases "m n") auto
qed

lemma store_slot_nth:
  "k \<le> length ds \<Longrightarrow> i < length (store_slot k d ds) \<Longrightarrow>
   store_slot k d ds ! i = (if i = k then d else ds ! i)"
  by (auto simp: store_slot_def nth_list_update nth_append)

lemma length_store_slot: "k \<le> length ds \<Longrightarrow> length (store_slot k d ds) = max (length ds) (Suc k)"
  by (auto simp: store_slot_def)

lemma store_slot_link:
  assumes "names_ok ds" "k \<le> length ds" "k < length ds \<Longrightarrow> \<not> live (ds ! k)" "dir_map ds (name_of d) = None" "live d"
  shows "names_ok (store_slot k d ds)" "dir_map (store_slot k d ds) = (dir_map ds)(name_of d \<mapsto> sfd_ino d)"
proof -
  let ?ds = "store_slot k d ds"
  note l = length_store_slot [OF assms(2), of d] and nth = store_slot_nth [OF assms(2), of _ d]
  have new: "\<not> named (name_of d) (ds ! i)" if "i < length ds" for i
    using assms(4) that by (auto simp: dir_map_def slot_of_None)
  have nm: "named n (?ds ! i) \<longleftrightarrow> (if i = k then n = name_of d else i < length ds \<and> named n (ds ! i))"
    if "i < length ?ds" for n i using that nth [OF that] l assms(2,5) by (auto simp: named_def max_def split: if_splits)
  show ok: "names_ok ?ds"
    unfolding names_ok_def
  proof (intro allI impI)
    fix i j assume i: "i < length ?ds" and j: "j < length ?ds"
      and e: "live (?ds ! i) \<and> live (?ds ! j) \<and> name_of (?ds ! i) = name_of (?ds ! j)"
    then have "named (name_of (?ds ! i)) (?ds ! i)" "named (name_of (?ds ! i)) (?ds ! j)" by (simp_all add: named_def)
    then show "i = j" using nm [OF i] nm [OF j] new names_okD [OF assms(1)] by (metis (no_types, lifting))
  qed
  show "dir_map ?ds = (dir_map ds)(name_of d \<mapsto> sfd_ino d)"
  proof (rule dir_map_eqI [OF ok])
    fix n i
    show "((dir_map ds)(name_of d \<mapsto> sfd_ino d)) n = Some i
        \<longleftrightarrow> (\<exists>j < length ?ds. named n (?ds ! j) \<and> sfd_ino (?ds ! j) = i)"
    proof (cases "n = name_of d")
      case True
      have k: "k < length ?ds" using l by simp
      then have dk: "named n (?ds ! k)" "?ds ! k = d" using nm [OF k] nth [OF k] True by simp_all
      have u: "j = k" if "j < length ?ds" "named n (?ds ! j)" for j
        using nm [OF that(1), of n] that(2) new True by (auto split: if_splits)
      show ?thesis using True k dk u by (metis fun_upd_same option.inject)
    next
      case False
      have "named n (?ds ! j) \<and> sfd_ino (?ds ! j) = i \<longleftrightarrow> j < length ds \<and> named n (ds ! j) \<and> sfd_ino (ds ! j) = i"
        if "j < length ?ds" for j
        using nm [OF that, of n] nth [OF that] False assms(3) by (auto simp: named_def split: if_splits)
      moreover have "j < length ?ds" if "j < length ds" for j using that l by simp
      ultimately show ?thesis using False by (simp add: dir_map_Some [OF assms(1)]) blast
    qed
  qed
qed

lemma store_slot_unlink:
  assumes "names_ok ds" "k < length ds" "live (ds ! k)" "\<not> live d"
  shows "names_ok (store_slot k d ds)" "dir_map (store_slot k d ds) = (dir_map ds)(name_of (ds ! k) := None)"
proof -
  let ?ds = "store_slot k d ds"
  have eq: "?ds = ds[k := d]" using assms(2) by (simp add: store_slot_def)
  have nm: "named n (?ds ! i) \<longleftrightarrow> i \<noteq> k \<and> named n (ds ! i)" if "i < length ds" for n i
    using that assms(2,4) by (auto simp: eq named_def nth_list_update)
  have l: "length ?ds = length ds" by (simp add: eq)
  show ok: "names_ok ?ds"
    unfolding names_ok_def
  proof (intro allI impI)
    fix i j assume i: "i < length ?ds" and j: "j < length ?ds"
      and e: "live (?ds ! i) \<and> live (?ds ! j) \<and> name_of (?ds ! i) = name_of (?ds ! j)"
    then have "named (name_of (?ds ! i)) (?ds ! i)" "named (name_of (?ds ! i)) (?ds ! j)" by (simp_all add: named_def)
    then show "i = j" using nm i j l names_okD [OF assms(1)] by metis
  qed
  show "dir_map ?ds = (dir_map ds)(name_of (ds ! k) := None)"
  proof (rule dir_map_eqI [OF ok])
    fix n i
    have u: "j = k" if "j < length ds" "named (name_of (ds ! k)) (ds ! j)" for j
      using names_okD [OF assms(1) that(2) _ that(1) assms(2)] assms(3) by (simp add: named_def)
    have "named n (?ds ! j) \<and> sfd_ino (?ds ! j) = i \<longleftrightarrow> n \<noteq> name_of (ds ! k) \<and> named n (ds ! j) \<and> sfd_ino (ds ! j) = i"
      if "j < length ds" for j
    proof -
      have "j \<noteq> k \<Longrightarrow> ?ds ! j = ds ! j" by (simp add: eq)
      moreover have "named n (ds ! k) \<Longrightarrow> n = name_of (ds ! k)" by (simp add: named_def)
      ultimately show ?thesis using nm [OF that, of n] u [OF that] by metis
    qed
    then show "((dir_map ds)(name_of (ds ! k) := None)) n = Some i
        \<longleftrightarrow> (\<exists>j < length ?ds. named n (?ds ! j) \<and> sfd_ino (?ds ! j) = i)"
      using l dir_map_Some [OF assms(1), of n i] by auto
  qed
qed

subsection \<open>The directory operations\<close>

lemma dir_dev_moves:
  assumes "space_ok s" "dir_ok s v" "dev_moves s (disk s) s'"
  shows "space_ok s'" "dir_ok s' v" "dents s' v = dents s v" "vstep v s s'" "fi s' v = fi s v"
proof -
  have f: "file_ok s v" using assms(2) by (simp add: dir_ok_def)
  note m = dev_moves_file [OF assms(1) f assms(3)]
  show "space_ok s'" "vstep v s s'" "fi s' v = fi s v" using m by simp_all
  show d: "dents s' v = dents s v" using m(2,3) by (simp add: dents_def)
  show "dir_ok s' v" using m d assms(2) by (simp add: dir_ok_def)
qed

lemma vstep_dir:
  assumes "vstep v s s'" "dir_ok s v" "fsize s' v = 64 * n" "n \<le> 1144" "names_ok (dents s' v)"
  shows "dir_ok s' v"
  using assms by (auto simp: dir_ok_def vstep_def same_vnode_def)

lemma vstep_dir_same:
  assumes "vstep v s s'" "dir_ok s v" "same_data v s s'"
  shows "dir_ok s' v" "dents s' v = dents s v"
proof -
  show d: "dents s' v = dents s v" using assms(3) by (rule dents_same_data)
  have "fsize s' v = 64 * (fsize s v div 64)" using assms(3) dir_ok_size(1) [OF assms(2)] by (simp add: same_data_def)
  then show "dir_ok s' v" using vstep_dir [OF assms(1,2)] dir_ok_size(2) [OF assms(2)] d assms(2)
    by (auto simp: dir_ok_def)
qed

definition slot_ino :: "sfs_dir list \<Rightarrow> nat \<Rightarrow> nat \<times> nat" where
  "slot_ino ds i = (sfd_ino (ds ! i), i)"

definition last_free :: "sfs_dir list \<Rightarrow> nat list \<Rightarrow> nat option \<Rightarrow> nat option" where
  "last_free ds = fold (\<lambda>i e. if live (ds ! i) then e else Some i)"

lemma last_free_cases:
  "last_free ds is e = Some k \<Longrightarrow> e = Some k \<or> k \<in> set is \<and> \<not> live (ds ! k)"
  by (induction "is" arbitrary: e) (fastforce simp: last_free_def split: if_splits)+

lemma findname_loop_ok:
  assumes "space_ok s" "dir_ok s v" "set is \<subseteq> {..<fsize s v div 64}" "distinct is"
    "found \<noteq> None \<Longrightarrow> \<forall>i \<in> set is. \<not> named name (dents s v ! i)"
  shows "\<exists>s'. findname_loop v name is (found, e) s
      = Some (Ok (case found of Some x \<Rightarrow> found
            | None \<Rightarrow> map_option (slot_ino (dents s v)) (find (\<lambda>i. named name (dents s v ! i)) is),
          last_free (dents s v) is e), s') \<and> dev_moves s (disk s) s'"
  using assms
proof (induction "is" arbitrary: s found e)
  case Nil
  then show ?case using dev_moves_refl by (auto simp: last_free_def space_ok_def split: option.splits)
next
  case (Cons i js)
  let ?d = "dents s v ! i"
  have i: "i < fsize s v div 64" using Cons.prems(3) by simp
  obtain s1 where s1: "sfs_readdir v (int i) s = Some (Ok ?d, s1)" "dev_moves s (disk s) s1"
    using sfs_readdir_ok [OF Cons.prems(1,2) i] by blast
  note m = dir_dev_moves [OF Cons.prems(1,2) s1(2)]
  define found' where "found' = (if named name ?d then Some (slot_ino (dents s v) i) else found)"
  have nd: "named name (dents s v ! j) \<Longrightarrow> j \<noteq> i \<Longrightarrow> j < fsize s v div 64 \<Longrightarrow> \<not> named name ?d" for j
    using names_okD [of "dents s v" name i j] Cons.prems(2) i by (auto simp: dir_ok_def)
  have fo: "found' \<noteq> None \<Longrightarrow> \<forall>j \<in> set js. \<not> named name (dents s1 v ! j)"
    using nd Cons.prems(3-5) m(3) by (fastforce simp: found'_def split: if_splits)
  have sub: "set js \<subseteq> {..<fsize s1 v div 64}" "distinct js" using Cons.prems(3,4) m(5) by auto
  obtain s2 where s2: "findname_loop v name js (found', last_free (dents s v) [i] e) s1
      = Some (Ok (case found' of Some x \<Rightarrow> found'
            | None \<Rightarrow> map_option (slot_ino (dents s1 v)) (find (\<lambda>i. named name (dents s1 v ! i)) js),
          last_free (dents s1 v) js (last_free (dents s v) [i] e)), s2)" "dev_moves s1 (disk s1) s2"
    using Cons.IH [OF m(1,2) sub fo] by blast
  have "findname_loop v name (i # js) (found, e) s = findname_loop v name js (found', last_free (dents s v) [i] e) s1"
    using s1(1) Cons.prems(5) by (cases found) (auto simp: found'_def named_def slot_ino_def last_free_def)
  moreover have "dev_moves s (disk s) s2" using dev_moves_trans [OF s1(2) s2(2)] dev_moves_fields [OF s1(2)] by simp
  ultimately show ?case
    using s2(1) m(3) Cons.prems(5) by (auto simp: found'_def last_free_def split: option.splits)
qed

lemma sfs_dir_nentries_ok: "dir_ok s v \<Longrightarrow> sfs_dir_nentries v s = Some (fsize s v div 64)"
  by (auto simp: sfs_dir_nentries_def dir_ok_def file_ok_def)

lemma sfs_dir_findname_ok:
  assumes "space_ok s" "dir_ok s v"
  shows "\<exists>e s'. sfs_dir_findname v name s = Some (Ok (map_option (slot_ino (dents s v)) (slot_of name (dents s v)), e), s')
      \<and> dev_moves s (disk s) s' \<and> (\<forall>k. e = Some k \<longrightarrow> k < fsize s v div 64 \<and> \<not> live (dents s v ! k))"
proof -
  let ?n = "fsize s v div 64" and ?ds = "dents s v"
  obtain s' where s': "findname_loop v name [0..<?n] (None, None) s
      = Some (Ok (map_option (slot_ino ?ds) (slot_of name ?ds), last_free ?ds [0..<?n] None), s')" "dev_moves s (disk s) s'"
    using findname_loop_ok [OF assms, of "[0..<?n]" None name None] by (auto simp: slot_of_def lessThan_atLeast0)
  then show ?thesis
    using sfs_dir_nentries_ok [OF assms(2)] last_free_cases [of ?ds "[0..<?n]" None] by (force simp: sfs_dir_findname_def)
qed

lemma name_of_padded:
  assumes "0 \<notin> set name" "length name < 60"
  shows "name_of \<lparr>sfd_ino = i, sfd_name = name @ replicate (60 - length name) 0\<rparr> = name"
proof -
  obtain k where k: "60 - length name = Suc k" using assms(2) by (metis Suc_diff_Suc)
  let ?xs = "name @ replicate (Suc k) 0"
  have "?xs ! 59 = 0" using assms(2) k by (simp only: nth_append nth_replicate) simp
  then have "?xs[59 := 0] = name @ 0 # replicate k 0" using list_update_id [of ?xs 59] by simp
  moreover have "takeWhile (\<lambda>c. c \<noteq> 0) (name @ 0 # xs) = name" for xs
    using assms(1) by (induction name) auto
  ultimately show ?thesis using k by (simp add: name_of_def)
qed

definition link_result :: "nat \<Rightarrow> byte list \<Rightarrow> nat \<Rightarrow> sfs_fs \<Rightarrow> nat res \<Rightarrow> sfs_fs \<Rightarrow> bool" where
  "link_result v name ino s r s' \<longleftrightarrow> vstep v s s' \<and> dir_ok s' v \<and>
     (case r of
        Inr slot \<Rightarrow> dir_map (dents s v) name = None
          \<and> (\<exists>d. dents s' v = store_slot slot d (dents s v) \<and> d = \<lparr>sfd_ino = ino, sfd_name = name @ replicate (60 - length name) 0\<rparr>)
          \<and> slot \<le> length (dents s v) \<and> (slot < length (dents s v) \<longrightarrow> \<not> live (dents s v ! slot))
          \<and> dir_map (dents s' v) = (dir_map (dents s v))(name \<mapsto> ino)
      | Inl e \<Rightarrow> dents s' v = dents s v
          \<and> (e = EEXIST \<and> dir_map (dents s v) name \<noteq> None
             \<or> e = ENAMETOOLONG \<and> dir_map (dents s v) name = None \<and> 60 \<le> length name
             \<or> e = ENOSPC \<and> dir_map (dents s v) name = None \<and> full s'
             \<or> e = EINVAL \<and> dir_map (dents s v) name = None \<and> length (dents s v) = 1144))"

lemma sfs_dir_link_result:
  assumes "space_ok s" "dir_ok s v" "0 \<notin> set name" "ino \<noteq> 0" "ino < 2 ^ 32"
  shows "\<exists>r s'. sfs_dir_link v name ino s = Some (r, s') \<and> link_result v name ino s r s'"
proof -
  let ?ds = "dents s v" and ?n = "fsize s v div 64"
  let ?sd = "\<lparr>sfd_ino = ino, sfd_name = name @ replicate (60 - length name) 0\<rparr>"
  obtain e s1 where s1: "sfs_dir_findname v name s = Some (Ok (map_option (slot_ino ?ds) (slot_of name ?ds), e), s1)"
    "dev_moves s (disk s) s1" "\<And>k. e = Some k \<Longrightarrow> k < ?n \<and> \<not> live (?ds ! k)"
    using sfs_dir_findname_ok [OF assms(1,2)] by blast
  note m = dir_dev_moves [OF assms(1,2) s1(2)]
  show ?thesis
  proof (cases "slot_of name ?ds = None \<and> length name < 60")
    case False
    then consider "slot_of name ?ds \<noteq> None" | "slot_of name ?ds = None" "60 \<le> length name" by linarith
    then show ?thesis
    proof cases
      case 1
      then have "sfs_dir_link v name ino s = Some (Err EEXIST, s1)" using s1(1) by (auto simp: sfs_dir_link_def slot_ino_def)
      then show ?thesis using m 1 by (auto simp: link_result_def dir_map_def)
    next
      case 2
      then have "sfs_dir_link v name ino s = Some (Err ENAMETOOLONG, s1)" using s1(1) by (simp add: sfs_dir_link_def)
      then show ?thesis using m 2 by (auto simp: link_result_def dir_map_def)
    qed
  next
    case True
    define k where "k = (case e of Some k \<Rightarrow> k | None \<Rightarrow> ?n)"
    have k: "k \<le> ?n" "k < ?n \<Longrightarrow> \<not> live (?ds ! k)" using s1(3) by (auto simp: k_def split: option.splits)
    have sl: "(case e of Some e \<Rightarrow> Some e | None \<Rightarrow> sfs_dir_nentries v s1) = Some k"
      using sfs_dir_nentries_ok [OF m(2)] m(5) by (auto simp: k_def split: option.splits)
    have eq: "sfs_dir_link v name ino s = if_ok (sfs_writedir v ?sd (int k) s1) (\<lambda>_ s. Some (Ok k, s))"
      using s1(1) True sl by (simp add: sfs_dir_link_def Let_def)
    have wf: "dir_wf ?sd" using assms(5) True by (simp add: dir_wf_def)
    have free: "dir_map ?ds name = None" using True by (simp add: dir_map_def)
    have nm: "name_of ?sd = name" "live ?sd" using name_of_padded [OF assms(3)] True assms(4) by simp_all
    have no: "names_ok ?ds" using assms(2) by (simp add: dir_ok_def)
    have k1: "k \<le> fsize s1 v div 64" using k(1) m(5) by simp
    from sfs_writedir_cases [OF m(1,2) k1 wf] show ?thesis
    proof (elim disjE exE conjE)
      fix e' s'
      assume s': "sfs_writedir v ?sd (int k) s1 = Some (Err e', s')" "vstep v s1 s'" "same_data v s1 s'" "e' = ENOSPC" "full s'"
      then show ?thesis using eq free vstep_trans [OF m(4) s'(2)] vstep_dir_same [OF s'(2) m(2) s'(3)] m(3)
        by (auto simp: link_result_def)
    next
      fix e' s'
      assume s': "sfs_writedir v ?sd (int k) s1 = Some (Err e', s')" "vstep v s1 s'" "same_data v s1 s'" "e' = EINVAL" "k = 1144"
      then have "length ?ds = 1144" using k(1) dir_ok_size(2) [OF assms(2)] by simp
      then show ?thesis using s' eq free vstep_trans [OF m(4) s'(2)] vstep_dir_same [OF s'(2) m(2) s'(3)] m(3)
        by (auto simp: link_result_def)
    next
      fix s'
      assume s': "sfs_writedir v ?sd (int k) s1 = Some (Ok (), s')" "vstep v s1 s'" "k < 1144"
        "dents s' v = store_slot k ?sd (dents s1 v)" "fsize s' v = max (fsize s1 v) (k * 64 + 64)"
      have l: "k \<le> length ?ds" "k < length ?ds \<Longrightarrow> \<not> live (?ds ! k)" using k by simp_all
      have fr: "dir_map ?ds (name_of ?sd) = None" using free nm(1) by simp
      note st = store_slot_link [OF no l fr nm(2)]
      have "fsize s' v = 64 * max ?n (k + 1)"
        using s'(5) dir_ok_size(1) [OF assms(2)] m(5) by (simp add: max_def)
      moreover have "max ?n (k + 1) \<le> 1144" using s'(3) dir_ok_size(2) [OF assms(2)] by simp
      ultimately have "dir_ok s' v" using vstep_dir [OF s'(2) m(2)] st(1) s'(4) m(3) by simp
      then show ?thesis
        using eq s'(1,4) vstep_trans [OF m(4) s'(2)] m(3) st(2) nm(1) l free by (auto simp: link_result_def)
    qed
  qed
qed

lemma sfs_dir_unlink_ok:
  assumes "space_ok s" "dir_ok s v" "k < fsize s v div 64" "live (dents s v ! k)"
  shows "\<exists>s'. sfs_dir_unlink v k s = Some (Ok (), s') \<and> vstep v s s' \<and> dir_ok s' v
      \<and> (\<exists>d. \<not> live d \<and> dents s' v = (dents s v)[k := d])
      \<and> dir_map (dents s' v) = (dir_map (dents s v))(name_of (dents s v ! k) := None)"
proof -
  let ?sd = "\<lparr>sfd_ino = 0, sfd_name = replicate 60 0\<rparr>" and ?ds = "dents s v"
  have k: "k \<le> fsize s v div 64" "k < length ?ds" using assms(3) by simp_all
  have wf: "dir_wf ?sd" by (simp add: dir_wf_def)
  have no: "names_ok ?ds" using assms(2) by (simp add: dir_ok_def)
  note sz = dir_ok_size [OF assms(2)]
  obtain s' where s': "sfs_writedir v ?sd (int k) s = Some (Ok (), s')" "vstep v s s'"
    "dents s' v = store_slot k ?sd ?ds" "fsize s' v = max (fsize s v) (k * 64 + 64)"
    using sfs_writedir_cases [OF assms(1,2) k(1) wf] assms(3,4) sz(2) by auto
  have d: "\<not> live ?sd" by simp
  note st = store_slot_unlink [OF no k(2) assms(4) d]
  have "fsize s' v = 64 * (fsize s v div 64)" using s'(4) sz(1) assms(3) by (auto simp: max_def)
  then have "dir_ok s' v" using vstep_dir [OF s'(2) assms(2)] sz(2) st(1) s'(3) by simp
  moreover have "dents s' v = ?ds[k := ?sd]" using s'(3) k(2) by (simp add: store_slot_def)
  then have "\<exists>d. \<not> live d \<and> dents s' v = ?ds[k := d]" using d by blast
  moreover have "sfs_dir_unlink v k s = Some (Ok (), s')" using s'(1) by (simp add: sfs_dir_unlink_def)
  ultimately show ?thesis using s'(2,3) st(2) by metis
qed

text \<open>A directory for the witnesses: the sample file of \<^theory_text>\<open>SfsIo\<close> with the type of a directory.\<close>

definition sample_dir_fs :: sfs_fs where
  "sample_dir_fs = set_vnode 100 (sample_vnode\<lparr>sv_i := sample_inode\<lparr>sfi_type := SFS_TYPE_DIR\<rparr>\<rparr>) sample_fs"

lemma own_upd [simp]:
  "own dk a (i\<lparr>sfi_type := t\<rparr>) = own dk a i" "own dk a (i\<lparr>sfi_linkcount := l\<rparr>) = own dk a i" "own dk a (i\<lparr>sfi_size := n\<rparr>) = own dk a i"
  by (simp_all add: own_def slots_def fmap_def id_words_def)

lemma content_upd [simp]:
  "content dk (i\<lparr>sfi_type := t\<rparr>) = content dk i" "content dk (i\<lparr>sfi_linkcount := l\<rparr>) = content dk i"
  "content dk (i\<lparr>sfi_size := n\<rparr>) = content dk i"
  by (simp_all add: content_def fmap_def id_words_def fun_eq_iff)

lemma sample_dir_ok: "space_ok sample_dir_fs" "dir_ok sample_dir_fs 100" "dents sample_dir_fs 100 = []"
proof -
  have "sfs_pool sample_fs 100 = Some sample_vnode" by (simp add: sample_fs_def)
  moreover have "sv_i sample_vnode = sample_inode" "sfi_size sample_inode = 0"
    by (simp_all add: sample_vnode_def sample_inode_def)
  ultimately show "space_ok sample_dir_fs" "dir_ok sample_dir_fs 100" "dents sample_dir_fs 100 = []"
    using sample_fs_ok
    by (simp_all add: sample_dir_fs_def set_vnode_def space_ok_def dev_good_def sysblocks_def dir_ok_def file_ok_def
        dents_def names_ok_def inode_wf_def)
qed

text \<open>
  C13. \<^verbatim>\<open>sfs_dir_link\<close> and \<^verbatim>\<open>sfs_dir_findname\<close> implement a map from names to inode numbers: the name is added,
  all other names keep their inodes, and the result of a later search is the map's. It is refused with \<^const>\<open>EEXIST\<close>
  exactly for a name that is there, and with \<^const>\<open>ENAMETOOLONG\<close> for a name of 60 bytes or more; apart
  from these it fails only on a full disk or a full directory, and then the entries are as before. In every case the
  directory stays well formed.
\<close>

theorem sfs_dir_link_refines:
  assumes "space_ok s" "dir_ok s v" "0 \<notin> set name" "0 < ino" "ino < 2 ^ 32"
  shows "\<exists>r s'. sfs_dir_link v name ino s = Some (r, s') \<and> vstep v s s' \<and> dir_ok s' v
    \<and> (\<forall>n. \<exists>slot e s''. sfs_dir_findname v n s' = Some (Ok (slot, e), s'') \<and> map_option fst slot = dir_map (dents s' v) n)
    \<and> (case r of
         Inr slot \<Rightarrow> dir_map (dents s v) name = None \<and> dir_map (dents s' v) = (dir_map (dents s v))(name \<mapsto> ino)
       | Inl e \<Rightarrow> dents s' v = dents s v
           \<and> (e = EEXIST \<and> dir_map (dents s v) name \<noteq> None
              \<or> e = ENAMETOOLONG \<and> dir_map (dents s v) name = None \<and> 60 \<le> length name
              \<or> e = ENOSPC \<and> dir_map (dents s v) name = None \<and> {..<nblk s'} \<subseteq> used s'
              \<or> e = EINVAL \<and> dir_map (dents s v) name = None \<and> length (dents s v) = 1144))"
proof -
  obtain r s' where s': "sfs_dir_link v name ino s = Some (r, s')" "link_result v name ino s r s'"
    using sfs_dir_link_result [OF assms(1-3) _ assms(5)] assms(4) by blast
  have ok: "vstep v s s'" "dir_ok s' v" "space_ok s'" using s'(2) by (auto simp: link_result_def vstep_def)
  have "\<exists>slot e s''. sfs_dir_findname v n s' = Some (Ok (slot, e), s'') \<and> map_option fst slot = dir_map (dents s' v) n" for n
    using sfs_dir_findname_ok [OF ok(3,2), of n]
    by (auto simp: dir_map_def slot_ino_def option.map_comp comp_def)
  moreover have "case r of
         Inr slot \<Rightarrow> dir_map (dents s v) name = None \<and> dir_map (dents s' v) = (dir_map (dents s v))(name \<mapsto> ino)
       | Inl e \<Rightarrow> dents s' v = dents s v
           \<and> (e = EEXIST \<and> dir_map (dents s v) name \<noteq> None
              \<or> e = ENAMETOOLONG \<and> dir_map (dents s v) name = None \<and> 60 \<le> length name
              \<or> e = ENOSPC \<and> dir_map (dents s v) name = None \<and> full s'
              \<or> e = EINVAL \<and> dir_map (dents s v) name = None \<and> length (dents s v) = 1144)"
    using s'(2) unfolding link_result_def by (cases r) (simp_all, metis)
  ultimately show ?thesis using s'(1) ok by blast
qed

theorem sfs_dir_link_refines_witness:
  "\<exists>r s'. sfs_dir_link 100 [97, 98] 7 sample_dir_fs = Some (r, s') \<and> dir_ok s' 100
     \<and> (case r of Inr _ \<Rightarrow> dir_map (dents s' 100) [97, 98] = Some 7 | Inl _ \<Rightarrow> dents s' 100 = [])"
proof -
  have "0 \<notin> set [97, 98::byte]" "0 < (7::nat)" "7 < (2::nat) ^ 32" by simp_all
  from sfs_dir_link_refines [OF sample_dir_ok(1,2) this] show ?thesis
    by (fastforce simp: sample_dir_ok(3) split: sum.splits)
qed

end
