(* ===== verification/SfsVnode.thy ===== *)
theory SfsVnode
  imports SfsDir
begin

section \<open>SFS vnode operations\<close>

text \<open>
  The rest of \<^verbatim>\<open>kern/fs/sfs/sfs_vnode.c\<close>: truncation, loading and reclaiming vnodes, and the operations in
  the tables \<^verbatim>\<open>sfs_fileops\<close> and \<^verbatim>\<open>sfs_dirops\<close>. \<open>mem n\<close> says whether \<^verbatim>\<open>kmalloc\<close> of \<open>n\<close> bytes succeeds and \<open>new\<close> is the address
  it returns for a vnode; each operation loads at most one.
\<close>

subsection \<open>Truncation\<close>

fun trunc_direct :: "nat \<Rightarrow> nat \<Rightarrow> nat list \<Rightarrow> sfs_fs \<Rightarrow> sfs_fs run" where
  "trunc_direct v blocklen [] s = Some s"
| "trunc_direct v blocklen (i # is) s = do {
     sv \<leftarrow> sfs_pool s v;
     blk \<leftarrow> nth_run (sfi_direct (sv_i sv)) i;
     if i \<ge> blocklen \<and> blk \<noteq> 0 then do {
       s \<leftarrow> sfs_bfree blk s;
       s \<leftarrow> edit_inode v (\<lambda>n. n\<lparr>sfi_direct := (sfi_direct n)[i := 0]\<rparr>) s;
       trunc_direct v blocklen is s
     } else trunc_direct v blocklen is s
   }"

text \<open>The loop over the indirect block: its words, \<^verbatim>\<open>hasnonzero\<close> and \<^verbatim>\<open>iddirty\<close>.\<close>

fun trunc_indirect :: "nat \<Rightarrow> nat list \<Rightarrow> nat list \<times> bool \<times> bool \<Rightarrow> sfs_fs \<Rightarrow> ((nat list \<times> bool \<times> bool) \<times> sfs_fs) run" where
  "trunc_indirect blocklen [] acc s = Some (acc, s)"
| "trunc_indirect blocklen (j # js) (idbuf, hasnonzero, iddirty) s = do {
     w \<leftarrow> nth_run idbuf j;
     if blocklen < SFS_NDIRECT + j \<and> w \<noteq> 0 then do {
       s \<leftarrow> sfs_bfree w s;
       trunc_indirect blocklen js (idbuf[j := 0], hasnonzero, True) s
     } else trunc_indirect blocklen js (idbuf, hasnonzero \<or> w \<noteq> 0, iddirty) s
   }"

text \<open>The part of \<^verbatim>\<open>sfs_truncate\<close> that deals with the indirect block.\<close>

definition trunc_idblock :: "nat \<Rightarrow> nat \<Rightarrow> sfs_fs \<Rightarrow> (unit res \<times> sfs_fs) run" where
  "trunc_idblock v blocklen s = do {
     sv \<leftarrow> sfs_pool s v;
     let idblock = sfi_indirect (sv_i sv);
     let baseblock = SFS_NDIRECT;
     let highblock = baseblock + SFS_DBPERIDB - 1;
     if blocklen < highblock \<and> idblock \<noteq> 0 then
       if_ok (sfs_rblock idblock s) (\<lambda>data s. do {
         ((idbuf, hasnonzero, iddirty), s) \<leftarrow>
           trunc_indirect blocklen [0..<SFS_DBPERIDB] (bytes_words data, False, False) s;
         if \<not> hasnonzero then do {
           s \<leftarrow> sfs_bfree idblock s;
           s \<leftarrow> edit_inode v (\<lambda>n. n\<lparr>sfi_indirect := 0\<rparr>) s;
           Some (Ok (), s)
         }
         else if iddirty then sfs_wblock (words_bytes idbuf) idblock s
         else Some (Ok (), s)
       })
     else Some (Ok (), s)
   }"

definition sfs_truncate :: "nat \<Rightarrow> int \<Rightarrow> sfs_fs \<Rightarrow> (unit res \<times> sfs_fs) run" where
  "sfs_truncate v len s = do {
     let blocklen = nat (s32 (len + int SFS_BLOCKSIZE - 1) sdiv int SFS_BLOCKSIZE mod 2 ^ 32);
     s \<leftarrow> trunc_direct v blocklen [0..<SFS_NDIRECT] s;
     if_ok (trunc_idblock v blocklen s) (\<lambda>_ s. do {
       s \<leftarrow> edit_inode v (\<lambda>n. n\<lparr>sfi_size := nat (len mod 2 ^ 32)\<rparr>) s;
       Some (Ok (), s)
     })
   }"

subsection \<open>Loading vnodes\<close>

definition sizeof_sfs_vnode :: nat where [simp]: "sizeof_sfs_vnode = 544"

text \<open>The address of the abstract file system structure, which every vnode of it points to.\<close>

definition sfs_absfs :: nat where "sfs_absfs = 0"

definition edit_vn :: "nat \<Rightarrow> (vnode \<Rightarrow> vnode) \<Rightarrow> sfs_fs \<Rightarrow> sfs_fs run" where
  "edit_vn v f s = do {
     sv \<leftarrow> sfs_pool s v;
     Some (set_vnode v (sv\<lparr>sv_v := f (sv_v sv)\<rparr>) s)
   }"

text \<open>The search of the vnode table in \<^verbatim>\<open>sfs_loadvnode\<close>.\<close>

fun find_loaded :: "nat \<Rightarrow> nat list \<Rightarrow> sfs_fs \<Rightarrow> nat option run" where
  "find_loaded ino [] s = Some None"
| "find_loaded ino (i # is) s = do {
     v \<leftarrow> array_getguy (sfs_vnodes s) (int i);
     sv \<leftarrow> sfs_pool s v;
     inuse \<leftarrow> sfs_bused (sv_ino sv) s;
     kassert inuse;
     if sv_ino sv = ino then Some (Some v) else find_loaded ino is s
   }"

definition vop_table_for :: "nat \<Rightarrow> vop_table ptr" where
  "vop_table_for type =
     (if type = SFS_TYPE_FILE then Some Sfs_fileops
      else if type = SFS_TYPE_DIR then Some Sfs_dirops
      else NULL)"

definition sfs_loadvnode ::
  "(nat \<Rightarrow> bool) \<Rightarrow> nat \<Rightarrow> nat \<Rightarrow> nat \<Rightarrow> sfs_fs \<Rightarrow> (nat res \<times> sfs_fs) run" where
  "sfs_loadvnode mem new ino forcetype s = do {
     hit \<leftarrow> find_loaded ino [0..<nat (array_getnum (sfs_vnodes s))] s;
     case hit of
       Some v \<Rightarrow> do {
         kassert (forcetype = SFS_TYPE_INVAL);
         s \<leftarrow> edit_vn v vnode_incref s;
         Some (Ok v, s)
       }
     | None \<Rightarrow>
         if \<not> mem sizeof_sfs_vnode then Some (Err ENOMEM, s)
         else do {
           inuse \<leftarrow> sfs_bused ino s;
           kassert inuse;
           if_ok (sfs_rblock ino s) (\<lambda>data s. do {
             let i = bytes_inode data;
             kassert (forcetype \<noteq> SFS_TYPE_INVAL \<longrightarrow> sfi_type i = SFS_TYPE_INVAL);
             let forced = (forcetype \<noteq> SFS_TYPE_INVAL);
             let i = (if forced then i\<lparr>sfi_type := forcetype\<rparr> else i);
             let ops = vop_table_for (sfi_type i);
             kassert (ops \<noteq> NULL);
             init \<leftarrow> vnode_init mem ops (Some sfs_absfs);
             case init of
               Inl e \<Rightarrow> Some (Err e, s)
             | Inr vn \<Rightarrow> do {
                 let sv = \<lparr>sv_v = vn, sv_i = i, sv_ino = ino, sv_dirty = forced\<rparr>;
                 (r, vs) \<leftarrow> array_add mem (sfs_vnodes s) new;
                 case r of
                   Inl e \<Rightarrow> do { vnode_kill vn; Some (Err e, s\<lparr>sfs_vnodes := vs\<rparr>) }
                 | Inr _ \<Rightarrow> Some (Ok new, set_vnode new sv (s\<lparr>sfs_vnodes := vs\<rparr>))
               }
           })
         }
   }"

subsection \<open>Reclaiming vnodes\<close>

definition vop_check :: "nat \<Rightarrow> string \<Rightarrow> sfs_fs \<Rightarrow> vop_table run" where
  "vop_check v opstr s = do {
     sv \<leftarrow> sfs_pool s v;
     vnode_check (sv_v sv) opstr;
     vn_ops (sv_v sv)
   }"

definition VOP_TRUNCATE :: "nat \<Rightarrow> int \<Rightarrow> sfs_fs \<Rightarrow> (unit res \<times> sfs_fs) run" where
  "VOP_TRUNCATE v len s = do {
     ops \<leftarrow> vop_check v ''truncate'' s;
     if ops = Sfs_fileops then sfs_truncate v len s else Some (Err EISDIR, s)
   }"

text \<open>The second half of \<^verbatim>\<open>sfs_reclaim\<close>, after the file was erased if no link is left.\<close>

definition reclaim_finish :: "nat \<Rightarrow> sfs_fs \<Rightarrow> (unit res \<times> sfs_fs) run" where
  "reclaim_finish v s =
     if_ok (sfs_sync_inode v s) (\<lambda>_ s. do {
       sv \<leftarrow> sfs_pool s v;
       s \<leftarrow> (if sfi_linkcount (sv_i sv) = 0 then sfs_bfree (sv_ino sv) s else Some s);
       let num = nat (array_getnum (sfs_vnodes s));
       ix \<leftarrow> List.find (\<lambda>i. array_getguy (sfs_vnodes s) (int i) = Some v) [0..<num];
       vs \<leftarrow> array_remove (sfs_vnodes s) (int ix);
       vnode_kill (sv_v sv);
       Some (Ok (), s\<lparr>sfs_vnodes := vs, sfs_pool := (sfs_pool s)(v := None)\<rparr>)
     })"

definition sfs_reclaim :: "nat \<Rightarrow> sfs_fs \<Rightarrow> (unit res \<times> sfs_fs) run" where
  "sfs_reclaim v s = do {
     sv \<leftarrow> sfs_pool s v;
     if vn_refcount (sv_v sv) \<noteq> 1 then do {
       kassert (vn_refcount (sv_v sv) > 1);
       s \<leftarrow> edit_vn v (\<lambda>vn. vn\<lparr>vn_refcount := vn_refcount vn - 1\<rparr>) s;
       Some (Err EBUSY, s)
     } else
       if_ok (if sfi_linkcount (sv_i sv) = 0 then VOP_TRUNCATE v 0 s else Some (Ok (), s))
         (\<lambda>_ s. reclaim_finish v s)
   }"

definition VOP_RECLAIM :: "nat \<Rightarrow> sfs_fs \<Rightarrow> (unit res \<times> sfs_fs) run" where
  "VOP_RECLAIM v s = do { vop_check v ''reclaim'' s; sfs_reclaim v s }"

definition VOP_DECREF :: "nat \<Rightarrow> sfs_fs \<Rightarrow> sfs_fs run" where
  "VOP_DECREF v = vnode_decref (\<lambda>s. map_option sv_v (sfs_pool s v))
     (\<lambda>vn s. case sfs_pool s v of None \<Rightarrow> s | Some sv \<Rightarrow> set_vnode v (sv\<lparr>sv_v := vn\<rparr>) s) (VOP_RECLAIM v)"

subsection \<open>Objects by name\<close>

definition sfs_lookonce ::
  "(nat \<Rightarrow> bool) \<Rightarrow> nat \<Rightarrow> nat \<Rightarrow> byte list \<Rightarrow> sfs_fs \<Rightarrow> ((nat \<times> nat) res \<times> sfs_fs) run" where
  "sfs_lookonce mem new v name s =
     if_ok (sfs_dir_findname v name s) (\<lambda>(found, _) s.
       case found of
         None \<Rightarrow> Some (Err ENOENT, s)
       | Some (ino, slot) \<Rightarrow>
           if_ok (sfs_loadvnode mem new ino SFS_TYPE_INVAL s) (\<lambda>w s. do {
             sv \<leftarrow> sfs_pool s w;
             kassert (sfi_linkcount (sv_i sv) \<noteq> 0);
             Some (Ok (w, slot), s)
           }))"

definition sfs_makeobj :: "(nat \<Rightarrow> bool) \<Rightarrow> nat \<Rightarrow> nat \<Rightarrow> sfs_fs \<Rightarrow> (nat res \<times> sfs_fs) run" where
  "sfs_makeobj mem new type s =
     if_ok (sfs_balloc s) (\<lambda>ino s. sfs_loadvnode mem new ino type s)"

subsection \<open>Vnode operations\<close>

definition O_APPEND :: nat where "O_APPEND = 32"

definition sfs_open :: "nat \<Rightarrow> nat \<Rightarrow> unit res" where
  "sfs_open v openflags = (if openflags AND O_APPEND \<noteq> 0 then Err EUNIMP else Ok ())"

definition sfs_opendir :: "nat \<Rightarrow> nat \<Rightarrow> unit res" where
  "sfs_opendir v openflags =
     (if openflags AND 3 \<noteq> 0 then Err EISDIR
      else if openflags AND O_APPEND \<noteq> 0 then Err EISDIR
      else Ok ())"

definition sfs_fsync :: "nat \<Rightarrow> sfs_fs \<Rightarrow> (unit res \<times> sfs_fs) run" where
  "sfs_fsync v s = sfs_sync_inode v s"

definition VOP_FSYNC :: "nat \<Rightarrow> sfs_fs \<Rightarrow> (unit res \<times> sfs_fs) run" where
  "VOP_FSYNC v s = do { vop_check v ''fsync'' s; sfs_fsync v s }"

definition sfs_close :: "nat \<Rightarrow> sfs_fs \<Rightarrow> (unit res \<times> sfs_fs) run" where
  "sfs_close v s = VOP_FSYNC v s"

definition sfs_ioctl :: "nat \<Rightarrow> int \<Rightarrow> unit res" where
  "sfs_ioctl v op = Err EINVAL"

datatype ftype = S_IFREG | S_IFDIR | S_IFBLK | S_IFCHR

definition sfs_gettype :: "nat \<Rightarrow> sfs_fs \<Rightarrow> ftype run" where
  "sfs_gettype v s = do {
     sv \<leftarrow> sfs_pool s v;
     if sfi_type (sv_i sv) = SFS_TYPE_FILE then Some S_IFREG
     else if sfi_type (sv_i sv) = SFS_TYPE_DIR then Some S_IFDIR
     else panic
   }"

record sfs_statbuf =
  st_mode :: ftype
  st_size :: int
  st_nlink :: nat
  st_blocks :: nat

definition sfs_stat :: "nat \<Rightarrow> sfs_fs \<Rightarrow> sfs_statbuf run" where
  "sfs_stat v s = do {
     vop_check v ''gettype'' s;
     mode \<leftarrow> sfs_gettype v s;
     sv \<leftarrow> sfs_pool s v;
     Some \<lparr>st_mode = mode, st_size = s32 (int (sfi_size (sv_i sv))), st_nlink = 0, st_blocks = 0\<rparr>
   }"

definition sfs_tryseek :: "nat \<Rightarrow> int \<Rightarrow> unit res" where
  "sfs_tryseek v pos = (if pos < 0 then Err EINVAL else Ok ())"

definition sfs_mmap :: "nat \<Rightarrow> unit res" where
  "sfs_mmap v = Err EUNIMP"

definition sfs_namefile :: "nat \<Rightarrow> sfs_fs \<Rightarrow> unit res run" where
  "sfs_namefile v s = do {
     sv \<leftarrow> sfs_pool s v;
     kassert (sv_ino sv = SFS_ROOT_LOCATION);
     Some (Ok ())
   }"

text \<open>The end of \<^verbatim>\<open>sfs_creat\<close>: the new object is linked into the directory, or dropped.\<close>

definition creat_name :: "nat \<Rightarrow> byte list \<Rightarrow> nat \<Rightarrow> sfs_fs \<Rightarrow> (nat res \<times> sfs_fs) run" where
  "creat_name v name newguy s = do {
     sv \<leftarrow> sfs_pool s newguy;
     (r, s) \<leftarrow> sfs_dir_link v name (sv_ino sv) s;
     case r of
       Inl e \<Rightarrow> do { s \<leftarrow> VOP_DECREF newguy s; Some (Err e, s) }
     | Inr _ \<Rightarrow> do {
         s \<leftarrow> edit_inode newguy (\<lambda>n. n\<lparr>sfi_linkcount := (sfi_linkcount n + 1) mod 2 ^ 16\<rparr>) s;
         Some (Ok newguy, s)
       }
   }"

definition sfs_creat ::
  "(nat \<Rightarrow> bool) \<Rightarrow> nat \<Rightarrow> nat \<Rightarrow> byte list \<Rightarrow> bool \<Rightarrow> sfs_fs \<Rightarrow> (nat res \<times> sfs_fs) run" where
  "sfs_creat mem new v name excl s =
     if_ok (sfs_dir_findname v name s) (\<lambda>(found, _) s.
       case found of
         Some (ino, _) \<Rightarrow>
           if excl then Some (Err EEXIST, s)
           else sfs_loadvnode mem new ino SFS_TYPE_INVAL s
       | None \<Rightarrow>
           if_ok (sfs_makeobj mem new SFS_TYPE_FILE s) (\<lambda>newguy s. creat_name v name newguy s))"

definition sfs_link :: "nat \<Rightarrow> byte list \<Rightarrow> nat \<Rightarrow> sfs_fs \<Rightarrow> (unit res \<times> sfs_fs) run" where
  "sfs_link dir name file s = do {
     d \<leftarrow> sfs_pool s dir;
     f \<leftarrow> sfs_pool s file;
     kassert (vn_fs (sv_v f) = vn_fs (sv_v d));
     if_ok (sfs_dir_link dir name (sv_ino f) s) (\<lambda>_ s. do {
       s \<leftarrow> edit_inode file (\<lambda>n. n\<lparr>sfi_linkcount := (sfi_linkcount n + 1) mod 2 ^ 16\<rparr>) s;
       Some (Ok (), s)
     })
   }"

definition drop_link :: "nat \<Rightarrow> sfs_fs \<Rightarrow> sfs_fs run" where
  "drop_link v s = do {
     sv \<leftarrow> sfs_pool s v;
     kassert (sfi_linkcount (sv_i sv) > 0);
     edit_inode v (\<lambda>n. n\<lparr>sfi_linkcount := sfi_linkcount n - 1\<rparr>) s
   }"

definition sfs_remove :: "(nat \<Rightarrow> bool) \<Rightarrow> nat \<Rightarrow> nat \<Rightarrow> byte list \<Rightarrow> sfs_fs \<Rightarrow> (unit res \<times> sfs_fs) run" where
  "sfs_remove mem new dir name s =
     if_ok (sfs_lookonce mem new dir name s) (\<lambda>(victim, slot) s. do {
       (r, s) \<leftarrow> sfs_dir_unlink dir slot s;
       s \<leftarrow> (case r of Inr _ \<Rightarrow> drop_link victim s | Inl _ \<Rightarrow> Some s);
       s \<leftarrow> VOP_DECREF victim s;
       Some (r, s)
     })"

definition sfs_rename ::
  "(nat \<Rightarrow> bool) \<Rightarrow> nat \<Rightarrow> nat \<Rightarrow> byte list \<Rightarrow> nat \<Rightarrow> byte list \<Rightarrow> sfs_fs \<Rightarrow> (unit res \<times> sfs_fs) run" where
  "sfs_rename mem new d1 n1 d2 n2 s = do {
     sv \<leftarrow> sfs_pool s d1;
     kassert (d1 = d2);
     kassert (sv_ino sv = SFS_ROOT_LOCATION);
     if_ok (sfs_lookonce mem new d1 n1 s) (\<lambda>(g1, slot1) s. do {
       g \<leftarrow> sfs_pool s g1;
       kassert (sfi_type (sv_i g) = SFS_TYPE_FILE);
       (r, s) \<leftarrow> sfs_dir_link d1 n2 (sv_ino g) s;
       case r of
         Inl e \<Rightarrow> do { s \<leftarrow> VOP_DECREF g1 s; Some (Err e, s) }
       | Inr slot2 \<Rightarrow> do {
           s \<leftarrow> edit_inode g1 (\<lambda>n. n\<lparr>sfi_linkcount := (sfi_linkcount n + 1) mod 2 ^ 16\<rparr>) s;
           (r, s) \<leftarrow> sfs_dir_unlink d1 slot1 s;
           case r of
             Inr _ \<Rightarrow> do {
               s \<leftarrow> drop_link g1 s;
               s \<leftarrow> VOP_DECREF g1 s;
               Some (Ok (), s)
             }
           | Inl e \<Rightarrow> do {
               (r2, s) \<leftarrow> sfs_dir_unlink d1 slot2 s;
               kassert (r2 = Ok ());
               g \<leftarrow> sfs_pool s g1;
               let s = set_vnode g1 (g\<lparr>sv_i := (sv_i g)\<lparr>sfi_linkcount :=
                         (sfi_linkcount (sv_i g) + 2 ^ 16 - 1) mod 2 ^ 16\<rparr>\<rparr>) s;
               s \<leftarrow> VOP_DECREF g1 s;
               Some (Err e, s)
             }
         }
     })
   }"

text \<open>The result is the directory vnode and the name in the caller's buffer of length \<open>buflen\<close>.\<close>

definition sfs_lookparent :: "nat \<Rightarrow> byte list \<Rightarrow> nat \<Rightarrow> sfs_fs \<Rightarrow> ((nat \<times> byte list) res \<times> sfs_fs) run" where
  "sfs_lookparent v path buflen s = do {
     sv \<leftarrow> sfs_pool s v;
     if sfi_type (sv_i sv) \<noteq> SFS_TYPE_DIR then Some (Err ENOTDIR, s)
     else if length path + 1 > buflen then Some (Err ENAMETOOLONG, s)
     else do {
       s \<leftarrow> edit_vn v vnode_incref s;
       Some (Ok (v, path), s)
     }
   }"

definition sfs_lookup :: "(nat \<Rightarrow> bool) \<Rightarrow> nat \<Rightarrow> nat \<Rightarrow> byte list \<Rightarrow> sfs_fs \<Rightarrow> (nat res \<times> sfs_fs) run" where
  "sfs_lookup mem new v path s = do {
     sv \<leftarrow> sfs_pool s v;
     if sfi_type (sv_i sv) \<noteq> SFS_TYPE_DIR then Some (Err ENOTDIR, s)
     else if_ok (sfs_lookonce mem new v path s) (\<lambda>(final, _) s. Some (Ok final, s))
   }"

definition sfs_notdir :: "'a res" where "sfs_notdir = Err ENOTDIR"
definition sfs_isdir :: "'a res" where "sfs_isdir = Err EISDIR"
definition sfs_unimp :: "'a res" where "sfs_unimp = Err EUNIMP"

end
