(* ===== verification/SfsTrunc.thy ===== *)
theory SfsTrunc
  imports SfsVnode
begin

section \<open>Truncating SFS files\<close>

text \<open>
  What \<^verbatim>\<open>sfs_truncate\<close> does to a file: the blocks past the new length are released, with an exception: the
  comparisons with \<^verbatim>\<open>blocklen\<close> in the indirect part keep the first block past the end.
\<close>

subsection \<open>Releasing blocks\<close>

lemma sfs_bfree_ok:
  assumes "bitmap_ok (sfs_freemap s)" "dev_good s" "b \<in> used s"
  shows "\<exists>s'. sfs_bfree b s = Some s' \<and> fs_moves s (disk s) (used s - {b}) (sfs_pool s) s'"
proof -
  obtain bm' where "bitmap_unmark (sfs_freemap s) b = Some bm'" "bitmap_ok bm'"
    "bm_nbits bm' = bm_nbits (sfs_freemap s)" "marked bm' = used s - {b}"
    using bm.release_used [OF assms(1,3)] by blast
  then show ?thesis using assms(2) by (simp add: sfs_bfree_def fs_moves_def dev_good_def)
qed

lemma vstep_shrink:
  assumes s: "space_ok s" "file_ok s v" "sfs_pool s v = Some sv"
    and m: "fs_moves s dk M ((sfs_pool s)(v \<mapsto> sv')) s'"
    and sv': "same_vnode sv sv'" "inode_wf (sv_i sv')"
    and o: "set (own dk (sv_ino sv) (sv_i sv')) \<subseteq> set (fown s v)" "distinct (own dk (sv_ino sv) (sv_i sv'))"
    and M: "M = (used s - set (fown s v)) \<union> set (own dk (sv_ino sv) (sv_i sv'))"
    and dk: "\<forall>x. x \<notin> set (fown s v) - {fino s v} \<longrightarrow> dk x = disk s x"
  shows "vstep v s s'"
proof -
  note f = fs_movesD [OF m]
  have p: "the (sfs_pool s' v) = sv'" using f(3) by simp
  have ino: "sv_ino sv' = sv_ino sv" using sv'(1) by (simp add: same_vnode_def)
  have ow: "fown s' v = own dk (sv_ino sv) (sv_i sv')" using p f(1) ino by simp
  have in': "set (fown s v) \<subseteq> used s \<inter> {..<nblk s} - sysblocks s" using s(2) by (simp add: file_ok_def)
  have sp: "space_ok s'"
  proof -
    have "{nblk s..<bm_nbits (sfs_freemap s)} \<subseteq> M" "sysblocks s \<subseteq> M"
      using s(1) in' M by (auto simp: space_ok_def)
    then show ?thesis using s(1) m f(6) by (auto simp: space_ok_def fs_moves_def)
  qed
  have fo: "file_ok s' v" using ow o in' sv'(2) p f M by (auto simp: file_ok_def)
  have m': "fs_moves s (disk s') (used s') (sfs_pool s') s'" using m f by simp
  have "\<forall>b \<in> used s - set (fown s v). disk s' b = disk s b \<and> b \<notin> set (fown s' v)"
    using dk ow o(1) f(1) by auto
  moreover have "disk s' (fino s v) = disk s (fino s v)" using dk f(1) by simp
  ultimately show ?thesis using sp fo m' p sv'(1) s(3) f(2,3) M ow unfolding vstep_def by simp
qed

subsection \<open>Direct blocks\<close>

definition zero_from :: "nat \<Rightarrow> nat list \<Rightarrow> nat list \<Rightarrow> nat list" where
  "zero_from L is bs = map (\<lambda>i. if i \<in> set is \<and> L \<le> i then 0 else bs ! i) [0..<length bs]"

lemma zero_from_Nil [simp]: "zero_from L [] bs = bs"
  by (simp add: zero_from_def map_nth)

lemma zero_from_Cons:
  "i < length bs \<Longrightarrow> zero_from L (i # is) bs = zero_from L is (if L \<le> i then bs[i := 0] else bs)"
  by (intro nth_equalityI) (auto simp: zero_from_def nth_list_update)

lemma length_zero_from [simp]: "length (zero_from L is bs) = length bs"
  by (simp add: zero_from_def)

lemma zero_from_nth [simp]: "i < length bs \<Longrightarrow> zero_from L is bs ! i = (if i \<in> set is \<and> L \<le> i then 0 else bs ! i)"
  by (simp add: zero_from_def)

lemma filter_clear:
  assumes "k < length xs" "xs ! k = b" "b \<noteq> 0" "distinct (filter (\<lambda>x. x \<noteq> 0) xs)"
  shows "set (filter (\<lambda>x. x \<noteq> 0) (xs[k := 0])) = set (filter (\<lambda>x. x \<noteq> 0) xs) - {b}"
    "distinct (filter (\<lambda>x. x \<noteq> (0::nat)) (xs[k := 0]))"
proof -
  have xs: "xs = take k xs @ b # drop (Suc k) xs" using assms(1,2) id_take_nth_drop by metis
  then have "filter (\<lambda>x. x \<noteq> 0) xs = filter (\<lambda>x. x \<noteq> 0) (take k xs) @ b # filter (\<lambda>x. x \<noteq> 0) (drop (Suc k) xs)"
    using assms(3) by (metis (mono_tags, lifting) filter.simps(2) filter_append)
  moreover have "xs[k := 0] = take k xs @ 0 # drop (Suc k) xs" using assms(1) by (rule upd_conv_take_nth_drop)
  then have "filter (\<lambda>x. x \<noteq> 0) (xs[k := 0]) = filter (\<lambda>x. x \<noteq> 0) (take k xs) @ filter (\<lambda>x. x \<noteq> 0) (drop (Suc k) xs)"
    by simp
  ultimately show "set (filter (\<lambda>x. x \<noteq> 0) (xs[k := 0])) = set (filter (\<lambda>x. x \<noteq> 0) xs) - {b}"
    "distinct (filter (\<lambda>x. x \<noteq> 0) (xs[k := 0]))" using assms(4) by auto
qed

lemma own_clear_direct:
  assumes "length (sfi_direct i) = 15" "k < 15" "sfi_direct i ! k = b" "b \<noteq> 0" "distinct (own dk a i)"
  shows "set (own dk a (i\<lparr>sfi_direct := (sfi_direct i)[k := 0]\<rparr>)) = set (own dk a i) - {b}"
    "distinct (own dk a (i\<lparr>sfi_direct := (sfi_direct i)[k := 0]\<rparr>))"
proof -
  let ?i = "i\<lparr>sfi_direct := (sfi_direct i)[k := 0]\<rparr>"
  have sl: "slots dk ?i = (slots dk i)[Suc k := 0]"
    using assms(1,2) by (simp add: slots_def fmap_def id_words_def list_update_append)
  have k: "Suc k < length (slots dk i)" "slots dk i ! Suc k = b" using assms(1-3) by (simp_all add: slots_def fmap_def nth_append)
  have d: "distinct (filter (\<lambda>x. x \<noteq> 0) (slots dk i))" "a \<notin> set (filter (\<lambda>x. x \<noteq> 0) (slots dk i))"
    using assms(5) by (simp_all add: own_def)
  note c = filter_clear [OF k assms(4) d(1)]
  have "b \<in> set (slots dk i)" using k by (metis nth_mem)
  then show "set (own dk a ?i) = set (own dk a i) - {b}" "distinct (own dk a ?i)"
    using c d(2) assms(4) unfolding own_def sl by auto
qed

lemma trunc_direct_ok:
  assumes "space_ok s" "file_ok s v" "set is \<subseteq> {..<15}"
  shows "\<exists>s'. trunc_direct v L is s = Some s' \<and> vstep v s s' \<and> disk s' = disk s
     \<and> fi s' v = (fi s v)\<lparr>sfi_direct := zero_from L is (sfi_direct (fi s v))\<rparr>"
  using assms
proof (induction "is" arbitrary: s)
  case Nil
  then show ?case using vstep_refl [OF Nil(1,2)] by simp
next
  case (Cons i js)
  obtain sv where sv: "sfs_pool s v = Some sv" using Cons.prems(2) by (auto simp: file_ok_def)
  have wf: "inode_wf (sv_i sv)" using Cons.prems(2) sv by (simp add: file_ok_def)
  then have l: "length (sfi_direct (sv_i sv)) = 15" by (simp add: inode_wf_def)
  have i: "i < 15" using Cons.prems(3) by simp
  let ?b = "sfi_direct (sv_i sv) ! i"
  show ?case
  proof (cases "L \<le> i \<and> ?b \<noteq> 0")
    case False
    then have "L \<le> i \<Longrightarrow> (sfi_direct (sv_i sv))[i := 0] = sfi_direct (sv_i sv)" by (metis list_update_id)
    then have "zero_from L (i # js) (sfi_direct (sv_i sv)) = zero_from L js (sfi_direct (sv_i sv))"
      using zero_from_Cons [of i "sfi_direct (sv_i sv)" L js] i l by auto
    then show ?thesis using Cons.IH [OF Cons.prems(1,2)] Cons.prems(3) sv i l False by auto
  next
    case True
    let ?i = "sv_i sv\<lparr>sfi_direct := (sfi_direct (sv_i sv))[i := 0]\<rparr>"
    let ?sv = "sv\<lparr>sv_i := ?i, sv_dirty := True\<rparr>"
    have d: "distinct (own (disk s) (sv_ino sv) (sv_i sv))" "set (own (disk s) (sv_ino sv) (sv_i sv)) \<subseteq> used s"
      using Cons.prems(2) sv by (auto simp: file_ok_def)
    have bn: "?b \<noteq> 0" using True by simp
    note oc = own_clear_direct [OF l i refl bn d(1)]
    have "?b \<in> set (sfi_direct (sv_i sv))" using i l by simp
    then have bo: "?b \<in> set (own (disk s) (sv_ino sv) (sv_i sv))" using bn by (simp add: own_def slots_def fmap_def)
    obtain s1 where s1: "sfs_bfree ?b s = Some s1" "fs_moves s (disk s) (used s - {?b}) (sfs_pool s) s1"
      using sfs_bfree_ok [of s ?b] Cons.prems(1) bo d(2) by (auto simp: space_ok_def)
    let ?s2 = "s1\<lparr>sfs_pool := (sfs_pool s)(v \<mapsto> ?sv)\<rparr>"
    have m: "fs_moves s (disk s) (used s - {?b}) ((sfs_pool s)(v \<mapsto> ?sv)) ?s2"
      using s1(2) by (rule fs_moves_pool)
    have st: "vstep v s ?s2"
    proof (rule vstep_shrink [OF Cons.prems(1,2) sv m])
      show "same_vnode sv ?sv" by (simp add: same_vnode_def)
      show "inode_wf (sv_i ?sv)" using inode_wf_direct [OF wf, of 0 i] by simp
      show "set (own (disk s) (sv_ino sv) (sv_i ?sv)) \<subseteq> set (fown s v)"
        "distinct (own (disk s) (sv_ino sv) (sv_i ?sv))" using oc sv by auto
      show "used s - {?b} = used s - set (fown s v) \<union> set (own (disk s) (sv_ino sv) (sv_i ?sv))"
        using oc(1) sv bo d(2) by auto
    qed simp
    have e: "edit_inode v (\<lambda>n. n\<lparr>sfi_direct := (sfi_direct n)[i := 0]\<rparr>) s1 = Some ?s2"
      using edit_inode_eq [of s1 v sv] fs_movesD(3) [OF s1(2)] sv by simp
    have dk: "disk ?s2 = disk s" using fs_movesD(1) [OF m] .
    have js: "set js \<subseteq> {..<15}" using Cons.prems(3) by simp
    obtain s3 where s3: "trunc_direct v L js ?s2 = Some s3" "vstep v ?s2 s3" "disk s3 = disk ?s2"
      "fi s3 v = (fi ?s2 v)\<lparr>sfi_direct := zero_from L js (sfi_direct (fi ?s2 v))\<rparr>"
      using Cons.IH [OF vstep_fields(1,2) [OF st] js] by blast
    have "trunc_direct v L (i # js) s = Some s3" using sv i l True s1(1) e s3(1) by simp
    moreover have "fi s3 v = (fi s v)\<lparr>sfi_direct := zero_from L (i # js) (sfi_direct (fi s v))\<rparr>"
      using s3(4) zero_from_Cons [of i "sfi_direct (sv_i sv)" L js] i l True sv by simp
    ultimately show ?thesis using vstep_trans [OF st s3(2)] s3(3) dk by simp
  qed
qed

subsection \<open>The indirect block\<close>

definition zap :: "(nat \<Rightarrow> bool) \<Rightarrow> nat list \<Rightarrow> nat list" where
  "zap P bs = map (\<lambda>i. if P i then 0 else bs ! i) [0..<length bs]"

lemma length_zap [simp]: "length (zap P bs) = length bs"
  by (simp add: zap_def)

lemma zap_nth [simp]: "i < length bs \<Longrightarrow> zap P bs ! i = (if P i then 0 else bs ! i)"
  by (simp add: zap_def)

lemma distinct_nz:
  "distinct (filter (\<lambda>x. x \<noteq> (0::nat)) xs)
     \<longleftrightarrow> (\<forall>i < length xs. \<forall>j < length xs. xs ! i = xs ! j \<and> xs ! i \<noteq> 0 \<longrightarrow> i = j)"
proof (induction xs)
  case (Cons x xs)
  then show ?case by (auto simp: All_less_Suc2 in_set_conv_nth)
qed simp

lemma filter_zap:
  assumes "distinct (filter (\<lambda>x. x \<noteq> 0) xs)"
  shows "distinct (filter (\<lambda>x. x \<noteq> 0) (zap P xs))"
    "set (filter (\<lambda>x. x \<noteq> 0) (zap P xs)) = set (filter (\<lambda>x. x \<noteq> 0) xs) - (\<lambda>i. xs ! i) ` {i. i < length xs \<and> P i}"
  using assms unfolding distinct_nz by (fastforce simp: in_set_conv_nth split: if_splits)+

lemma trunc_indirect_ok:
  assumes "bitmap_ok (sfs_freemap s)" "dev_good s" "distinct js" "set js \<subseteq> {..<length ws}"
    and F: "F = (\<lambda>j. ws ! j) ` {j \<in> set js. L < 15 + j \<and> ws ! j \<noteq> 0}" "F \<subseteq> used s"
      "inj_on (\<lambda>j. ws ! j) {j \<in> set js. L < 15 + j \<and> ws ! j \<noteq> 0}"
  shows "\<exists>s'. trunc_indirect L js (ws, hz, dt) s
      = Some ((zap (\<lambda>j. j \<in> set js \<and> L < 15 + j) ws, hz \<or> (\<exists>j \<in> set js. \<not> L < 15 + j \<and> ws ! j \<noteq> 0), dt \<or> F \<noteq> {}), s')
      \<and> fs_moves s (disk s) (used s - F) (sfs_pool s) s'"
  using assms
proof (induction js arbitrary: s ws hz dt F)
  case Nil
  have "zap (\<lambda>j. False) ws = ws" by (simp add: zap_def map_nth)
  then show ?case using Nil by (simp add: fs_moves_def)
next
  case (Cons j js)
  have j: "j < length ws" "j \<notin> set js" using Cons.prems(3,4) by simp_all
  have js: "distinct js" "set js \<subseteq> {..<length ws}" using Cons.prems(3,4) by simp_all
  have nt: "nth_run ws j = Some (ws ! j)" using j by simp
  show ?case
  proof (cases "L < 15 + j \<and> ws ! j \<noteq> 0")
    case False
    have F: "F = (\<lambda>j. ws ! j) ` {k \<in> set js. L < 15 + k \<and> ws ! k \<noteq> 0}" using Cons.prems(5) False by auto
    have i: "inj_on (\<lambda>j. ws ! j) {k \<in> set js. L < 15 + k \<and> ws ! k \<noteq> 0}"
      using Cons.prems(7) by (rule inj_on_subset) auto
    obtain s' where s': "trunc_indirect L js (ws, hz \<or> ws ! j \<noteq> 0, dt) s
        = Some ((zap (\<lambda>k. k \<in> set js \<and> L < 15 + k) ws, (hz \<or> ws ! j \<noteq> 0) \<or> (\<exists>k \<in> set js. \<not> L < 15 + k \<and> ws ! k \<noteq> 0), dt \<or> F \<noteq> {}), s')"
      "fs_moves s (disk s) (used s - F) (sfs_pool s) s'"
      using Cons.IH [OF Cons.prems(1,2) js F Cons.prems(6) i, of "hz \<or> ws ! j \<noteq> 0" dt] by blast
    have "zap (\<lambda>k. k \<in> set (j # js) \<and> L < 15 + k) ws = zap (\<lambda>k. k \<in> set js \<and> L < 15 + k) ws"
      using False by (intro nth_equalityI) auto
    then show ?thesis using s' nt False by auto
  next
    case True
    let ?w = "ws ! j" and ?ws = "ws[j := 0]"
    have wF: "?w \<in> F" using Cons.prems(5) True by auto
    then obtain s1 where s1: "sfs_bfree ?w s = Some s1" "fs_moves s (disk s) (used s - {?w}) (sfs_pool s) s1"
      using sfs_bfree_ok [of s ?w] Cons.prems(1,2,6) by blast
    have same: "?ws ! k = ws ! k" if "k \<in> set js" for k using that j(2) by (metis nth_list_update_neq)
    have dom: "{k \<in> set js. L < 15 + k \<and> ?ws ! k \<noteq> 0} = {k \<in> set js. L < 15 + k \<and> ws ! k \<noteq> 0}"
      using same by auto
    have F: "F - {?w} = (\<lambda>j. ?ws ! j) ` {k \<in> set js. L < 15 + k \<and> ?ws ! k \<noteq> 0}"
    proof -
      have "F = insert ?w ((\<lambda>j. ws ! j) ` {k \<in> set js. L < 15 + k \<and> ws ! k \<noteq> 0})" using Cons.prems(5) True by auto
      moreover have "?w \<notin> (\<lambda>j. ws ! j) ` {k \<in> set js. L < 15 + k \<and> ws ! k \<noteq> 0}"
        using Cons.prems(7) True j(2) by (auto simp: inj_on_def)
      ultimately show ?thesis using same unfolding dom by (auto simp: image_iff)
    qed
    have i: "inj_on (\<lambda>j. ?ws ! j) {k \<in> set js. L < 15 + k \<and> ?ws ! k \<noteq> 0}"
      unfolding dom using Cons.prems(7) same by (auto simp: inj_on_def)
    note f1 = fs_movesD [OF s1(2)]
    have ok: "bitmap_ok (sfs_freemap s1)" "dev_good s1" "distinct js" "set js \<subseteq> {..<length ?ws}" "F - {?w} \<subseteq> used s1"
      using s1(2) f1 Cons.prems(3,4,6) by (auto simp: fs_moves_def)
    obtain s' where s': "trunc_indirect L js (?ws, hz, True) s1
        = Some ((zap (\<lambda>k. k \<in> set js \<and> L < 15 + k) ?ws, hz \<or> (\<exists>k \<in> set js. \<not> L < 15 + k \<and> ?ws ! k \<noteq> 0), True), s')"
      "fs_moves s1 (disk s1) (used s1 - (F - {?w})) (sfs_pool s1) s'"
      using Cons.IH [OF ok(1-4) F ok(5) i, of hz True] by auto
    have "zap (\<lambda>k. k \<in> set (j # js) \<and> L < 15 + k) ws = zap (\<lambda>k. k \<in> set js \<and> L < 15 + k) ?ws"
      using True j by (intro nth_equalityI) (auto simp: nth_list_update)
    moreover have "(\<exists>k \<in> set js. \<not> L < 15 + k \<and> ?ws ! k \<noteq> 0) = (\<exists>k \<in> set (j # js). \<not> L < 15 + k \<and> ws ! k \<noteq> 0)"
      using True same by auto
    moreover have "used s1 - (F - {?w}) = used s - F" using f1(2) wF by auto
    ultimately show ?thesis
      using s' s1(1) nt True wF fs_moves_trans [OF s1(2) s'(2)] f1 by auto
  qed
qed

subsection \<open>\<^verbatim>\<open>sfs_truncate\<close>\<close>

abbreviation nz :: "nat list \<Rightarrow> nat list" where
  "nz xs \<equiv> filter (\<lambda>x. x \<noteq> 0) xs"

lemma own_indirect:
  "sfi_indirect i \<noteq> 0 \<Longrightarrow> own dk a i = a # sfi_indirect i # nz (sfi_direct i) @ nz (id_words dk i)"
  by (simp add: own_def slots_def fmap_def)

lemma shrink_sets:
  "B = A \<union> W \<Longrightarrow> B' = A \<union> W' \<Longrightarrow> A \<inter> W = {} \<Longrightarrow> A \<union> W \<subseteq> U \<Longrightarrow> W' \<subseteq> W \<Longrightarrow> U - (W - W') = U - B \<union> B'"
  by auto

text \<open>The loop over the words of the indirect block, on a file that has one.\<close>

lemma trunc_words:
  assumes "space_ok s" "file_ok s v" "sfi_indirect (fi s v) \<noteq> 0"
    and ws: "ws = id_words (disk s) (fi s v)" "ws' = zap (\<lambda>j. L < 15 + j) ws"
  shows "\<exists>s1 s2 hz dt. sfs_rblock (sfi_indirect (fi s v)) s = Some (Ok (disk s (sfi_indirect (fi s v))), s1)
     \<and> trunc_indirect L [0..<128] (bytes_words (disk s (sfi_indirect (fi s v))), False, False) s1 = Some ((ws', hz, dt), s2)
     \<and> fs_moves s (disk s) (used s - (set (nz ws) - set (nz ws'))) (sfs_pool s) s2
     \<and> (hz \<longleftrightarrow> ws' \<noteq> replicate 128 0) \<and> (\<not> dt \<longrightarrow> ws' = ws)"
proof -
  have own: "distinct (fown s v)" "set (fown s v) \<subseteq> used s" using assms(2) by (auto simp: file_ok_def)
  note ow = own_indirect [OF assms(3), of "disk s" "fino s v"]
  have wsd: "distinct (nz ws)" "set (nz ws) \<subseteq> used s" using own ow ws by auto
  have g: "dev_good s" "bitmap_ok (sfs_freemap s)" using assms(1) by (simp_all add: space_ok_def)
  have lw: "length ws = 128" using length_id_words [OF file_shape [OF assms(1,2)]] ws by simp
  obtain s1 where s1: "sfs_rblock (sfi_indirect (fi s v)) s = Some (Ok (disk s (sfi_indirect (fi s v))), s1)"
    "dev_moves s (disk s) s1" using sfs_rblock_ok [OF g(1) fblocks_id(2) [OF assms(1-3)]] by blast
  note f1 = dev_moves_fields [OF s1(2)]
  have bw: "bytes_words (disk s (sfi_indirect (fi s v))) = ws" using assms(3) ws by (simp add: id_words_def)
  let ?J = "{j \<in> set [0..<128]. L < 15 + j \<and> ws ! j \<noteq> 0}"
  have F: "set (nz ws) - set (nz ws') = (\<lambda>j. ws ! j) ` ?J"
    unfolding ws(2) filter_zap(2) [OF wsd(1)] using lw by (auto simp: in_set_conv_nth)
  have inj: "inj_on (\<lambda>j. ws ! j) ?J" using wsd(1) lw unfolding distinct_nz inj_on_def by auto
  have b1: "bitmap_ok (sfs_freemap s1)" "dev_good s1" "distinct [0..<128]" "set [0..<128] \<subseteq> {..<length ws}"
    "set (nz ws) - set (nz ws') \<subseteq> used s1" using g f1 lw wsd(2) by auto
  obtain s2 where s2: "trunc_indirect L [0..<128] (ws, False, False) s1
      = Some ((zap (\<lambda>j. j \<in> set [0..<128] \<and> L < 15 + j) ws, False \<or> (\<exists>j \<in> set [0..<128]. \<not> L < 15 + j \<and> ws ! j \<noteq> 0),
           False \<or> set (nz ws) - set (nz ws') \<noteq> {}), s2)"
    "fs_moves s1 (disk s1) (used s1 - (set (nz ws) - set (nz ws'))) (sfs_pool s1) s2"
    using trunc_indirect_ok [OF b1(1-4) F b1(5) inj, of False False] by blast
  have z: "zap (\<lambda>j. j \<in> set [0..<128] \<and> L < 15 + j) ws = ws'" using lw ws by (intro nth_equalityI) auto
  have hz: "(\<exists>j \<in> set [0..<128]. \<not> L < 15 + j \<and> ws ! j \<noteq> 0) \<longleftrightarrow> ws' \<noteq> replicate 128 0"
    using lw ws by (auto simp: list_eq_iff_nth_eq)
  have dt: "ws' = ws" if "set (nz ws) - set (nz ws') = {}"
  proof (rule nth_equalityI)
    fix j assume "j < length ws'"
    moreover then have "L < 15 + j \<Longrightarrow> ws ! j = 0" using F that lw ws by auto
    ultimately show "ws' ! j = ws ! j" using ws by simp
  qed (simp add: ws)
  have "fs_moves s (disk s) (used s - (set (nz ws) - set (nz ws'))) (sfs_pool s) s2"
    using fs_moves_trans [OF fs_moves_dev [OF assms(1) s1(2)] s2(2)] f1 by simp
  then show ?thesis using s1(1) s2(1) bw z hz dt by auto
qed

text \<open>Dropping an indirect block that has become empty.\<close>

lemma trunc_id_drop:
  assumes "space_ok s" "file_ok s v" "sfi_indirect (fi s v) \<noteq> 0" "ws = id_words (disk s) (fi s v)"
    "fs_moves s (disk s) (used s - set (nz ws)) (sfs_pool s) s2"
  shows "\<exists>s3 s'. sfs_bfree (sfi_indirect (fi s v)) s2 = Some s3 \<and> edit_inode v (\<lambda>n. n\<lparr>sfi_indirect := 0\<rparr>) s3 = Some s'
     \<and> vstep v s s' \<and> disk s' = disk s \<and> fi s' v = (fi s v)\<lparr>sfi_indirect := 0\<rparr>"
proof -
  obtain sv where sv: "sfs_pool s v = Some sv" using assms(2) by (auto simp: file_ok_def)
  let ?id = "sfi_indirect (sv_i sv)" and ?sv = "sv\<lparr>sv_i := sv_i sv\<lparr>sfi_indirect := 0\<rparr>, sv_dirty := True\<rparr>"
  note f2 = fs_movesD [OF assms(5)]
  have own: "distinct (fown s v)" "set (fown s v) \<subseteq> used s" using assms(2) by (auto simp: file_ok_def)
  have ow: "fown s v = sv_ino sv # ?id # nz (sfi_direct (sv_i sv)) @ nz ws"
    using own_indirect [OF assms(3)] assms(4) sv by simp
  have "?id \<in> used s2" "bitmap_ok (sfs_freemap s2)" "dev_good s2"
    using f2(2) own ow assms(5) by (auto simp: fs_moves_def)
  then obtain s3 where s3: "sfs_bfree ?id s2 = Some s3" "fs_moves s2 (disk s2) (used s2 - {?id}) (sfs_pool s2) s3"
    using sfs_bfree_ok by blast
  have m3: "fs_moves s (disk s) (used s - set (nz ws) - {?id}) (sfs_pool s) s3"
    using fs_moves_trans [OF assms(5) s3(2)] f2 by simp
  let ?s4 = "s3\<lparr>sfs_pool := (sfs_pool s)(v \<mapsto> ?sv)\<rparr>"
  have m4: "fs_moves s (disk s) (used s - set (nz ws) - {?id}) ((sfs_pool s)(v \<mapsto> ?sv)) ?s4" using m3 by (rule fs_moves_pool)
  have ow': "own (disk s) (sv_ino sv) (sv_i ?sv) = sv_ino sv # nz (sfi_direct (sv_i sv))"
    by (simp add: own_def slots_def fmap_def id_words_def)
  have "vstep v s ?s4"
  proof (rule vstep_shrink [OF assms(1,2) sv m4])
    show "same_vnode sv ?sv" by (simp add: same_vnode_def)
    show "inode_wf (sv_i ?sv)" using assms(2) sv by (simp add: file_ok_def inode_wf_def)
    show "set (own (disk s) (sv_ino sv) (sv_i ?sv)) \<subseteq> set (fown s v)" "distinct (own (disk s) (sv_ino sv) (sv_i ?sv))"
      using own(1) unfolding ow ow' by auto
    show "used s - set (nz ws) - {?id} = used s - set (fown s v) \<union> set (own (disk s) (sv_ino sv) (sv_i ?sv))"
      using own unfolding ow ow' by auto
  qed simp
  moreover have "edit_inode v (\<lambda>n. n\<lparr>sfi_indirect := 0\<rparr>) s3 = Some ?s4"
    using edit_inode_eq [of s3 v sv] fs_movesD(3) [OF m3] sv by simp
  ultimately show ?thesis using s3(1) fs_movesD(1) [OF m4] sv by auto
qed

text \<open>Keeping it, with the words \<open>ws'\<close> that are left.\<close>

lemma trunc_id_keep:
  assumes "space_ok s" "file_ok s v" "sfi_indirect (fi s v) \<noteq> 0" "ws = id_words (disk s) (fi s v)"
    "ws' = zap P ws" "id_words dk (fi s v) = ws'" "\<forall>b. b \<noteq> sfi_indirect (fi s v) \<longrightarrow> dk b = disk s b"
    "fs_moves s dk (used s - (set (nz ws) - set (nz ws'))) (sfs_pool s) s'"
  shows "vstep v s s'"
proof -
  obtain sv where sv: "sfs_pool s v = Some sv" using assms(2) by (auto simp: file_ok_def)
  have m: "fs_moves s dk (used s - (set (nz ws) - set (nz ws'))) ((sfs_pool s)(v \<mapsto> sv)) s'"
    using assms(8) sv by (simp add: fun_upd_idem)
  let ?A = "insert (sv_ino sv) (insert (sfi_indirect (sv_i sv)) (set (nz (sfi_direct (sv_i sv)))))"
  have own: "distinct (fown s v)" "set (fown s v) \<subseteq> used s" using assms(2) by (auto simp: file_ok_def)
  have ow: "fown s v = sv_ino sv # sfi_indirect (sv_i sv) # nz (sfi_direct (sv_i sv)) @ nz ws"
    "own dk (sv_ino sv) (sv_i sv) = sv_ino sv # sfi_indirect (sv_i sv) # nz (sfi_direct (sv_i sv)) @ nz ws'"
    using own_indirect [OF assms(3)] assms(4,6) sv by simp_all
  have d: "distinct (nz ws)" using own(1) ow(1) by simp
  have z: "distinct (nz ws')" "set (nz ws') \<subseteq> set (nz ws)"
    using filter_zap [OF d, of P] assms(5) by auto
  have sets: "set (fown s v) = ?A \<union> set (nz ws)" "set (own dk (sv_ino sv) (sv_i sv)) = ?A \<union> set (nz ws')"
    "?A \<inter> set (nz ws) = {}" using own(1) ow by auto
  show ?thesis
  proof (rule vstep_shrink [OF assms(1,2) sv m])
    show "same_vnode sv sv" by (simp add: same_vnode_def)
    show "inode_wf (sv_i sv)" using assms(2) sv by (simp add: file_ok_def)
    show "set (own dk (sv_ino sv) (sv_i sv)) \<subseteq> set (fown s v)" using z(2) unfolding sets(1,2) by blast
    show "distinct (own dk (sv_ino sv) (sv_i sv))" using own(1) z unfolding ow by auto
    show "used s - (set (nz ws) - set (nz ws')) = used s - set (fown s v) \<union> set (own dk (sv_ino sv) (sv_i sv))"
      using own(2) unfolding sets(1) by (intro shrink_sets [OF refl sets(2,3) _ z(2)]) simp
    show "\<forall>x. x \<notin> set (fown s v) - {fino s v} \<longrightarrow> dk x = disk s x" using assms(7) sv sets(1) own(1) ow(1) by auto
  qed
qed

lemma trunc_idblock_ok:
  assumes "space_ok s" "file_ok s v"
  shows "\<exists>s'. trunc_idblock v L s = Some (Ok (), s') \<and> vstep v s s'
     \<and> sfi_direct (fi s' v) = sfi_direct (fi s v)
     \<and> id_words (disk s') (fi s' v) = zap (\<lambda>j. L < 15 + j) (id_words (disk s) (fi s v))
     \<and> (\<forall>b. b \<noteq> sfi_indirect (fi s v) \<longrightarrow> disk s' b = disk s b)
     \<and> (L < 142 \<and> id_words (disk s') (fi s' v) = replicate 128 0 \<longrightarrow> sfi_indirect (fi s' v) = 0)
     \<and> sfi_indirect (fi s' v) \<in> {0, sfi_indirect (fi s v)}"
proof -
  obtain sv where sv: "sfs_pool s v = Some sv" using assms(2) by (auto simp: file_ok_def)
  define ws where "ws = id_words (disk s) (fi s v)"
  define ws' where "ws' = zap (\<lambda>j. L < 15 + j) ws"
  have lw: "length ws = 128" using length_id_words [OF file_shape [OF assms]] by (simp add: ws_def)
  show ?thesis
  proof (cases "L < 142 \<and> sfi_indirect (fi s v) \<noteq> 0")
    case False
    then have "ws' = ws" using lw by (intro nth_equalityI) (auto simp: id_words_def ws_def ws'_def)
    then show ?thesis using False sv vstep_refl [OF assms] by (auto simp: trunc_idblock_def ws_def ws'_def)
  next
    case True
    let ?id = "sfi_indirect (fi s v)"
    have id: "?id \<noteq> 0" using True by simp
    obtain s1 s2 hz dt where s2: "sfs_rblock ?id s = Some (Ok (disk s ?id), s1)"
      "trunc_indirect L [0..<128] (bytes_words (disk s ?id), False, False) s1 = Some ((ws', hz, dt), s2)"
      "fs_moves s (disk s) (used s - (set (nz ws) - set (nz ws'))) (sfs_pool s) s2"
      "hz \<longleftrightarrow> ws' \<noteq> replicate 128 0" "\<not> dt \<longrightarrow> ws' = ws"
      using trunc_words [OF assms id ws_def ws'_def] by blast
    note f2 = fs_movesD [OF s2(3)]
    have eq: "trunc_idblock v L s = (if \<not> hz then do {
           s \<leftarrow> sfs_bfree ?id s2;
           s \<leftarrow> edit_inode v (\<lambda>n. n\<lparr>sfi_indirect := 0\<rparr>) s;
           Some (Ok (), s)
         }
         else if dt then sfs_wblock (words_bytes ws') ?id s2
         else Some (Ok (), s2))"
      using True sv s2(1,2) by (simp add: trunc_idblock_def Let_def)
    consider "\<not> hz" | "hz" "\<not> dt" | "hz" "dt" by blast
    then show ?thesis
    proof cases
      case 1
      then have z: "ws' = replicate 128 0" using s2(4) by simp
      then have "fs_moves s (disk s) (used s - set (nz ws)) (sfs_pool s) s2" using s2(3) by simp
      from trunc_id_drop [OF assms id ws_def this] obtain s3 s' where
        "sfs_bfree ?id s2 = Some s3" "edit_inode v (\<lambda>n. n\<lparr>sfi_indirect := 0\<rparr>) s3 = Some s'"
        "vstep v s s'" "disk s' = disk s" "fi s' v = (fi s v)\<lparr>sfi_indirect := 0\<rparr>" by blast
      then show ?thesis using eq 1 z by (simp add: id_words_def ws'_def ws_def)
    next
      case 2
      then have w: "ws' = ws" using s2(5) by simp
      have "vstep v s s2" using s2(3) w ws_def by (intro trunc_id_keep [OF assms id ws_def ws'_def]) auto
      then show ?thesis using eq 2 w f2 sv s2(4) by (simp add: ws_def ws'_def)
    next
      case 3
      let ?dk = "(disk s)(?id := words_bytes ws')"
      have "ws ! j < 2 ^ 32" if "j < 128" for j
        using bytes_words_less [of "ws ! j" "disk s ?id"] id that lw nth_mem [of j ws] by (simp add: ws_def id_words_def)
      then have "\<forall>w \<in> set ws'. w < 2 ^ 32" using lw by (auto simp: in_set_conv_nth ws'_def)
      then have bw: "id_words ?dk (fi s v) = ws'" using id bytes_words_bytes by (simp add: id_words_def)
      have d2: "?id < d_blocks (sfs_device s2)" "length (words_bytes ws') = 512"
        using f2 fblocks_id(2) [OF assms id] lw by (simp_all add: ws'_def)
      obtain s3 where s3: "sfs_wblock (words_bytes ws') ?id s2 = Some (Ok (), s3)"
        "dev_moves s2 ((disk s2)(?id := words_bytes ws')) s3" using sfs_wblock_ok [OF f2(7) d2] by blast
      have m3: "fs_moves s ?dk (used s - (set (nz ws) - set (nz ws'))) (sfs_pool s) s3"
        using s2(3) dev_moves_fields [OF s3(2)] by (simp add: fs_moves_def)
      have "vstep v s s3" using m3 bw by (intro trunc_id_keep [OF assms id ws_def ws'_def]) auto
      then show ?thesis using eq 3 s3(1) fs_movesD(1,3) [OF m3] bw s2(4) by (simp add: ws_def ws'_def)
    qed
  qed
qed

text \<open>Block \<open>i\<close> of the file is given up when it is cut to \<open>L\<close> blocks.\<close>

definition dropped :: "nat \<Rightarrow> nat \<Rightarrow> bool" where
  "dropped L i \<longleftrightarrow> (if i < 15 then L \<le> i else L < i)"

lemma sfs_truncate_ok:
  assumes "space_ok s" "file_ok s v" "len + 512 < 2 ^ 31" "L = (len + 511) div 512"
  shows "\<exists>s'. sfs_truncate v (int len) s = Some (Ok (), s') \<and> vstep v s s' \<and> fsize s' v = len
     \<and> fblocks s' v = zap (dropped L) (fblocks s v)
     \<and> fbytes s' v = (\<lambda>k. if dropped L (k div 512) then 0 else fbytes s v k)
     \<and> (len = 0 \<longrightarrow> sfi_indirect (fi s' v) = 0) \<and> sfi_indirect (fi s' v) \<in> {0, sfi_indirect (fi s v)}"
proof -
  have bl: "nat (s32 (int len + 512 - 1) sdiv 512 mod 2 ^ 32) = L"
  proof -
    have "s32 (int len + 512 - 1) = int (len + 511)" using assms(3) by simp
    moreover have "int (len + 511) sdiv 512 = int L"
      using assms(4) by (simp add: signed_divide_int_def sgn_if zdiv_int)
    moreover have "L < 2 ^ 32" using assms(3,4) by simp
    ultimately show ?thesis by simp
  qed
  have d15: "set [0..<15] \<subseteq> {..<15::nat}" by auto
  obtain s1 where s1: "trunc_direct v L [0..<15] s = Some s1" "vstep v s s1" "disk s1 = disk s"
    "fi s1 v = (fi s v)\<lparr>sfi_direct := zero_from L [0..<15] (sfi_direct (fi s v))\<rparr>"
    using trunc_direct_ok [OF assms(1,2) d15] by blast
  note v1 = vstep_fields(1,2) [OF s1(2)]
  obtain s2 where s2: "trunc_idblock v L s1 = Some (Ok (), s2)" "vstep v s1 s2" "sfi_direct (fi s2 v) = sfi_direct (fi s1 v)"
    "id_words (disk s2) (fi s2 v) = zap (\<lambda>j. L < 15 + j) (id_words (disk s1) (fi s1 v))"
    "\<forall>b. b \<noteq> sfi_indirect (fi s1 v) \<longrightarrow> disk s2 b = disk s1 b"
    "L < 142 \<and> id_words (disk s2) (fi s2 v) = replicate 128 0 \<longrightarrow> sfi_indirect (fi s2 v) = 0"
    "sfi_indirect (fi s2 v) \<in> {0, sfi_indirect (fi s1 v)}"
    using trunc_idblock_ok [OF v1, of L] by (elim exE conjE) (rule that)
  note v2 = vstep_fields(1,2) [OF s2(2)]
  have l32: "nat (int len mod 2 ^ 32) = len" "len < 2 ^ 32" using assms(3) by simp_all
  obtain s3 where s3: "edit_inode v (\<lambda>n. n\<lparr>sfi_size := len\<rparr>) s2 = Some s3" "vstep v s2 s3"
    "fbytes s3 v = fbytes s2 v" "fsize s3 v = len"
    using set_size_step [OF v2 l32(2)] by blast
  obtain sv2 where sv2: "sfs_pool s2 v = Some sv2" using v2(2) by (auto simp: file_ok_def)
  have s3': "fblocks s3 v = fblocks s2 v" "sfi_indirect (fi s3 v) = sfi_indirect (fi s2 v)"
    using s3(1) edit_inode_eq [OF sv2, of "\<lambda>n. n\<lparr>sfi_size := len\<rparr>"] sv2
    by (auto simp: fmap_def id_words_def)
  have sh: "inode_shape (disk s) (fi s v)" using assms(1,2) by (rule file_shape)
  have len15: "length (sfi_direct (fi s v)) = 15" using sh by (simp add: inode_shape_def inode_wf_def)
  have len128: "length (id_words (disk s) (fi s v)) = 128" using length_id_words [OF sh] .
  have idw: "id_words (disk s1) (fi s1 v) = id_words (disk s) (fi s v)" using s1(3,4) by (simp add: id_words_def)
  have fb: "fblocks s2 v = zap (dropped L) (fblocks s v)"
    using s2(3,4) s1(4) idw len15 len128
    by (intro nth_equalityI) (auto simp: fmap_def nth_append dropped_def)
  have z: "len = 0 \<longrightarrow> sfi_indirect (fi s2 v) = 0"
  proof
    assume "len = 0"
    then have "L = 0" using assms(4) by simp
    moreover have "zap (\<lambda>j. True) (id_words (disk s) (fi s v)) = replicate 128 0"
      using len128 by (intro nth_equalityI) simp_all
    ultimately show "sfi_indirect (fi s2 v) = 0" using s2(4,6) idw by simp
  qed
  have by': "fbytes s2 v = (\<lambda>k. if dropped L (k div 512) then 0 else fbytes s v k)"
  proof
    fix k
    show "fbytes s2 v k = (if dropped L (k div 512) then 0 else fbytes s v k)"
    proof (cases "k < 143 * 512 \<and> \<not> dropped L (k div 512) \<and> fblocks s v ! (k div 512) \<noteq> 0")
      case False
      then show ?thesis using fb length_fmap [OF sh] less_mult_imp_div_less [of k 143 512]
        by (auto simp: content_def blk_byte_def)
    next
      case True
      then have k: "k div 512 < 143" using less_mult_imp_div_less [of k 143 512] by simp
      have "fblocks s v ! (k div 512) \<noteq> sfi_indirect (fi s v)"
        using fblocks_used(5) [OF assms(1,2) k] True by simp
      then have "disk s2 (fblocks s v ! (k div 512)) = disk s (fblocks s v ! (k div 512))"
        using s2(5) s1(3,4) by simp
      then show ?thesis using True fb k length_fmap [OF sh] by (simp add: content_def blk_byte_def)
    qed
  qed
  have "sfs_truncate v (int len) s = Some (Ok (), s3)"
    using bl s1(1) s2(1) s3(1) l32(1) by (simp add: sfs_truncate_def)
  then show ?thesis
    using vstep_trans [OF vstep_trans [OF s1(2) s2(2)] s3(2)] s3 s3' fb by' z s2(7) s1(4) by simp
qed

text \<open>
  C15. \<^verbatim>\<open>sfs_truncate\<close> succeeds, sets the size, keeps every byte below the new size, allocates nothing and leaves all other
  blocks alone; truncating to nothing releases every block of the file but its inode.
\<close>

theorem sfs_truncate_spec:
  assumes "space_ok s" "file_ok s v" "len + 512 < 2 ^ 31"
  shows "\<exists>s'. sfs_truncate v (int len) s = Some (Ok (), s') \<and> vstep v s s' \<and> fsize s' v = len
     \<and> (\<forall>k < len. fbytes s' v k = fbytes s v k) \<and> used s' \<subseteq> used s
     \<and> (len = 0 \<longrightarrow> used s' = used s - (set (fown s v) - {fino s v}) \<and> (\<forall>k. fbytes s' v k = 0))"
proof -
  define L where "L = (len + 511) div 512"
  obtain s' where s': "sfs_truncate v (int len) s = Some (Ok (), s')" "vstep v s s'" "fsize s' v = len"
    "fblocks s' v = zap (dropped L) (fblocks s v)" "fbytes s' v = (\<lambda>k. if dropped L (k div 512) then 0 else fbytes s v k)"
    "len = 0 \<longrightarrow> sfi_indirect (fi s' v) = 0" "sfi_indirect (fi s' v) \<in> {0, sfi_indirect (fi s v)}"
    using sfs_truncate_ok [OF assms L_def] by (elim exE conjE) (rule that)
  have "\<not> dropped L (k div 512)" if "k < len" for k
  proof -
    have "k div 512 < L" using that unfolding L_def by linarith
    then show ?thesis by (simp add: dropped_def)
  qed
  then have keep: "\<forall>k < len. fbytes s' v k = fbytes s v k" using s'(5) by simp
  have len: "length (fblocks s v) = 143" using length_fmap [OF file_shape [OF assms(1,2)]] .
  have sub: "set (fown s' v) \<subseteq> set (fown s v)"
  proof -
    have "set (nz (fblocks s' v)) \<subseteq> set (nz (fblocks s v))" using s'(4) len by (auto simp: in_set_conv_nth)
    then show ?thesis using s'(7) vstep_fields(6) [OF s'(2)] by (auto simp: own_def slots_def)
  qed
  have own: "fino s v \<in> set (fown s v)" "set (fown s v) \<subseteq> used s" using assms(2) by (auto simp: file_ok_def own_def)
  have us: "used s' = (used s - set (fown s v)) \<union> set (fown s' v)" using s'(2) by (simp add: vstep_def)
  have z: "used s' = used s - (set (fown s v) - {fino s v}) \<and> (\<forall>k. fbytes s' v k = 0)" if "len = 0"
  proof
    have "L = 0" using that by (simp add: L_def)
    then have d: "dropped L i" if "i < 143" for i using that by (simp add: dropped_def)
    then have "set (nz (fblocks s' v)) = {}" using s'(4) len by (auto simp: in_set_conv_nth)
    then have "set (fown s' v) = {fino s v}"
      using s'(6) that vstep_fields(6) [OF s'(2)] by (auto simp: own_def slots_def)
    then show "used s' = used s - (set (fown s v) - {fino s v})" using us own by auto
    show "\<forall>k. fbytes s' v k = 0" using s'(5) \<open>L = 0\<close> by (auto simp: dropped_def content_def)
  qed
  have fr: "used s' \<subseteq> used s" using us sub own(2) by blast
  show ?thesis by (intro exI [of _ s'] conjI impI s'(1-3) keep fr z [THEN conjunct1] z [THEN conjunct2])
qed

text \<open>
  C39. Cutting a file to a length of \<open>L\<close> blocks, with \<open>L\<close> in the range of the indirect block, does not release block \<open>L\<close>, which
  lies entirely past the new end: it stays allocated and keeps its contents, contrary to the comment in
  \<^verbatim>\<open>sfs_truncate\<close> that blocks past the new end of file are discarded.
\<close>

theorem sfs_truncate_keeps_block:
  assumes "space_ok s" "file_ok s v" "L = (len + 511) div 512" "15 \<le> L" "L < 143" "fblocks s v ! L \<noteq> 0"
  shows "\<exists>s'. sfs_truncate v (int len) s = Some (Ok (), s') \<and> fsize s' v = len \<and> len \<le> L * 512
     \<and> fblocks s' v ! L = fblocks s v ! L \<and> fblocks s v ! L \<in> used s'
     \<and> (\<forall>j < 512. fbytes s' v (L * 512 + j) = fbytes s v (L * 512 + j))"
proof -
  have "len < 143 * 512" using assms(3,5) by linarith
  then have l: "len + 512 < 2 ^ 31" by simp
  obtain s' where s': "sfs_truncate v (int len) s = Some (Ok (), s')" "vstep v s s'" "fsize s' v = len"
    "fblocks s' v = zap (dropped L) (fblocks s v)" "fbytes s' v = (\<lambda>k. if dropped L (k div 512) then 0 else fbytes s v k)"
    using sfs_truncate_ok [OF assms(1,2) l assms(3)] by blast
  have b: "fblocks s' v ! L = fblocks s v ! L"
    using s'(4) assms(4,5) length_fmap [OF file_shape [OF assms(1,2)]] by (simp add: dropped_def)
  then have "fblocks s v ! L \<in> used s'"
    using fblocks_used(1) [OF vstep_fields(1,2) [OF s'(2)] assms(5)] assms(6) by simp
  moreover have "\<forall>j < 512. fbytes s' v (L * 512 + j) = fbytes s v (L * 512 + j)"
    using s'(5) assms(4) by (simp add: dropped_def)
  moreover have "len \<le> L * 512" using assms(3) by linarith
  ultimately show ?thesis using s'(1,3) b by blast
qed

text \<open>The sample file with one byte written into its block 16.\<close>

lemma sample_indirect:
  "\<exists>s. space_ok s \<and> file_ok s 100 \<and> fbytes s 100 (16 * 512) = 7 \<and> fblocks s 100 ! 16 \<noteq> 0"
proof -
  let ?u = "mk_kuio [7] 1 8192 UIO_WRITE"
  have u: "uio_rw ?u = UIO_WRITE" "uio_offset ?u = int 8192" "uio_resid ?u = 1" "uio_ready None ?u 1"
    using sample_request [of "[7]" 1 8192 UIO_WRITE] by (simp_all add: io_request_def)
  have "fsize sample_fs 100 < 2 ^ 31" using sample_fs_ok(3) by simp
  then obtain r k s' where s': "r = Ok () \<and> k = 1 \<or> r = Err ENOSPC \<and> full s' \<or> r = Err EINVAL \<and> 143 * 512 < 8192 + (1::nat)"
    "vstep 100 sample_fs s'" "fbytes s' 100 = overlay (fbytes sample_fs 100) 8192 (uio_data ?u k)"
    using sfs_io_write [OF sample_fs_ok(1,2) u] by blast
  have "145 \<le> card ({..<nblk sample_fs} - used sample_fs)" using sample_free by simp
  then have "k = 1" using s'(1) vstep_not_full [OF sample_fs_ok(1,2) s'(2)] by auto
  moreover have "uio_data ?u 1 = [7]" by (simp add: mk_kuio_def bytes_at_mem_of)
  ultimately have "fbytes s' 100 8192 = 7" using s'(3) by (simp add: overlay_def)
  moreover then have "fblocks s' 100 ! 16 \<noteq> 0" by (cases "fblocks s' 100 ! 16 = 0") (simp_all add: content_def blk_byte_def)
  ultimately show ?thesis using vstep_fields(1,2) [OF s'(2)] by auto
qed

theorem sfs_truncate_spec_witness:
  "\<exists>s'. sfs_truncate 100 0 sample_fs = Some (Ok (), s') \<and> fsize s' 100 = 0"
  using sfs_truncate_spec [OF sample_fs_ok(1,2), of 0] by auto

theorem sfs_truncate_keeps_block_witness:
  "\<exists>s s'. sfs_truncate 100 8192 s = Some (Ok (), s') \<and> fsize s' 100 = 8192 \<and> fbytes s' 100 8192 = 7 \<and> fblocks s' 100 ! 16 \<noteq> 0"
proof -
  obtain s where s: "space_ok s" "file_ok s 100" "fbytes s 100 (16 * 512) = 7" "fblocks s 100 ! 16 \<noteq> 0"
    using sample_indirect by blast
  have "16 = (8192 + 511) div (512::nat)" by simp
  from sfs_truncate_keeps_block [OF s(1,2) this _ _ s(4)] obtain s' where s':
    "sfs_truncate 100 (int 8192) s = Some (Ok (), s')" "fsize s' 100 = 8192" "fblocks s' 100 ! 16 = fblocks s 100 ! 16"
    "\<forall>j < 512. fbytes s' 100 (16 * 512 + j) = fbytes s 100 (16 * 512 + j)" by auto
  then have "fbytes s' 100 8192 = 7" using s(3) spec [OF s'(4), of 0] by simp
  then show ?thesis using s(4) s'(1-3) by (intro exI [of _ s] exI [of _ s']) simp
qed

end
