(* ===== verification/SfsPool.thy ===== *)
theory SfsPool
  imports SfsTrunc
begin

section \<open>The inodes and vnodes of a mounted SFS\<close>

text \<open>
  The invariant of a whole mounted file system. An inode is current in memory when its vnode is loaded and on
  disk otherwise (\<open>cur\<close>). \<open>fs_ok s I\<close> says that the inodes in \<open>I\<close> are well formed, own disjoint sets of
  allocated blocks, and that the vnode table and the heap of vnodes agree. Loading, reclaiming and changing
  vnodes keep it.
\<close>

abbreviation loaded :: "sfs_fs \<Rightarrow> nat list" where
  "loaded s \<equiv> a_list (sfs_vnodes s)"

definition vnode_of :: "sfs_fs \<Rightarrow> nat \<Rightarrow> nat option" where
  "vnode_of s i = List.find (\<lambda>v. fino s v = i) (loaded s)"

definition cur :: "sfs_fs \<Rightarrow> nat \<Rightarrow> sfs_inode" where
  "cur s i = (case vnode_of s i of Some v \<Rightarrow> fi s v | None \<Rightarrow> bytes_inode (disk s i))"

abbreviation iown :: "sfs_fs \<Rightarrow> nat \<Rightarrow> nat list" where
  "iown s i \<equiv> own (disk s) i (cur s i)"

abbreviation ibytes :: "sfs_fs \<Rightarrow> nat \<Rightarrow> nat \<Rightarrow> byte" where
  "ibytes s i \<equiv> content (disk s) (cur s i)"

definition inode_ok :: "sfs_fs \<Rightarrow> nat \<Rightarrow> bool" where
  "inode_ok s i \<longleftrightarrow> inode_wf (cur s i) \<and> distinct (iown s i) \<and> set (iown s i) \<subseteq> used s \<inter> {..<nblk s} - sysblocks s
     \<and> vop_table_for (sfi_type (cur s i)) \<noteq> NULL"

definition sv_ok :: "sfs_fs \<Rightarrow> sfs_vnode \<Rightarrow> bool" where
  "sv_ok s sv \<longleftrightarrow> vnode_ok (sv_v sv) \<and> vn_opencount (sv_v sv) \<le> vn_refcount (sv_v sv)
     \<and> vn_ops (sv_v sv) = vop_table_for (sfi_type (sv_i sv)) \<and> vn_fs (sv_v sv) = Some sfs_absfs
     \<and> (sv_dirty sv \<or> bytes_inode (disk s (sv_ino sv)) = sv_i sv)"

definition pool_ok :: "sfs_fs \<Rightarrow> bool" where
  "pool_ok s \<longleftrightarrow> array_ok (sfs_vnodes s) \<and> distinct (loaded s) \<and> set (loaded s) = dom (sfs_pool s)
     \<and> inj_on (fino s) (dom (sfs_pool s)) \<and> (\<forall>sv \<in> ran (sfs_pool s). sv_ok s sv)"

text \<open>
  The superblock and the free map are on disk unless they are marked dirty. (\<^verbatim>\<open>sfs_domount\<close> terminates the volume name
  in memory without marking the superblock dirty.)
\<close>

definition load_super :: "byte list \<Rightarrow> sfs_super" where
  "load_super bs = (let sp = bytes_super bs in sp\<lparr>sp_volname := (sp_volname sp)[31 := 0]\<rparr>)"

definition map_block :: "bitmap \<Rightarrow> nat \<Rightarrow> byte list" where
  "map_block bm j = take 512 (drop (512 * j) (bm_v bm))"

definition meta_ok :: "sfs_fs \<Rightarrow> bool" where
  "meta_ok s \<longleftrightarrow> super_wf (sfs_super s) \<and> sp_magic (sfs_super s) = SFS_MAGIC \<and> sp_volname (sfs_super s) ! 31 = 0
     \<and> bm_nbits (sfs_freemap s) = SFS_BITMAPSIZE (nblk s) \<and> SFS_MAP_LOCATION + SFS_BITBLOCKS (nblk s) \<le> nblk s
     \<and> (sfs_superdirty s \<or> load_super (disk s SFS_SB_LOCATION) = sfs_super s)
     \<and> (sfs_freemapdirty s \<or> (\<forall>j < SFS_BITBLOCKS (nblk s). disk s (SFS_MAP_LOCATION + j) = map_block (sfs_freemap s) j))"

definition fs_ok :: "sfs_fs \<Rightarrow> nat set \<Rightarrow> bool" where
  "fs_ok s I \<longleftrightarrow> space_ok s \<and> meta_ok s \<and> pool_ok s \<and> fino s ` dom (sfs_pool s) \<subseteq> I \<and> (\<forall>i \<in> I. inode_ok s i)
     \<and> (\<forall>i \<in> I. \<forall>j \<in> I. i \<noteq> j \<longrightarrow> set (iown s i) \<inter> set (iown s j) = {})"

lemma pool_okD:
  assumes "pool_ok s"
  shows "array_ok (sfs_vnodes s)" "distinct (loaded s)" "set (loaded s) = dom (sfs_pool s)"
    "sfs_pool s v = Some sv \<Longrightarrow> sv_ok s sv"
    "sfs_pool s v \<noteq> None \<Longrightarrow> sfs_pool s w \<noteq> None \<Longrightarrow> fino s v = fino s w \<Longrightarrow> v = w"
  using assms unfolding pool_ok_def by (auto simp: ran_def inj_on_def dom_def)

lemma meta_step:
  assumes "meta_ok s" "sfs_super s' = sfs_super s" "sfs_superdirty s' = sfs_superdirty s" "bm_nbits (sfs_freemap s') = bm_nbits (sfs_freemap s)"
    "sfs_freemap s' = sfs_freemap s \<and> sfs_freemapdirty s' = sfs_freemapdirty s \<or> sfs_freemapdirty s'"
    "\<And>b. b \<in> sysblocks s \<Longrightarrow> disk s' b = disk s b"
  shows "meta_ok s'"
proof -
  have "disk s' SFS_SB_LOCATION = disk s SFS_SB_LOCATION"
    "\<And>j. j < SFS_BITBLOCKS (nblk s) \<Longrightarrow> disk s' (SFS_MAP_LOCATION + j) = disk s (SFS_MAP_LOCATION + j)"
    using assms(6) by (auto simp: sysblocks_def)
  then show ?thesis using assms(1-5) by (auto simp: meta_ok_def)
qed

lemma meta_moves:
  assumes "meta_ok s" "fs_moves s dk M P s'" "\<And>b. b \<in> sysblocks s \<Longrightarrow> dk b = disk s b"
  shows "meta_ok s'"
proof (rule meta_step [OF assms(1)])
  show "disk s' b = disk s b" if "b \<in> sysblocks s" for b using assms(2) assms(3) [OF that] by (simp add: fs_moves_def)
qed (use assms(2) in \<open>auto simp: fs_moves_def\<close>)

lemma meta_same: "meta_ok (s\<lparr>sfs_pool := P\<rparr>) = meta_ok s" "meta_ok (s\<lparr>sfs_vnodes := V\<rparr>) = meta_ok s" "meta_ok (set_vnode v sv s) = meta_ok s"
  by (simp_all add: meta_ok_def set_vnode_def)

lemma vnode_of_Some:
  assumes "pool_ok s"
  shows "vnode_of s i = Some v \<longleftrightarrow> sfs_pool s v \<noteq> None \<and> fino s v = i"
proof
  assume "vnode_of s i = Some v"
  then have "v \<in> set (loaded s)" "fino s v = i" by (auto simp: vnode_of_def find_Some_iff)
  then show "sfs_pool s v \<noteq> None \<and> fino s v = i" using pool_okD(3) [OF assms] by auto
next
  assume v: "sfs_pool s v \<noteq> None \<and> fino s v = i"
  then have "v \<in> set (loaded s)" using pool_okD(3) [OF assms] by auto
  then obtain w where w: "vnode_of s i = Some w"
    using v by (cases "vnode_of s i") (auto simp: vnode_of_def find_None_iff)
  then have "w \<in> set (loaded s)" "fino s w = i" by (auto simp: vnode_of_def find_Some_iff)
  then have "w = v" using v pool_okD(3,5) [OF assms] by (metis domIff)
  with w show "vnode_of s i = Some v" by simp
qed

lemma cur_loaded: "pool_ok s \<Longrightarrow> sfs_pool s v = Some sv \<Longrightarrow> cur s (sv_ino sv) = sv_i sv"
  using vnode_of_Some [of s "sv_ino sv" v] by (simp add: cur_def)

lemma cur_unloaded: "pool_ok s \<Longrightarrow> (\<And>v. sfs_pool s v \<noteq> None \<Longrightarrow> fino s v \<noteq> i) \<Longrightarrow> cur s i = bytes_inode (disk s i)"
  using vnode_of_Some [of s i "the (vnode_of s i)"] by (cases "vnode_of s i") (auto simp: cur_def)

lemma fs_okD:
  assumes "fs_ok s I"
  shows "space_ok s" "pool_ok s" "sfs_pool s v = Some sv \<Longrightarrow> sv_ino sv \<in> I" "i \<in> I \<Longrightarrow> inode_ok s i"
    "i \<in> I \<Longrightarrow> j \<in> I \<Longrightarrow> i \<noteq> j \<Longrightarrow> set (iown s i) \<inter> set (iown s j) = {}" "meta_ok s"
proof -
  show "sfs_pool s v = Some sv \<Longrightarrow> sv_ino sv \<in> I"
    using assms unfolding fs_ok_def image_subset_iff by (metis domI option.sel)
qed (use assms in \<open>auto simp: fs_ok_def\<close>)

lemma fs_ok_file:
  assumes "fs_ok s I" "sfs_pool s v = Some sv"
  shows "file_ok s v"
  using fs_okD(4) [OF assms(1) fs_okD(3) [OF assms]] cur_loaded [OF fs_okD(2) [OF assms(1)] assms(2)] assms(2)
  by (simp add: inode_ok_def file_ok_def)

lemma inode_ok_used:
  assumes "fs_ok s I" "i \<in> I"
  shows "i \<in> used s" "i < nblk s" "i \<noteq> 0" "i \<in> set (iown s i)" "set (iown s i) \<subseteq> used s"
  using fs_okD(4) [OF assms] by (auto simp: inode_ok_def own_def sysblocks_def)

lemma inode_ok_shape: "fs_ok s I \<Longrightarrow> i \<in> I \<Longrightarrow> inode_shape (disk s) (cur s i)"
  using fs_okD(1) [of s I] fs_okD(4) [of s I i] by (simp add: inode_ok_def inode_shape_def space_ok_def dev_goodD)

text \<open>What an observer sees of inode \<open>i\<close> is the same in both states.\<close>

definition same_inode :: "sfs_fs \<Rightarrow> sfs_fs \<Rightarrow> nat \<Rightarrow> bool" where
  "same_inode s s' i \<longleftrightarrow> cur s' i = cur s i \<and> iown s' i = iown s i \<and> ibytes s' i = ibytes s i"

lemma same_inode_refl [simp]: "same_inode s s i"
  by (simp add: same_inode_def)

lemma same_inodeD:
  "same_inode s s' i \<Longrightarrow> cur s' i = cur s i" "same_inode s s' i \<Longrightarrow> iown s' i = iown s i" "same_inode s s' i \<Longrightarrow> ibytes s' i = ibytes s i"
  unfolding same_inode_def by blast+

lemma same_inode_trans: "same_inode s s1 i \<Longrightarrow> same_inode s1 s2 i \<Longrightarrow> same_inode s s2 i"
  unfolding same_inode_def by metis

lemma same_inodeI:
  assumes "fs_ok s I" "i \<in> I" "cur s' i = cur s i" "\<And>b. b \<in> set (iown s i) \<Longrightarrow> disk s' b = disk s b"
  shows "same_inode s s' i"
  using own_cong [of "disk s" i "cur s i" "disk s'"] inode_ok_shape [OF assms(1,2)] assms(3,4)
  by (simp add: same_inode_def)

text \<open>A change that keeps all inodes but those in \<open>X\<close>, which are shown to be well formed separately.\<close>

lemma fs_ok_change:
  assumes "fs_ok s I" "space_ok s'" "pool_ok s'" "fino s' ` dom (sfs_pool s') \<subseteq> J" "J \<subseteq> I \<union> X" "meta_ok s'"
    and same: "\<And>i. i \<in> J - X \<Longrightarrow> same_inode s s' i" "\<And>i. i \<in> J - X \<Longrightarrow> set (iown s i) \<subseteq> used s'"
    and X: "\<And>i. i \<in> X \<inter> J \<Longrightarrow> inode_ok s' i"
      "\<And>i j. i \<in> X \<inter> J \<Longrightarrow> j \<in> J \<Longrightarrow> i \<noteq> j \<Longrightarrow> set (iown s' i) \<inter> set (iown s' j) = {}"
    and sup: "sfs_super s' = sfs_super s"
  shows "fs_ok s' J"
proof -
  have "inode_ok s' i" if "i \<in> J - X" for i
  proof -
    have "i \<in> I" using that assms(5) by auto
    then have "inode_ok s i" by (rule fs_okD(4) [OF assms(1)])
    moreover have "sysblocks s' = sysblocks s" using sup by (simp add: sysblocks_def)
    ultimately show ?thesis using same [OF that] sup by (auto simp: inode_ok_def same_inode_def)
  qed
  then have io: "\<forall>i \<in> J. inode_ok s' i" using X(1) by blast
  have "set (iown s' i) \<inter> set (iown s' j) = {}" if ij: "i \<in> J" "j \<in> J" "i \<noteq> j" for i j
  proof -
    consider "i \<in> X" | "j \<in> X" | "i \<in> J - X" "j \<in> J - X" using ij by blast
    then show ?thesis
    proof cases
      case 3
      then have "i \<in> I" "j \<in> I" using assms(5) by auto
      then show ?thesis using fs_okD(5) [OF assms(1) _ _ ij(3)] same_inodeD(2) [OF same(1) [OF 3(1)]] same_inodeD(2) [OF same(1) [OF 3(2)]]
        by simp
    qed (use X(2) [of i j] X(2) [of j i] ij in blast)+
  qed
  with io show ?thesis using assms(2-4,6) by (auto simp: fs_ok_def)
qed

subsection \<open>Changes of one loaded vnode\<close>

lemma fs_change:
  assumes "fs_ok s I" "sfs_pool s v = Some sv" "space_ok s'" "sfs_pool s' = (sfs_pool s)(v \<mapsto> sv')" "sv_ino sv' = sv_ino sv"
    "sv_ok s' sv'" "sfs_vnodes s' = sfs_vnodes s" "sfs_super s' = sfs_super s" "file_ok s' v" "meta_ok s'"
    and dk: "\<And>b. b \<in> used s - set (fown s v) \<Longrightarrow> disk s' b = disk s b \<and> b \<notin> set (fown s' v) \<and> b \<in> used s'"
  shows "fs_ok s' I" "i \<in> I \<Longrightarrow> i \<noteq> sv_ino sv \<Longrightarrow> same_inode s s' i" "cur s' (sv_ino sv) = sv_i sv'"
proof -
  let ?v = "sv_ino sv"
  note p = fs_okD(2) [OF assms(1)]
  have vI: "?v \<in> I" using fs_okD(3) [OF assms(1,2)] .
  have cv: "cur s ?v = sv_i sv" using cur_loaded [OF p assms(2)] .
  have dj: "set (iown s i) \<subseteq> used s - set (fown s v)" if "i \<in> I" "i \<noteq> ?v" for i
    using fs_okD(5) [OF assms(1) that(1) vI that(2)] inode_ok_used(5) [OF assms(1) that(1)] cv assms(2) by auto
  have od: "disk s' i = disk s i" if "i \<in> I" "i \<noteq> ?v" for i
    using dk dj [OF that] inode_ok_used(4) [OF assms(1) that(1)] by blast
  have sub: "fino s ` dom (sfs_pool s) \<subseteq> I" using assms(1) by (simp add: fs_ok_def)
  have d: "dom (sfs_pool s') = dom (sfs_pool s)" using assms(2,4) by auto
  have fe: "fino s' w = fino s w" for w using assms(2,4,5) by simp
  have "sv_ok s' sw" if "sfs_pool s' w = Some sw" for w sw
  proof (cases "w = v")
    case True
    then show ?thesis using assms(4,6) that by simp
  next
    case False
    then have w: "sfs_pool s w = Some sw" using assms(4) that by simp
    have "sv_ino sw \<noteq> ?v" using pool_okD(5) [OF p, of w v] w assms(2) False by auto
    then have "disk s' (sv_ino sw) = disk s (sv_ino sw)" using od fs_okD(3) [OF assms(1) w] by blast
    then show ?thesis using pool_okD(4) [OF p w] by (simp add: sv_ok_def)
  qed
  then have p': "pool_ok s'" using p d fe assms(7) by (auto simp: pool_ok_def ran_def)
  show cv': "cur s' ?v = sv_i sv'" using cur_loaded [OF p', of v sv'] assms(4,5) by simp
  have vo: "vnode_of s' i = vnode_of s i" for i using assms(7) fe by (simp add: vnode_of_def)
  have cu: "cur s' i = cur s i" if i: "i \<in> I" "i \<noteq> ?v" for i
  proof -
    have "fi s' w = fi s w" if "vnode_of s i = Some w" for w
      using vnode_of_Some [OF p, of i w] that i(2) assms(2,4) by auto
    then show ?thesis using vo [of i] od [OF i] by (simp add: cur_def split: option.split)
  qed
  show same: "same_inode s s' i" if "i \<in> I" "i \<noteq> ?v" for i
    using same_inodeI [OF assms(1) that(1) cu [OF that]] dk dj [OF that] by blast
  have iv: "iown s' ?v = fown s' v" using cv' assms(4,5) by simp
  show "fs_ok s' I"
  proof (rule fs_ok_change [OF assms(1,3) p', where X = "{?v}"])
    show "fino s' ` dom (sfs_pool s') \<subseteq> I" using sub d fe by simp
    show "same_inode s s' i" if "i \<in> I - {?v}" for i using same that by blast
    show "set (iown s i) \<subseteq> used s'" if "i \<in> I - {?v}" for i using dj [of i] that dk by blast
    show "inode_ok s' i" if "i \<in> {?v} \<inter> I" for i
      using that assms(4,6,9) iv cv' by (auto simp: inode_ok_def file_ok_def sv_ok_def vnode_ok_def)
    show "set (iown s' i) \<inter> set (iown s' j) = {}" if "i \<in> {?v} \<inter> I" "j \<in> I" "i \<noteq> j" for i j
      using that iv dk dj [of j] same_inodeD(2) [OF same [of j]] by auto
  qed (use assms(8,10) in auto)
qed

lemma fs_vstep:
  assumes "fs_ok s I" "sfs_pool s v = Some sv" "vstep v s s'"
  shows "fs_ok s' I" "i \<in> I \<Longrightarrow> i \<noteq> sv_ino sv \<Longrightarrow> same_inode s s' i" "dom (sfs_pool s') = dom (sfs_pool s)"
    "cur s' (sv_ino sv) = fi s' v"
proof -
  note f = vstep_fields [OF assms(3)]
  obtain sv' where sv': "sfs_pool s' v = Some sv'" "same_vnode sv sv'" using f(8) assms(2,3) by (auto simp: vstep_def)
  have P: "sfs_pool s' = (sfs_pool s)(v \<mapsto> sv')" using f(7) sv'(1) by (auto simp: fun_eq_iff)
  have ok: "sv_ok s' sv'"
    using pool_okD(4) [OF fs_okD(2) [OF assms(1)] assms(2)] sv' assms(2,3) by (auto simp: vstep_def same_vnode_def sv_ok_def)
  have "disk s' b = disk s b \<and> b \<notin> set (fown s' v) \<and> b \<in> used s'" if "b \<in> used s - set (fown s v)" for b
    using assms(3) that by (simp add: vstep_def)
  moreover have "meta_ok s'"
  proof (rule meta_moves [OF fs_okD(6) [OF assms(1)]])
    show "fs_moves s (disk s') (used s') (sfs_pool s') s'" using assms(3) unfolding vstep_def by blast
    show "disk s' b = disk s b" if "b \<in> sysblocks s" for b
      using that fs_okD(1) [OF assms(1)] fs_ok_file [OF assms(1,2)] assms(3) by (auto simp: space_ok_def file_ok_def vstep_def)
  qed
  ultimately have ch: "fs_ok s' I" "i \<in> I \<Longrightarrow> i \<noteq> sv_ino sv \<Longrightarrow> same_inode s s' i" "cur s' (sv_ino sv) = sv_i sv'"
    using fs_change [OF assms(1,2) f(1) P _ ok f(4,3,2)] sv'(2) by (simp_all add: same_vnode_def)
  show "fs_ok s' I" "i \<in> I \<Longrightarrow> i \<noteq> sv_ino sv \<Longrightarrow> same_inode s s' i" "cur s' (sv_ino sv) = fi s' v"
    using ch sv' by (simp_all add: same_vnode_def)
  show "dom (sfs_pool s') = dom (sfs_pool s)" using P assms(2) by auto
qed

text \<open>Replacing a vnode by one with the same inode number and blocks.\<close>

lemma fs_set_vnode:
  assumes "fs_ok s I" "sfs_pool s v = Some sv" "sv_ino sv' = sv_ino sv" "sv_ok s sv'" "inode_wf (sv_i sv')"
    "own (disk s) (sv_ino sv) (sv_i sv') = own (disk s) (sv_ino sv) (sv_i sv)"
  shows "fs_ok (set_vnode v sv' s) I" "i \<in> I \<Longrightarrow> i \<noteq> sv_ino sv \<Longrightarrow> same_inode s (set_vnode v sv' s) i"
    "cur (set_vnode v sv' s) (sv_ino sv) = sv_i sv'"
proof -
  let ?s = "set_vnode v sv' s"
  have f: "sfs_pool ?s = (sfs_pool s)(v \<mapsto> sv')" "disk ?s = disk s" "used ?s = used s" "sfs_super ?s = sfs_super s"
    "sfs_vnodes ?s = sfs_vnodes s" "space_ok ?s = space_ok s" "sysblocks ?s = sysblocks s" "sv_ok ?s = sv_ok s"
    by (simp_all add: set_vnode_def space_ok_def dev_good_def sysblocks_def sv_ok_def fun_eq_iff)
  have "file_ok ?s v" using fs_ok_file [OF assms(1,2)] assms(2,3,5,6) f by (simp add: file_ok_def)
  moreover have "space_ok ?s" "sv_ok ?s sv'" using fs_okD(1) [OF assms(1)] assms(4) f by simp_all
  moreover have "disk ?s b = disk s b \<and> b \<notin> set (fown ?s v) \<and> b \<in> used ?s" if "b \<in> used s - set (fown s v)" for b
    using that f assms(2,3,6) by simp
  ultimately show "fs_ok ?s I" "i \<in> I \<Longrightarrow> i \<noteq> sv_ino sv \<Longrightarrow> same_inode s ?s i" "cur ?s (sv_ino sv) = sv_i sv'"
    using fs_change [OF assms(1,2) _ f(1) assms(3) _ f(5,4)] meta_same(3) fs_okD(6) [OF assms(1)] by blast+
qed

subsection \<open>Changes in memory\<close>

lemma fs_dev_moves:
  assumes "fs_ok s I" "dev_moves s (disk s) s'"
  shows "fs_ok s' I" "same_inode s s' i" "sfs_pool s' = sfs_pool s" "sfs_vnodes s' = sfs_vnodes s" "used s' = used s" "sfs_super s' = sfs_super s"
proof -
  note f = dev_moves_fields [OF assms(2)]
  show "sfs_pool s' = sfs_pool s" "sfs_vnodes s' = sfs_vnodes s" "used s' = used s" "sfs_super s' = sfs_super s" using f by simp_all
  have c: "cur s' i = cur s i" for i using f by (simp add: cur_def vnode_of_def split: option.split)
  show "same_inode s s' i" using c [of i] f(7) by (simp add: same_inode_def)
  have "space_ok s'" using fs_moves_space [OF fs_okD(1) [OF assms(1)] fs_moves_dev [OF fs_okD(1) [OF assms(1)] assms(2)]] by simp
  moreover have "sv_ok s' = sv_ok s" using f(7) by (simp add: sv_ok_def fun_eq_iff)
  moreover have "meta_ok s'"
    using meta_moves [OF fs_okD(6) [OF assms(1)] fs_moves_dev [OF fs_okD(1) [OF assms(1)] assms(2)]] by simp
  ultimately show "fs_ok s' I"
    using assms(1) f c by (simp add: fs_ok_def pool_ok_def inode_ok_def sysblocks_def)
qed

subsection \<open>Loading a vnode\<close>

lemma find_loaded_eq:
  assumes "fs_ok s I" "set is \<subseteq> {..<length (loaded s)}"
  shows "find_loaded ino is s = Some (List.find (\<lambda>v. fino s v = ino) (map ((!) (loaded s)) is))"
  using assms(2)
proof (induction "is")
  case (Cons i js)
  note p = fs_okD(2) [OF assms(1)]
  let ?v = "loaded s ! i"
  have i: "i < length (loaded s)" using Cons.prems by simp
  then obtain sv where sv: "sfs_pool s ?v = Some sv" using pool_okD(3) [OF p] nth_mem by (metis domD)
  note u = inode_ok_used(1,2) [OF assms(1) fs_okD(3) [OF assms(1) sv]]
  have "array_getguy (sfs_vnodes s) (int i) = Some ?v" using array_getguy_eq [OF pool_okD(1) [OF p], of "int i"] i by simp
  then show ?case using Cons sv u sfs_bused_ok [OF fs_okD(1) [OF assms(1)] u(2)] by simp
qed simp

lemma find_loaded_vnode_of:
  assumes "fs_ok s I"
  shows "find_loaded ino [0..<nat (array_getnum (sfs_vnodes s))] s = Some (vnode_of s ino)"
proof -
  have "nat (array_getnum (sfs_vnodes s)) = length (loaded s)"
    using length_a_list [OF pool_okD(1) [OF fs_okD(2) [OF assms]]] by (simp add: array_getnum_def)
  then show ?thesis
    using find_loaded_eq [OF assms, of "[0..<length (loaded s)]" ino] by (simp add: vnode_of_def map_nth lessThan_atLeast0)
qed

lemma fs_add_vnode:
  assumes "fs_ok s I" "sfs_pool s new = None" "array_ok vs" "a_list vs = loaded s @ [new]" "sv_ok s sv" "vnode_of s (sv_ino sv) = None"
    and i: "inode_wf (sv_i sv)" "distinct (own (disk s) (sv_ino sv) (sv_i sv))"
      "set (own (disk s) (sv_ino sv) (sv_i sv)) \<subseteq> used s \<inter> {..<nblk s} - sysblocks s"
      "\<And>j. j \<in> I \<Longrightarrow> j \<noteq> sv_ino sv \<Longrightarrow> set (own (disk s) (sv_ino sv) (sv_i sv)) \<inter> set (iown s j) = {}"
    and s': "s' = set_vnode new sv (s\<lparr>sfs_vnodes := vs\<rparr>)"
  shows "fs_ok s' (insert (sv_ino sv) I)" "j \<noteq> sv_ino sv \<Longrightarrow> same_inode s s' j" "cur s' (sv_ino sv) = sv_i sv"
    "iown s' (sv_ino sv) = own (disk s) (sv_ino sv) (sv_i sv)"
proof -
  let ?i = "sv_ino sv"
  note p = fs_okD(2) [OF assms(1)]
  have f: "sfs_pool s' = (sfs_pool s)(new \<mapsto> sv)" "disk s' = disk s" "used s' = used s" "sfs_super s' = sfs_super s"
    "sfs_vnodes s' = vs" "space_ok s' = space_ok s" "sysblocks s' = sysblocks s" "sv_ok s' = sv_ok s"
    by (simp_all add: s' set_vnode_def space_ok_def dev_good_def sysblocks_def sv_ok_def fun_eq_iff)
  have fe: "fino s' w = fino s w" if "sfs_pool s w \<noteq> None" for w using f(1) that assms(2) by auto
  have d: "dom (sfs_pool s') = insert new (dom (sfs_pool s))" using f(1) by auto
  have fn: "fino s' new = ?i" using f(1) by simp
  have un: "fino s w \<noteq> ?i" if "sfs_pool s w \<noteq> None" for w using vnode_of_Some [OF p, of ?i w] assms(6) that by auto
  have nl: "new \<notin> set (loaded s)" using assms(2) pool_okD(3) [OF p] by auto
  have "inj_on (fino s') (dom (sfs_pool s'))"
  proof -
    have "inj_on (fino s') (dom (sfs_pool s))" using p fe unfolding pool_ok_def by (auto simp: inj_on_def dom_def)
    moreover have "fino s' w \<noteq> fino s' new" if "w \<in> dom (sfs_pool s)" for w using un [of w] fe [of w] fn that by (metis domIff)
    ultimately show ?thesis unfolding d by (simp add: inj_on_insert image_iff) (metis Diff_iff)
  qed
  moreover have "sv_ok s' sw" if "sw \<in> ran (sfs_pool s')" for sw
    using that pool_okD(4) [OF p] assms(5) f(1,8) by (auto simp: ran_def split: if_splits)
  ultimately have p': "pool_ok s'"
    using assms(3,4) pool_okD(2,3) [OF p] nl d f(5) by (simp add: pool_ok_def)
  show cv: "cur s' ?i = sv_i sv" using cur_loaded [OF p', of new sv] f(1) by simp
  have cu: "cur s' j = cur s j" if j: "j \<noteq> ?i" for j
  proof -
    have "vnode_of s' j = vnode_of s j"
    proof -
      have "vnode_of s' j = Some w \<longleftrightarrow> vnode_of s j = Some w" for w
        unfolding vnode_of_Some [OF p] vnode_of_Some [OF p'] using d fe fn j assms(2) by (metis domIff insertE insertI2)
      then show ?thesis by (metis option.exhaust)
    qed
    moreover have "fi s' w = fi s w" if "vnode_of s j = Some w" for w
      using that vnode_of_Some [OF p, of j w] f(1) assms(2) by auto
    ultimately show ?thesis using f(2) by (simp add: cur_def split: option.split)
  qed
  show same: "same_inode s s' j" if "j \<noteq> ?i" for j using cu [OF that] f(2) by (simp add: same_inode_def)
  show ow: "iown s' ?i = own (disk s) ?i (sv_i sv)" using cv f(2) by simp
  have sub: "fino s ` dom (sfs_pool s) \<subseteq> I" using assms(1) by (simp add: fs_ok_def)
  have im: "fino s' ` dom (sfs_pool s) = fino s ` dom (sfs_pool s)" by (intro image_cong refl fe) auto
  show "fs_ok s' (insert ?i I)"
  proof (rule fs_ok_change [OF assms(1) _ p', where X = "{?i}"])
    show "space_ok s'" using fs_okD(1) [OF assms(1)] f(6) by simp
    show "fino s' ` dom (sfs_pool s') \<subseteq> insert ?i I" using im sub fn unfolding d by auto
    show "set (iown s i) \<subseteq> used s'" if "i \<in> insert ?i I - {?i}" for i using inode_ok_used(5) [OF assms(1), of i] that f(3) by simp
    show "inode_ok s' i" if "i \<in> {?i} \<inter> insert ?i I" for i
      using that ow cv f i(1-3) assms(5) by (auto simp: inode_ok_def sv_ok_def vnode_ok_def)
    show "set (iown s' i) \<inter> set (iown s' j) = {}" if "i \<in> {?i} \<inter> insert ?i I" "j \<in> insert ?i I" "i \<noteq> j" for i j
      using that ow same_inodeD(2) [OF same [of j]] i(4) [of j] by auto
  qed (use same f(4) fs_okD(6) [OF assms(1)] in \<open>auto simp: s' meta_same\<close>)
qed

text \<open>Counts and the table leave room for one more reference and one more vnode.\<close>

definition roomy :: "sfs_fs \<Rightarrow> bool" where
  "roomy s \<longleftrightarrow> anum (sfs_vnodes s) < 2 ^ 28 \<and> (\<forall>sv \<in> ran (sfs_pool s). vn_refcount (sv_v sv) < 2 ^ 31 - 2)"

text \<open>Vnode \<open>v\<close> has one more reference in \<open>s'\<close>, or was loaded with one.\<close>

definition gained_ref :: "sfs_fs \<Rightarrow> nat \<Rightarrow> sfs_fs \<Rightarrow> bool" where
  "gained_ref s v s' \<longleftrightarrow> (\<forall>w. w \<noteq> v \<longrightarrow> sfs_pool s' w = sfs_pool s w) \<and>
     (\<exists>sv'. sfs_pool s' v = Some sv' \<and> vn_opencount (sv_v sv') < vn_refcount (sv_v sv') \<and>
       (case sfs_pool s v of
          Some sv \<Rightarrow> sv' = sv\<lparr>sv_v := (sv_v sv)\<lparr>vn_refcount := vn_refcount (sv_v sv) + 1\<rparr>\<rparr>
        | None \<Rightarrow> vn_refcount (sv_v sv') = 1 \<and> vn_opencount (sv_v sv') = 0))"

definition load_result :: "sfs_fs \<Rightarrow> nat set \<Rightarrow> nat \<Rightarrow> nat res \<Rightarrow> sfs_fs \<Rightarrow> bool" where
  "load_result s I i r s' \<longleftrightarrow> fs_ok s' I \<and> (\<forall>j \<in> I. same_inode s s' j) \<and> used s' = used s \<and> sfs_super s' = sfs_super s \<and>
     disk s' = disk s \<and> (case r of Inr v \<Rightarrow> gained_ref s v s' \<and> fino s' v = i | Inl e \<Rightarrow> e = ENOMEM \<and> sfs_pool s' = sfs_pool s)"

lemma sfs_loadvnode_hit:
  assumes "fs_ok s I" "roomy s" "vnode_of s i = Some v"
  shows "\<exists>s'. sfs_loadvnode mem new i SFS_TYPE_INVAL s = Some (Ok v, s') \<and> load_result s I i (Ok v) s'"
proof -
  note p = fs_okD(2) [OF assms(1)]
  obtain sv where sv: "sfs_pool s v = Some sv" "sv_ino sv = i" using vnode_of_Some [OF p, of i v] assms(3) by auto
  let ?sv = "sv\<lparr>sv_v := (sv_v sv)\<lparr>vn_refcount := vn_refcount (sv_v sv) + 1\<rparr>\<rparr>"
  have ok: "sv_ok s sv" "vn_refcount (sv_v sv) < 2 ^ 31 - 2"
    using pool_okD(4) [OF p sv(1)] assms(2) sv(1) by (auto simp: roomy_def ran_def)
  then have ok': "sv_ok s ?sv" by (auto simp: sv_ok_def vnode_ok_def)
  have wf: "inode_wf (sv_i sv)" using fs_okD(4) [OF assms(1) fs_okD(3) [OF assms(1) sv(1)]] cur_loaded [OF p sv(1)]
    by (simp add: inode_ok_def)
  have "own (disk s) (sv_ino sv) (sv_i ?sv) = own (disk s) (sv_ino sv) (sv_i sv)" "inode_wf (sv_i ?sv)" "sv_ino ?sv = sv_ino sv"
    using wf by simp_all
  note st = fs_set_vnode [OF assms(1) sv(1) this(3) ok' this(2,1)]
  have "vnode_ok (sv_v sv)" using ok(1) by (simp add: sv_ok_def)
  then have "edit_vn v vnode_incref s = Some (set_vnode v ?sv s)" using sv(1) by (simp add: edit_vn_def)
  then have "sfs_loadvnode mem new i SFS_TYPE_INVAL s = Some (Ok v, set_vnode v ?sv s)"
    using find_loaded_vnode_of [OF assms(1), of i] assms(3) by (simp add: sfs_loadvnode_def)
  moreover have "same_inode s (set_vnode v ?sv s) j" if "j \<in> I" for j
    using st(2) [OF that] st(3) cur_loaded [OF p sv(1)] by (cases "j = i") (auto simp: same_inode_def sv(2) set_vnode_def)
  moreover have "gained_ref s v (set_vnode v ?sv s)" using sv(1) ok(1) by (simp add: gained_ref_def set_vnode_def sv_ok_def)
  ultimately show ?thesis using st(1) sv by (simp add: load_result_def set_vnode_def)
qed

lemma sfs_loadvnode_miss:
  assumes "fs_ok s I" "roomy s" "vnode_of s i = None" "sfs_pool s new = None"
    and n: "n = (if ft = SFS_TYPE_INVAL then bytes_inode (disk s i) else (bytes_inode (disk s i))\<lparr>sfi_type := ft\<rparr>)"
      "ft \<noteq> SFS_TYPE_INVAL \<longrightarrow> sfi_type (bytes_inode (disk s i)) = SFS_TYPE_INVAL" "vop_table_for (sfi_type n) \<noteq> NULL" "inode_wf n"
    and ow: "distinct (own (disk s) i n)" "set (own (disk s) i n) \<subseteq> used s \<inter> {..<nblk s} - sysblocks s"
      "\<And>j. j \<in> I \<Longrightarrow> j \<noteq> i \<Longrightarrow> set (own (disk s) i n) \<inter> set (iown s j) = {}"
  shows "\<exists>r s'. sfs_loadvnode mem new i ft s = Some (r, s') \<and> used s' = used s \<and> sfs_super s' = sfs_super s \<and> disk s' = disk s
    \<and> (\<forall>j. j \<noteq> i \<longrightarrow> same_inode s s' j)
    \<and> (r = Err ENOMEM \<and> fs_ok s' I \<and> same_inode s s' i \<and> sfs_pool s' = sfs_pool s
       \<or> r = Ok new \<and> fs_ok s' (insert i I) \<and> gained_ref s new s' \<and> fino s' new = i \<and> cur s' i = n)"
proof -
  note sp = fs_okD(1) [OF assms(1)]
  have i: "i \<in> used s" "i < nblk s" using ow(2) by (auto simp: own_def)
  have hit: "find_loaded i [0..<nat (array_getnum (sfs_vnodes s))] s = Some None"
    using find_loaded_vnode_of [OF assms(1), of i] assms(3) by simp
  show ?thesis
  proof (cases "mem sizeof_sfs_vnode")
    case False
    then have "sfs_loadvnode mem new i ft s = Some (Err ENOMEM, s)" using hit by (simp add: sfs_loadvnode_def)
    then show ?thesis using assms(1) by simp
  next
    case True
    have "i < d_blocks (sfs_device s)" using i(2) sp by (simp add: space_ok_def)
    then obtain s1 where s1: "sfs_rblock i s = Some (Ok (disk s i), s1)" "dev_moves s (disk s) s1"
      using sfs_rblock_ok [of s i] sp by (auto simp: space_ok_def)
    note m = fs_dev_moves [OF assms(1) s1(2)] and f = dev_moves_fields [OF s1(2)]
    have roomy: "anum (sfs_vnodes s1) < 2 ^ 28" "array_ok (sfs_vnodes s1)"
      using assms(2) m(4) pool_okD(1) [OF fs_okD(2) [OF assms(1)]] by (simp_all add: roomy_def)
    have bu: "sfs_bused i s = Some True" using sfs_bused_ok [OF sp i(2)] i(1) by simp
    from vnode_init_cases [OF n(3), of mem "Some sfs_absfs"] show ?thesis
    proof (elim disjE exE)
      assume "vnode_init mem (vop_table_for (sfi_type n)) (Some sfs_absfs) = Some (Err ENOMEM)"
      then have "sfs_loadvnode mem new i ft s = Some (Err ENOMEM, s1)"
        using hit True bu s1(1) n by (cases "ft = 0") (auto simp: sfs_loadvnode_def Let_def)
      then show ?thesis using m f by simp
    next
      fix lk
      let ?vn = "\<lparr>vn_refcount = 1, vn_opencount = 0, vn_countlock = Some lk, vn_fs = Some sfs_absfs, vn_ops = vop_table_for (sfi_type n)\<rparr>"
      let ?sv = "\<lparr>sv_v = ?vn, sv_i = n, sv_ino = i, sv_dirty = (ft \<noteq> SFS_TYPE_INVAL)\<rparr>"
      assume init: "vnode_init mem (vop_table_for (sfi_type n)) (Some sfs_absfs) = Some (Ok ?vn)"
      have vok: "vnode_ok ?vn" using n(3) by (simp add: vnode_ok_def)
      from array_add_cases [OF roomy(2,1), of mem new] show ?thesis
      proof (elim disjE exE conjE)
        assume "array_add mem (sfs_vnodes s1) new = Some (Err ENOMEM, sfs_vnodes s1)"
        then have "sfs_loadvnode mem new i ft s = Some (Err ENOMEM, s1)"
          using hit True bu s1(1) n init vnode_kill_ok [OF vok] by (cases "ft = 0") (auto simp: sfs_loadvnode_def Let_def)
        then show ?thesis using m f by simp
      next
        fix vs
        assume vs: "array_add mem (sfs_vnodes s1) new = Some (Ok (), vs)" "array_ok vs" "a_list vs = loaded s1 @ [new]"
        define s' where "s' = set_vnode new ?sv (s1\<lparr>sfs_vnodes := vs\<rparr>)"
        have run: "sfs_loadvnode mem new i ft s = Some (Ok new, s')"
          using hit True bu s1(1) n init vs(1) by (cases "ft = 0") (auto simp: sfs_loadvnode_def Let_def s'_def)
        have "sv_ok s1 ?sv" using vok n(1) f by (simp add: sv_ok_def)
        moreover have "vnode_of s1 i = None" using assms(3) m(3,4) by (simp add: vnode_of_def)
        moreover have "set (own (disk s1) i n) \<inter> set (iown s1 j) = {}" if "j \<in> I" "j \<noteq> i" for j
          using ow(3) [OF that] same_inodeD(2) [OF m(2), of j] f(7) by simp
        moreover have "sfs_pool s1 new = None" using assms(4) m(3) by simp
        ultimately have add: "fs_ok s' (insert i I)" "\<And>j. j \<noteq> i \<Longrightarrow> same_inode s1 s' j" "cur s' i = n"
          using fs_add_vnode [OF m(1) _ vs(2,3), of ?sv s'] n(4) ow(1,2) m f by (simp_all add: s'_def sysblocks_def)
        have "gained_ref s new s'" using assms(4) m(3) by (simp add: gained_ref_def s'_def set_vnode_def)
        moreover have "\<forall>j. j \<noteq> i \<longrightarrow> same_inode s s' j" using add(2) m(2) same_inode_trans by blast
        moreover have "used s' = used s" "sfs_super s' = sfs_super s" "disk s' = disk s" "fino s' new = i"
          using m f by (simp_all add: s'_def set_vnode_def)
        ultimately show ?thesis using run add(1,3) by blast
      qed
    qed
  qed
qed

lemma sfs_loadvnode_ok:
  assumes "fs_ok s I" "roomy s" "i \<in> I" "sfs_pool s new = None"
  shows "\<exists>r s'. sfs_loadvnode mem new i SFS_TYPE_INVAL s = Some (r, s') \<and> load_result s I i r s'"
proof (cases "vnode_of s i")
  case (Some v)
  then show ?thesis using sfs_loadvnode_hit [OF assms(1,2) Some] by blast
next
  case None
  have c: "cur s i = bytes_inode (disk s i)" using None by (simp add: cur_def)
  note io = fs_okD(4) [OF assms(1,3), unfolded inode_ok_def c]
  have I: "insert i I = I" using assms(3) by blast
  have "set (own (disk s) i (bytes_inode (disk s i))) \<inter> set (iown s j) = {}" if "j \<in> I" "j \<noteq> i" for j
    using fs_okD(5) [OF assms(1,3) that(1)] that(2) c by simp
  then obtain r s' where r: "sfs_loadvnode mem new i SFS_TYPE_INVAL s = Some (r, s')" "used s' = used s" "sfs_super s' = sfs_super s"
    "disk s' = disk s" "\<forall>j. j \<noteq> i \<longrightarrow> same_inode s s' j"
    "r = Err ENOMEM \<and> fs_ok s' I \<and> same_inode s s' i \<and> sfs_pool s' = sfs_pool s
     \<or> r = Ok new \<and> fs_ok s' (insert i I) \<and> gained_ref s new s' \<and> fino s' new = i \<and> cur s' i = bytes_inode (disk s i)"
    using sfs_loadvnode_miss [OF assms(1,2) None assms(4), of "bytes_inode (disk s i)" SFS_TYPE_INVAL mem] io by auto
  have "same_inode s s' i" if "cur s' i = bytes_inode (disk s i)" using that c r(4) by (simp add: same_inode_def)
  then have sm: "same_inode s s' j" for j using r(5,6) by (cases "j = i") blast+
  have "load_result s I i r s'" using r(6)
    by (elim disjE conjE) (simp_all add: load_result_def sm r(2-4) I)
  with r(1) show ?thesis by blast
qed

subsection \<open>Making an object\<close>

lemma fs_alloc:
  assumes "fs_ok s I" "b \<notin> used s" "fs_moves s ((disk s)(b := z)) (insert b (used s)) (sfs_pool s) s'"
  shows "fs_ok s' I" "j \<in> I \<Longrightarrow> same_inode s s' j" "vnode_of s' b = None" "roomy s' = roomy s" "b \<notin> I"
proof -
  note f = fs_movesD [OF assms(3)] and p = fs_okD(2) [OF assms(1)]
  have bn: "b \<notin> set (iown s j)" if "j \<in> I" for j using inode_ok_used(5) [OF assms(1) that] assms(2) by blast
  then show bI: "b \<notin> I" using inode_ok_used(4) [OF assms(1)] by blast
  have sub: "fino s ` dom (sfs_pool s) \<subseteq> I" using assms(1) by (simp add: fs_ok_def)
  have dj: "disk s' j = disk s j" if "j \<in> I" for j using f(1) that bI by auto
  have sv: "sv_ok s' sv" if "sv \<in> ran (sfs_pool s)" for sv
  proof -
    have "sv_ok s sv" "sv_ino sv \<in> I" using that p fs_okD(3) [OF assms(1)] by (auto simp: pool_ok_def ran_def)
    then show ?thesis using dj by (simp add: sv_ok_def)
  qed
  have p': "pool_ok s'" using p sv f(3,5) by (simp add: pool_ok_def)
  have vo: "vnode_of s' j = vnode_of s j" for j using f(3,5) by (simp add: vnode_of_def)
  show "vnode_of s' b = None"
    using vo [of b] vnode_of_Some [OF p, of b "the (vnode_of s b)"] sub bI by (cases "vnode_of s b") auto
  show "roomy s' = roomy s" using f(3,5) by (simp add: roomy_def)
  have cu: "cur s' j = cur s j" if "j \<in> I" for j using vo [of j] dj [OF that] f(3) by (simp add: cur_def split: option.split)
  show same: "same_inode s s' j" if "j \<in> I" for j
    by (rule same_inodeI [OF assms(1) that cu [OF that]]) (use f(1) bn [OF that] in auto)
  have u: "set (iown s j) \<subseteq> used s'" if "j \<in> I" for j using inode_ok_used(5) [OF assms(1) that] f(2) by blast
  have "meta_ok s'"
    by (rule meta_moves [OF fs_okD(6) [OF assms(1)] assms(3)]) (use assms(2) fs_okD(1) [OF assms(1)] in \<open>auto simp: space_ok_def\<close>)
  moreover have "space_ok s'" using fs_moves_space [OF fs_okD(1) [OF assms(1)] assms(3)] by blast
  ultimately show "fs_ok s' I"
    using fs_ok_change [OF assms(1) _ p', of I "{}"] sub same f u by simp
qed

text \<open>The inode of a new object of type \<open>ft\<close>, before it is linked.\<close>

definition fresh_inode :: "nat \<Rightarrow> sfs_inode" where
  "fresh_inode ft = \<lparr>sfi_size = 0, sfi_type = ft, sfi_linkcount = 0, sfi_direct = replicate 15 0, sfi_indirect = 0,
     sfi_waste = replicate 110 0\<rparr>"

lemma fresh_inode_props [simp]:
  "sfi_type (fresh_inode ft) = ft" "sfi_linkcount (fresh_inode ft) = 0" "sfi_size (fresh_inode ft) = 0"
  "own dk b (fresh_inode ft) = [b]" "content dk (fresh_inode ft) = (\<lambda>k. 0)" "ft < 2 ^ 16 \<Longrightarrow> inode_wf (fresh_inode ft)"
  by (auto simp: fresh_inode_def own_def slots_def fmap_def id_words_def content_def blk_byte_def inode_wf_def fun_eq_iff nth_append)

definition makeobj_result :: "sfs_fs \<Rightarrow> nat set \<Rightarrow> nat \<Rightarrow> nat \<Rightarrow> nat res \<Rightarrow> sfs_fs \<Rightarrow> bool" where
  "makeobj_result s I new ft r s' \<longleftrightarrow> (\<forall>j \<in> I. same_inode s s' j) \<and> sfs_super s' = sfs_super s \<and>
     (r = Err ENOSPC \<and> full s \<and> s' = s
      \<or> (\<exists>b. b \<notin> used s \<and> used s' = insert b (used s) \<and>
          (r = Err ENOMEM \<and> fs_ok s' I \<and> sfs_pool s' = sfs_pool s
           \<or> r = Ok new \<and> b \<notin> I \<and> fs_ok s' (insert b I) \<and> gained_ref s new s' \<and> fino s' new = b \<and> cur s' b = fresh_inode ft)))"

lemma sfs_makeobj_ok:
  assumes "fs_ok s I" "roomy s" "sfs_pool s new = None" "ft = SFS_TYPE_FILE \<or> ft = SFS_TYPE_DIR"
  shows "\<exists>r s'. sfs_makeobj mem new ft s = Some (r, s') \<and> makeobj_result s I new ft r s'"
  using sfs_balloc_cases [OF fs_okD(1) [OF assms(1)]]
proof (elim disjE exE conjE)
  assume "sfs_balloc s = Some (Err ENOSPC, s)" "full s"
  then show ?thesis by (simp add: sfs_makeobj_def makeobj_result_def)
next
  fix b s1
  assume b: "sfs_balloc s = Some (Ok b, s1)" "b \<notin> used s" "b < nblk s" "b \<noteq> 0"
    and m: "fs_moves s ((disk s)(b := replicate 512 0)) (insert b (used s)) (sfs_pool s) s1"
  note f = fs_movesD [OF m] and al = fs_alloc [OF assms(1) b(2) m]
  have n: "fresh_inode ft = (if ft = SFS_TYPE_INVAL then bytes_inode (disk s1 b) else (bytes_inode (disk s1 b))\<lparr>sfi_type := ft\<rparr>)"
    "sfi_type (bytes_inode (disk s1 b)) = SFS_TYPE_INVAL" "vop_table_for (sfi_type (fresh_inode ft)) \<noteq> NULL" "inode_wf (fresh_inode ft)"
    using assms(4) f(1) by (auto simp: inode_bytes_zeros fresh_inode_def [of ft] vop_table_for_def inode_wf_def)
  have sys: "b \<notin> sysblocks s1" using b(2) fs_okD(1) [OF assms(1)] f(6) by (auto simp: space_ok_def)
  have dj: "b \<notin> set (iown s1 j)" if "j \<in> I" for j
    using inode_ok_used(5) [OF assms(1) that] b(2) same_inodeD(2) [OF al(2) [OF that]] by auto
  have "roomy s1" "sfs_pool s1 new = None" using al(4) assms(2,3) f(3) by simp_all
  then obtain r s' where r: "sfs_loadvnode mem new b ft s1 = Some (r, s')" "used s' = used s1" "sfs_super s' = sfs_super s1"
    "\<forall>j. j \<noteq> b \<longrightarrow> same_inode s1 s' j"
    "r = Err ENOMEM \<and> fs_ok s' I \<and> same_inode s1 s' b \<and> sfs_pool s' = sfs_pool s1
     \<or> r = Ok new \<and> fs_ok s' (insert b I) \<and> gained_ref s1 new s' \<and> fino s' new = b \<and> cur s' b = fresh_inode ft"
    using sfs_loadvnode_miss [OF al(1) _ al(3) _ n(1) _ n(3,4), of new mem] n(2) sys dj f b(3) by auto
  have "same_inode s s' j" if "j \<in> I" for j
    using same_inode_trans [OF al(2) [OF that]] r(4) that al(5) by (cases "j = b") auto
  moreover have "gained_ref s1 new s' = gained_ref s new s'" using f(3) by (simp add: gained_ref_def)
  ultimately have "makeobj_result s I new ft r s'"
    using r b(2) f(2,3,4) al(5) unfolding makeobj_result_def by auto
  then show ?thesis using b(1) r(1) by (simp add: sfs_makeobj_def)
qed

subsection \<open>Writing inodes back and reclaiming vnodes\<close>

lemma own_write_self:
  assumes "distinct (own dk a i)" "a \<noteq> 0" "inode_shape dk i"
  shows "own (dk(a := x)) a i = own dk a i" "content (dk(a := x)) i = content dk i"
proof -
  have "\<forall>b \<in> set (own dk 0 i). (dk(a := x)) b = dk b" using assms(1,2) by (auto simp: own_def)
  note c = own_cong [of dk 0 i "dk(a := x)", OF this assms(3)]
  show "own (dk(a := x)) a i = own dk a i" "content (dk(a := x)) i = content dk i"
    using c(1,5) by (simp_all add: own_def)
qed

lemma fs_sync_inode:
  assumes "fs_ok s I" "sfs_pool s v = Some sv"
  shows "\<exists>s'. sfs_sync_inode v s = Some (Ok (), s') \<and> fs_ok s' I \<and> (\<forall>j \<in> I. same_inode s s' j)
    \<and> sfs_pool s' = (sfs_pool s)(v \<mapsto> sv\<lparr>sv_dirty := False\<rparr>) \<and> bytes_inode (disk s' (sv_ino sv)) = sv_i sv
    \<and> used s' = used s \<and> sfs_super s' = sfs_super s \<and> sfs_vnodes s' = sfs_vnodes s \<and> bm_nbits (sfs_freemap s') = bm_nbits (sfs_freemap s)"
proof (cases "sv_dirty sv")
  case False
  then have "sv\<lparr>sv_dirty := False\<rparr> = sv" by simp
  then have "sfs_pool s = (sfs_pool s)(v \<mapsto> sv\<lparr>sv_dirty := False\<rparr>)" using assms(2) by (simp add: fun_upd_idem)
  then show ?thesis using assms False pool_okD(4) [OF fs_okD(2) [OF assms(1)] assms(2)] by (simp add: sfs_sync_inode_def sv_ok_def)
next
  case True
  let ?i = "sv_ino sv" and ?sv = "sv\<lparr>sv_dirty := False\<rparr>"
  let ?dk = "(disk s)(?i := inode_bytes (sv_i sv))"
  note p = fs_okD(2) [OF assms(1)] and sp = fs_okD(1) [OF assms(1)] and iI = fs_okD(3) [OF assms]
  have c: "cur s ?i = sv_i sv" using cur_loaded [OF p assms(2)] .
  have wf: "inode_wf (sv_i sv)" "distinct (own (disk s) ?i (sv_i sv))" using fs_okD(4) [OF assms(1) iI] c by (auto simp: inode_ok_def)
  have sh: "inode_shape (disk s) (sv_i sv)" using inode_ok_shape [OF assms(1) iI] c by simp
  note i = inode_ok_used [OF assms(1) iI]
  note ow = own_write_self [OF wf(2) i(3) sh, of "inode_bytes (sv_i sv)"]
  obtain s1 where s1: "sfs_wblock (inode_bytes (sv_i sv)) ?i s = Some (Ok (), s1)" "dev_moves s ?dk s1"
    using sfs_wblock_ok [of s ?i "inode_bytes (sv_i sv)"] length_inode_bytes [OF wf(1)] i(2) sp by (auto simp: space_ok_def)
  define s' where "s' = set_vnode v ?sv s1"
  note f = dev_moves_fields [OF s1(2)]
  have f': "sfs_pool s' = (sfs_pool s)(v \<mapsto> ?sv)" "disk s' = ?dk" "used s' = used s" "sfs_super s' = sfs_super s"
    "sfs_vnodes s' = sfs_vnodes s" "sysblocks s' = sysblocks s" "bm_nbits (sfs_freemap s') = bm_nbits (sfs_freemap s)"
    using f by (simp_all add: s'_def set_vnode_def sysblocks_def)
  have "space_ok s1" using fs_moves_space [OF sp fs_moves_dev [OF sp s1(2)]] by simp
  then have "space_ok s'" by (simp add: s'_def set_vnode_def space_ok_def dev_good_def sysblocks_def)
  moreover have "bytes_inode (disk s' ?i) = sv_i sv" using bytes_inode_bytes [OF wf(1)] f'(2) by simp
  moreover have "sv_ok s' ?sv" using pool_okD(4) [OF p assms(2)] calculation(2) by (simp add: sv_ok_def)
  moreover have "file_ok s' v" using fs_ok_file [OF assms] f' ow(1) assms(2) by (simp add: file_ok_def)
  moreover have "disk s' b = disk s b \<and> b \<notin> set (fown s' v) \<and> b \<in> used s'" if "b \<in> used s - set (fown s v)" for b
    using that f' ow(1) assms(2) by (auto simp: own_def)
  moreover have "meta_ok s'"
  proof -
    have "?i \<notin> sysblocks s" using fs_okD(4) [OF assms(1) iI] i(4) by (auto simp: inode_ok_def)
    then have "meta_ok s1" by (intro meta_moves [OF fs_okD(6) [OF assms(1)] fs_moves_dev [OF sp s1(2)]]) auto
    then show ?thesis by (simp add: s'_def meta_same)
  qed
  ultimately have ch: "fs_ok s' I" "\<And>j. j \<in> I \<Longrightarrow> j \<noteq> ?i \<Longrightarrow> same_inode s s' j" "cur s' ?i = sv_i sv"
    using fs_change [OF assms _ f'(1) _ _ f'(5,4)] by auto
  have "same_inode s s' ?i" using ch(3) c ow f'(2) by (simp add: same_inode_def)
  then have "\<forall>j \<in> I. same_inode s s' j" using ch(2) by (metis (no_types))
  moreover have "sfs_sync_inode v s = Some (Ok (), s')" using assms(2) True s1(1) by (simp add: sfs_sync_inode_def s'_def)
  ultimately show ?thesis using ch(1) f' bytes_inode_bytes [OF wf(1)] by simp
qed

text \<open>Taking a vnode out of the table; its inode then counts as it is on disk, if it still counts.\<close>

lemma fs_drop_vnode:
  assumes "fs_ok s I" "sfs_pool s v = Some sv" "array_ok (sfs_vnodes s')" "distinct (loaded s')" "set (loaded s') = set (loaded s) - {v}"
    and s': "sfs_pool s' = (sfs_pool s)(v := None)" "disk s' = disk s" "sfs_super s' = sfs_super s" "space_ok s'" "meta_ok s'"
    and J: "J \<subseteq> I" "I - {sv_ino sv} \<subseteq> J" "sv_ino sv \<in> J \<Longrightarrow> bytes_inode (disk s (sv_ino sv)) = sv_i sv"
    and u: "\<And>j. j \<in> J \<Longrightarrow> set (iown s j) \<subseteq> used s'"
  shows "fs_ok s' J" "j \<in> J \<Longrightarrow> same_inode s s' j"
proof -
  note p = fs_okD(2) [OF assms(1)]
  have fe: "fino s' w = fino s w" if "w \<noteq> v" for w using s'(1) that by simp
  have d: "dom (sfs_pool s') = dom (sfs_pool s) - {v}" using s'(1) by auto
  have "inj_on (fino s') (dom (sfs_pool s'))" using p d fe by (auto simp: pool_ok_def inj_on_def)
  moreover have "sv_ok s' sw" if "sw \<in> ran (sfs_pool s')" for sw
    using that p s'(1,2) by (auto simp: pool_ok_def sv_ok_def ran_def split: if_splits)
  ultimately have p': "pool_ok s'" using assms(3-5) d pool_okD(3) [OF p] by (simp add: pool_ok_def)
  have cu: "cur s' j = cur s j" if "j \<in> J" for j
  proof (cases "j = sv_ino sv")
    case True
    have "fino s' w \<noteq> j" if "sfs_pool s' w \<noteq> None" for w
    proof -
      have "w \<noteq> v" "sfs_pool s w \<noteq> None" using that s'(1) by (cases "w = v"; simp)+
      then show ?thesis using pool_okD(5) [OF p, of w v] assms(2) True fe [of w] by auto
    qed
    then show ?thesis using cur_unloaded [OF p', of j] cur_loaded [OF p assms(2)] J(3) that True s'(2) by simp
  next
    case False
    have "vnode_of s' j = Some w \<longleftrightarrow> vnode_of s j = Some w" for w
      unfolding vnode_of_Some [OF p] vnode_of_Some [OF p'] using s'(1) assms(2) False by (cases "w = v") simp_all
    then have "vnode_of s' j = vnode_of s j" by (metis option.exhaust)
    moreover have "w \<noteq> v" if "vnode_of s j = Some w" for w using that vnode_of_Some [OF p, of j w] assms(2) False by auto
    ultimately show ?thesis using s'(1,2) by (simp add: cur_def split: option.split)
  qed
  show same: "same_inode s s' j" if "j \<in> J" for j
    using same_inodeI [OF assms(1) _ cu [OF that]] J(1) that s'(2) by auto
  have "fino s' w \<in> J" if "w \<in> dom (sfs_pool s')" for w
  proof -
    have w: "w \<noteq> v" "sfs_pool s w \<noteq> None" using that d by auto
    moreover have "fino s w \<in> I" using w fs_okD(3) [OF assms(1)] by auto
    moreover have "fino s w \<noteq> sv_ino sv" using w pool_okD(5) [OF p, of w v] assms(2) by auto
    ultimately show ?thesis using fe J(2) by auto
  qed
  then show "fs_ok s' J"
    using fs_ok_change [OF assms(1) s'(4) p', of J "{}"] J(1) same u s'(3,5) by auto
qed

lemma remove_nth:
  assumes "distinct xs" "n < length xs"
  shows "distinct (take n xs @ drop (Suc n) xs)" "set (take n xs @ drop (Suc n) xs) = set xs - {xs ! n}"
proof -
  have "xs = take n xs @ xs ! n # drop (Suc n) xs" using id_take_nth_drop [OF assms(2)] .
  then have "distinct (take n xs @ xs ! n # drop (Suc n) xs)" "set xs = set (take n xs @ xs ! n # drop (Suc n) xs)"
    using assms(1) by metis+
  then show "distinct (take n xs @ drop (Suc n) xs)" "set (take n xs @ drop (Suc n) xs) = set xs - {xs ! n}" by auto
qed

text \<open>The search for the vnode in the table and its removal, at the end of \<^verbatim>\<open>sfs_reclaim\<close>.\<close>

lemma forget_vnode:
  assumes "pool_ok s" "sfs_pool s v \<noteq> None"
  shows "\<exists>ix vs. List.find (\<lambda>i. array_getguy (sfs_vnodes s) (int i) = Some v) [0..<nat (array_getnum (sfs_vnodes s))] = Some ix
    \<and> array_remove (sfs_vnodes s) (int ix) = Some vs \<and> array_ok vs \<and> distinct (a_list vs) \<and> set (a_list vs) = set (loaded s) - {v}"
proof -
  let ?P = "\<lambda>i. array_getguy (sfs_vnodes s) (int i) = Some v" and ?n = "length (loaded s)"
  note a = pool_okD(1) [OF assms(1)]
  have n: "nat (array_getnum (sfs_vnodes s)) = ?n" using length_a_list [OF a] by (simp add: array_getnum_def)
  have g: "array_getguy (sfs_vnodes s) (int i) = Some (loaded s ! i)" if "i < ?n" for i
    using array_getguy_eq [OF a, of "int i"] that by simp
  have "v \<in> set (loaded s)" using assms pool_okD(3) [OF assms(1)] by auto
  then obtain k where "k < ?n" "loaded s ! k = v" by (auto simp: in_set_conv_nth)
  then have "List.find ?P [0..<?n] \<noteq> None" using g unfolding find_None_iff by auto
  then obtain ix where ix: "List.find ?P [0..<?n] = Some ix" by blast
  then have "ix < ?n" "?P ix" by (auto simp: find_Some_iff)
  then have ix': "ix < ?n" "loaded s ! ix = v" using g by simp_all
  then obtain vs where "array_remove (sfs_vnodes s) (int ix) = Some vs" "array_ok vs"
    "a_list vs = take ix (loaded s) @ drop (Suc ix) (loaded s)" using array_remove_ok [OF a, of "int ix"] by auto
  then show ?thesis using ix ix' n remove_nth [OF pool_okD(2) [OF assms(1)] ix'(1)] by simp
qed

lemma reclaim_finish_ok:
  assumes "fs_ok s I" "sfs_pool s v = Some sv" "vn_refcount (sv_v sv) = 1" "vn_opencount (sv_v sv) = 0"
    and J: "J = (if sfi_linkcount (sv_i sv) = 0 then I - {sv_ino sv} else I)"
  shows "\<exists>s'. reclaim_finish v s = Some (Ok (), s') \<and> sfs_pool s' = (sfs_pool s)(v := None) \<and> sfs_super s' = sfs_super s
    \<and> fs_ok s' J \<and> (\<forall>j \<in> J. same_inode s s' j)
    \<and> used s' = (if sfi_linkcount (sv_i sv) = 0 then used s - {sv_ino sv} else used s)"
proof -
  let ?sv = "sv\<lparr>sv_dirty := False\<rparr>" and ?i = "sv_ino sv" and ?n = "sfi_linkcount (sv_i sv) = 0"
  note iI = fs_okD(3) [OF assms(1,2)]
  obtain s1 where s1: "sfs_sync_inode v s = Some (Ok (), s1)" "fs_ok s1 I" "\<forall>j \<in> I. same_inode s s1 j"
    "sfs_pool s1 = (sfs_pool s)(v \<mapsto> ?sv)" "bytes_inode (disk s1 ?i) = sv_i sv" "used s1 = used s" "sfs_super s1 = sfs_super s"
    using fs_sync_inode [OF assms(1,2)] by blast
  have v1: "sfs_pool s1 v = Some ?sv" using s1(4) by simp
  note sp1 = fs_okD(1) [OF s1(2)]
  obtain s2 where s2: "(if ?n then sfs_bfree ?i s1 else Some s1) = Some s2"
    "fs_moves s1 (disk s1) (if ?n then used s1 - {?i} else used s1) (sfs_pool s1) s2"
    using sfs_bfree_ok [of s1 ?i] sp1 inode_ok_used(1) [OF assms(1) iI] s1(6) fs_moves_refl [OF sp1]
    by (cases ?n) (auto simp: space_ok_def)
  note f2 = fs_movesD [OF s2(2)]
  obtain ix vs where vs: "List.find (\<lambda>i. array_getguy (sfs_vnodes s2) (int i) = Some v) [0..<nat (array_getnum (sfs_vnodes s2))] = Some ix"
    "array_remove (sfs_vnodes s2) (int ix) = Some vs" "array_ok vs" "distinct (a_list vs)" "set (a_list vs) = set (loaded s1) - {v}"
    using forget_vnode [OF fs_okD(2) [OF s1(2)], of v, folded f2(5)] v1 f2(5) by auto
  define s' where "s' = s2\<lparr>sfs_vnodes := vs, sfs_pool := (sfs_pool s2)(v := None)\<rparr>"
  have "vnode_ok (sv_v sv)" using pool_okD(4) [OF fs_okD(2) [OF assms(1)] assms(2)] by (simp add: sv_ok_def)
  then obtain x where "vnode_kill (sv_v sv) = Some x" using vnode_kill_ok assms(3,4) by blast
  then have run: "reclaim_finish v s = Some (Ok (), s')"
    using s1(1) v1 vs(1,2) s2(1) by (cases ?n) (simp_all add: reclaim_finish_def Let_def s'_def)
  have "space_ok s2"
  proof -
    have "?i \<notin> sysblocks s1" "?i < nblk s1" using fs_okD(4) [OF s1(2) iI] by (auto simp: inode_ok_def own_def)
    then show ?thesis using sp1 s2(2) f2(6) by (auto simp: space_ok_def fs_moves_def)
  qed
  then have f: "sfs_vnodes s' = vs" "sfs_pool s' = (sfs_pool s1)(v := None)" "disk s' = disk s1" "sfs_super s' = sfs_super s1"
    "used s' = used s2" "space_ok s'"
    using f2 by (simp_all add: s'_def space_ok_def dev_good_def sysblocks_def)
  have f7: "meta_ok s'" using meta_moves [OF fs_okD(6) [OF s1(2)] s2(2)] by (simp add: s'_def meta_ok_def)
  have u: "set (iown s1 j) \<subseteq> used s'" if "j \<in> J" for j
  proof (cases ?n)
    case True
    then have j: "j \<in> I" "j \<noteq> ?i" using that J by auto
    have "?i \<notin> set (iown s1 j)" using fs_okD(5) [OF s1(2) j(1) iI j(2)] inode_ok_used(4) [OF s1(2) iI] by blast
    then show ?thesis using inode_ok_used(5) [OF s1(2) j(1)] f(5) f2(2) True by auto
  next
    case False
    then show ?thesis using that J inode_ok_used(5) [OF s1(2)] f(5) f2(2) by simp
  qed
  have JI: "J \<subseteq> I" "I - {?i} \<subseteq> J" using J by auto
  then have "fs_ok s' J" "\<And>j. j \<in> J \<Longrightarrow> same_inode s1 s' j"
    using fs_drop_vnode [OF s1(2) v1 _ _ _ f(2-4,6) f7 JI(1) _ _ u] vs(3-5) f(1) s1(5) by simp_all
  then have "fs_ok s' J" "\<forall>j \<in> J. same_inode s s' j" using s1(3) JI(1) same_inode_trans by blast+
  then show ?thesis using run f s1(4,6,7) f2(2) by simp
qed

lemma sfs_truncate_zero:
  assumes "space_ok s" "file_ok s v"
  shows "\<exists>s'. sfs_truncate v 0 s = Some (Ok (), s') \<and> vstep v s s' \<and> fown s' v = [fino s v]"
proof -
  obtain s' where s': "sfs_truncate v 0 s = Some (Ok (), s')" "vstep v s s'" "fblocks s' v = zap (dropped 0) (fblocks s v)"
    "sfi_indirect (fi s' v) = 0"
    using sfs_truncate_ok [OF assms, of 0 0] by auto
  have "x = 0" if "x \<in> set (fblocks s' v)" for x
    using that s'(3) by (auto simp: zap_def dropped_def split: if_splits)
  then have "nz (fblocks s' v) = []" by (simp add: filter_empty_conv)
  then have "fown s' v = [fino s v]" using s'(4) vstep_fields(6) [OF s'(2)] by (simp add: own_def slots_def)
  then show ?thesis using s'(1,2) by blast
qed

text \<open>What dropping a reference does to the inodes: nothing, unless it was the last one to a file without links.\<close>

definition decref_result :: "sfs_fs \<Rightarrow> nat set \<Rightarrow> nat \<Rightarrow> sfs_fs \<Rightarrow> bool" where
  "decref_result s I v s' \<longleftrightarrow>
     (let sv = the (sfs_pool s v); last = (vn_refcount (sv_v sv) = 1); gone = (last \<and> sfi_linkcount (sv_i sv) = 0);
          J = (if gone then I - {sv_ino sv} else I) in
      fs_ok s' J \<and> (\<forall>j \<in> J. same_inode s s' j) \<and> sfs_super s' = sfs_super s
      \<and> sfs_pool s' = (sfs_pool s)(v := (if last then None else Some (sv\<lparr>sv_v := (sv_v sv)\<lparr>vn_refcount := vn_refcount (sv_v sv) - 1\<rparr>\<rparr>)))
      \<and> used s' = (if gone then used s - set (fown s v) else used s))"

lemma VOP_DECREF_ok:
  assumes "fs_ok s I" "sfs_pool s v = Some sv" "vn_opencount (sv_v sv) < vn_refcount (sv_v sv)"
    "sfi_linkcount (sv_i sv) = 0 \<Longrightarrow> sfi_type (sv_i sv) = SFS_TYPE_FILE"
  shows "\<exists>s'. VOP_DECREF v s = Some s' \<and> decref_result s I v s'"
proof (cases "vn_refcount (sv_v sv) = 1")
  case False
  let ?vn = "(sv_v sv)\<lparr>vn_refcount := vn_refcount (sv_v sv) - 1\<rparr>"
  let ?sv = "sv\<lparr>sv_v := ?vn\<rparr>"
  have so: "sv_ok s sv" using pool_okD(4) [OF fs_okD(2) [OF assms(1)] assms(2)] .
  then have r: "1 < vn_refcount (sv_v sv)" using False by (simp add: sv_ok_def vnode_ok_def)
  then have so': "sv_ok s ?sv" using so assms(3) by (auto simp: sv_ok_def vnode_ok_def)
  have "inode_wf (sv_i sv)" using fs_ok_file [OF assms(1,2)] assms(2) by (simp add: file_ok_def)
  then have st: "fs_ok (set_vnode v ?sv s) I" "\<And>j. j \<in> I \<Longrightarrow> j \<noteq> sv_ino sv \<Longrightarrow> same_inode s (set_vnode v ?sv s) j"
    "cur (set_vnode v ?sv s) (sv_ino sv) = sv_i sv"
    using fs_set_vnode [OF assms(1,2) _ so'] by simp_all
  have "same_inode s (set_vnode v ?sv s) (sv_ino sv)"
    using st(3) cur_loaded [OF fs_okD(2) [OF assms(1)] assms(2)] by (simp add: same_inode_def set_vnode_def)
  then have "\<forall>j \<in> I. same_inode s (set_vnode v ?sv s) j" using st(2) by (metis (no_types))
  moreover have "VOP_DECREF v s = Some (set_vnode v ?sv s)"
    using assms(2) r vnode_decref_many [of "\<lambda>s. map_option sv_v (sfs_pool s v)" s "sv_v sv"] by (simp add: VOP_DECREF_def)
  ultimately show ?thesis using st(1) assms(2) False by (simp add: decref_result_def set_vnode_def)
next
  case True
  let ?i = "sv_ino sv"
  have so: "sv_ok s sv" using pool_okD(4) [OF fs_okD(2) [OF assms(1)] assms(2)] .
  have oc: "vn_opencount (sv_v sv) = 0" using so True assms(3) by (simp add: sv_ok_def vnode_ok_def)
  have chk: "vop_check v op s = vop_table_for (sfi_type (sv_i sv))" for op
    using so assms(2) by (auto simp: vop_check_def sv_ok_def)
  have "VOP_DECREF v s = Some s'" if "sfs_reclaim v s = Some (Ok (), s')" for s'
    using vnode_decref_last [of "\<lambda>s. map_option sv_v (sfs_pool s v)" s "sv_v sv"] assms(2) True that chk [of "''reclaim''"] so
    by (auto simp: VOP_DECREF_def VOP_RECLAIM_def sv_ok_def vnode_ok_def)
  moreover have "\<exists>s'. sfs_reclaim v s = Some (Ok (), s') \<and> decref_result s I v s'"
  proof (cases "sfi_linkcount (sv_i sv) = 0")
    case False
    then have "sfs_reclaim v s = reclaim_finish v s" using assms(2) True by (simp add: sfs_reclaim_def)
    then show ?thesis using reclaim_finish_ok [OF assms(1,2) True oc refl] False assms(2) True by (auto simp: decref_result_def Let_def)
  next
    case n: True
    obtain s1 where s1: "sfs_truncate v 0 s = Some (Ok (), s1)" "vstep v s s1" "fown s1 v = [?i]"
      using sfs_truncate_zero [OF fs_okD(1) [OF assms(1)] fs_ok_file [OF assms(1,2)]] assms(2) by auto
    note f1 = vstep_fields [OF s1(2)] and st1 = fs_vstep [OF assms(1,2) s1(2)]
    obtain sv1 where v1: "sfs_pool s1 v = Some sv1" "same_vnode sv sv1" using f1(8) assms(2) s1(2) by (auto simp: vstep_def)
    have e: "sv_ino sv1 = ?i" "sv_v sv1 = sv_v sv" "sfi_linkcount (sv_i sv1) = 0" using v1(2) n by (simp_all add: same_vnode_def)
    obtain s' where s': "reclaim_finish v s1 = Some (Ok (), s')" "sfs_pool s' = (sfs_pool s1)(v := None)" "sfs_super s' = sfs_super s1"
      "fs_ok s' (I - {?i})" "\<forall>j \<in> I - {?i}. same_inode s1 s' j" "used s' = used s1 - {?i}"
      using reclaim_finish_ok [OF st1(1) v1(1) _ _ refl] e True oc by auto
    have run: "sfs_reclaim v s = Some (Ok (), s')"
      using assms(2) True n s1(1) s'(1) chk [of "''truncate''"] assms(4) [OF n] by (simp add: sfs_reclaim_def VOP_TRUNCATE_def vop_table_for_def)
    have u1: "used s1 = (used s - set (fown s v)) \<union> {?i}" using s1(2,3) unfolding vstep_def by simp
    have "?i \<in> set (fown s v)" using assms(2) by (simp add: own_def)
    then have "used s' = used s - set (fown s v)" using s'(6) u1 by blast
    moreover have "\<forall>j \<in> I - {?i}. same_inode s s' j" using s'(5) st1(2) same_inode_trans by blast
    moreover have "sfs_pool s' = (sfs_pool s)(v := None)" using s'(2) f1(7) by (simp add: fun_eq_iff)
    ultimately show ?thesis using run s'(3,4) f1(3) assms(2) True n by (simp add: decref_result_def Let_def)
  qed
  ultimately show ?thesis by blast
qed

end
