(* ===== verification/SfsName.thy ===== *)
theory SfsName
  imports SfsPool
begin

section \<open>Names, links and files of a mounted SFS\<close>

text \<open>
  The invariant of the whole name space (SFS has one directory, the root): the root directory is well formed, every
  entry names a regular file, every file has as many links as entries name it, and a file without links is still
  held in memory. The operations of \<^verbatim>\<open>sfs_dirops\<close> and \<^verbatim>\<open>sfs_fileops\<close> keep it, never panic, and act on the map from names to
  inodes as their names say.
\<close>

abbreviation rooti :: nat where
  "rooti \<equiv> SFS_ROOT_LOCATION"

definition rdents :: "sfs_fs \<Rightarrow> sfs_dir list" where
  "rdents s = map (dent (ibytes s rooti)) [0..<sfi_size (cur s rooti) div 64]"

definition names :: "sfs_fs \<Rightarrow> byte list \<Rightarrow> nat option" where
  "names s = dir_map (rdents s)"

abbreviation lc :: "sfs_fs \<Rightarrow> nat \<Rightarrow> nat" where
  "lc s i \<equiv> sfi_linkcount (cur s i)"

definition root_ok :: "sfs_fs \<Rightarrow> bool" where
  "root_ok s \<longleftrightarrow> sfi_type (cur s rooti) = SFS_TYPE_DIR \<and> sfi_size (cur s rooti) mod 64 = 0
     \<and> sfi_size (cur s rooti) \<le> 143 * 512 \<and> names_ok (rdents s) \<and> lc s rooti \<noteq> 0"

text \<open>The inodes \<open>I\<close> are the root directory and regular files.\<close>

definition base :: "sfs_fs \<Rightarrow> nat set \<Rightarrow> bool" where
  "base s I \<longleftrightarrow> fs_ok s I \<and> rooti \<in> I \<and> root_ok s \<and> (\<forall>i \<in> I - {rooti}. sfi_type (cur s i) = SFS_TYPE_FILE)"

definition linos :: "sfs_fs \<Rightarrow> nat set" where
  "linos s = fino s ` dom (sfs_pool s)"

definition inodes :: "sfs_fs \<Rightarrow> nat set" where
  "inodes s = insert rooti (linos s \<union> ran (names s))"

definition nlinks :: "(byte list \<Rightarrow> nat option) \<Rightarrow> nat \<Rightarrow> nat" where
  "nlinks m i = card {n. m n = Some i}"

definition tree_ok :: "sfs_fs \<Rightarrow> bool" where
  "tree_ok s \<longleftrightarrow> base s (inodes s) \<and> rooti \<notin> ran (names s) \<and> (\<forall>i \<in> inodes s - {rooti}. lc s i = nlinks (names s) i)"

definition is_root :: "sfs_fs \<Rightarrow> nat \<Rightarrow> bool" where
  "is_root s d \<longleftrightarrow> sfs_pool s d \<noteq> None \<and> fino s d = rooti"

text \<open>Blocks marked in use that belong to no inode.\<close>

definition unowned :: "sfs_fs \<Rightarrow> nat set \<Rightarrow> nat set" where
  "unowned s I = used s - (\<Union>i \<in> I. set (iown s i))"

definition nfree :: "sfs_fs \<Rightarrow> nat" where
  "nfree s = card ({..<nblk s} - used s)"

lemma baseD:
  assumes "base s I"
  shows "fs_ok s I" "rooti \<in> I" "root_ok s" "i \<in> I \<Longrightarrow> i \<noteq> rooti \<Longrightarrow> sfi_type (cur s i) = SFS_TYPE_FILE"
  using assms by (auto simp: base_def)

lemma same_names:
  assumes "same_inode s s' rooti"
  shows "rdents s' = rdents s \<and> names s' = names s \<and> root_ok s' = root_ok s"
proof -
  have "rdents s' = rdents s" unfolding rdents_def same_inodeD(3) [OF assms] by (simp only: same_inodeD(1) [OF assms])
  then show ?thesis by (simp only: names_def root_ok_def same_inodeD(1) [OF assms])
qed

lemma base_same:
  assumes "base s I" "fs_ok s' J" "J \<subseteq> I" "rooti \<in> J" "\<forall>j \<in> J. same_inode s s' j"
  shows "base s' J" "names s' = names s" "j \<in> J \<Longrightarrow> lc s' j = lc s j"
proof -
  have r: "rdents s' = rdents s \<and> names s' = names s \<and> root_ok s' = root_ok s" using same_names assms(4,5) by blast
  have c: "cur s' j = cur s j" if "j \<in> J" for j using same_inodeD(1) assms(5) that by blast
  show "names s' = names s" "j \<in> J \<Longrightarrow> lc s' j = lc s j" using r c by simp_all
  show "base s' J" using assms(1-4) r c by (auto simp: base_def)
qed

lemma root_dents:
  assumes "pool_ok s" "is_root s d"
  shows "cur s rooti = fi s d" "rdents s = dents s d"
proof -
  obtain sv where sv: "sfs_pool s d = Some sv" "sv_ino sv = rooti" using assms(2) by (auto simp: is_root_def)
  then show c: "cur s rooti = fi s d" using cur_loaded [OF assms(1) sv(1)] by simp
  then show "rdents s = dents s d" by (simp add: rdents_def dents_def)
qed

lemma base_dir:
  assumes "base s I" "is_root s d"
  shows "space_ok s" "dir_ok s d" "dents s d = rdents s" "fi s d = cur s rooti"
proof -
  note fs = baseD(1) [OF assms(1)] and r = root_dents [OF fs_okD(2) [OF baseD(1) [OF assms(1)]] assms(2)]
  obtain sv where sv: "sfs_pool s d = Some sv" using assms(2) by (auto simp: is_root_def)
  show "space_ok s" using fs_okD(1) [OF fs] .
  show "dents s d = rdents s" "fi s d = cur s rooti" using r by simp_all
  show "dir_ok s d" using fs_ok_file [OF fs sv] baseD(3) [OF assms(1)] r by (simp add: dir_ok_def root_ok_def)
qed

text \<open>A step on the directory, and a step on a file.\<close>

lemma vstep_lc:
  assumes "fs_ok s I" "sfs_pool s v = Some sv" "vstep v s s'" "i \<in> I"
  shows "sfi_type (cur s' i) = sfi_type (cur s i)" "lc s' i = lc s i"
proof -
  note st = fs_vstep [OF assms(1-3)]
  have "sfi_type (cur s' i) = sfi_type (cur s i) \<and> lc s' i = lc s i"
  proof (cases "i = sv_ino sv")
    case True
    have "same_vnode sv (the (sfs_pool s' v))" using assms(2,3) by (simp add: vstep_def)
    then show ?thesis using True st(4) cur_loaded [OF fs_okD(2) [OF assms(1)] assms(2)] by (simp add: same_vnode_def)
  next
    case False
    then show ?thesis using same_inodeD(1) [OF st(2) [OF assms(4) False]] by simp
  qed
  then show "sfi_type (cur s' i) = sfi_type (cur s i)" "lc s' i = lc s i" by simp_all
qed

lemma vstep_linos:
  assumes "sfs_pool s v = Some sv" "vstep v s s'"
  shows "linos s' = linos s" "is_root s' d = is_root s d" "dom (sfs_pool s') = dom (sfs_pool s)"
proof -
  note f = vstep_fields [OF assms(2)]
  have i: "fino s' w = fino s w" if "sfs_pool s w \<noteq> None" for w using f(6,7) by (cases "w = v") simp_all
  show d: "dom (sfs_pool s') = dom (sfs_pool s)" using f(7,8) assms(1) by (auto simp: dom_def) (metis option.distinct(1))+
  show "linos s' = linos s" unfolding linos_def d by (rule image_cong [OF refl]) (use i in auto)
  show "is_root s' d = is_root s d" using i [of d] d unfolding is_root_def by (metis domIff)
qed

lemma UN_split: "v \<in> I \<Longrightarrow> (\<Union>i \<in> I. f i) = (\<Union>i \<in> I - {v}. f i) \<union> f v"
  by auto

lemma vstep_unowned:
  assumes "fs_ok s I" "sfs_pool s v = Some sv" "vstep v s s'"
  shows "unowned s' I = unowned s I"
proof -
  let ?v = "sv_ino sv"
  note st = fs_vstep [OF assms]
  have vI: "?v \<in> I" using fs_okD(3) [OF assms(1,2)] .
  define K where "K = (\<Union>i \<in> I - {?v}. set (iown s i))"
  have K': "(\<Union>i \<in> I - {?v}. set (iown s' i)) = K"
    unfolding K_def by (rule SUP_cong [OF refl]) (use same_inodeD(2) [OF st(2)] in auto)
  have "fino s' v = ?v" using vstep_fields(6) [OF assms(3)] assms(2) by simp
  then have o: "iown s ?v = fown s v" "iown s' ?v = fown s' v"
    using st(4) cur_loaded [OF fs_okD(2) [OF assms(1)] assms(2)] assms(2) by simp_all
  have e: "(\<Union>i \<in> I. set (iown s i)) = K \<union> set (fown s v)" "(\<Union>i \<in> I. set (iown s' i)) = K \<union> set (fown s' v)"
    using UN_split [OF vI, of "\<lambda>i. set (iown s i)"] UN_split [OF vI, of "\<lambda>i. set (iown s' i)"] K' o by (simp_all only: K_def)
  have "used s' = (used s - set (fown s v)) \<union> set (fown s' v)" "set (fown s' v) \<inter> (used s - set (fown s v)) = {}"
    using assms(3) by (auto simp: vstep_def)
  then show ?thesis unfolding unowned_def e by blast
qed

subsection \<open>Configurations\<close>

text \<open>
  A configuration fixes what can be observed of a mounted file system whose inodes are \<open>I\<close>: the names \<open>m\<close>, the
  link counts \<open>L\<close>, the sizes and contents \<open>F\<close> of the files, and the blocks \<open>U\<close> that are marked in use without
  belonging to a file. Every step of an operation takes a configuration to a configuration.
\<close>

definition conf ::
  "sfs_fs \<Rightarrow> nat set \<Rightarrow> (byte list \<Rightarrow> nat option) \<Rightarrow> (nat \<Rightarrow> nat) \<Rightarrow> (nat \<Rightarrow> nat \<times> (nat \<Rightarrow> byte)) \<Rightarrow> nat set \<Rightarrow> bool" where
  "conf s I m L F U \<longleftrightarrow> base s I \<and> names s = m \<and> unowned s I = U
     \<and> (\<forall>i \<in> I - {rooti}. lc s i = L i \<and> sfi_size (cur s i) = fst (F i) \<and> ibytes s i = snd (F i))"

lemma confD:
  assumes "conf s I m L F U"
  shows "base s I" "names s = m" "unowned s I = U"
    "i \<in> I \<Longrightarrow> i \<noteq> rooti \<Longrightarrow> lc s i = L i \<and> sfi_size (cur s i) = fst (F i) \<and> ibytes s i = snd (F i)"
  using assms by (simp_all add: conf_def)

lemma conf_fs: "conf s I m L F U \<Longrightarrow> fs_ok s I"
  by (simp add: conf_def base_def)

lemma conf_same:
  assumes "conf s I m L F U" "fs_ok s' J" "J \<subseteq> I" "rooti \<in> J" "\<forall>j \<in> J. same_inode s s' j"
    "used s' = used s - (\<Union>j \<in> I - J. set (iown s j))"
  shows "conf s' J m L F U"
proof -
  note b = base_same [OF confD(1) [OF assms(1)] assms(2-5)]
  have "(\<Union>j \<in> J. set (iown s' j)) = (\<Union>j \<in> J. set (iown s j))"
    by (rule SUP_cong [OF refl]) (use same_inodeD(2) assms(5) in metis)
  moreover have "(\<Union>j \<in> I. set (iown s j)) = (\<Union>j \<in> J. set (iown s j)) \<union> (\<Union>j \<in> I - J. set (iown s j))" using assms(3) by blast
  ultimately have "unowned s' J = U" using assms(6) confD(3) [OF assms(1)] by (auto simp: unowned_def)
  moreover have "lc s' i = L i \<and> sfi_size (cur s' i) = fst (F i) \<and> ibytes s' i = snd (F i)" if "i \<in> J - {rooti}" for i
    using confD(4) [OF assms(1), of i] that assms(3,5) unfolding same_inode_def by force
  ultimately show ?thesis using b(1,2) confD(2) [OF assms(1)] by (simp add: conf_def)
qed

lemma conf_keep:
  assumes "conf s I m L F U" "fs_ok s' I" "\<forall>j \<in> I. same_inode s s' j" "used s' = used s"
  shows "conf s' I m L F U"
  using conf_same [OF assms(1,2) subset_refl _ assms(3)] baseD(2) [OF confD(1) [OF assms(1)]] assms(4) by simp

lemma conf_dev_moves:
  assumes "conf s I m L F U" "dev_moves s (disk s) s'"
  shows "conf s' I m L F U"
  using conf_keep [OF assms(1)] fs_dev_moves [OF conf_fs [OF assms(1)] assms(2)] by simp

lemma conf_vstep:
  assumes "conf s I m L F U" "sfs_pool s v = Some sv" "vstep v s s'" "base s' I" "names s' = m'"
    "\<And>i. i \<in> I \<Longrightarrow> i \<noteq> rooti \<Longrightarrow> i \<noteq> sv_ino sv \<Longrightarrow> F' i = F i"
    "sv_ino sv \<noteq> rooti \<Longrightarrow> F' (sv_ino sv) = (fsize s' v, fbytes s' v)"
  shows "conf s' I m' L F' U"
proof -
  note fs = conf_fs [OF assms(1)]
  note st = fs_vstep [OF fs assms(2,3)]
  have "unowned s' I = U" using vstep_unowned [OF fs assms(2,3)] confD(3) [OF assms(1)] by simp
  moreover have "sfi_size (cur s' i) = fst (F' i) \<and> ibytes s' i = snd (F' i)" if i: "i \<in> I" "i \<noteq> rooti" for i
  proof (cases "i = sv_ino sv")
    case True
    then show ?thesis using assms(7) i(2) st(4) by simp
  next
    case False
    note same = st(2) [OF i(1) False]
    show ?thesis
      using confD(4) [OF assms(1) i] assms(6) [OF i False] same_inodeD(3) [OF same] by (simp only: same_inodeD(1) [OF same])
  qed
  ultimately show ?thesis using assms(4,5) confD(4) [OF assms(1)] vstep_lc(2) [OF fs assms(2,3)] by (simp add: conf_def)
qed

lemma conf_file:
  assumes "conf s I m L F U" "sfs_pool s v = Some sv" "sv_ino sv \<noteq> rooti" "vstep v s s'"
  shows "conf s' I m L (F(sv_ino sv := (fsize s' v, fbytes s' v))) U"
proof -
  note fs = conf_fs [OF assms(1)] and b = confD(1) [OF assms(1)]
  note st = fs_vstep [OF fs assms(2,4)]
  have r: "rdents s' = rdents s \<and> names s' = names s \<and> root_ok s' = root_ok s"
    using same_names [OF st(2) [OF baseD(2) [OF b]]] assms(3) by auto
  then have "base s' I" using st(1) b vstep_lc(1) [OF fs assms(2,4)] by (auto simp: base_def)
  then show ?thesis using conf_vstep [OF assms(1,2,4)] r confD(2) [OF assms(1)] by simp
qed

lemma conf_dir:
  assumes "conf s I m L F U" "is_root s d" "vstep d s s'" "dir_ok s' d"
  shows "conf s' I (dir_map (dents s' d)) L F U"
proof -
  note fs = conf_fs [OF assms(1)] and b = confD(1) [OF assms(1)]
  obtain sv where sv: "sfs_pool s d = Some sv" "sv_ino sv = rooti" using assms(2) by (auto simp: is_root_def)
  note st = fs_vstep [OF fs sv(1) assms(3)]
  have d': "is_root s' d" using vstep_linos(2) [OF sv(1) assms(3)] assms(2) by simp
  note r = root_dents [OF fs_okD(2) [OF st(1)] d']
  have "lc s' rooti \<noteq> 0" using vstep_lc(2) [OF fs sv(1) assms(3) baseD(2) [OF b]] baseD(3) [OF b] by (simp add: root_ok_def)
  then have "root_ok s'" using assms(4) r by (simp add: root_ok_def dir_ok_def)
  then have "base s' I" using st(1) b vstep_lc(1) [OF fs sv(1) assms(3)] by (auto simp: base_def)
  then show ?thesis using conf_vstep [OF assms(1) sv(1) assms(3)] r(2) sv(2) by (simp add: names_def)
qed

subsection \<open>The steps of the operations\<close>

lemma conf_load: "conf s I m L F U \<Longrightarrow> load_result s I i r s' \<Longrightarrow> conf s' I m L F U"
  by (rule conf_keep [of s]) (simp_all add: load_result_def)

lemma conf_makeobj:
  assumes "conf s I m L F U" "b \<notin> used s" "used s' = insert b (used s)" "\<forall>j \<in> I. same_inode s s' j" "fs_ok s' (insert b I)"
    "cur s' b = fresh_inode SFS_TYPE_FILE" "b \<notin> I"
  shows "conf s' (insert b I) m (L(b := 0)) (F(b := (0, \<lambda>k. 0))) U"
proof -
  note b = confD(1) [OF assms(1)]
  have r: "rdents s' = rdents s \<and> names s' = names s \<and> root_ok s' = root_ok s" using same_names baseD(2) [OF b] assms(4) by blast
  have c: "cur s' j = cur s j" "ibytes s' j = ibytes s j" "iown s' j = iown s j" if "j \<in> I" for j
    using assms(4) that same_inodeD by blast+
  have bs: "base s' (insert b I)" using r c(1) b assms(5,6) by (auto simp: base_def)
  have "iown s' b = [b]" "ibytes s' b = (\<lambda>k. 0)" using assms(6) by simp_all
  moreover have "(\<Union>j \<in> I. set (iown s' j)) = (\<Union>j \<in> I. set (iown s j))"
    by (rule SUP_cong [OF refl]) (simp only: c(3))
  ultimately have "unowned s' (insert b I) = U" using confD(3) [OF assms(1)] assms(2,3) by (auto simp: unowned_def)
  moreover have "lc s' i = L i \<and> sfi_size (cur s' i) = fst (F i) \<and> ibytes s' i = snd (F i)" if "i \<in> I" "i \<noteq> rooti" for i
    using confD(4) [OF assms(1) that] unfolding c(2) [OF that(1)] by (simp only: c(1) [OF that(1)])
  ultimately show ?thesis
    using bs r confD(2) [OF assms(1)] assms(6,7) \<open>ibytes s' b = (\<lambda>k. 0)\<close> by (auto simp: conf_def)
qed

lemma conf_leak:
  assumes "conf s I m L F U" "b \<notin> used s" "used s' = insert b (used s)" "\<forall>j \<in> I. same_inode s s' j" "fs_ok s' I"
  shows "conf s' I m L F (insert b U)"
proof -
  note b = base_same [OF confD(1) [OF assms(1)] assms(5) subset_refl baseD(2) [OF confD(1) [OF assms(1)]] assms(4)]
  have e: "(\<Union>j \<in> I. set (iown s' j)) = (\<Union>j \<in> I. set (iown s j))"
    by (rule SUP_cong [OF refl]) (use same_inodeD(2) assms(4) in metis)
  have "b \<notin> (\<Union>j \<in> I. set (iown s j))" using inode_ok_used(5) [OF conf_fs [OF assms(1)]] assms(2) by blast
  then have "unowned s' I = insert b U" using confD(3) [OF assms(1)] assms(3) unfolding unowned_def e by blast
  moreover have "lc s' i = L i \<and> sfi_size (cur s' i) = fst (F i) \<and> ibytes s' i = snd (F i)" if "i \<in> I - {rooti}" for i
    using confD(4) [OF assms(1), of i] that assms(4) unfolding same_inode_def by force
  ultimately show ?thesis using b(1,2) confD(2) [OF assms(1)] by (simp add: conf_def)
qed

text \<open>Setting a link count.\<close>

lemma conf_links:
  assumes "conf s I m L F U" "sfs_pool s v = Some sv" "sv_ino sv \<noteq> rooti" "k < 2 ^ 16" "f (sv_i sv) = (sv_i sv)\<lparr>sfi_linkcount := k\<rparr>"
  shows "\<exists>s'. edit_inode v f s = Some s' \<and> conf s' I m (L(sv_ino sv := k)) F U
    \<and> sfs_pool s' = (sfs_pool s)(v \<mapsto> sv\<lparr>sv_i := (sv_i sv)\<lparr>sfi_linkcount := k\<rparr>, sv_dirty := True\<rparr>) \<and> rdents s' = rdents s"
proof -
  let ?sv = "sv\<lparr>sv_i := (sv_i sv)\<lparr>sfi_linkcount := k\<rparr>, sv_dirty := True\<rparr>" and ?i = "sv_ino sv"
  define s' where "s' = set_vnode v ?sv s"
  note fs = conf_fs [OF assms(1)] and b = confD(1) [OF assms(1)] and p = fs_okD(2) [OF conf_fs [OF assms(1)]]
  have wf: "inode_wf (sv_i sv)" using fs_ok_file [OF fs assms(2)] assms(2) by (simp add: file_ok_def)
  have "sv_ok s ?sv" using pool_okD(4) [OF p assms(2)] by (simp add: sv_ok_def)
  then have st: "fs_ok s' I" "\<And>j. j \<in> I \<Longrightarrow> j \<noteq> ?i \<Longrightarrow> same_inode s s' j" "cur s' ?i = (sv_i sv)\<lparr>sfi_linkcount := k\<rparr>"
    using fs_set_vnode [OF fs assms(2), of ?sv] wf assms(4) by (simp_all add: inode_wf_def s'_def)
  note c = cur_loaded [OF p assms(2)]
  have dk: "disk s' = disk s" "used s' = used s" by (simp_all add: s'_def set_vnode_def)
  have r: "rdents s' = rdents s \<and> names s' = names s \<and> root_ok s' = root_ok s"
    using same_names [OF st(2) [OF baseD(2) [OF b]]] assms(3) by auto
  have t: "sfi_type (cur s' j) = sfi_type (cur s j)" if "j \<in> I" for j
    using same_inodeD(1) [OF st(2) [OF that]] st(3) c by (cases "j = ?i") auto
  have e: "iown s' j = iown s j" "ibytes s' j = ibytes s j" if "j \<in> I" for j
    using same_inodeD(2,3) [OF st(2) [OF that]] st(3) c dk(1) by (cases "j = ?i"; auto)+
  have "(\<Union>j \<in> I. set (iown s' j)) = (\<Union>j \<in> I. set (iown s j))" by (rule SUP_cong [OF refl]) (simp only: e(1))
  then have "unowned s' I = U" using confD(3) [OF assms(1)] dk(2) by (simp add: unowned_def)
  moreover have "lc s' i = (L(?i := k)) i \<and> sfi_size (cur s' i) = fst (F i) \<and> ibytes s' i = snd (F i)" if i: "i \<in> I" "i \<noteq> rooti" for i
  proof -
    have "sfi_size (cur s' i) = sfi_size (cur s i)" "lc s' i = ((lc s)(?i := k)) i"
      using same_inodeD(1) [OF st(2) [OF i(1)]] st(3) c by (cases "i = ?i"; auto)+
    then show ?thesis using confD(4) [OF assms(1) i] e(2) [OF i(1)] by (simp only: fun_upd_def)
  qed
  moreover have "base s' I" using st(1) b r t by (auto simp: base_def)
  ultimately have "conf s' I m (L(?i := k)) F U" using r confD(2) [OF assms(1)] by (simp add: conf_def)
  moreover have "edit_inode v f s = Some s'" using assms(2,5) by (simp add: edit_inode_def s'_def)
  ultimately show ?thesis using r by (simp add: s'_def set_vnode_def)
qed

lemma conf_decref:
  assumes "conf s I m L F U" "sfs_pool s v = Some sv" "sv_ino sv \<noteq> rooti" "vn_opencount (sv_v sv) < vn_refcount (sv_v sv)"
  shows "\<exists>s'. VOP_DECREF v s = Some s' \<and> decref_result s I v s'
    \<and> conf s' (if vn_refcount (sv_v sv) = 1 \<and> sfi_linkcount (sv_i sv) = 0 then I - {sv_ino sv} else I) m L F U"
proof -
  note fs = conf_fs [OF assms(1)] and b = confD(1) [OF assms(1)]
  note c = cur_loaded [OF fs_okD(2) [OF fs] assms(2)] and iI = fs_okD(3) [OF fs assms(2)]
  have "sfi_type (sv_i sv) = SFS_TYPE_FILE" using baseD(4) [OF b iI assms(3)] c by simp
  then obtain s' where s': "VOP_DECREF v s = Some s'" "decref_result s I v s'"
    using VOP_DECREF_ok [OF fs assms(2,4)] by blast
  define J where "J = (if vn_refcount (sv_v sv) = 1 \<and> sfi_linkcount (sv_i sv) = 0 then I - {sv_ino sv} else I)"
  have d: "fs_ok s' J" "\<forall>j \<in> J. same_inode s s' j" "used s' = (if J = I then used s else used s - set (fown s v))"
    using s'(2) assms(2) iI by (auto simp: decref_result_def Let_def J_def)
  have "I - J = (if J = I then {} else {sv_ino sv})" using iI by (auto simp: J_def)
  then have "used s' = used s - (\<Union>j \<in> I - J. set (iown s j))" using d(3) c assms(2) by simp
  moreover have "J \<subseteq> I" "rooti \<in> J" using baseD(2) [OF b] assms(3) by (auto simp: J_def)
  ultimately have "conf s' J m L F U" using conf_same [OF assms(1) d(1) _ _ d(2)] by blast
  then show ?thesis using s' by (auto simp: J_def)
qed

subsection \<open>Counting links\<close>

lemma finite_links: "finite {n. dir_map ds n = Some i}" "nlinks (dir_map ds) i \<le> length ds"
proof -
  have sub: "{n. dir_map ds n = Some i} \<subseteq> name_of ` set ds"
  proof
    fix n assume "n \<in> {n. dir_map ds n = Some i}"
    then obtain k where "slot_of n ds = Some k" by (auto simp: dir_map_def)
    then have "k < length ds" "named n (ds ! k)" by (auto simp: slot_of_def find_Some_iff)
    then show "n \<in> name_of ` set ds" by (auto simp: named_def)
  qed
  then show "finite {n. dir_map ds n = Some i}" by (rule finite_subset) simp
  have "card (name_of ` set ds) \<le> length ds" by (meson card_image_le card_length finite_set le_trans)
  then show "nlinks (dir_map ds) i \<le> length ds" using card_mono [OF _ sub] by (simp add: nlinks_def)
qed

lemma nlinks_names:
  "nlinks (names s) i = 0 \<longleftrightarrow> i \<notin> ran (names s)" "root_ok s \<Longrightarrow> nlinks (names s) i \<le> 1144"
proof -
  show "nlinks (names s) i = 0 \<longleftrightarrow> i \<notin> ran (names s)"
    using finite_links(1) [of "rdents s" i] by (auto simp: nlinks_def names_def ran_def)
  have "length (rdents s) \<le> 1144" if "root_ok s" using that by (auto simp: root_ok_def rdents_def)
  then show "root_ok s \<Longrightarrow> nlinks (names s) i \<le> 1144"
    using finite_links(2) [of "rdents s" i] unfolding names_def by (meson le_trans)
qed

lemma nlinks_link:
  assumes "names s n = None"
  shows "nlinks ((names s)(n \<mapsto> i)) = (nlinks (names s))(i := Suc (nlinks (names s) i))"
proof
  fix j
  have "{n'. ((names s)(n \<mapsto> i)) n' = Some i} = insert n {n'. names s n' = Some i}"
    "j \<noteq> i \<Longrightarrow> {n'. ((names s)(n \<mapsto> i)) n' = Some j} = {n'. names s n' = Some j}" using assms by auto
  then show "nlinks ((names s)(n \<mapsto> i)) j = ((nlinks (names s))(i := Suc (nlinks (names s) i))) j"
    using finite_links(1) [of "rdents s" i] assms by (auto simp: nlinks_def names_def)
qed

lemma nlinks_unlink:
  assumes "names s n = Some i"
  shows "nlinks ((names s)(n := None)) = (nlinks (names s))(i := nlinks (names s) i - 1)"
proof
  fix j
  have "{n'. ((names s)(n := None)) n' = Some j} = {n'. names s n' = Some j} - {n}" by auto
  moreover have "n \<in> {n'. names s n' = Some j} \<longleftrightarrow> j = i" using assms by auto
  ultimately show "nlinks ((names s)(n := None)) j = ((nlinks (names s))(i := nlinks (names s) i - 1)) j"
    using finite_links(1) [of "rdents s" i] by (auto simp: nlinks_def names_def card_Diff_singleton_if)
qed

definition files :: "sfs_fs \<Rightarrow> nat \<Rightarrow> nat \<times> (nat \<Rightarrow> byte)" where
  "files s i = (sfi_size (cur s i), ibytes s i)"

lemma tree_conf: "tree_ok s \<Longrightarrow> conf s (inodes s) (names s) (nlinks (names s)) (files s) (unowned s (inodes s))"
  by (simp add: tree_ok_def conf_def files_def)

lemma conf_tree:
  assumes "conf s I m L F U" "inodes s = I" "rooti \<notin> ran m" "\<And>i. i \<in> I \<Longrightarrow> i \<noteq> rooti \<Longrightarrow> L i = nlinks m i"
  shows "tree_ok s" "i \<in> I \<Longrightarrow> i \<noteq> rooti \<Longrightarrow> files s i = F i" "names s = m" "unowned s (inodes s) = U"
  using assms confD(4) [OF assms(1), of i] by (auto simp: tree_ok_def conf_def files_def prod_eq_iff)

lemma tree_okD:
  assumes "tree_ok s"
  shows "base s (inodes s)" "names s n = Some i \<Longrightarrow> i \<in> inodes s \<and> i \<noteq> rooti \<and> lc s i = nlinks (names s) i \<and> lc s i \<noteq> 0"
proof -
  show "base s (inodes s)" using assms by (simp add: tree_ok_def)
  assume n: "names s n = Some i"
  then have i: "i \<in> ran (names s)" by (auto simp: ran_def)
  then have "i \<in> inodes s" "i \<noteq> rooti" using assms by (auto simp: tree_ok_def inodes_def)
  moreover then have "lc s i = nlinks (names s) i" using assms by (simp add: tree_ok_def)
  ultimately show "i \<in> inodes s \<and> i \<noteq> rooti \<and> lc s i = nlinks (names s) i \<and> lc s i \<noteq> 0"
    using nlinks_names(1) [of s i] i by simp
qed

subsection \<open>Loaded inodes\<close>

lemma linos_gained:
  assumes "gained_ref s v s'" "fino s' v = i"
  shows "linos s' = insert i (linos s)"
proof -
  have d: "dom (sfs_pool s') = insert v (dom (sfs_pool s))" using assms(1) unfolding gained_ref_def by (auto simp: dom_def)
  have f: "fino s' w = fino s w" if "w \<in> dom (sfs_pool s) - {v}" for w using assms(1) that by (simp add: gained_ref_def)
  have "sfs_pool s v \<noteq> None \<Longrightarrow> fino s v = i" using assms by (auto simp: gained_ref_def)
  then have "insert i (fino s ` dom (sfs_pool s)) = insert i (fino s ` (dom (sfs_pool s) - {v}))" by (auto simp: dom_def)
  also have "fino s ` (dom (sfs_pool s) - {v}) = fino s' ` (dom (sfs_pool s) - {v})" by (rule image_cong [OF refl]) (use f in simp)
  finally show ?thesis unfolding linos_def d using assms(2) by auto
qed

lemma linos_upd:
  assumes "sfs_pool s' = (sfs_pool s)(v \<mapsto> sv')" "sfs_pool s v = Some sv" "sv_ino sv' = sv_ino sv"
  shows "linos s' = linos s"
proof -
  have "dom (sfs_pool s') = dom (sfs_pool s)" "\<And>w. fino s' w = fino s w" using assms by (auto simp: dom_def)
  then show ?thesis by (simp add: linos_def)
qed

lemma linos_decref:
  assumes "fs_ok s I" "sfs_pool s v = Some sv" "decref_result s I v s'"
  shows "linos s' = (if vn_refcount (sv_v sv) = 1 then linos s - {sv_ino sv} else linos s)"
proof (cases "vn_refcount (sv_v sv) = 1")
  case True
  then have p: "sfs_pool s' = (sfs_pool s)(v := None)" using assms(2,3) by (simp add: decref_result_def Let_def)
  have "fino s' ` (dom (sfs_pool s) - {v}) = fino s ` (dom (sfs_pool s) - {v})" by (rule image_cong [OF refl]) (use p in auto)
  moreover have "dom (sfs_pool s') = dom (sfs_pool s) - {v}" using p by auto
  moreover have "fino s ` (dom (sfs_pool s) - {v}) = fino s ` dom (sfs_pool s) - {fino s v}"
    using pool_okD(5) [OF fs_okD(2) [OF assms(1)]] assms(2) by (auto simp: dom_def)
  ultimately show ?thesis using True assms(2) by (simp add: linos_def)
next
  case False
  then show ?thesis using assms(2,3) linos_upd [of s' s v] by (simp add: decref_result_def Let_def)
qed

text \<open>The reference and open counts of the vnodes.\<close>

definition cnt :: "sfs_fs \<Rightarrow> nat \<Rightarrow> int \<times> int" where
  "cnt s v = (case sfs_pool s v of None \<Rightarrow> (0, 0) | Some sv \<Rightarrow> (vn_refcount (sv_v sv), vn_opencount (sv_v sv)))"

definition add_ref :: "nat \<Rightarrow> int \<Rightarrow> (nat \<Rightarrow> int \<times> int) \<Rightarrow> nat \<Rightarrow> int \<times> int" where
  "add_ref v n c = c(v := (fst (c v) + n, snd (c v)))"

lemma cnt_gained: "gained_ref s v s' \<Longrightarrow> cnt s' = add_ref v 1 (cnt s)"
  by (auto simp: gained_ref_def cnt_def add_ref_def fun_eq_iff split: option.splits)

lemma cnt_vstep:
  assumes "sfs_pool s v = Some sv" "vstep v s s'"
  shows "cnt s' = cnt s"
proof
  note f = vstep_fields [OF assms(2)]
  obtain sv' where sv': "sfs_pool s' v = Some sv'" "same_vnode sv sv'" using f(8) assms by (auto simp: vstep_def)
  then show "cnt s' w = cnt s w" for w using f(7) [of w] assms(1) by (cases "w = v") (simp_all add: cnt_def same_vnode_def)
qed

lemma cnt_decref:
  assumes "fs_ok s I" "sfs_pool s v = Some sv" "vn_opencount (sv_v sv) < vn_refcount (sv_v sv)" "decref_result s I v s'"
  shows "cnt s' = add_ref v (- 1) (cnt s)"
proof
  have "0 \<le> vn_opencount (sv_v sv)" using pool_okD(4) [OF fs_okD(2) [OF assms(1)] assms(2)] by (simp add: sv_ok_def vnode_ok_def)
  then show "cnt s' w = add_ref v (- 1) (cnt s) w" for w
    using assms(2-4) by (auto simp: decref_result_def Let_def cnt_def add_ref_def)
qed

lemma cnt_upd: "sfs_pool s' = (sfs_pool s)(v \<mapsto> sv') \<Longrightarrow> sfs_pool s v = Some sv \<Longrightarrow> sv_v sv' = sv_v sv \<Longrightarrow> cnt s' = cnt s"
  by (auto simp: cnt_def fun_eq_iff)

lemma add_ref_cancel [simp]: "add_ref v (- 1) (add_ref v 1 c) = c"
  by (simp add: add_ref_def fun_eq_iff)

subsection \<open>Lookup\<close>

abbreviation unchanged :: "sfs_fs \<Rightarrow> sfs_fs \<Rightarrow> bool" where
  "unchanged s s' \<equiv> conf s' (inodes s) (names s) (nlinks (names s)) (files s) (unowned s (inodes s))"

lemma findname_root:
  assumes "tree_ok s" "is_root s d"
  shows "\<exists>e s1. sfs_dir_findname d name s = Some (Ok (map_option (slot_ino (rdents s)) (slot_of name (rdents s)), e), s1)
    \<and> dev_moves s (disk s) s1 \<and> unchanged s s1 \<and> sfs_pool s1 = sfs_pool s \<and> sfs_vnodes s1 = sfs_vnodes s \<and> rdents s1 = rdents s"
proof -
  note c = tree_conf [OF assms(1)]
  note b = base_dir [OF confD(1) [OF c] assms(2)]
  obtain e s1 where s1: "sfs_dir_findname d name s = Some (Ok (map_option (slot_ino (rdents s)) (slot_of name (rdents s)), e), s1)"
    "dev_moves s (disk s) s1" using sfs_dir_findname_ok [OF b(1,2), of name] b(3) by auto
  note m = fs_dev_moves [OF conf_fs [OF c] s1(2)]
  show ?thesis using s1 conf_dev_moves [OF c s1(2)] m(3,4) same_names [OF m(2)] by blast
qed

lemma names_slot: "names s n = map_option (\<lambda>k. sfd_ino (rdents s ! k)) (slot_of n (rdents s))"
  by (simp add: names_def dir_map_def)

lemma gained_refD:
  assumes "gained_ref s v s'"
  shows "w \<noteq> v \<Longrightarrow> sfs_pool s' w = sfs_pool s w"
    "\<exists>sv. sfs_pool s' v = Some sv \<and> vn_opencount (sv_v sv) < vn_refcount (sv_v sv)"
  using assms by (auto simp: gained_ref_def)

lemma gained_root:
  assumes "gained_ref s v s'" "fino s' v \<noteq> rooti" "is_root s d"
  shows "is_root s' d" "d \<noteq> v" "sfs_pool s' d = sfs_pool s d"
proof -
  show "d \<noteq> v"
  proof
    assume "d = v"
    then show False using assms by (auto simp: gained_ref_def is_root_def)
  qed
  then show "sfs_pool s' d = sfs_pool s d" using assms(1) by (simp add: gained_ref_def)
  then show "is_root s' d" using assms(3) by (simp add: is_root_def)
qed

lemma sfs_lookonce_ok:
  assumes "tree_ok s" "roomy s" "is_root s d" "sfs_pool s new = None"
  shows "\<exists>r s'. sfs_lookonce mem new d name s = Some (r, s') \<and> unchanged s s' \<and> rdents s' = rdents s \<and> nfree s' = nfree s
    \<and> (r = Err ENOENT \<and> names s name = None \<and> sfs_pool s' = sfs_pool s
       \<or> r = Err ENOMEM \<and> names s name \<noteq> None \<and> sfs_pool s' = sfs_pool s
       \<or> (\<exists>w slot. r = Ok (w, slot) \<and> slot_of name (rdents s) = Some slot \<and> names s name = Some (fino s' w) \<and> gained_ref s w s'))"
proof -
  obtain e s1 where s1: "sfs_dir_findname d name s = Some (Ok (map_option (slot_ino (rdents s)) (slot_of name (rdents s)), e), s1)"
    "unchanged s s1" "sfs_pool s1 = sfs_pool s" "sfs_vnodes s1 = sfs_vnodes s" "rdents s1 = rdents s" "dev_moves s (disk s) s1"
    using findname_root [OF assms(1,3), of name] by (elim exE conjE) (rule that)
  have nf: "nfree s1 = nfree s" using dev_moves_fields [OF s1(6)] by (simp add: nfree_def)
  show ?thesis
  proof (cases "slot_of name (rdents s)")
    case None
    then have "sfs_lookonce mem new d name s = Some (Err ENOENT, s1)" using s1(1) by (simp add: sfs_lookonce_def)
    then show ?thesis using None s1(2,3,5) nf names_slot [of s name] by simp
  next
    case (Some k)
    define i where "i = sfd_ino (rdents s ! k)"
    have n: "names s name = Some i" using Some by (simp add: names_slot i_def)
    note i = tree_okD(2) [OF assms(1) n]
    have "roomy s1" "sfs_pool s1 new = None" using assms(2,4) s1(3,4) by (simp_all add: roomy_def)
    then obtain r s' where r: "sfs_loadvnode mem new i SFS_TYPE_INVAL s1 = Some (r, s')" "load_result s1 (inodes s) i r s'"
      using sfs_loadvnode_ok [OF conf_fs [OF s1(2)]] i by blast
    note c = conf_load [OF s1(2) r(2)]
    have rd: "rdents s' = rdents s"
      using same_names [of s1 s'] r(2) baseD(2) [OF confD(1) [OF c]] s1(5) by (auto simp: load_result_def)
    have nf': "nfree s' = nfree s" using r(2) nf by (simp add: load_result_def nfree_def)
    show ?thesis
    proof (cases r)
      case (Inl e)
      then have "sfs_lookonce mem new d name s = Some (Err ENOMEM, s')" "sfs_pool s' = sfs_pool s"
        using s1(1,3) Some r by (auto simp: sfs_lookonce_def slot_ino_def i_def load_result_def)
      then show ?thesis using c rd n nf' by simp
    next
      case (Inr w)
      then have g: "gained_ref s1 w s'" "fino s' w = i" using r(2) by (simp_all add: load_result_def)
      obtain sv where sv: "sfs_pool s' w = Some sv" "sv_ino sv = i" using g by (auto simp: gained_ref_def)
      have "lc s' i = nlinks (names s) i" using confD(4) [OF c] i by blast
      then have "sfi_linkcount (sv_i sv) \<noteq> 0" using i cur_loaded [OF fs_okD(2) [OF conf_fs [OF c]] sv(1)] sv(2) by simp
      then have "sfs_lookonce mem new d name s = Some (Ok (w, k), s')"
        using s1(1) Some r(1) Inr sv(1) by (simp add: sfs_lookonce_def slot_ino_def i_def)
      moreover have "gained_ref s w s'" using g(1) s1(3) by (simp add: gained_ref_def)
      ultimately show ?thesis using c rd n Some g(2) nf' by blast
    qed
  qed
qed

lemma unchanged_inodes:
  assumes "unchanged s s'" "linos s' = linos s \<or> (\<exists>n i. names s n = Some i \<and> linos s' = insert i (linos s))"
  shows "inodes s' = inodes s"
  using assms confD(2) [OF assms(1)] by (auto simp: inodes_def ran_def)

lemma unchanged_tree:
  assumes "tree_ok s" "unchanged s s'" "linos s' = linos s \<or> (\<exists>n i. names s n = Some i \<and> linos s' = insert i (linos s))"
  shows "tree_ok s'" "names s' = names s" "i \<in> inodes s \<Longrightarrow> i \<noteq> rooti \<Longrightarrow> files s' i = files s i" "inodes s' = inodes s"
    "unowned s' (inodes s') = unowned s (inodes s)"
proof -
  have "rooti \<notin> ran (names s)" using assms(1) by (simp add: tree_ok_def)
  note t = conf_tree [OF assms(2) unchanged_inodes [OF assms(2,3)] this refl]
  show "tree_ok s'" "names s' = names s" "i \<in> inodes s \<Longrightarrow> i \<noteq> rooti \<Longrightarrow> files s' i = files s i" "inodes s' = inodes s"
    "unowned s' (inodes s') = unowned s (inodes s)"
    using t unchanged_inodes [OF assms(2,3)] by simp_all
qed

lemma sfs_lookup_ok:
  assumes "tree_ok s" "roomy s" "is_root s d" "sfs_pool s new = None"
  shows "\<exists>r s'. sfs_lookup mem new d name s = Some (r, s') \<and> unchanged s s'
    \<and> (r = Err ENOENT \<and> names s name = None \<and> linos s' = linos s
       \<or> r = Err ENOMEM \<and> names s name \<noteq> None \<and> linos s' = linos s
       \<or> (\<exists>w. r = Ok w \<and> names s name = Some (fino s' w) \<and> gained_ref s w s' \<and> linos s' = insert (fino s' w) (linos s)))"
proof -
  obtain sv where sv: "sfs_pool s d = Some sv" using assms(3) by (auto simp: is_root_def)
  have t: "sfi_type (sv_i sv) = SFS_TYPE_DIR"
    using base_dir(2) [OF tree_okD(1) [OF assms(1)] assms(3)] sv by (simp add: dir_ok_def)
  obtain r s' where r: "sfs_lookonce mem new d name s = Some (r, s')" "unchanged s s'"
    "r = Err ENOENT \<and> names s name = None \<and> sfs_pool s' = sfs_pool s
       \<or> r = Err ENOMEM \<and> names s name \<noteq> None \<and> sfs_pool s' = sfs_pool s
       \<or> (\<exists>w slot. r = Ok (w, slot) \<and> slot_of name (rdents s) = Some slot \<and> names s name = Some (fino s' w) \<and> gained_ref s w s')"
    using sfs_lookonce_ok [OF assms, of mem name] by (elim exE conjE) (rule that)
  have l: "sfs_pool s' = sfs_pool s \<Longrightarrow> linos s' = linos s" by (simp add: linos_def)
  show ?thesis using r(3)
  proof (elim disjE exE conjE)
    fix w slot
    assume w: "r = Ok (w, slot)" "names s name = Some (fino s' w)" "gained_ref s w s'"
    then show ?thesis using r(1,2) sv t linos_gained [OF w(3)] by (simp add: sfs_lookup_def)
  qed (use r(1,2) sv t l in \<open>simp_all add: sfs_lookup_def\<close>)
qed

subsection \<open>Creation\<close>

lemma link_conf:
  assumes "conf s I m L F U" "is_root s d" "0 \<notin> set name" "i \<in> I"
  shows "\<exists>r s'. sfs_dir_link d name i s = Some (r, s') \<and> vstep d s s'
    \<and> ((\<exists>e. r = Err e \<and> conf s' I m L F U \<and>
          (e = EEXIST \<and> m name \<noteq> None \<or> m name = None \<and>
            (e = ENAMETOOLONG \<and> 60 \<le> length name \<or> e = ENOSPC \<and> nfree s < 145 \<or> e = EINVAL \<and> length (rdents s) = 1144)))
       \<or> (\<exists>slot. r = Ok slot \<and> m name = None \<and> conf s' I (m(name \<mapsto> i)) L F U \<and> slot \<le> length (rdents s)
          \<and> rdents s' = store_slot slot \<lparr>sfd_ino = i, sfd_name = name @ replicate (60 - length name) 0\<rparr> (rdents s)
          \<and> (slot < length (rdents s) \<longrightarrow> \<not> live (rdents s ! slot))))"
proof -
  note b = base_dir [OF confD(1) [OF assms(1)] assms(2)] and fs = conf_fs [OF assms(1)]
  have "i \<noteq> 0" "i < 2 ^ 32" using inode_ok_used(2,3) [OF fs assms(4)] nblk_less(2) [OF b(1)] by simp_all
  then obtain r s' where r: "sfs_dir_link d name i s = Some (r, s')" "link_result d name i s r s'"
    using sfs_dir_link_result [OF b(1,2) assms(3)] by blast
  have v: "vstep d s s'" "dir_ok s' d" using r(2) by (simp_all add: link_result_def)
  note c = conf_dir [OF assms(1,2) v]
  obtain sv where sv: "sfs_pool s d = Some sv" using assms(2) by (auto simp: is_root_def)
  have d': "is_root s' d" using vstep_linos(2) [OF sv v(1)] assms(2) by simp
  have rd: "rdents s' = dents s' d" using root_dents(2) [OF fs_okD(2) [OF conf_fs [OF c]] d'] .
  have m: "dir_map (dents s d) = m" using confD(2) [OF assms(1)] b(3) by (simp add: names_def)
  show ?thesis
  proof (cases r)
    case (Inl e)
    have "full s' \<Longrightarrow> nfree s < 145"
      using vstep_not_full [OF b(1) _ v(1)] b(2) unfolding nfree_def dir_ok_def by (meson not_le)
    then have "dents s' d = dents s d" "e = EEXIST \<and> m name \<noteq> None \<or> m name = None \<and>
        (e = ENAMETOOLONG \<and> 60 \<le> length name \<or> e = ENOSPC \<and> nfree s < 145 \<or> e = EINVAL \<and> length (rdents s) = 1144)"
      using r(2) b(3) Inl unfolding link_result_def m [symmetric] by auto
    then show ?thesis using r(1) v(1) c m Inl by auto
  next
    case (Inr slot)
    then have "m name = None" "dir_map (dents s' d) = m(name \<mapsto> i)" "slot \<le> length (rdents s)"
      "dents s' d = store_slot slot \<lparr>sfd_ino = i, sfd_name = name @ replicate (60 - length name) 0\<rparr> (rdents s)"
      "slot < length (rdents s) \<longrightarrow> \<not> live (rdents s ! slot)"
      using r(2) b(3) by (auto simp: link_result_def m [symmetric])
    then show ?thesis using r(1) v(1) c Inr rd by auto
  qed
qed

definition creat_result :: "sfs_fs \<Rightarrow> byte list \<Rightarrow> bool \<Rightarrow> nat res \<Rightarrow> sfs_fs \<Rightarrow> bool" where
  "creat_result s name excl r s' \<longleftrightarrow> tree_ok s' \<and> (\<forall>i \<in> inodes s - {rooti}. files s' i = files s i) \<and>
     (case r of
        Inr v \<Rightarrow> cnt s' = add_ref v 1 (cnt s) \<and>
          (if names s name = None
           then names s' = (names s)(name \<mapsto> fino s' v) \<and> fino s' v \<notin> inodes s \<and> inodes s' = insert (fino s' v) (inodes s)
             \<and> files s' (fino s' v) = (0, \<lambda>k. 0) \<and> unowned s' (inodes s') = unowned s (inodes s)
           else \<not> excl \<and> names s name = Some (fino s' v) \<and> names s' = names s \<and> inodes s' = inodes s
             \<and> unowned s' (inodes s') = unowned s (inodes s))
      | Inl e \<Rightarrow> names s' = names s \<and> inodes s' = inodes s \<and> cnt s' = cnt s \<and>
          (e = EEXIST \<and> names s name \<noteq> None \<and> excl
           \<or> e = ENOMEM \<and> (names s name \<noteq> None \<longrightarrow> \<not> excl)
           \<or> names s name = None \<and> (e = ENAMETOOLONG \<and> 60 \<le> length name \<or> e = ENOSPC \<and> nfree s < 146 \<or> e = EINVAL \<and> length (rdents s) = 1144)) \<and>
          (if e = ENOMEM \<and> names s name = None
           then \<exists>b. b \<notin> used s \<and> unowned s' (inodes s') = insert b (unowned s (inodes s))
           else unowned s' (inodes s') = unowned s (inodes s)))"

lemma creat_link:
  assumes t: "tree_ok s" and d: "is_root s2 d" and n: "0 \<notin> set name" "names s name = None"
    and c: "conf s2 (insert b (inodes s)) (names s) ((nlinks (names s))(b := 0)) ((files s)(b := (0, \<lambda>k. 0))) (unowned s (inodes s))"
    and b: "b \<notin> inodes s" "rdents s2 = rdents s" "nfree s < Suc (Suc (nfree s2))"
    and g: "gained_ref s new s2" "fino s2 new = b" "sfs_pool s new = None"
  shows "\<exists>r s'. creat_name d name new s2 = Some (r, s') \<and> creat_result s name excl r s'"
proof -
  let ?I = "inodes s" and ?m = "names s" and ?L = "nlinks (names s)" and ?F = "files s" and ?U = "unowned s (inodes s)"
  have rt: "rooti \<in> ?I" "b \<noteq> rooti" using b(1) by (auto simp: inodes_def)
  have rn: "rooti \<notin> ran ?m" "b \<notin> ran ?m" using t b(1) by (auto simp: tree_ok_def inodes_def)
  obtain sv where sv: "sfs_pool s2 new = Some sv" "sv_ino sv = b" "vn_refcount (sv_v sv) = 1" "vn_opencount (sv_v sv) < 1"
    using g by (auto simp: gained_ref_def)
  have l2: "linos s2 = insert b (linos s)" using linos_gained [OF g(1,2)] .
  have dn: "d \<noteq> new" using g d rt(2) by (auto simp: is_root_def)
  obtain dv where dv: "sfs_pool s2 d = Some dv" using d by (auto simp: is_root_def)
  obtain r s3 where r: "sfs_dir_link d name b s2 = Some (r, s3)" "vstep d s2 s3"
    "(\<exists>e. r = Err e \<and> conf s3 (insert b ?I) ?m (?L(b := 0)) (?F(b := (0, \<lambda>k. 0))) ?U \<and>
        (e = ENAMETOOLONG \<and> 60 \<le> length name \<or> e = ENOSPC \<and> nfree s < 146 \<or> e = EINVAL \<and> length (rdents s) = 1144))
     \<or> (\<exists>slot. r = Ok slot \<and> conf s3 (insert b ?I) (?m(name \<mapsto> b)) (?L(b := 0)) (?F(b := (0, \<lambda>k. 0))) ?U)"
    using link_conf [OF c d n(1), of b] b(2,3) n(2) by auto
  note v3 = vstep_linos [OF dv r(2)] and f3 = vstep_fields(7) [OF r(2)]
  have p3: "sfs_pool s3 new = Some sv" using f3 [of new] dn sv(1) by simp
  have lc0: "sfi_linkcount (sv_i sv) = 0" if "conf s3 (insert b ?I) m (?L(b := 0)) F U" for m F U
    using confD(4) [OF that, of b] rt(2) cur_loaded [OF fs_okD(2) [OF conf_fs [OF that]] p3] sv(2) by simp
  show ?thesis
  proof (rule disjE [OF r(3)]; elim exE conjE)
    fix e
    assume e: "r = Err e" "conf s3 (insert b ?I) ?m (?L(b := 0)) (?F(b := (0, \<lambda>k. 0))) ?U"
      "e = ENAMETOOLONG \<and> 60 \<le> length name \<or> e = ENOSPC \<and> nfree s < 146 \<or> e = EINVAL \<and> length (rdents s) = 1144"
    have bI: "insert b ?I - {b} = ?I" using b(1) by simp
    obtain s' where s': "VOP_DECREF new s3 = Some s'" "decref_result s3 (insert b ?I) new s'"
      "conf s' ?I ?m (?L(b := 0)) (?F(b := (0, \<lambda>k. 0))) ?U"
      using conf_decref [OF e(2) p3] sv(2-4) rt(2) lc0 [OF e(2)] bI by auto
    have "linos s' = insert b (linos s) - {b}" using linos_decref [OF conf_fs [OF e(2)] p3 s'(2)] sv(2,3) v3(1) l2 by simp
    then have l: "linos s' = linos s" using b(1) by (auto simp: inodes_def)
    then have I: "inodes s' = ?I" using confD(2) [OF s'(3)] by (simp add: inodes_def)
    have "(?L(b := 0)) i = ?L i" if "i \<in> ?I" for i using that b(1) by auto
    note t' = conf_tree [OF s'(3) I rn(1) this]
    have "\<forall>i \<in> ?I - {rooti}. files s' i = files s i" using t'(2) b(1) by auto
    moreover have "cnt s' = cnt s"
      using cnt_decref [OF conf_fs [OF e(2)] p3 _ s'(2)] cnt_vstep [OF dv r(2)] cnt_gained [OF g(1)] sv(3,4) by simp
    ultimately have "creat_result s name excl (Err e) s'" using t'(1,3,4) e(3) I n(2) by (auto simp: creat_result_def)
    then show ?thesis using s'(1) sv(1,2) r(1) e(1) by (simp add: creat_name_def)
  next
    fix slot
    assume s: "r = Ok slot" "conf s3 (insert b ?I) (?m(name \<mapsto> b)) (?L(b := 0)) (?F(b := (0, \<lambda>k. 0))) ?U"
    have "sfi_linkcount (sv_i sv) = 0" using lc0 [OF s(2)] .
    then obtain s' where s': "edit_inode new (\<lambda>n. n\<lparr>sfi_linkcount := (sfi_linkcount n + 1) mod 2 ^ 16\<rparr>) s3 = Some s'"
      "conf s' (insert b ?I) (?m(name \<mapsto> b)) (?L(b := 0, b := 1)) (?F(b := (0, \<lambda>k. 0))) ?U"
      "sfs_pool s' = (sfs_pool s3)(new \<mapsto> sv\<lparr>sv_i := (sv_i sv)\<lparr>sfi_linkcount := 1\<rparr>, sv_dirty := True\<rparr>)"
      using conf_links [OF s(2) p3, of 1 "\<lambda>n. n\<lparr>sfi_linkcount := (sfi_linkcount n + 1) mod 2 ^ 16\<rparr>"] sv(2) rt(2) by auto
    have "?L b = 0" using nlinks_names(1) rn(2) by simp
    then have L: "nlinks (?m(name \<mapsto> b)) = ?L(b := 1)" using nlinks_link [OF n(2), of b] by simp
    have "linos s' = insert b (linos s)" using linos_upd [OF s'(3) p3] v3(1) l2 by simp
    moreover have "ran (?m(name \<mapsto> b)) = insert b (ran ?m)" using n(2) by simp
    ultimately have I: "inodes s' = insert b ?I" using confD(2) [OF s'(2)] by (auto simp: inodes_def)
    have "rooti \<notin> ran (?m(name \<mapsto> b))" using rn(1) rt(2) n(2) by simp
    note t' = conf_tree [OF s'(2) I this]
    have "cnt s' = add_ref new 1 (cnt s)"
      using cnt_upd [OF s'(3) p3] cnt_vstep [OF dv r(2)] cnt_gained [OF g(1)] by simp
    moreover have "fino s' new = b" using s'(3) sv(2) by simp
    ultimately have "creat_result s name excl (Ok new) s'"
      using t' L I b(1) n(2) rt(2) by (auto simp: creat_result_def)
    then show ?thesis using s'(1) sv(1,2) r(1) s(1) by (simp add: creat_name_def)
  qed
qed

lemma creat_unchanged:
  assumes "tree_ok s" "unchanged s s'" "sfs_pool s' = sfs_pool s"
  shows "tree_ok s'" "\<forall>i \<in> inodes s - {rooti}. files s' i = files s i" "names s' = names s" "inodes s' = inodes s" "cnt s' = cnt s"
    "unowned s' (inodes s') = unowned s (inodes s)"
proof -
  have "linos s' = linos s" "cnt s' = cnt s" using assms(3) by (simp_all only: linos_def cnt_def [abs_def])
  then show "tree_ok s'" "\<forall>i \<in> inodes s - {rooti}. files s' i = files s i" "names s' = names s" "inodes s' = inodes s" "cnt s' = cnt s"
    "unowned s' (inodes s') = unowned s (inodes s)"
    using unchanged_tree [OF assms(1,2)] by simp_all
qed

lemma creat_leak:
  assumes "tree_ok s" "conf s' (inodes s) (names s) (nlinks (names s)) (files s) (insert b (unowned s (inodes s)))"
    "sfs_pool s' = sfs_pool s" "b \<notin> used s" "names s name = None"
  shows "creat_result s name excl (Err ENOMEM) s'"
proof -
  have "linos s' = linos s" "cnt s' = cnt s" using assms(3) by (simp_all only: linos_def cnt_def [abs_def])
  moreover have "inodes s' = inodes s" using confD(2) [OF assms(2)] calculation by (simp add: inodes_def)
  moreover have "rooti \<notin> ran (names s)" using assms(1) by (simp add: tree_ok_def)
  ultimately show ?thesis using conf_tree [OF assms(2)] assms(4,5) by (auto simp: creat_result_def)
qed

lemma creat_load:
  assumes "tree_ok s" "unchanged s s'" "names s name = Some (fino s' v)" "gained_ref s v s'" "\<not> excl"
  shows "creat_result s name excl (Ok v) s'"
proof -
  have "\<exists>n i. names s n = Some i \<and> linos s' = insert i (linos s)" using linos_gained [OF assms(4) refl] assms(3) by blast
  then show ?thesis using unchanged_tree [OF assms(1,2)] cnt_gained [OF assms(4)] assms(3,5) by (simp add: creat_result_def)
qed

lemma sfs_creat_ok:
  assumes "tree_ok s" "roomy s" "is_root s d" "sfs_pool s new = None" "0 \<notin> set name"
  shows "\<exists>r s'. sfs_creat mem new d name excl s = Some (r, s') \<and> creat_result s name excl r s'"
proof -
  obtain e s1 where s1: "sfs_dir_findname d name s = Some (Ok (map_option (slot_ino (rdents s)) (slot_of name (rdents s)), e), s1)"
    "unchanged s s1" "sfs_pool s1 = sfs_pool s" "sfs_vnodes s1 = sfs_vnodes s" "dev_moves s (disk s) s1" "rdents s1 = rdents s"
    using findname_root [OF assms(1,3), of name] by (elim exE conjE) (rule that)
  have r1: "roomy s1" "sfs_pool s1 new = None" using assms(2,4) s1(3,4) by (simp_all add: roomy_def)
  have u1: "used s1 = used s" "sfs_super s1 = sfs_super s" using dev_moves_fields [OF s1(5)] by simp_all
  show ?thesis
  proof (cases "slot_of name (rdents s)")
    case (Some k)
    define i where "i = sfd_ino (rdents s ! k)"
    have n: "names s name = Some i" using Some by (simp add: names_slot i_def)
    show ?thesis
    proof (cases excl)
      case True
      then have "sfs_creat mem new d name excl s = Some (Err EEXIST, s1)" using s1(1) Some by (simp add: sfs_creat_def slot_ino_def)
      moreover have "creat_result s name excl (Err EEXIST) s1"
        using creat_unchanged [OF assms(1) s1(2,3)] n True by (simp add: creat_result_def)
      ultimately show ?thesis by blast
    next
      case False
      obtain r s' where r: "sfs_loadvnode mem new i SFS_TYPE_INVAL s1 = Some (r, s')" "load_result s1 (inodes s) i r s'"
        using sfs_loadvnode_ok [OF conf_fs [OF s1(2)] r1(1) _ r1(2)] tree_okD(2) [OF assms(1) n] by blast
      have "sfs_creat mem new d name excl s = Some (r, s')" using s1(1) Some r(1) False by (simp add: sfs_creat_def slot_ino_def i_def)
      moreover have "creat_result s name excl r s'"
      proof (cases r)
        case (Inl e)
        then have "e = ENOMEM" "sfs_pool s' = sfs_pool s" using r(2) s1(3) by (simp_all add: load_result_def)
        then show ?thesis
          using creat_unchanged [OF assms(1) conf_load [OF s1(2) r(2)]] Inl False n by (simp add: creat_result_def)
      next
        case (Inr v)
        then have "gained_ref s v s'" "fino s' v = i" using r(2) s1(3) by (simp_all add: load_result_def gained_ref_def)
        then show ?thesis using creat_load [OF assms(1) conf_load [OF s1(2) r(2)], of name v] n Inr False by simp
      qed
      ultimately show ?thesis by blast
    qed
  next
    case None
    then have n: "names s name = None" by (simp add: names_slot)
    obtain r s2 where r: "sfs_makeobj mem new SFS_TYPE_FILE s1 = Some (r, s2)" "makeobj_result s1 (inodes s) new SFS_TYPE_FILE r s2"
      using sfs_makeobj_ok [OF conf_fs [OF s1(2)] r1, of SFS_TYPE_FILE] by blast
    have eq: "sfs_creat mem new d name excl s = (case r of Inl e \<Rightarrow> Some (Err e, s2) | Inr v \<Rightarrow> creat_name d name v s2)"
      using s1(1) None r(1) by (simp add: sfs_creat_def split: sum.split)
    have same: "\<forall>j \<in> inodes s. same_inode s1 s2 j" using r(2) by (simp add: makeobj_result_def)
    from r(2) consider "r = Err ENOSPC" "s2 = s1" "full s1"
      | b where "b \<notin> used s1" "used s2 = insert b (used s1)" "r = Err ENOMEM" "fs_ok s2 (inodes s)" "sfs_pool s2 = sfs_pool s1"
      | b where "b \<notin> used s1" "used s2 = insert b (used s1)" "r = Ok new" "b \<notin> inodes s" "fs_ok s2 (insert b (inodes s))"
          "gained_ref s1 new s2" "fino s2 new = b" "cur s2 b = fresh_inode SFS_TYPE_FILE"
      unfolding makeobj_result_def by (elim conjE disjE exE; blast)
    then show ?thesis
    proof cases
      case 1
      moreover have "nfree s < 146" using 1(3) u1 by (simp add: nfree_def Diff_eq_empty_iff [THEN iffD2])
      ultimately have "creat_result s name excl (Err ENOSPC) s2"
        using creat_unchanged [OF assms(1) s1(2,3)] n by (simp add: creat_result_def)
      then show ?thesis using eq 1 by simp
    next
      case (2 b)
      have "creat_result s name excl (Err ENOMEM) s2"
        using creat_leak [OF assms(1) conf_leak [OF s1(2) 2(1,2) same 2(4)]] 2(1,5) s1(3) u1 n by simp
      then show ?thesis using eq 2(3) by simp
    next
      case (3 b)
      note c = conf_makeobj [OF s1(2) 3(1,2) same 3(5,8,4)]
      have g: "gained_ref s new s2" using 3(6) s1(3) by (simp add: gained_ref_def)
      have "b \<noteq> rooti" using 3(4) by (auto simp: inodes_def)
      then have d: "is_root s2 d" using gained_root(1) [OF g _ assms(3)] 3(7) by simp
      have "rdents s2 = rdents s" using same_names [of s1 s2] same s1(6) by (simp add: inodes_def)
      moreover have "nfree s < Suc (Suc (nfree s2))"
      proof -
        have "sfs_super s2 = sfs_super s1" using r(2) by (simp add: makeobj_result_def)
        then have "{..<nblk s} - used s \<subseteq> insert b ({..<nblk s2} - used s2)" using u1 3(2) by auto
        then have "nfree s \<le> card (insert b ({..<nblk s2} - used s2))" unfolding nfree_def by (intro card_mono) simp_all
        also have "\<dots> \<le> Suc (nfree s2)" by (simp add: nfree_def card_insert_if)
        finally show ?thesis by simp
      qed
      ultimately show ?thesis using creat_link [OF assms(1) d assms(5) n c 3(4) _ _ g 3(7) assms(4)] eq 3(3) by simp
    qed
  qed
qed

subsection \<open>Links, removal and renaming\<close>

definition link_spec :: "sfs_fs \<Rightarrow> byte list \<Rightarrow> nat \<Rightarrow> unit res \<Rightarrow> sfs_fs \<Rightarrow> bool" where
  "link_spec s name i r s' \<longleftrightarrow> tree_ok s' \<and> (\<forall>j \<in> inodes s - {rooti}. files s' j = files s j) \<and> inodes s' = inodes s
     \<and> cnt s' = cnt s \<and> unowned s' (inodes s') = unowned s (inodes s) \<and>
     (case r of
        Inr _ \<Rightarrow> names s name = None \<and> names s' = (names s)(name \<mapsto> i)
      | Inl e \<Rightarrow> names s' = names s \<and> (e = EEXIST \<and> names s name \<noteq> None
          \<or> names s name = None \<and> (e = ENAMETOOLONG \<and> 60 \<le> length name \<or> e = ENOSPC \<and> nfree s < 145 \<or> e = EINVAL \<and> length (rdents s) = 1144)))"

lemma sfs_link_ok:
  assumes "tree_ok s" "is_root s d" "sfs_pool s f = Some fv" "sv_ino fv \<noteq> rooti" "0 \<notin> set name"
  shows "\<exists>r s'. sfs_link d name f s = Some (r, s') \<and> link_spec s name (sv_ino fv) r s'"
proof -
  let ?i = "sv_ino fv" and ?I = "inodes s" and ?m = "names s" and ?L = "nlinks (names s)" and ?U = "unowned s (inodes s)"
  note c = tree_conf [OF assms(1)]
  note fs = conf_fs [OF c]
  obtain dv where dv: "sfs_pool s d = Some dv" "sv_ino dv = rooti" using assms(2) by (auto simp: is_root_def)
  have dn: "d \<noteq> f" using dv assms(3,4) by auto
  have iI: "?i \<in> ?I" using fs_okD(3) [OF fs assms(3)] .
  have rn: "rooti \<notin> ran ?m" using assms(1) by (simp add: tree_ok_def)
  have same: "vn_fs (sv_v fv) = vn_fs (sv_v dv)"
    using pool_okD(4) [OF fs_okD(2) [OF fs] assms(3)] pool_okD(4) [OF fs_okD(2) [OF fs] dv(1)] by (simp add: sv_ok_def)
  obtain r s1 where r: "sfs_dir_link d name ?i s = Some (r, s1)" "vstep d s s1"
    "(\<exists>e. r = Err e \<and> conf s1 ?I ?m ?L (files s) ?U \<and>
          (e = EEXIST \<and> ?m name \<noteq> None \<or> ?m name = None \<and>
            (e = ENAMETOOLONG \<and> 60 \<le> length name \<or> e = ENOSPC \<and> nfree s < 145 \<or> e = EINVAL \<and> length (rdents s) = 1144)))
     \<or> (\<exists>slot. r = Ok slot \<and> ?m name = None \<and> conf s1 ?I (?m(name \<mapsto> ?i)) ?L (files s) ?U)"
    using link_conf [OF c assms(2,5) iI] by auto
  note v1 = vstep_linos [OF dv(1) r(2)] and c1 = cnt_vstep [OF dv(1) r(2)]
  show ?thesis
  proof (rule disjE [OF r(3)]; elim exE conjE)
    fix e
    assume e: "r = Err e" "unchanged s s1" "e = EEXIST \<and> ?m name \<noteq> None \<or> ?m name = None \<and>
            (e = ENAMETOOLONG \<and> 60 \<le> length name \<or> e = ENOSPC \<and> nfree s < 145 \<or> e = EINVAL \<and> length (rdents s) = 1144)"
    have "link_spec s name ?i (Err e) s1" using unchanged_tree [OF assms(1) e(2)] v1(1) c1 e(3) by (simp add: link_spec_def)
    then show ?thesis using r(1) e(1) dv(1) assms(3) same by (simp add: sfs_link_def)
  next
    fix slot
    assume s: "r = Ok slot" "?m name = None" "conf s1 ?I (?m(name \<mapsto> ?i)) ?L (files s) ?U"
    have p1: "sfs_pool s1 f = Some fv" using vstep_fields(7) [OF r(2)] dn assms(3) by simp
    have lc: "sfi_linkcount (sv_i fv) = ?L ?i"
      using confD(4) [OF c iI assms(4)] cur_loaded [OF fs_okD(2) [OF fs] assms(3)] by simp
    have "?L ?i \<le> 1144" using nlinks_names(2) baseD(3) [OF confD(1) [OF c]] by blast
    then have k: "(sfi_linkcount (sv_i fv) + 1) mod 2 ^ 16 = Suc (?L ?i)" "Suc (?L ?i) < 2 ^ 16" using lc by simp_all
    obtain s' where s': "edit_inode f (\<lambda>n. n\<lparr>sfi_linkcount := (sfi_linkcount n + 1) mod 2 ^ 16\<rparr>) s1 = Some s'"
      "conf s' ?I (?m(name \<mapsto> ?i)) (?L(?i := Suc (?L ?i))) (files s) ?U"
      "sfs_pool s' = (sfs_pool s1)(f \<mapsto> fv\<lparr>sv_i := (sv_i fv)\<lparr>sfi_linkcount := Suc (?L ?i)\<rparr>, sv_dirty := True\<rparr>)"
      using conf_links [OF s(3) p1 assms(4) k(2), of "\<lambda>n. n\<lparr>sfi_linkcount := (sfi_linkcount n + 1) mod 2 ^ 16\<rparr>"] k(1) by auto
    have "linos s' = linos s" using linos_upd [OF s'(3) p1] v1(1) by simp
    moreover have "ran (?m(name \<mapsto> ?i)) = insert ?i (ran ?m)" using s(2) by simp
    ultimately have I: "inodes s' = ?I" using confD(2) [OF s'(2)] iI by (auto simp: inodes_def)
    have "rooti \<notin> ran (?m(name \<mapsto> ?i))" using rn assms(4) s(2) by simp
    note t' = conf_tree [OF s'(2) I this]
    have "cnt s' = cnt s" using cnt_upd [OF s'(3) p1] c1 by simp
    then have "link_spec s name ?i (Ok ()) s'" using t' nlinks_link [OF s(2), of ?i] I s(2) by (simp add: link_spec_def)
    then show ?thesis using r(1) s(1) dv(1) assms(3) same s'(1) by (simp add: sfs_link_def)
  qed
qed

lemma unlink_conf:
  assumes "conf s I m L F U" "is_root s d" "slot_of name (rdents s) = Some k"
  shows "\<exists>s'. sfs_dir_unlink d k s = Some (Ok (), s') \<and> vstep d s s' \<and> conf s' I (m(name := None)) L F U"
proof -
  note b = base_dir [OF confD(1) [OF assms(1)] assms(2)]
  have k: "k < length (rdents s)" "named name (rdents s ! k)"
    using slot_of_Some [of "rdents s" name k] assms(3) baseD(3) [OF confD(1) [OF assms(1)]] by (auto simp: root_ok_def)
  have m: "dir_map (dents s d) = m" using confD(2) [OF assms(1)] b(3) by (simp add: names_def)
  have "k < fsize s d div 64" "live (dents s d ! k)" "name_of (dents s d ! k) = name"
    using k length_dents [of s d] unfolding b(3) by (simp_all add: named_def)
  then show ?thesis using sfs_dir_unlink_ok [OF b(1,2), of k] conf_dir [OF assms(1,2)] m by metis
qed

text \<open>A vnode that an operation loads and releases again.\<close>

lemma linos_temp:
  assumes "fs_ok s I" "gained_ref s w s1" "fino s1 w = i" "fs_ok s1 I1"
    "sfs_pool s3 w = Some sv" "sv_v sv = sv_v (the (sfs_pool s1 w))" "sv_ino sv = i" "linos s3 = linos s1"
    "fs_ok s3 I3" "decref_result s3 I3 w s'"
  shows "linos s' = linos s" "vn_refcount (sv_v sv) = 1 \<longleftrightarrow> i \<notin> linos s"
proof -
  have l1: "linos s1 = insert i (linos s)" using linos_gained [OF assms(2,3)] .
  have l': "linos s' = (if vn_refcount (sv_v sv) = 1 then linos s3 - {i} else linos s3)"
    using linos_decref [OF assms(9,5,10)] assms(7) by simp
  show r: "vn_refcount (sv_v sv) = 1 \<longleftrightarrow> i \<notin> linos s"
  proof (cases "sfs_pool s w")
    case None
    have "i \<notin> linos s"
    proof
      assume "i \<in> linos s"
      then obtain w' where w': "sfs_pool s w' \<noteq> None" "fino s w' = i" by (auto simp: linos_def)
      then have "w' \<noteq> w" using None by auto
      then have "sfs_pool s1 w' \<noteq> None" "fino s1 w' = i" using w' gained_refD(1) [OF assms(2)] by simp_all
      then show False using pool_okD(5) [OF fs_okD(2) [OF assms(4)], of w' w] assms(2,3) \<open>w' \<noteq> w\<close> by (auto simp: gained_ref_def)
    qed
    then show ?thesis using None assms(2,6) by (auto simp: gained_ref_def)
  next
    case (Some sw)
    have "sv_ok s sw" using pool_okD(4) [OF fs_okD(2) [OF assms(1)] Some] .
    then have "vn_refcount (sv_v sv) \<noteq> 1" using assms(2,6) Some by (auto simp: gained_ref_def sv_ok_def vnode_ok_def)
    moreover have "fino s w = i" using assms(2,3) Some by (auto simp: gained_ref_def)
    then have "i \<in> linos s" using Some by (force simp: linos_def)
    ultimately show ?thesis by simp
  qed
  show "linos s' = linos s" using l' r assms(8) l1 by auto
qed

end
