(* ===== verification/SfsTree.thy ===== *)
theory SfsTree
  imports SfsName
begin

section \<open>Removal, renaming, and runs of operations\<close>

text \<open>
  \<^verbatim>\<open>sfs_remove\<close> and \<^verbatim>\<open>sfs_rename\<close>, and the runs of arbitrary operations on a mounted file system: every operation
  returns, and the invariant of the name space holds throughout.
\<close>

definition remove_spec :: "sfs_fs \<Rightarrow> byte list \<Rightarrow> unit res \<Rightarrow> sfs_fs \<Rightarrow> bool" where
  "remove_spec s name r s' \<longleftrightarrow> tree_ok s' \<and> (\<forall>j \<in> inodes s' - {rooti}. files s' j = files s j) \<and> cnt s' = cnt s
     \<and> linos s' = linos s \<and> unowned s' (inodes s') = unowned s (inodes s) \<and>
     (case r of
        Inr _ \<Rightarrow> names s name \<noteq> None \<and> names s' = (names s)(name := None)
      | Inl e \<Rightarrow> names s' = names s \<and> (e = ENOENT \<and> names s name = None \<or> e = ENOMEM \<and> names s name \<noteq> None))"

text \<open>Dropping a link and the reference that was taken for it.\<close>

lemma drop_conf:
  assumes "conf s I m L F U" "sfs_pool s v = Some sv" "sv_ino sv = i" "i \<noteq> rooti" "0 < L i"
    "vn_opencount (sv_v sv) < vn_refcount (sv_v sv)"
  shows "\<exists>s1 sv1 s'. drop_link v s = Some s1 \<and> conf s1 I m (L(i := L i - 1)) F U
    \<and> sfs_pool s1 v = Some sv1 \<and> sv_v sv1 = sv_v sv \<and> sv_ino sv1 = i \<and> linos s1 = linos s \<and> cnt s1 = cnt s
    \<and> VOP_DECREF v s1 = Some s' \<and> decref_result s1 I v s'
    \<and> conf s' (if vn_refcount (sv_v sv) = 1 \<and> L i = 1 then I - {i} else I) m (L(i := L i - 1)) F U
    \<and> cnt s' = add_ref v (- 1) (cnt s)"
proof -
  note fs = conf_fs [OF assms(1)]
  have iI: "i \<in> I" using fs_okD(3) [OF fs assms(2)] assms(3) by simp
  have lc: "sfi_linkcount (sv_i sv) = L i" using confD(4) [OF assms(1) iI assms(4)] cur_loaded [OF fs_okD(2) [OF fs] assms(2)] assms(3) by simp
  have "inode_wf (sv_i sv)" using fs_ok_file [OF fs assms(2)] assms(2) by (simp add: file_ok_def)
  then have "L i < 2 ^ 16" using lc by (simp add: inode_wf_def)
  then have k: "L i - 1 < 2 ^ 16" by linarith
  let ?sv = "sv\<lparr>sv_i := (sv_i sv)\<lparr>sfi_linkcount := L i - 1\<rparr>, sv_dirty := True\<rparr>"
  obtain s1 where s1: "edit_inode v (\<lambda>n. n\<lparr>sfi_linkcount := sfi_linkcount n - 1\<rparr>) s = Some s1"
    "conf s1 I m (L(i := L i - 1)) F U" "sfs_pool s1 = (sfs_pool s)(v \<mapsto> ?sv)"
    using conf_links [OF assms(1,2) _ k, of "\<lambda>n. n\<lparr>sfi_linkcount := sfi_linkcount n - 1\<rparr>"] assms(3,4) lc by auto
  have p1: "sfs_pool s1 v = Some ?sv" using s1(3) by simp
  have c1: "cnt s1 = cnt s" using cnt_upd [OF s1(3) assms(2)] by simp
  obtain s' where s': "VOP_DECREF v s1 = Some s'" "decref_result s1 I v s'"
    "conf s' (if vn_refcount (sv_v sv) = 1 \<and> L i - 1 = 0 then I - {i} else I) m (L(i := L i - 1)) F U"
    using conf_decref [OF s1(2) p1] assms(3,4,6) by (auto cong: if_cong)
  have "drop_link v s = Some s1" using assms(2,5) lc s1(1) by (simp add: drop_link_def)
  moreover have "linos s1 = linos s" using linos_upd [OF s1(3) assms(2)] by simp
  moreover have "cnt s' = add_ref v (- 1) (cnt s)" using cnt_decref [OF conf_fs [OF s1(2)] p1 _ s'(2)] assms(6) c1 by simp
  moreover have "L i - 1 = 0 \<longleftrightarrow> L i = 1" using assms(5) by linarith
  ultimately show ?thesis using s1(2) p1 c1 s' assms(3)
    by (intro exI [of _ s1] exI [of _ ?sv] exI [of _ s']) simp
qed

lemma unlinked_inodes:
  assumes "tree_ok s" "names s name = Some i" "names s' = (names s)(name := None)" "linos s' = linos s"
  shows "inodes s' = (if i \<notin> linos s \<and> nlinks (names s) i = 1 then inodes s - {i} else inodes s)"
proof -
  note i = tree_okD(2) [OF assms(1,2)]
  have "nlinks ((names s)(name := None)) i = nlinks (names s) i - 1" using nlinks_unlink [OF assms(2)] by simp
  then have "i \<in> ran (names s') \<longleftrightarrow> nlinks (names s) i - 1 \<noteq> 0" using nlinks_names(1) [of s' i] assms(3) by simp
  then have "i \<in> ran (names s') \<longleftrightarrow> nlinks (names s) i \<noteq> 1" using i by linarith
  moreover have "ran (names s) = insert i (ran (names s'))"
    using ran_map_upd [of "names s'" name i] assms(2,3) by (simp add: fun_upd_idem)
  ultimately show ?thesis using i assms(4) by (auto simp: inodes_def)
qed

lemma sfs_remove_ok:
  assumes "tree_ok s" "roomy s" "is_root s d" "sfs_pool s new = None"
  shows "\<exists>r s'. sfs_remove mem new d name s = Some (r, s') \<and> remove_spec s name r s'"
proof -
  let ?I = "inodes s" and ?m = "names s" and ?L = "nlinks (names s)" and ?F = "files s" and ?U = "unowned s (inodes s)"
  obtain r s1 where r: "sfs_lookonce mem new d name s = Some (r, s1)" "unchanged s s1" "rdents s1 = rdents s"
    "r = Err ENOENT \<and> names s name = None \<and> sfs_pool s1 = sfs_pool s
       \<or> r = Err ENOMEM \<and> names s name \<noteq> None \<and> sfs_pool s1 = sfs_pool s
       \<or> (\<exists>w slot. r = Ok (w, slot) \<and> slot_of name (rdents s) = Some slot \<and> names s name = Some (fino s1 w) \<and> gained_ref s w s1)"
    using sfs_lookonce_ok [OF assms, of mem name] by (elim exE conjE) (rule that)
  have err: ?thesis if "r = Err e" "sfs_pool s1 = sfs_pool s" "e = ENOENT \<and> ?m name = None \<or> e = ENOMEM \<and> ?m name \<noteq> None" for e
  proof -
    have "linos s1 = linos s" using that(2) by (simp only: linos_def)
    then have "remove_spec s name (Err e) s1"
      using creat_unchanged [OF assms(1) r(2) that(2)] that(3) by (auto simp: remove_spec_def)
    then show ?thesis using r(1) that(1) by (auto simp: sfs_remove_def)
  qed
  have ok: ?thesis if w: "r = Ok (w, k)" "slot_of name (rdents s) = Some k" "?m name = Some (fino s1 w)" "gained_ref s w s1" for w k
  proof -
    define i where "i = fino s1 w"
    have n: "?m name = Some i" using w(3) by (simp add: i_def)
    note i = tree_okD(2) [OF assms(1) n]
    have d1: "is_root s1 d" "d \<noteq> w" using gained_root [OF w(4) _ assms(3)] i by (simp_all add: i_def)
    obtain s2 where s2: "sfs_dir_unlink d k s1 = Some (Ok (), s2)" "vstep d s1 s2" "conf s2 ?I (?m(name := None)) ?L ?F ?U"
      using unlink_conf [OF r(2) d1(1)] w(2) r(3) by auto
    obtain dv where dv: "sfs_pool s1 d = Some dv" using d1(1) by (auto simp: is_root_def)
    obtain sv where sv: "sfs_pool s1 w = Some sv" "vn_opencount (sv_v sv) < vn_refcount (sv_v sv)" using gained_refD(2) [OF w(4)] by blast
    have si: "sv_ino sv = i" using sv(1) by (simp add: i_def)
    have p2: "sfs_pool s2 w = Some sv" using vstep_fields(7) [OF s2(2)] d1(2) sv(1) by simp
    obtain s3 sv3 s' where s3: "drop_link w s2 = Some s3" "conf s3 ?I (?m(name := None)) (?L(i := ?L i - 1)) ?F ?U"
      "sfs_pool s3 w = Some sv3" "sv_v sv3 = sv_v sv" "sv_ino sv3 = i" "linos s3 = linos s2"
      and s': "VOP_DECREF w s3 = Some s'" "decref_result s3 ?I w s'"
      "conf s' (if vn_refcount (sv_v sv) = 1 \<and> ?L i = 1 then ?I - {i} else ?I) (?m(name := None)) (?L(i := ?L i - 1)) ?F ?U"
      "cnt s' = add_ref w (- 1) (cnt s2)"
      using drop_conf [OF s2(3) p2 si] i sv(2) by auto
    have l3: "linos s3 = linos s1" using s3(6) vstep_linos(1) [OF dv s2(2)] by simp
    have si1: "fino s1 w = i" "sv_v sv3 = sv_v (the (sfs_pool s1 w))" using sv(1) s3(4) by (simp_all add: i_def)
    note l = linos_temp [OF conf_fs [OF tree_conf [OF assms(1)]] w(4) si1(1) conf_fs [OF r(2)] s3(3) si1(2) s3(5) l3 conf_fs [OF s3(2)] s'(2)]
    have I: "inodes s' = (if vn_refcount (sv_v sv) = 1 \<and> ?L i = 1 then ?I - {i} else ?I)"
      using unlinked_inodes [OF assms(1) n confD(2) [OF s'(3)] l(1)] l(2) s3(4) by simp
    have rn: "rooti \<notin> ran (?m(name := None))" using assms(1) by (auto simp: tree_ok_def ran_def split: if_splits)
    have L: "?L(i := ?L i - 1) = nlinks (?m(name := None))" using nlinks_unlink [OF n] by simp
    note t' = conf_tree [OF s'(3) I rn, unfolded L]
    have "cnt s' = cnt s" using s'(4) cnt_vstep [OF dv s2(2)] cnt_gained [OF w(4)] by simp
    then have "remove_spec s name (Ok ()) s'" using t' l(1) n I by (simp add: remove_spec_def)
    then show ?thesis using r(1) w(1) s2(1) s3(1) s'(1) by (simp add: sfs_remove_def)
  qed
  from r(4) show ?thesis by (elim disjE exE conjE) (use err ok in blast)+
qed

definition rename_spec :: "sfs_fs \<Rightarrow> byte list \<Rightarrow> byte list \<Rightarrow> unit res \<Rightarrow> sfs_fs \<Rightarrow> bool" where
  "rename_spec s n1 n2 r s' \<longleftrightarrow> tree_ok s' \<and> (\<forall>j \<in> inodes s - {rooti}. files s' j = files s j) \<and> inodes s' = inodes s
     \<and> cnt s' = cnt s \<and> unowned s' (inodes s') = unowned s (inodes s) \<and>
     (case r of
        Inr _ \<Rightarrow> \<exists>i. names s n1 = Some i \<and> names s n2 = None \<and> names s' = (names s)(n2 \<mapsto> i, n1 := None)
      | Inl e \<Rightarrow> names s' = names s \<and> (e = ENOENT \<and> names s n1 = None \<or> e = ENOMEM \<and> names s n1 \<noteq> None
          \<or> names s n1 \<noteq> None \<and> (e = EEXIST \<and> names s n2 \<noteq> None \<or> names s n2 = None \<and>
              (e = ENAMETOOLONG \<and> 60 \<le> length n2 \<or> e = ENOSPC \<and> nfree s < 145 \<or> e = EINVAL \<and> length (rdents s) = 1144))))"

text \<open>The part of \<^verbatim>\<open>sfs_rename\<close> after the new name has been entered at \<open>slot2\<close> of the directory.\<close>

lemma rename_linked:
  assumes t: "tree_ok s" and w: "names s n1 = Some i" "names s n2 = None" "slot_of n1 (rdents s) = Some k" "gained_ref s w s1" "fino s1 w = i"
    and c1: "unchanged s s1" "is_root s1 d" "d \<noteq> w"
    and s2: "vstep d s1 s2" "conf s2 (inodes s) ((names s)(n2 \<mapsto> i)) (nlinks (names s)) (files s) (unowned s (inodes s))"
      "rdents s2 = store_slot slot2 e (rdents s)" "slot2 \<le> length (rdents s)" "slot2 < length (rdents s) \<longrightarrow> \<not> live (rdents s ! slot2)"
  shows "\<exists>s3 s4 s5 s'. edit_inode w (\<lambda>n. n\<lparr>sfi_linkcount := (sfi_linkcount n + 1) mod 2 ^ 16\<rparr>) s2 = Some s3
    \<and> sfs_dir_unlink d k s3 = Some (Ok (), s4) \<and> drop_link w s4 = Some s5 \<and> VOP_DECREF w s5 = Some s'
    \<and> rename_spec s n1 n2 (Ok ()) s'"
proof -
  let ?I = "inodes s" and ?m = "names s" and ?L = "nlinks (names s)" and ?F = "files s" and ?U = "unowned s (inodes s)"
  let ?m2 = "?m(n2 \<mapsto> i)" and ?f = "\<lambda>n. n\<lparr>sfi_linkcount := (sfi_linkcount n + 1) mod 2 ^ 16\<rparr>"
  note i = tree_okD(2) [OF t w(1)]
  obtain dv where dv: "sfs_pool s1 d = Some dv" using c1(2) by (auto simp: is_root_def)
  obtain sv where sv: "sfs_pool s1 w = Some sv" "vn_opencount (sv_v sv) < vn_refcount (sv_v sv)" using gained_refD(2) [OF w(4)] by blast
  have si: "sv_ino sv = i" using sv(1) w(5) by simp
  have p2: "sfs_pool s2 w = Some sv" using vstep_fields(7) [OF s2(1)] c1(3) sv(1) by simp
  note v2 = vstep_linos [OF dv s2(1)]
  obtain dv2 where dv2: "sfs_pool s2 d = Some dv2" using v2(2) [of d] c1(2) by (auto simp: is_root_def)
  have lc: "sfi_linkcount (sv_i sv) = ?L i"
    using confD(4) [OF s2(2), of i] i cur_loaded [OF fs_okD(2) [OF conf_fs [OF s2(2)]] p2] si by simp
  have "?L i \<le> 1144" using nlinks_names(2) baseD(3) [OF tree_okD(1) [OF t]] by blast
  then have k: "(sfi_linkcount (sv_i sv) + 1) mod 2 ^ 16 = Suc (?L i)" "Suc (?L i) < 2 ^ 16" using lc by simp_all
  let ?sv = "sv\<lparr>sv_i := (sv_i sv)\<lparr>sfi_linkcount := Suc (?L i)\<rparr>, sv_dirty := True\<rparr>"
  obtain s3 where s3: "edit_inode w ?f s2 = Some s3" "conf s3 ?I ?m2 (?L(i := Suc (?L i))) ?F ?U"
    "sfs_pool s3 = (sfs_pool s2)(w \<mapsto> ?sv)" "rdents s3 = rdents s2"
    using conf_links [OF s2(2) p2 _ k(2), of ?f] k(1) i si by auto
  have d3: "is_root s3 d" using v2(2) [of d] c1(2,3) s3(3) by (simp add: is_root_def)
  obtain dv3 where dv3: "sfs_pool s3 d = Some dv3" using d3 by (auto simp: is_root_def)
  have sl: "slot_of n1 (rdents s3) = Some k"
  proof -
    have n: "names_ok (rdents s)" "names_ok (rdents s3)"
      using baseD(3) tree_okD(1) [OF t] confD(1) [OF s3(2)] by (auto simp: root_ok_def)
    then have kk: "k < length (rdents s)" "named n1 (rdents s ! k)" using w(3) slot_of_Some by blast+
    then have "slot2 \<noteq> k" using s2(5) by (auto simp: named_def)
    moreover have "k < length (store_slot slot2 e (rdents s))" using kk(1) length_store_slot [OF s2(4)] by simp
    ultimately show ?thesis unfolding slot_of_Some [OF n(2)] unfolding s3(4) s2(3) using kk store_slot_nth [OF s2(4), of k e] by simp
  qed
  obtain s4 where s4: "sfs_dir_unlink d k s3 = Some (Ok (), s4)" "vstep d s3 s4" "conf s4 ?I (?m2(n1 := None)) (?L(i := Suc (?L i))) ?F ?U"
    using unlink_conf [OF s3(2) d3 sl] by blast
  have p4: "sfs_pool s4 w = Some ?sv" using vstep_fields(7) [OF s4(2)] c1(3) s3(3) by simp
  have L5: "?L(i := Suc (?L i), i := (?L(i := Suc (?L i))) i - 1) = ?L" "(?L(i := Suc (?L i))) i \<noteq> 1" using i by auto
  obtain s5 sv5 s' where s5: "drop_link w s4 = Some s5" "conf s5 ?I (?m2(n1 := None)) ?L ?F ?U"
    "sfs_pool s5 w = Some sv5" "sv_v sv5 = sv_v ?sv" "sv_ino sv5 = i" "linos s5 = linos s4"
    and s': "VOP_DECREF w s5 = Some s'" "decref_result s5 ?I w s'" "conf s' ?I (?m2(n1 := None)) ?L ?F ?U" "cnt s' = add_ref w (- 1) (cnt s4)"
    using drop_conf [OF s4(3) p4, of i, unfolded L5(1)] L5(2) si i sv(2) by auto
  have l5: "linos s5 = linos s1" using s5(6) vstep_linos(1) [OF dv3 s4(2)] linos_upd [OF s3(3) p2] v2(1) by simp
  have v5: "sv_v sv5 = sv_v (the (sfs_pool s1 w))" using s5(4) sv(1) by simp
  have l: "linos s' = linos s"
    by (rule linos_temp(1) [OF conf_fs [OF tree_conf [OF t]] w(4,5) conf_fs [OF c1(1)] s5(3) v5 s5(5) l5 conf_fs [OF s5(2)] s'(2)])
  have nn: "n1 \<noteq> n2" using w(1,2) by auto
  have m': "?m2(n1 := None) = (?m(n1 := None))(n2 \<mapsto> i)" using nn by (simp add: fun_upd_twist)
  have R: "ran (?m2(n1 := None)) = ran ?m"
    using ran_map_upd [of "?m(n1 := None)" n2 i] ran_map_upd [of "?m(n1 := None)" n1 i] w(1,2) nn by (simp add: m' fun_upd_idem)
  have I: "inodes s' = ?I" using confD(2) [OF s'(3)] l R by (simp add: inodes_def)
  have N: "nlinks (?m2(n1 := None)) = ?L"
  proof -
    have "names s2 = ?m2" using confD(2) [OF s2(2)] .
    then have "nlinks (?m2(n1 := None)) = (nlinks ?m2)(i := nlinks ?m2 i - 1)" using nlinks_unlink [of s2 n1 i] w(1) nn by simp
    then show ?thesis using nlinks_link [OF w(2), of i] by simp
  qed
  have rn: "rooti \<notin> ran (?m2(n1 := None))" using t R by (simp add: tree_ok_def)
  note t' = conf_tree [OF s'(3) I rn, unfolded N]
  have "cnt s' = cnt s"
    using s'(4) cnt_vstep [OF dv3 s4(2)] cnt_upd [OF s3(3) p2] cnt_vstep [OF dv s2(1)] cnt_gained [OF w(4)] by simp
  then have "rename_spec s n1 n2 (Ok ()) s'" using t' I w(1,2) by (simp add: rename_spec_def)
  then show ?thesis using s3(1) s4(1) s5(1) s'(1) by blast
qed

lemma sfs_rename_ok:
  assumes "tree_ok s" "roomy s" "is_root s d" "sfs_pool s new = None" "0 \<notin> set n2"
  shows "\<exists>r s'. sfs_rename mem new d n1 d n2 s = Some (r, s') \<and> rename_spec s n1 n2 r s'"
proof -
  let ?I = "inodes s" and ?m = "names s"
  obtain sd where sd: "sfs_pool s d = Some sd" "sv_ino sd = rooti" using assms(3) by (auto simp: is_root_def)
  obtain r s1 where r: "sfs_lookonce mem new d n1 s = Some (r, s1)" "unchanged s s1" "rdents s1 = rdents s"
    "nfree s1 = nfree s" "r = Err ENOENT \<and> ?m n1 = None \<and> sfs_pool s1 = sfs_pool s
       \<or> r = Err ENOMEM \<and> ?m n1 \<noteq> None \<and> sfs_pool s1 = sfs_pool s
       \<or> (\<exists>w slot. r = Ok (w, slot) \<and> slot_of n1 (rdents s) = Some slot \<and> ?m n1 = Some (fino s1 w) \<and> gained_ref s w s1)"
    using sfs_lookonce_ok [OF assms(1-4), of mem n1] by (elim exE conjE) (rule that)
  have err: ?thesis if "r = Err e" "sfs_pool s1 = sfs_pool s" "e = ENOENT \<and> ?m n1 = None \<or> e = ENOMEM \<and> ?m n1 \<noteq> None" for e
  proof -
    have "rename_spec s n1 n2 (Err e) s1" using creat_unchanged [OF assms(1) r(2) that(2)] that(3) by (auto simp: rename_spec_def)
    then show ?thesis using r(1) that(1) sd by (auto simp: sfs_rename_def)
  qed
  have ok: ?thesis if w: "r = Ok (w, k)" "slot_of n1 (rdents s) = Some k" "?m n1 = Some (fino s1 w)" "gained_ref s w s1" for w k
  proof -
    define i where "i = fino s1 w"
    have n: "?m n1 = Some i" "fino s1 w = i" using w(3) by (simp_all add: i_def)
    note i = tree_okD(2) [OF assms(1) n(1)]
    have d1: "is_root s1 d" "d \<noteq> w" using gained_root [OF w(4) _ assms(3)] i by (simp_all add: i_def)
    obtain dv where dv: "sfs_pool s1 d = Some dv" using d1(1) by (auto simp: is_root_def)
    obtain sv where sv: "sfs_pool s1 w = Some sv" "vn_opencount (sv_v sv) < vn_refcount (sv_v sv)" using gained_refD(2) [OF w(4)] by blast
    have si: "sv_ino sv = i" using sv(1) n(2) by simp
    have ty: "sfi_type (sv_i sv) = SFS_TYPE_FILE"
      using baseD(4) [OF confD(1) [OF r(2)], of i] i cur_loaded [OF fs_okD(2) [OF conf_fs [OF r(2)]] sv(1)] si by simp
    obtain q s2 where q: "sfs_dir_link d n2 i s1 = Some (q, s2)" "vstep d s1 s2"
      "(\<exists>e. q = Err e \<and> unchanged s s2 \<and> (e = EEXIST \<and> ?m n2 \<noteq> None \<or> ?m n2 = None \<and>
            (e = ENAMETOOLONG \<and> 60 \<le> length n2 \<or> e = ENOSPC \<and> nfree s < 145 \<or> e = EINVAL \<and> length (rdents s) = 1144)))
       \<or> (\<exists>slot. q = Ok slot \<and> ?m n2 = None \<and> conf s2 ?I (?m(n2 \<mapsto> i)) (nlinks ?m) (files s) (unowned s ?I) \<and> slot \<le> length (rdents s)
          \<and> rdents s2 = store_slot slot \<lparr>sfd_ino = i, sfd_name = n2 @ replicate (60 - length n2) 0\<rparr> (rdents s)
          \<and> (slot < length (rdents s) \<longrightarrow> \<not> live (rdents s ! slot)))"
      using link_conf [OF r(2) d1(1) assms(5), of i] i r(3,4) by auto
    show ?thesis
    proof (rule disjE [OF q(3)]; elim exE conjE)
      fix e
      assume e: "q = Err e" "unchanged s s2" "e = EEXIST \<and> ?m n2 \<noteq> None \<or> ?m n2 = None \<and>
            (e = ENAMETOOLONG \<and> 60 \<le> length n2 \<or> e = ENOSPC \<and> nfree s < 145 \<or> e = EINVAL \<and> length (rdents s) = 1144)"
      have p2: "sfs_pool s2 w = Some sv" using vstep_fields(7) [OF q(2)] d1(2) sv(1) by simp
      have "sfi_linkcount (sv_i sv) \<noteq> 0"
        using confD(4) [OF e(2), of i] i cur_loaded [OF fs_okD(2) [OF conf_fs [OF e(2)]] p2] si by simp
      then obtain s' where s': "VOP_DECREF w s2 = Some s'" "decref_result s2 ?I w s'" "unchanged s s'"
        using conf_decref [OF e(2) p2] si i sv(2) by auto
      have vv: "sv_v sv = sv_v (the (sfs_pool s1 w))" using sv(1) by simp
      have "linos s' = linos s"
        by (rule linos_temp(1) [OF conf_fs [OF tree_conf [OF assms(1)]] w(4) n(2) conf_fs [OF r(2)] p2 vv si vstep_linos(1) [OF dv q(2)] conf_fs [OF e(2)] s'(2)])
      moreover have "cnt s' = cnt s"
        using cnt_decref [OF conf_fs [OF e(2)] p2 sv(2) s'(2)] cnt_vstep [OF dv q(2)] cnt_gained [OF w(4)] by simp
      ultimately have "rename_spec s n1 n2 (Err e) s'" using unchanged_tree [OF assms(1) s'(3)] e(3) n(1) by (simp add: rename_spec_def)
      then show ?thesis using r(1) w(1) sd sv(1) ty si q(1) e(1) s'(1) by (simp add: sfs_rename_def)
    next
      fix slot
      assume s: "q = Ok slot" "?m n2 = None" "conf s2 ?I (?m(n2 \<mapsto> i)) (nlinks ?m) (files s) (unowned s ?I)" "slot \<le> length (rdents s)"
        "rdents s2 = store_slot slot \<lparr>sfd_ino = i, sfd_name = n2 @ replicate (60 - length n2) 0\<rparr> (rdents s)"
        "slot < length (rdents s) \<longrightarrow> \<not> live (rdents s ! slot)"
      obtain s3 s4 s5 s' where "edit_inode w (\<lambda>n. n\<lparr>sfi_linkcount := (sfi_linkcount n + 1) mod 2 ^ 16\<rparr>) s2 = Some s3"
        "sfs_dir_unlink d k s3 = Some (Ok (), s4)" "drop_link w s4 = Some s5" "VOP_DECREF w s5 = Some s'" "rename_spec s n1 n2 (Ok ()) s'"
        using rename_linked [OF assms(1) n(1) s(2) w(2,4) n(2) r(2) d1 q(2) s(3,5,4,6)] by blast
      then show ?thesis using r(1) w(1) sd sv(1) ty si q(1) s(1) by (simp add: sfs_rename_def)
    qed
  qed
  from r(5) show ?thesis by (elim disjE exE conjE) (use err ok in blast)+
qed

subsection \<open>Operations on vnodes\<close>

lemma file_tree:
  assumes "tree_ok s" "sfs_pool s v = Some sv" "sv_ino sv \<noteq> rooti" "vstep v s s'"
  shows "tree_ok s'" "names s' = names s" "inodes s' = inodes s" "cnt s' = cnt s" "files s' (sv_ino sv) = (fsize s' v, fbytes s' v)"
    "j \<in> inodes s \<Longrightarrow> j \<noteq> rooti \<Longrightarrow> j \<noteq> sv_ino sv \<Longrightarrow> files s' j = files s j" "unowned s' (inodes s') = unowned s (inodes s)"
proof -
  note c = conf_file [OF tree_conf [OF assms(1)] assms(2-4)]
  have I: "inodes s' = inodes s" using vstep_linos(1) [OF assms(2,4)] confD(2) [OF c] by (simp add: inodes_def)
  have rn: "rooti \<notin> ran (names s)" using assms(1) by (simp add: tree_ok_def)
  note t = conf_tree [OF c I rn refl]
  have "sv_ino sv \<in> inodes s" using fs_okD(3) [OF conf_fs [OF tree_conf [OF assms(1)]] assms(2)] .
  then show "tree_ok s'" "names s' = names s" "inodes s' = inodes s" "cnt s' = cnt s" "files s' (sv_ino sv) = (fsize s' v, fbytes s' v)"
    "j \<in> inodes s \<Longrightarrow> j \<noteq> rooti \<Longrightarrow> j \<noteq> sv_ino sv \<Longrightarrow> files s' j = files s j" "unowned s' (inodes s') = unowned s (inodes s)"
    using t I assms(3) cnt_vstep [OF assms(2,4)] by simp_all
qed

lemma tree_file:
  assumes "tree_ok s" "sfs_pool s v = Some sv" "sv_ino sv \<noteq> rooti"
  shows "space_ok s" "file_ok s v" "vop_check v op s = Some Sfs_fileops"
proof -
  note c = tree_conf [OF assms(1)]
  note fs = conf_fs [OF c]
  show "space_ok s" "file_ok s v" using fs_okD(1) [OF fs] fs_ok_file [OF fs assms(2)] by simp_all
  have "sfi_type (sv_i sv) = SFS_TYPE_FILE"
    using baseD(4) [OF confD(1) [OF c] fs_okD(3) [OF fs assms(2)] assms(3)] cur_loaded [OF fs_okD(2) [OF fs] assms(2)] by simp
  then show "vop_check v op s = Some Sfs_fileops"
    using pool_okD(4) [OF fs_okD(2) [OF fs] assms(2)] assms(2) by (simp add: vop_check_def sv_ok_def vop_table_for_def)
qed

lemma keep_tree:
  assumes "tree_ok s" "fs_ok s' (inodes s)" "\<forall>j \<in> inodes s. same_inode s s' j" "used s' = used s" "linos s' = linos s"
  shows "tree_ok s'" "names s' = names s" "inodes s' = inodes s" "j \<in> inodes s \<Longrightarrow> j \<noteq> rooti \<Longrightarrow> files s' j = files s j"
    "unowned s' (inodes s') = unowned s (inodes s)"
  using unchanged_tree [OF assms(1) conf_keep [OF tree_conf [OF assms(1)] assms(2-4)]] assms(5) by simp_all

lemma VOP_FSYNC_ok:
  assumes "tree_ok s" "sfs_pool s v = Some sv"
  shows "\<exists>s'. VOP_FSYNC v s = Some (Ok (), s') \<and> tree_ok s' \<and> names s' = names s \<and> inodes s' = inodes s \<and> cnt s' = cnt s
    \<and> (\<forall>j \<in> inodes s - {rooti}. files s' j = files s j) \<and> unowned s' (inodes s') = unowned s (inodes s)
    \<and> bytes_inode (disk s' (sv_ino sv)) = sv_i sv"
proof -
  note fs = conf_fs [OF tree_conf [OF assms(1)]]
  obtain s' where s': "sfs_sync_inode v s = Some (Ok (), s')" "fs_ok s' (inodes s)" "\<forall>j \<in> inodes s. same_inode s s' j"
    "sfs_pool s' = (sfs_pool s)(v \<mapsto> sv\<lparr>sv_dirty := False\<rparr>)" "bytes_inode (disk s' (sv_ino sv)) = sv_i sv" "used s' = used s"
    using fs_sync_inode [OF fs assms(2)] by (elim exE conjE) (rule that)
  have "linos s' = linos s" "cnt s' = cnt s" using linos_upd [OF s'(4) assms(2)] cnt_upd [OF s'(4) assms(2)] by simp_all
  note t = keep_tree [OF assms(1) s'(2,3,6) this(1)] and cn = this(2)
  obtain ops where "vop_check v ''fsync'' s = Some ops"
    using pool_okD(4) [OF fs_okD(2) [OF fs] assms(2)] assms(2) by (auto simp: vop_check_def sv_ok_def vnode_ok_def)
  then have "VOP_FSYNC v s = Some (Ok (), s')" using s'(1) by (auto simp: VOP_FSYNC_def sfs_fsync_def)
  then show ?thesis using t s'(5) cn by auto
qed

lemma drop_inode:
  "i \<noteq> r \<Longrightarrow> i \<notin> R \<Longrightarrow> insert r (L - {i} \<union> R) = insert r (L \<union> R) - {i}"
  "i \<in> insert r R \<Longrightarrow> insert r (L - {i} \<union> R) = insert r (L \<union> R)"
  by blast+

lemma VOP_DECREF_tree:
  assumes "tree_ok s" "sfs_pool s v = Some sv" "vn_opencount (sv_v sv) < vn_refcount (sv_v sv)"
  shows "\<exists>s'. VOP_DECREF v s = Some s' \<and> tree_ok s' \<and> names s' = names s \<and> cnt s' = add_ref v (- 1) (cnt s)
    \<and> (\<forall>j \<in> inodes s' - {rooti}. files s' j = files s j) \<and> unowned s' (inodes s') = unowned s (inodes s)"
proof -
  let ?i = "sv_ino sv" and ?g = "vn_refcount (sv_v sv) = 1 \<and> sfi_linkcount (sv_i sv) = 0"
  note c = tree_conf [OF assms(1)]
  note fs = conf_fs [OF c]
  note cl = cur_loaded [OF fs_okD(2) [OF fs] assms(2)] and iI = fs_okD(3) [OF fs assms(2)]
  have rn: "rooti \<notin> ran (names s)" using assms(1) by (simp add: tree_ok_def)
  define J where "J = (if ?g then inodes s - {?i} else inodes s)"
  have "\<exists>s'. VOP_DECREF v s = Some s' \<and> decref_result s (inodes s) v s' \<and> conf s' J (names s) (nlinks (names s)) (files s) (unowned s (inodes s))
      \<and> (?i \<noteq> rooti \<or> \<not> ?g)"
  proof (cases "?i = rooti")
    case True
    then have l: "sfi_linkcount (sv_i sv) \<noteq> 0" using baseD(3) [OF confD(1) [OF c]] cl by (simp add: root_ok_def)
    then obtain s' where s': "VOP_DECREF v s = Some s'" "decref_result s (inodes s) v s'" using VOP_DECREF_ok [OF fs assms(2,3)] by auto
    then have "conf s' J (names s) (nlinks (names s)) (files s) (unowned s (inodes s))"
      using conf_keep [OF c, of s'] l assms(2) by (auto simp: decref_result_def Let_def J_def)
    then show ?thesis using s' l by (intro exI [of _ s']) simp
  next
    case False
    then show ?thesis using conf_decref [OF c assms(2) False assms(3)] by (auto simp: J_def)
  qed
  then obtain s' where s': "VOP_DECREF v s = Some s'" "decref_result s (inodes s) v s'"
    "conf s' J (names s) (nlinks (names s)) (files s) (unowned s (inodes s))" and g: "?i \<noteq> rooti \<or> \<not> ?g" by blast
  have l: "linos s' = (if vn_refcount (sv_v sv) = 1 then linos s - {?i} else linos s)" using linos_decref [OF fs assms(2) s'(2)] .
  have lr: "sfi_linkcount (sv_i sv) = 0 \<longleftrightarrow> ?i \<notin> ran (names s)" if "?i \<noteq> rooti"
    using confD(4) [OF c iI that] cl nlinks_names(1) [of s ?i] by simp
  have I: "inodes s' = J"
  proof (cases ?g)
    case True
    then have "?i \<noteq> rooti" "?i \<notin> ran (names s)" "linos s' = linos s - {?i}" "J = inodes s - {?i}" using g lr l by (simp_all add: J_def)
    then show ?thesis using drop_inode(1) [of ?i rooti "ran (names s)" "linos s"] by (simp only: inodes_def confD(2) [OF s'(3)] simp_thms)
  next
    case False
    then have "linos s' = linos s \<or> linos s' = linos s - {?i} \<and> ?i \<in> insert rooti (ran (names s))" "J = inodes s" using lr l by (auto simp: J_def)
    then show ?thesis using drop_inode(2) [of ?i rooti "ran (names s)" "linos s"] by (elim disjE conjE) (simp_all only: inodes_def confD(2) [OF s'(3)] simp_thms)
  qed
  note t = conf_tree [OF s'(3) I rn refl]
  show ?thesis using s'(1) t I cnt_decref [OF fs assms(2,3) s'(2)] by auto
qed

lemma incref_tree:
  assumes "tree_ok s" "sfs_pool s v = Some sv" "vn_refcount (sv_v sv) < 2 ^ 31 - 2"
  shows "\<exists>s'. edit_vn v vnode_incref s = Some s' \<and> tree_ok s' \<and> names s' = names s \<and> inodes s' = inodes s
    \<and> cnt s' = add_ref v 1 (cnt s) \<and> (\<forall>j \<in> inodes s - {rooti}. files s' j = files s j)"
proof -
  let ?sv = "sv\<lparr>sv_v := (sv_v sv)\<lparr>vn_refcount := vn_refcount (sv_v sv) + 1\<rparr>\<rparr>"
  note fs = conf_fs [OF tree_conf [OF assms(1)]]
  have so: "sv_ok s sv" using pool_okD(4) [OF fs_okD(2) [OF fs] assms(2)] .
  then have ok: "sv_ok s ?sv" using assms(3) by (auto simp: sv_ok_def vnode_ok_def)
  have "inode_wf (sv_i sv)" using fs_ok_file [OF fs assms(2)] assms(2) by (simp add: file_ok_def)
  then have st: "fs_ok (set_vnode v ?sv s) (inodes s)" "\<And>j. j \<in> inodes s \<Longrightarrow> j \<noteq> sv_ino sv \<Longrightarrow> same_inode s (set_vnode v ?sv s) j"
    "cur (set_vnode v ?sv s) (sv_ino sv) = sv_i sv"
    using fs_set_vnode [OF fs assms(2) _ ok] by simp_all
  have "same_inode s (set_vnode v ?sv s) (sv_ino sv)"
    using st(3) cur_loaded [OF fs_okD(2) [OF fs] assms(2)] by (simp add: same_inode_def set_vnode_def)
  then have sm: "\<forall>j \<in> inodes s. same_inode s (set_vnode v ?sv s) j" using st(2) by (metis (no_types))
  have P: "sfs_pool (set_vnode v ?sv s) = (sfs_pool s)(v \<mapsto> ?sv)" "used (set_vnode v ?sv s) = used s" by (simp_all add: set_vnode_def)
  have "linos (set_vnode v ?sv s) = linos s" using linos_upd [OF P(1) assms(2)] by simp
  note t = keep_tree [OF assms(1) st(1) sm P(2) this]
  have "cnt (set_vnode v ?sv s) = add_ref v 1 (cnt s)" using P(1) assms(2) by (auto simp: cnt_def add_ref_def fun_eq_iff)
  moreover have "edit_vn v vnode_incref s = Some (set_vnode v ?sv s)" using assms(2) so by (simp add: edit_vn_def sv_ok_def)
  ultimately show ?thesis using t by auto
qed

subsection \<open>Runs\<close>

text \<open>
  The calls a kernel may make on a mounted file system: directory operations on the root vnode, and operations on a
  loaded file. \<open>m\<close> is the outcome of the call, \<open>None\<close> if it panics. The arguments \<open>mem\<close> and \<open>new\<close> are the outcomes of
  the allocations and the address of a new vnode; \<open>roomy\<close> says that no count is about to overflow.
\<close>

inductive call :: "sfs_fs \<Rightarrow> sfs_fs run \<Rightarrow> bool" where
  creat: "is_root s d \<Longrightarrow> roomy s \<Longrightarrow> sfs_pool s new = None \<Longrightarrow> 0 \<notin> set name \<Longrightarrow> call s (map_option snd (sfs_creat mem new d name excl s))"
| link: "is_root s d \<Longrightarrow> sfs_pool s f = Some fv \<Longrightarrow> sv_ino fv \<noteq> rooti \<Longrightarrow> 0 \<notin> set name \<Longrightarrow> call s (map_option snd (sfs_link d name f s))"
| remove: "is_root s d \<Longrightarrow> roomy s \<Longrightarrow> sfs_pool s new = None \<Longrightarrow> call s (map_option snd (sfs_remove mem new d name s))"
| rename: "is_root s d \<Longrightarrow> roomy s \<Longrightarrow> sfs_pool s new = None \<Longrightarrow> 0 \<notin> set n2 \<Longrightarrow> call s (map_option snd (sfs_rename mem new d n1 d n2 s))"
| lookup: "is_root s d \<Longrightarrow> roomy s \<Longrightarrow> sfs_pool s new = None \<Longrightarrow> call s (map_option snd (sfs_lookup mem new d name s))"
| lookparent: "is_root s d \<Longrightarrow> roomy s \<Longrightarrow> call s (map_option snd (sfs_lookparent d name buflen s))"
| read: "sfs_pool s v = Some sv \<Longrightarrow> sv_ino sv \<noteq> rooti \<Longrightarrow> io_request cs UIO_READ off n u \<Longrightarrow> fsize s v \<le> 143 * 512
    \<Longrightarrow> call s (map_option (\<lambda>(r, s', u'). s') (sfs_read cs v (s, u)))"
| writef: "sfs_pool s v = Some sv \<Longrightarrow> sv_ino sv \<noteq> rooti \<Longrightarrow> io_request cs UIO_WRITE off n u \<Longrightarrow> fsize s v < 2 ^ 31
    \<Longrightarrow> call s (map_option (\<lambda>(r, s', u'). s') (sfs_write cs v (s, u)))"
| truncate: "sfs_pool s v = Some sv \<Longrightarrow> sv_ino sv \<noteq> rooti \<Longrightarrow> len + 512 < 2 ^ 31 \<Longrightarrow> call s (map_option snd (VOP_TRUNCATE v (int len) s))"
| fsync: "sfs_pool s v = Some sv \<Longrightarrow> call s (map_option snd (VOP_FSYNC v s))"
| stat: "sfs_pool s v = Some sv \<Longrightarrow> call s (map_option (\<lambda>_. s) (sfs_stat v s))"
| incref: "sfs_pool s v = Some sv \<Longrightarrow> roomy s \<Longrightarrow> call s (edit_vn v vnode_incref s)"
| decref: "sfs_pool s v = Some sv \<Longrightarrow> vn_opencount (sv_v sv) < vn_refcount (sv_v sv) \<Longrightarrow> call s (VOP_DECREF v s)"

inductive runs :: "sfs_fs \<Rightarrow> sfs_fs \<Rightarrow> bool" for s where
  start: "runs s s"
| step: "runs s s1 \<Longrightarrow> call s1 (Some s2) \<Longrightarrow> runs s s2"

lemma roomyD: "roomy s \<Longrightarrow> sfs_pool s v = Some sv \<Longrightarrow> vn_refcount (sv_v sv) < 2 ^ 31 - 2"
  by (auto simp: roomy_def ran_def)

lemma sfs_lookup_tree:
  assumes "tree_ok s" "roomy s" "is_root s d" "sfs_pool s new = None"
  shows "\<exists>r s'. sfs_lookup mem new d name s = Some (r, s') \<and> tree_ok s'"
proof -
  obtain r s' where r: "sfs_lookup mem new d name s = Some (r, s')" "unchanged s s'"
    "r = Err ENOENT \<and> names s name = None \<and> linos s' = linos s
       \<or> r = Err ENOMEM \<and> names s name \<noteq> None \<and> linos s' = linos s
       \<or> (\<exists>w. r = Ok w \<and> names s name = Some (fino s' w) \<and> gained_ref s w s' \<and> linos s' = insert (fino s' w) (linos s))"
    using sfs_lookup_ok [OF assms, of mem name] by (elim exE conjE) (rule that)
  from r(3) have "linos s' = linos s \<or> (\<exists>n i. names s n = Some i \<and> linos s' = insert i (linos s))"
    by (elim disjE exE conjE) auto
  then show ?thesis using r(1) unchanged_tree(1) [OF assms(1) r(2)] by blast
qed

lemma sfs_lookparent_tree:
  assumes "tree_ok s" "roomy s" "is_root s d"
  shows "\<exists>r s'. sfs_lookparent d name buflen s = Some (r, s') \<and> tree_ok s'"
proof -
  obtain sv where sv: "sfs_pool s d = Some sv" using assms(3) by (auto simp: is_root_def)
  have t: "sfi_type (sv_i sv) = SFS_TYPE_DIR"
    using base_dir(2) [OF tree_okD(1) [OF assms(1)] assms(3)] sv by (simp add: dir_ok_def)
  obtain s' where "edit_vn d vnode_incref s = Some s'" "tree_ok s'" using incref_tree [OF assms(1) sv roomyD [OF assms(2) sv]] by blast
  then show ?thesis using sv t assms(1) by (simp add: sfs_lookparent_def)
qed

lemma sfs_stat_ok:
  assumes "tree_ok s" "sfs_pool s v = Some sv"
  shows "\<exists>st. sfs_stat v s = Some st"
proof -
  note c = tree_conf [OF assms(1)]
  note so = pool_okD(4) [OF fs_okD(2) [OF conf_fs [OF c]] assms(2)]
  have "sfi_type (sv_i sv) = SFS_TYPE_FILE \<or> sfi_type (sv_i sv) = SFS_TYPE_DIR"
    using so by (auto simp: sv_ok_def vnode_ok_def vop_table_for_def split: if_splits)
  moreover obtain ops where "vop_check v ''gettype'' s = Some ops" using so assms(2) by (auto simp: vop_check_def sv_ok_def vnode_ok_def)
  ultimately show ?thesis using assms(2) by (auto simp: sfs_stat_def sfs_gettype_def)
qed

lemma call_ok:
  assumes "call s m" "tree_ok s"
  shows "\<exists>s'. m = Some s' \<and> tree_ok s'"
  using assms
proof (induction rule: call.induct)
  case (creat s d new name mem excl)
  then show ?case using sfs_creat_ok [of s d new name mem excl] by (auto simp: creat_result_def)
next
  case (link s d f fv name)
  then show ?case using sfs_link_ok [of s d f fv name] by (auto simp: link_spec_def)
next
  case (remove s d new mem name)
  then show ?case using sfs_remove_ok [of s d new mem name] by (auto simp: remove_spec_def)
next
  case (rename s d new n2 mem n1)
  then show ?case using sfs_rename_ok [of s d new n2 mem n1] by (auto simp: rename_spec_def)
next
  case (lookup s d new mem name)
  then show ?case using sfs_lookup_tree [of s d new mem name] by auto
next
  case (lookparent s d name buflen)
  then show ?case using sfs_lookparent_tree [of s d name buflen] by auto
next
  case (read s v sv cs off n u)
  note f = tree_file [OF read.prems read.hyps(1,2)]
  obtain s' where s': "sfs_read cs v (s, u) = Some (Ok (), s', uio_fill (spec_read off n (file_of s v)) u)" "dev_moves s (disk s) s'"
    using sfs_read_eq [OF f(1,2) read.hyps(3,4)] by blast
  note m = dev_moves_file [OF f(1,2) s'(2)]
  show ?case using s'(1) file_tree(1) [OF read.prems read.hyps(1,2), of s'] m by simp
next
  case (writef s v sv cs off n u)
  note f = tree_file [OF writef.prems writef.hyps(1,2)]
  have u: "uio_rw u = UIO_WRITE" "uio_offset u = int off" "uio_resid u = n" "uio_ready cs u n" using writef.hyps(3) by (simp_all add: io_request_def)
  obtain r k s' where s': "sfs_io cs v (s, u) = Some (r, s', uio_advance k u)" "vstep v s s'"
    using sfs_io_write [OF f(1,2) u writef.hyps(4)] by blast
  then show ?case using file_tree(1) [OF writef.prems writef.hyps(1,2) s'(2)] u(1) by (simp add: sfs_write_def)
next
  case (truncate s v sv len)
  note f = tree_file [OF truncate.prems truncate.hyps(1,2)]
  obtain s' where s': "sfs_truncate v (int len) s = Some (Ok (), s')" "vstep v s s'"
    using sfs_truncate_ok [OF f(1,2) truncate.hyps(3) refl] by blast
  then show ?case using file_tree(1) [OF truncate.prems truncate.hyps(1,2) s'(2)] f(3) by (simp add: VOP_TRUNCATE_def)
next
  case (fsync s v sv)
  then show ?case using VOP_FSYNC_ok [of s v sv] by auto
next
  case (stat s v sv)
  then show ?case using sfs_stat_ok [of s v sv] by auto
next
  case (incref s v sv)
  then show ?case using incref_tree [of s v sv] roomyD [of s v sv] by auto
next
  case (decref s v sv)
  then show ?case using VOP_DECREF_tree [of s v sv] by auto
qed

lemma runs_tree: "runs s s' \<Longrightarrow> tree_ok s \<Longrightarrow> tree_ok s'"
  by (induction rule: runs.induct) (use call_ok in fastforce)+

subsection \<open>A directory linked into itself\<close>

lemma roomy_cnt:
  assumes "roomy s" "cnt s' = cnt s" "sfs_vnodes s' = sfs_vnodes s"
  shows "roomy s'"
proof -
  have "fst (cnt s v) < 2 ^ 31 - 2" for v using roomyD [OF assms(1), of v] by (cases "sfs_pool s v") (simp_all add: cnt_def)
  then have c: "fst (cnt s' v) < 2 ^ 31 - 2" for v using assms(2) by simp
  have "vn_refcount (sv_v sv) < 2 ^ 31 - 2" if "sfs_pool s' v = Some sv" for v sv using c [of v] that by (simp add: cnt_def)
  then show ?thesis using assms(1,3) by (auto simp: roomy_def ran_def)
qed

lemma rename_self_panics:
  assumes "fs_ok s I" "roomy s" "is_root s d" "dir_ok s d" "slot_of name (dents s d) = Some k" "sfd_ino (dents s d ! k) = rooti"
  shows "sfs_rename mem new d name d n2 s = None"
proof -
  note sp = fs_okD(1) [OF assms(1)]
  obtain sv where sv: "sfs_pool s d = Some sv" "sv_ino sv = rooti" using assms(3) by (auto simp: is_root_def)
  obtain e s1 where s1: "sfs_dir_findname d name s = Some (Ok (Some (rooti, k), e), s1)" "dev_moves s (disk s) s1"
    using sfs_dir_findname_ok [OF sp assms(4), of name] assms(5,6) by (auto simp: slot_ino_def)
  note m = fs_dev_moves [OF assms(1) s1(2)]
  have "roomy s1" using assms(2) m(3,4) by (simp add: roomy_def)
  moreover have "vnode_of s1 rooti = Some d" using vnode_of_Some [OF fs_okD(2) [OF m(1)], of rooti d] m(3) sv by simp
  ultimately obtain s2 where s2: "sfs_loadvnode mem new rooti SFS_TYPE_INVAL s1 = Some (Ok d, s2)" "load_result s1 I rooti (Ok d) s2"
    using sfs_loadvnode_hit [OF m(1)] by blast
  obtain sv2 where sv2: "sfs_pool s2 d = Some sv2" "sv_i sv2 = sv_i sv"
    using s2(2) m(3) sv(1) by (auto simp: load_result_def gained_ref_def)
  have "sfi_type (sv_i sv2) = SFS_TYPE_DIR" using assms(4) sv(1) sv2(2) by (simp add: dir_ok_def)
  then show ?thesis using sv s1(1) s2(1) sv2(1) by (cases "sfi_linkcount (sv_i sv2) = 0") (simp_all add: sfs_rename_def sfs_lookonce_def)
qed

lemma link_self:
  assumes "tree_ok s" "is_root s d" "0 \<notin> set name" "names s name = None" "length name < 60" "length (rdents s) < 1144" "145 \<le> nfree s" "roomy s"
  shows "\<exists>s' k. sfs_link d name d s = Some (Ok (), s') \<and> fs_ok s' (inodes s) \<and> roomy s' \<and> is_root s' d \<and> dir_ok s' d
    \<and> slot_of name (dents s' d) = Some k \<and> sfd_ino (dents s' d ! k) = rooti"
proof -
  note c = tree_conf [OF assms(1)]
  obtain sv where sv: "sfs_pool s d = Some sv" "sv_ino sv = rooti" using assms(2) by (auto simp: is_root_def)
  obtain slot s1 where s1: "sfs_dir_link d name rooti s = Some (Ok slot, s1)" "vstep d s s1"
    "conf s1 (inodes s) ((names s)(name \<mapsto> rooti)) (nlinks (names s)) (files s) (unowned s (inodes s))"
    using link_conf [OF c assms(2,3), of rooti] assms(4-7) baseD(2) [OF confD(1) [OF c]] by auto
  note v = vstep_linos [OF sv(1) s1(2)]
  have r1: "is_root s1 d" using v(2) assms(2) by simp
  obtain sv1 where sv1: "sfs_pool s1 d = Some sv1" "sv_ino sv1 = rooti" using r1 by (auto simp: is_root_def)
  let ?sv = "sv1\<lparr>sv_i := (sv_i sv1)\<lparr>sfi_linkcount := (sfi_linkcount (sv_i sv1) + 1) mod 2 ^ 16\<rparr>, sv_dirty := True\<rparr>"
  define s' where "s' = set_vnode d ?sv s1"
  note fs1 = conf_fs [OF s1(3)] and b1 = base_dir [OF confD(1) [OF s1(3)] r1]
  have "sv_ok s1 ?sv" using pool_okD(4) [OF fs_okD(2) [OF fs1] sv1(1)] by (simp add: sv_ok_def)
  moreover have "inode_wf (sv_i ?sv)" using fs_ok_file [OF fs1 sv1(1)] sv1(1) by (simp add: file_ok_def inode_wf_def)
  ultimately have fs': "fs_ok s' (inodes s)" using fs_set_vnode(1) [OF fs1 sv1(1), of ?sv] sv1(1) by (simp add: s'_def)
  have f: "sfs_pool s' = (sfs_pool s1)(d \<mapsto> ?sv)" "disk s' = disk s1" "sfs_vnodes s' = sfs_vnodes s1" by (simp_all add: s'_def set_vnode_def)
  have r': "is_root s' d" using f(1) sv1(2) by (simp add: is_root_def)
  have dn: "dents s' d = dents s1 d" using f sv1(1) by (simp add: dents_def)
  then have "dir_ok s' d" using b1(2) fs_ok_file [OF fs', of d ?sv] f(1) sv1(1) by (simp add: dir_ok_def)
  moreover have "roomy s'"
    using roomy_cnt [OF assms(8)] cnt_upd [OF f(1) sv1(1)] cnt_vstep [OF sv(1) s1(2)] f(3) vstep_fields(4) [OF s1(2)] by simp
  moreover have "sfs_link d name d s = Some (Ok (), s')" using sv s1(1) sv1(1) by (simp add: sfs_link_def edit_inode_def s'_def)
  moreover have "\<exists>k. slot_of name (dents s' d) = Some k \<and> sfd_ino (dents s' d ! k) = rooti"
    using confD(2) [OF s1(3)] b1(3) dn by (auto simp: names_def dir_map_def fun_eq_iff split: if_splits)
  ultimately show ?thesis using fs' r' by blast
qed

subsection \<open>A file system for the witnesses\<close>

definition sample_root :: sfs_fs where
  "sample_root = sample_fs\<lparr>sfs_superdirty := True, sfs_pool := [100 \<mapsto> sample_vnode\<lparr>sv_ino := 1, sv_i := sample_inode\<lparr>sfi_type := SFS_TYPE_DIR\<rparr>,
     sv_v := (sv_v sample_vnode)\<lparr>vn_ops := Some Sfs_dirops\<rparr>\<rparr>]\<rparr>"

lemma sample_root_ok: "tree_ok sample_root" "roomy sample_root" "is_root sample_root 100" "names sample_root = Map.empty" "rdents sample_root = []"
proof -
  let ?s = sample_root
  let ?sv = "sample_vnode\<lparr>sv_ino := 1, sv_i := sample_inode\<lparr>sfi_type := SFS_TYPE_DIR\<rparr>, sv_v := (sv_v sample_vnode)\<lparr>vn_ops := Some Sfs_dirops\<rparr>\<rparr>"
  have P: "sfs_pool ?s = [100 \<mapsto> ?sv]" "sfs_vnodes ?s = \<lparr>anum = 1, amax = 1, av = Some [Some 100]\<rparr>" "used ?s = used sample_fs"
    "sysblocks ?s = {0, 2}" "nblk ?s = 512" "disk ?s = disk sample_fs"
    using sample_sys by (simp_all add: sample_root_def sysblocks_def) (simp_all add: sample_fs_def)
  have sp: "space_ok ?s" using sample_fs_ok(1) by (simp add: sample_root_def space_ok_def dev_good_def sysblocks_def)
  have sv: "sv_ok ?s ?sv"
    by (simp add: sv_ok_def vnode_ok_def sample_vnode_def sample_inode_def vop_table_for_def sfs_absfs_def)
  have "loaded ?s = [100]" "array_ok (sfs_vnodes ?s)" using P(2) by (simp_all add: a_list_def array_ok_def block_def)
  then have pool: "pool_ok ?s" using P(1) sv by (simp add: pool_ok_def)
  have c: "cur ?s 1 = sv_i ?sv" using cur_loaded [OF pool, of 100 ?sv] P(1) by simp
  have o: "iown ?s 1 = [1]" using c by (simp add: own_def slots_def fmap_def id_words_def sample_inode_def)
  have io: "inode_ok ?s 1"
    using c o P sample_marked by (simp add: inode_ok_def inode_wf_def sample_inode_def vop_table_for_def)
  moreover have "meta_ok ?s"
    by (simp add: meta_ok_def sample_root_def sample_fs_def super_wf_def SFS_BITBLOCKS_def SFS_BITMAPSIZE_def SFS_ROUNDUP_def SFS_MAGIC_def)
  ultimately have fs: "fs_ok ?s {1}" using sp pool P(1) by (simp add: fs_ok_def)
  show rd: "rdents ?s = []" using c by (simp add: rdents_def sample_inode_def)
  then show nm: "names ?s = Map.empty" by (simp add: names_def dir_map_def slot_of_def fun_eq_iff)
  show ir: "is_root ?s 100" using P(1) by (simp add: is_root_def)
  have "root_ok ?s" using c rd by (simp add: root_ok_def sample_inode_def names_ok_def)
  moreover have "inodes ?s = {1}" using nm P(1) by (simp add: inodes_def linos_def)
  ultimately show "tree_ok ?s" using fs nm by (simp add: tree_ok_def base_def)
  show "roomy ?s" using P(1,2) by (simp add: roomy_def sample_vnode_def)
qed

lemma sample_root_free: "nfree sample_root = 508"
  using sample_free by (simp add: nfree_def sample_root_def)

subsection \<open>Properties\<close>



text \<open>
  C6. \<^verbatim>\<open>sfs_creat\<close> refines the creation of a name. For a new name it adds exactly that name, for an inode that no
  name or vnode had before, with size 0 and all bytes zero; for a name that exists, it returns that file's vnode, or
  fails with \<^const>\<open>EEXIST\<close> if creation is exclusive. All files keep their contents, and only the reference count of the
  returned vnode changes. Every error is reported in its own circumstances and changes neither names nor files nor
  counts; blocks are lost only, one at a time, when memory runs out after the inode was allocated.
\<close>

theorem sfs_creat_refines:
  assumes "tree_ok s" "roomy s" "is_root s d" "sfs_pool s new = None" "0 \<notin> set name"
  shows "\<exists>r s'. sfs_creat mem new d name excl s = Some (r, s') \<and> creat_result s name excl r s'"
  by (rule sfs_creat_ok [OF assms])

theorem sfs_creat_refines_witness:
  "\<exists>r s'. sfs_creat (\<lambda>_. True) 200 100 [97, 98] True sample_root = Some (r, s') \<and> creat_result sample_root [97, 98] True r s'"
proof -
  have "sfs_pool sample_root 200 = None" by (simp add: sample_root_def)
  from sfs_creat_refines [OF sample_root_ok(1,2,3) this, of "[97, 98]"] show ?thesis by simp
qed

text \<open>
  C7. \<^verbatim>\<open>sfs_remove\<close> removes exactly the given name, or fails with \<^const>\<open>ENOENT\<close> because there is none. Every other file
  keeps its names and contents; the removed one is erased and its blocks are released only when no other name and no
  loaded vnode refers to it. No reference count changes, and no block is lost.
\<close>

theorem sfs_remove_refines:
  assumes "tree_ok s" "roomy s" "is_root s d" "sfs_pool s new = None"
  shows "\<exists>r s'. sfs_remove mem new d name s = Some (r, s') \<and> remove_spec s name r s'"
  by (rule sfs_remove_ok [OF assms])

theorem sfs_remove_refines_witness:
  "\<exists>r s'. sfs_remove (\<lambda>_. True) 200 100 [97] sample_root = Some (r, s') \<and> remove_spec sample_root [97] r s'"
proof -
  have "sfs_pool sample_root 200 = None" by (simp add: sample_root_def)
  from sfs_remove_refines [OF sample_root_ok(1,2,3) this] show ?thesis by simp
qed

text \<open>
  C8. \<^verbatim>\<open>sfs_rename\<close> moves exactly one name to a free one, and never replaces an existing file; on every error the
  names are as before. Contents, link counts, reference counts and allocated blocks do not change.
\<close>

theorem sfs_rename_refines:
  assumes "tree_ok s" "roomy s" "is_root s d" "sfs_pool s new = None" "0 \<notin> set n2"
  shows "\<exists>r s'. sfs_rename mem new d n1 d n2 s = Some (r, s') \<and> rename_spec s n1 n2 r s'"
  by (rule sfs_rename_ok [OF assms])

theorem sfs_rename_refines_witness:
  "\<exists>r s'. sfs_rename (\<lambda>_. True) 200 100 [97] 100 [98] sample_root = Some (r, s') \<and> rename_spec sample_root [97] [98] r s'"
proof -
  have "sfs_pool sample_root 200 = None" by (simp add: sample_root_def)
  from sfs_rename_refines [OF sample_root_ok(1,2,3) this, of "[98]"] show ?thesis by simp
qed

text \<open>
  C40. \<^verbatim>\<open>sfs_link\<close> does not check that its argument is a regular file: given the root directory itself, it enters the
  directory under a name of its own (with enough free blocks it cannot fail), and renaming that name then fails an
  assertion of \<^verbatim>\<open>sfs_rename\<close> and panics the kernel.
\<close>

theorem sfs_link_directory_panics:
  assumes "tree_ok s" "roomy s" "is_root s d" "0 \<notin> set name" "names s name = None" "length name < 60" "length (rdents s) < 1144"
    "145 \<le> nfree s"
  shows "\<exists>s'. sfs_link d name d s = Some (Ok (), s') \<and> (\<forall>mem new n2. sfs_rename mem new d name d n2 s' = None)"
proof -
  obtain s' k where s': "sfs_link d name d s = Some (Ok (), s')" "fs_ok s' (inodes s)" "roomy s'" "is_root s' d" "dir_ok s' d"
    "slot_of name (dents s' d) = Some k" "sfd_ino (dents s' d ! k) = rooti"
    using link_self [OF assms(1,3-8,2)] by (elim exE conjE) (rule that)
  show ?thesis using s'(1) rename_self_panics [OF s'(2-7)] by blast
qed

theorem sfs_link_directory_panics_witness:
  "\<exists>s'. sfs_link 100 [97] 100 sample_root = Some (Ok (), s') \<and> sfs_rename (\<lambda>_. True) 200 100 [97] 100 [98] s' = None"
  using sfs_link_directory_panics [OF sample_root_ok(1,2,3), of "[97]"] by (auto simp: sample_root_ok(4,5) sample_root_free)

end
