(* ===== verification/SfsFs.thy ===== *)
theory SfsFs
  imports SfsTree
begin

section \<open>Mounting, syncing and unmounting an SFS (\<^verbatim>\<open>kern/fs/sfs/sfs_fs.c\<close>)\<close>

text \<open>
  The file-system level operations, and \<^verbatim>\<open>sfs_getroot\<close>. The fresh memory of \<^verbatim>\<open>kmalloc\<close> that \<^verbatim>\<open>sfs_domount\<close> fills in is an argument
  (\<open>junk\<close>); the abstract file system structure with its function pointers is not represented. The lemmas show
  that a sync makes the disk hold everything the mounted file system knows, so that mounting it again gives the same
  names, files and free blocks.
\<close>

fun mapio_loop :: "uio_rw \<Rightarrow> nat list \<Rightarrow> sfs_fs \<Rightarrow> (unit res \<times> sfs_fs) run" where
  "mapio_loop rw [] s = Some (Ok (), s)"
| "mapio_loop rw (j # js) s = do {
     let bitdata = bitmap_getdata (sfs_freemap s);
     kassert (512 * j + 512 \<le> length bitdata);
     if rw = UIO_READ then
       if_ok (sfs_rblock (SFS_MAP_LOCATION + j) s) (\<lambda>data s.
         mapio_loop rw js (s\<lparr>sfs_freemap := (sfs_freemap s)\<lparr>bm_v := take (512 * j) bitdata @ data @ drop (512 * j + 512) bitdata\<rparr>\<rparr>))
     else
       if_ok (sfs_wblock (map_block (sfs_freemap s) j) (SFS_MAP_LOCATION + j) s) (\<lambda>_ s. mapio_loop rw js s)
   }"

definition sfs_mapio :: "uio_rw \<Rightarrow> sfs_fs \<Rightarrow> (unit res \<times> sfs_fs) run" where
  "sfs_mapio rw s = mapio_loop rw [0..<SFS_BITBLOCKS (nblk s)] s"

text \<open>The loop over the loaded vnodes in \<^verbatim>\<open>sfs_sync\<close>, which ignores the results of \<^verbatim>\<open>VOP_FSYNC\<close>.\<close>

fun sync_vnodes :: "nat list \<Rightarrow> sfs_fs \<Rightarrow> sfs_fs run" where
  "sync_vnodes [] s = Some s"
| "sync_vnodes (i # is) s = do {
     v \<leftarrow> array_getguy (sfs_vnodes s) (int i);
     (_, s) \<leftarrow> VOP_FSYNC v s;
     sync_vnodes is s
   }"

definition sfs_sync :: "sfs_fs \<Rightarrow> (unit res \<times> sfs_fs) run" where
  "sfs_sync s = do {
     s \<leftarrow> sync_vnodes [0..<nat (array_getnum (sfs_vnodes s))] s;
     if_ok (if sfs_freemapdirty s
            then if_ok (sfs_mapio UIO_WRITE s) (\<lambda>_ s. Some (Ok (), s\<lparr>sfs_freemapdirty := False\<rparr>))
            else Some (Ok (), s)) (\<lambda>_ s.
       if sfs_superdirty s
       then if_ok (sfs_wblock (super_bytes (sfs_super s)) SFS_SB_LOCATION s) (\<lambda>_ s. Some (Ok (), s\<lparr>sfs_superdirty := False\<rparr>))
       else Some (Ok (), s))
   }"

definition sfs_getvolname :: "sfs_fs \<Rightarrow> byte list" where
  "sfs_getvolname s = takeWhile (\<lambda>c. c \<noteq> 0) (sp_volname (sfs_super s))"

text \<open>The result has the device and, unless it was destroyed, the file system.\<close>

definition sfs_unmount :: "sfs_fs \<Rightarrow> (unit res \<times> lhd_softc \<times> sfs_fs ptr) run" where
  "sfs_unmount s =
     (if array_getnum (sfs_vnodes s) > 0 then Some (Err EBUSY, sfs_device s, Some s)
      else do {
        kassert (\<not> sfs_superdirty s);
        kassert (\<not> sfs_freemapdirty s);
        Some (Ok (), sfs_device s, NULL)
      })"

definition sizeof_sfs_fs :: nat where "sizeof_sfs_fs = 552"
definition sizeof_array :: nat where "sizeof_array = 12"
definition sizeof_bitmap :: nat where "sizeof_bitmap = 8"

definition sfs_domount :: "(nat \<Rightarrow> bool) \<Rightarrow> sfs_fs \<Rightarrow> lhd_softc \<Rightarrow> (sfs_fs res \<times> lhd_softc) run" where
  "sfs_domount mem junk dev = do {
     kassert (SFS_BLOCKSIZE mod sizeof_sfs_dir = 0);
     if d_blocksize dev \<noteq> SFS_BLOCKSIZE then Some (Err ENXIO, dev)
     else if \<not> mem sizeof_sfs_fs then Some (Err ENOMEM, dev)
     else (case array_create (mem sizeof_array) of
       None \<Rightarrow> Some (Err ENOMEM, dev)
     | Some vs \<Rightarrow> do {
         let s = junk\<lparr>sfs_vnodes := vs, sfs_pool := (\<lambda>_. None), sfs_device := dev\<rparr>;
         (r, s) \<leftarrow> sfs_rblock SFS_SB_LOCATION s;
         case r of
           Inl e \<Rightarrow> Some (Err e, sfs_device s)
         | Inr data \<Rightarrow>
             if sp_magic (bytes_super data) \<noteq> SFS_MAGIC then Some (Err EINVAL, sfs_device s)
             else do {
               let s = s\<lparr>sfs_super := load_super data\<rparr>;
               bm \<leftarrow> bitmap_create (mem sizeof_bitmap) (mem (DIVROUNDUP (SFS_BITMAPSIZE (nblk s)) BITS_PER_WORD)) (SFS_BITMAPSIZE (nblk s));
               case bm of
                 None \<Rightarrow> Some (Err ENOMEM, sfs_device s)
               | Some bm \<Rightarrow> do {
                   (r, s) \<leftarrow> sfs_mapio UIO_READ (s\<lparr>sfs_freemap := bm\<rparr>);
                   case r of
                     Inl e \<Rightarrow> Some (Err e, sfs_device s)
                   | Inr _ \<Rightarrow> let s = s\<lparr>sfs_superdirty := False, sfs_freemapdirty := False\<rparr> in Some (Ok s, sfs_device s)
                 }
             }
       })
   }"

definition sfs_getroot :: "(nat \<Rightarrow> bool) \<Rightarrow> nat \<Rightarrow> sfs_fs \<Rightarrow> (nat \<times> sfs_fs) run" where
  "sfs_getroot mem new s = do {
     (r, s) \<leftarrow> sfs_loadvnode mem new SFS_ROOT_LOCATION SFS_TYPE_INVAL s;
     case r of Inl _ \<Rightarrow> panic | Inr v \<Rightarrow> Some (v, s)
   }"

subsection \<open>The free map on disk\<close>

lemma bitblocks:
  assumes "n < 2 ^ 22"
  shows "SFS_BITMAPSIZE n = 4096 * SFS_BITBLOCKS n" "SFS_BITMAPSIZE n < 2 ^ 23" "n \<le> SFS_BITMAPSIZE n"
  using assms by (simp_all add: SFS_BITBLOCKS_def SFS_BITMAPSIZE_def SFS_ROUNDUP_def)

lemma map_length:
  assumes "meta_ok s" "space_ok s"
  shows "length (bm_v (sfs_freemap s)) = 512 * SFS_BITBLOCKS (nblk s)"
proof -
  have n: "nblk s < 2 ^ 22" using assms(2) by (auto simp: space_ok_def dest: dev_goodD(2))
  have "length (bm_v (sfs_freemap s)) = DIVROUNDUP (4096 * SFS_BITBLOCKS (nblk s)) 8"
    using assms bitblocks(1) [OF n] by (simp add: meta_ok_def space_ok_def bitmap_ok_def)
  then show ?thesis using bitblocks(1,2) [OF n] by (simp add: DIVROUNDUP_8)
qed

lemma mapio_write:
  assumes "dev_good s" "\<And>j. j \<in> set js \<Longrightarrow> 512 * j + 512 \<le> length (bm_v (sfs_freemap s)) \<and> 2 + j < d_blocks (sfs_device s)"
  shows "\<exists>s'. mapio_loop UIO_WRITE js s = Some (Ok (), s')
    \<and> dev_moves s (\<lambda>b. if b \<in> (+) 2 ` set js then map_block (sfs_freemap s) (b - 2) else disk s b) s'"
  using assms
proof (induction js arbitrary: s)
  case Nil
  then show ?case using dev_moves_refl by auto
next
  case (Cons j js)
  let ?b = "map_block (sfs_freemap s) j"
  have j: "512 * j + 512 \<le> length (bm_v (sfs_freemap s))" "2 + j < d_blocks (sfs_device s)" using Cons.prems(2) by simp_all
  then have "length ?b = 512" by (simp add: map_block_def)
  then obtain s1 where s1: "sfs_wblock ?b (2 + j) s = Some (Ok (), s1)" "dev_moves s ((disk s)(2 + j := ?b)) s1"
    using sfs_wblock_ok [OF Cons.prems(1) j(2)] by blast
  note f = dev_moves_fields [OF s1(2)]
  obtain s' where s': "mapio_loop UIO_WRITE js s1 = Some (Ok (), s')"
    "dev_moves s1 (\<lambda>b. if b \<in> (+) 2 ` set js then map_block (sfs_freemap s1) (b - 2) else disk s1 b) s'"
    using Cons.IH [of s1] Cons.prems(2) f by auto
  have "(\<lambda>b. if b \<in> (+) 2 ` set js then map_block (sfs_freemap s1) (b - 2) else disk s1 b)
      = (\<lambda>b. if b \<in> (+) 2 ` set (j # js) then map_block (sfs_freemap s) (b - 2) else disk s b)"
    using f by (auto simp: fun_eq_iff)
  then show ?case using s1(1) s'(1) j(1) dev_moves_trans [OF s1(2) s'(2)] by (simp add: bitmap_getdata_def)
qed

lemma mapio_read:
  assumes "dev_good s" "2 + n \<le> d_blocks (sfs_device s)" "length (bm_v (sfs_freemap s)) = 512 * n" "k \<le> n"
  shows "\<exists>s1. dev_moves s (disk s) s1 \<and> mapio_loop UIO_READ [k..<n] s
    = Some (Ok (), s1\<lparr>sfs_freemap := (sfs_freemap s)\<lparr>bm_v := take (512 * k) (bm_v (sfs_freemap s)) @ concat (map (\<lambda>j. disk s (2 + j)) [k..<n])\<rparr>\<rparr>)"
  using assms
proof (induction "n - k" arbitrary: s k)
  case 0
  then have "take (512 * k) (bm_v (sfs_freemap s)) = bm_v (sfs_freemap s)" "[k..<n] = []" by simp_all
  then show ?case using dev_moves_refl [OF 0(2)] by auto
next
  case (Suc d)
  then have k: "k < n" by simp
  let ?v = "bm_v (sfs_freemap s)"
  have "2 + k < d_blocks (sfs_device s)" using Suc.prems(2) k by simp
  then obtain s1 where s1: "sfs_rblock (2 + k) s = Some (Ok (disk s (2 + k)), s1)" "dev_moves s (disk s) s1"
    using sfs_rblock_ok [OF Suc.prems(1)] by blast
  note f = dev_moves_fields [OF s1(2)]
  define v1 where "v1 = take (512 * k) ?v @ disk s (2 + k) @ drop (512 * k + 512) ?v"
  define t where "t = s1\<lparr>sfs_freemap := (sfs_freemap s1)\<lparr>bm_v := v1\<rparr>\<rparr>"
  have l: "length (disk s (2 + k)) = 512" "512 * k + 512 \<le> length ?v" using dev_goodD(1) [OF Suc.prems(1)] Suc.prems(3) k by simp_all
  then have l1: "length v1 = 512 * n" "take (512 * Suc k) v1 = take (512 * k) ?v @ disk s (2 + k)"
    using Suc.prems(3) by (simp_all add: v1_def)
  have t: "dev_good t" "disk t = disk s" "d_blocks (sfs_device t) = d_blocks (sfs_device s)" "bm_v (sfs_freemap t) = v1"
    "(sfs_freemap t)\<lparr>bm_v := x\<rparr> = (sfs_freemap s)\<lparr>bm_v := x\<rparr>" for x using f by (simp_all add: dev_good_def t_def)
  have d: "d = n - Suc k" using Suc.hyps(2) by simp
  obtain s2 where s2: "dev_moves t (disk t) s2" "mapio_loop UIO_READ [Suc k..<n] t
    = Some (Ok (), s2\<lparr>sfs_freemap := (sfs_freemap t)\<lparr>bm_v := take (512 * Suc k) (bm_v (sfs_freemap t)) @ concat (map (\<lambda>j. disk t (2 + j)) [Suc k..<n])\<rparr>\<rparr>)"
    using Suc.hyps(1) [OF d t(1)] Suc.prems(2) l1(1) k t(3,4) by auto
  define s3 where "s3 = s2\<lparr>sfs_freemap := sfs_freemap s\<rparr>"
  have "dev_moves s (disk s) s3"
    using s2(1) f s1(2) by (auto simp: dev_moves_def s3_def t_def)
  moreover have "[k..<n] = k # [Suc k..<n]" using k by (simp add: upt_conv_Cons)
  moreover have "mapio_loop UIO_READ (k # [Suc k..<n]) s = mapio_loop UIO_READ [Suc k..<n] t"
    using s1(1) l(2) f by (simp add: bitmap_getdata_def t_def v1_def Let_def)
  ultimately show ?case using s2(2) l1(2) unfolding t(2,4,5) by (intro exI [of _ s3]) (simp add: s3_def)
qed

lemma map_blocks:
  assumes "length xs = 512 * n"
  shows "concat (map (\<lambda>j. take 512 (drop (512 * j) xs)) [0..<n]) = xs"
  using assms
proof (induction n arbitrary: xs)
  case (Suc n)
  have e: "take 512 (drop (512 * j) (take (512 * n) xs)) = take 512 (drop (512 * j) xs)" if "j < n" for j
  proof -
    have "512 \<le> 512 * n - 512 * j" using that by linarith
    then show ?thesis by (simp add: drop_take min_def)
  qed
  have "concat (map (\<lambda>j. take 512 (drop (512 * j) (take (512 * n) xs))) [0..<n]) = take (512 * n) xs"
    by (rule Suc.IH) (simp add: Suc.prems)
  moreover have "map (\<lambda>j. take 512 (drop (512 * j) (take (512 * n) xs))) [0..<n] = map (\<lambda>j. take 512 (drop (512 * j) xs)) [0..<n]"
    using e by simp
  ultimately show ?case using Suc.prems by simp
qed simp

subsection \<open>Syncing\<close>

lemma fs_sys_write:
  assumes "fs_ok s I" "space_ok s'" "meta_ok s'" "sfs_pool s' = sfs_pool s" "sfs_vnodes s' = sfs_vnodes s" "sfs_super s' = sfs_super s"
    "used s' = used s" "\<And>b. b \<notin> sysblocks s \<Longrightarrow> disk s' b = disk s b"
  shows "fs_ok s' I" "j \<in> I \<Longrightarrow> same_inode s s' j"
proof -
  note p = fs_okD(2) [OF assms(1)]
  have n: "disk s' b = disk s b" if "j \<in> I" "b \<in> set (iown s j)" for j b
    using fs_okD(4) [OF assms(1) that(1)] that(2) assms(8) by (auto simp: inode_ok_def)
  have sub: "fino s ` dom (sfs_pool s) \<subseteq> I" using assms(1) by (simp add: fs_ok_def)
  have "sv_ok s' sv" if "sv \<in> ran (sfs_pool s)" for sv
  proof -
    obtain v where v: "sfs_pool s v = Some sv" using \<open>sv \<in> ran (sfs_pool s)\<close> by (auto simp: ran_def)
    have "disk s' (sv_ino sv) = disk s (sv_ino sv)" using n fs_okD(3) [OF assms(1) v] inode_ok_used(4) [OF assms(1)] by blast
    then show ?thesis using pool_okD(4) [OF p v] by (simp add: sv_ok_def)
  qed
  then have p': "pool_ok s'" using p assms(4,5) by (simp add: pool_ok_def)
  have "vnode_of s' j = vnode_of s j" for j using assms(4,5) by (simp add: vnode_of_def)
  then have cu: "cur s' j = cur s j" if "j \<in> I" for j
    using n [OF that inode_ok_used(4) [OF assms(1) that]] assms(4) by (simp add: cur_def split: option.split)
  show same: "same_inode s s' j" if "j \<in> I" for j by (rule same_inodeI [OF assms(1) that cu [OF that] n [OF that]])
  show "fs_ok s' I"
    using fs_ok_change [OF assms(1,2) p', of I "{}"] sub same assms(3,4,6,7) inode_ok_used(5) [OF assms(1)] by simp
qed

text \<open>The effect of writing back the vnodes in \<open>V\<close>.\<close>

definition cleaned :: "sfs_fs \<Rightarrow> nat set \<Rightarrow> nat set \<Rightarrow> sfs_fs \<Rightarrow> bool" where
  "cleaned s I V s' \<longleftrightarrow> fs_ok s' I \<and> (\<forall>j \<in> I. same_inode s s' j) \<and> used s' = used s \<and> sfs_super s' = sfs_super s \<and> sfs_vnodes s' = sfs_vnodes s
     \<and> sfs_pool s' = (\<lambda>v. if v \<in> V then map_option (\<lambda>sv. sv\<lparr>sv_dirty := False\<rparr>) (sfs_pool s v) else sfs_pool s v)"

lemma sync_vnodes_ok:
  assumes "fs_ok s I" "set is \<subseteq> {..<length (loaded s)}"
  shows "\<exists>s'. sync_vnodes is s = Some s' \<and> cleaned s I ((!) (loaded s) ` set is) s'"
  using assms
proof (induction "is" arbitrary: s)
  case Nil
  then show ?case by (simp add: cleaned_def)
next
  case (Cons i js)
  note p = fs_okD(2) [OF Cons.prems(1)]
  let ?v = "loaded s ! i"
  have i: "i < length (loaded s)" using Cons.prems(2) by simp
  then obtain sv where sv: "sfs_pool s ?v = Some sv" using pool_okD(3) [OF p] nth_mem by (metis domD)
  have g: "array_getguy (sfs_vnodes s) (int i) = Some ?v" using array_getguy_eq [OF pool_okD(1) [OF p], of "int i"] i by simp
  obtain s1 where s1: "sfs_sync_inode ?v s = Some (Ok (), s1)" "fs_ok s1 I" "\<forall>j \<in> I. same_inode s s1 j"
    "sfs_pool s1 = (sfs_pool s)(?v \<mapsto> sv\<lparr>sv_dirty := False\<rparr>)" "used s1 = used s" "sfs_super s1 = sfs_super s" "sfs_vnodes s1 = sfs_vnodes s"
    using fs_sync_inode [OF Cons.prems(1) sv] by (elim exE conjE) (rule that)
  obtain ops where "vop_check ?v ''fsync'' s = Some ops"
    using pool_okD(4) [OF p sv] sv by (auto simp: vop_check_def sv_ok_def vnode_ok_def)
  then have f: "VOP_FSYNC ?v s = Some (Ok (), s1)" using s1(1) by (simp add: VOP_FSYNC_def sfs_fsync_def)
  obtain s' where s': "sync_vnodes js s1 = Some s'" "cleaned s1 I ((!) (loaded s1) ` set js) s'"
    using Cons.IH [OF s1(2)] Cons.prems(2) s1(7) by auto
  have "sfs_pool s' = (\<lambda>v. if v \<in> (!) (loaded s) ` set (i # js) then map_option (\<lambda>sv. sv\<lparr>sv_dirty := False\<rparr>) (sfs_pool s v) else sfs_pool s v)"
    using s'(2) s1(4,7) sv by (auto simp: cleaned_def fun_eq_iff)
  moreover have "\<forall>j \<in> I. same_inode s s' j" using s'(2) s1(3) same_inode_trans unfolding cleaned_def by blast
  ultimately have "cleaned s I ((!) (loaded s) ` set (i # js)) s'" using s'(2) s1(5-7) unfolding cleaned_def by simp
  then show ?case using g f s'(1) by simp
qed

text \<open>Only system blocks and the dirty flags change.\<close>

definition sys_step :: "sfs_fs \<Rightarrow> nat set \<Rightarrow> sfs_fs \<Rightarrow> bool" where
  "sys_step s I s' \<longleftrightarrow> fs_ok s' I \<and> (\<forall>j \<in> I. same_inode s s' j) \<and> used s' = used s \<and> sfs_super s' = sfs_super s \<and> sfs_vnodes s' = sfs_vnodes s
     \<and> sfs_pool s' = sfs_pool s"

lemma sys_step_refl: "fs_ok s I \<Longrightarrow> sys_step s I s"
  by (simp add: sys_step_def)

lemma sys_step_trans: "sys_step s I s1 \<Longrightarrow> sys_step s1 I s2 \<Longrightarrow> sys_step s I s2"
  unfolding sys_step_def using same_inode_trans by (metis (no_types))

lemma sync_map:
  assumes "fs_ok s I"
  shows "\<exists>s'. (if sfs_freemapdirty s then if_ok (sfs_mapio UIO_WRITE s) (\<lambda>_ s. Some (Ok (), s\<lparr>sfs_freemapdirty := False\<rparr>)) else Some (Ok (), s))
      = Some (Ok (), s') \<and> sys_step s I s' \<and> \<not> sfs_freemapdirty s' \<and> sfs_superdirty s' = sfs_superdirty s"
proof (cases "sfs_freemapdirty s")
  case True
  note sp = fs_okD(1) [OF assms] and mt = fs_okD(6) [OF assms]
  let ?n = "SFS_BITBLOCKS (nblk s)"
  have len: "length (bm_v (sfs_freemap s)) = 512 * ?n" using map_length [OF mt sp] .
  have "2 + ?n \<le> d_blocks (sfs_device s)" using mt sp by (simp add: meta_ok_def space_ok_def)
  then obtain s1 where s1: "mapio_loop UIO_WRITE [0..<?n] s = Some (Ok (), s1)"
    "dev_moves s (\<lambda>b. if b \<in> (+) 2 ` {0..<?n} then map_block (sfs_freemap s) (b - 2) else disk s b) s1"
    using mapio_write [of s "[0..<?n]"] sp len by (auto simp: space_ok_def)
  let ?s = "s1\<lparr>sfs_freemapdirty := False\<rparr>"
  note f = dev_moves_fields [OF s1(2)]
  have dk: "disk ?s b = (if 2 \<le> b \<and> b < 2 + ?n then map_block (sfs_freemap s) (b - 2) else disk s b)" for b
    using f(7) by (auto simp: image_iff Bex_def) presburger+
  have "space_ok s1" using fs_moves_space [OF sp fs_moves_dev [OF sp s1(2)]] by simp
  then have sp': "space_ok ?s" by (simp add: space_ok_def dev_good_def sysblocks_def)
  have mt': "meta_ok ?s" using mt f dk [of 0] dk by (auto simp: meta_ok_def)
  have "disk ?s b = disk s b" if "b \<notin> sysblocks s" for b using that dk [of b] by (auto simp: sysblocks_def)
  then have "sys_step s I ?s" using fs_sys_write [OF assms sp' mt'] f by (simp add: sys_step_def)
  then show ?thesis using True s1(1) f by (simp add: sfs_mapio_def)
qed (use assms sys_step_refl in auto)

lemma sync_super:
  assumes "fs_ok s I" "\<not> sfs_freemapdirty s"
  shows "\<exists>s'. (if sfs_superdirty s then if_ok (sfs_wblock (super_bytes (sfs_super s)) SFS_SB_LOCATION s) (\<lambda>_ s. Some (Ok (), s\<lparr>sfs_superdirty := False\<rparr>)) else Some (Ok (), s))
      = Some (Ok (), s') \<and> sys_step s I s' \<and> \<not> sfs_freemapdirty s' \<and> \<not> sfs_superdirty s'"
proof (cases "sfs_superdirty s")
  case True
  note sp = fs_okD(1) [OF assms(1)] and mt = fs_okD(6) [OF assms(1)]
  have wf: "super_wf (sfs_super s)" using mt by (simp add: meta_ok_def)
  have "0 < d_blocks (sfs_device s)" using mt sp by (simp add: meta_ok_def space_ok_def)
  then obtain s1 where s1: "sfs_wblock (super_bytes (sfs_super s)) 0 s = Some (Ok (), s1)" "dev_moves s ((disk s)(0 := super_bytes (sfs_super s))) s1"
    using sfs_wblock_ok [of s 0 "super_bytes (sfs_super s)"] length_super_bytes [OF wf] sp by (auto simp: space_ok_def)
  let ?s = "s1\<lparr>sfs_superdirty := False\<rparr>"
  note f = dev_moves_fields [OF s1(2)]
  have "(sp_volname (sfs_super s))[31 := 0] = sp_volname (sfs_super s)" using mt by (metis list_update_id meta_ok_def)
  then have "load_super (super_bytes (sfs_super s)) = sfs_super s" using bytes_super_bytes [OF wf] by (simp add: load_super_def)
  then have mt': "meta_ok ?s" using mt f by (simp add: meta_ok_def)
  have "space_ok s1" using fs_moves_space [OF sp fs_moves_dev [OF sp s1(2)]] by simp
  then have sp': "space_ok ?s" by (simp add: space_ok_def dev_good_def sysblocks_def)
  have "disk ?s b = disk s b" if "b \<notin> sysblocks s" for b using that f(7) by (auto simp: sysblocks_def)
  then have "sys_step s I ?s" using fs_sys_write [OF assms(1) sp' mt'] f by (simp add: sys_step_def)
  then show ?thesis using True s1(1) f assms(2) by simp
qed (use assms sys_step_refl in auto)

lemma sfs_sync_ok:
  assumes "fs_ok s I"
  shows "\<exists>s'. sfs_sync s = Some (Ok (), s') \<and> cleaned s I (dom (sfs_pool s)) s' \<and> \<not> sfs_superdirty s' \<and> \<not> sfs_freemapdirty s'"
proof -
  let ?n = "length (loaded s)"
  note p = fs_okD(2) [OF assms]
  have n: "nat (array_getnum (sfs_vnodes s)) = ?n" using length_a_list [OF pool_okD(1) [OF p]] by (simp add: array_getnum_def)
  have "(!) (loaded s) ` set [0..<?n] = dom (sfs_pool s)" using pool_okD(3) [OF p] by (metis list.set_map map_nth)
  then obtain s1 where s1: "sync_vnodes [0..<?n] s = Some s1" "cleaned s I (dom (sfs_pool s)) s1"
    using sync_vnodes_ok [OF assms, of "[0..<?n]"] by (auto simp: lessThan_atLeast0)
  have fs1: "fs_ok s1 I" using s1(2) by (simp add: cleaned_def)
  obtain s2 where s2: "(if sfs_freemapdirty s1 then if_ok (sfs_mapio UIO_WRITE s1) (\<lambda>_ s. Some (Ok (), s\<lparr>sfs_freemapdirty := False\<rparr>)) else Some (Ok (), s1))
      = Some (Ok (), s2)" "sys_step s1 I s2" "\<not> sfs_freemapdirty s2"
    using sync_map [OF fs1] by blast
  have fs2: "fs_ok s2 I" using s2(2) by (simp add: sys_step_def)
  obtain s3 where s3: "(if sfs_superdirty s2 then if_ok (sfs_wblock (super_bytes (sfs_super s2)) SFS_SB_LOCATION s2) (\<lambda>_ s. Some (Ok (), s\<lparr>sfs_superdirty := False\<rparr>)) else Some (Ok (), s2))
      = Some (Ok (), s3)" "sys_step s2 I s3" "\<not> sfs_freemapdirty s3" "\<not> sfs_superdirty s3"
    using sync_super [OF fs2 s2(3)] by blast
  have "sfs_sync s = Some (Ok (), s3)" using s1(1) n s2(1) s3(1) by (simp add: sfs_sync_def)
  moreover have "sys_step s1 I s3" using sys_step_trans [OF s2(2) s3(2)] .
  then have "cleaned s I (dom (sfs_pool s)) s3"
    using s1(2) same_inode_trans unfolding cleaned_def sys_step_def by (metis (no_types, lifting))
  ultimately show ?thesis using s3(3,4) by blast
qed

subsection \<open>Mounting\<close>

text \<open>Mounting the device of a file system in which nothing is dirty.\<close>

lemma domount_result:
  assumes "space_ok s" "meta_ok s" "\<not> sfs_superdirty s" "\<not> sfs_freemapdirty s"
  shows "(\<exists>n. \<not> mem n) \<and> (\<exists>dev. sfs_domount mem junk (sfs_device s) = Some (Err ENOMEM, dev))
    \<or> (\<exists>s'. sfs_domount mem junk (sfs_device s) = Some (Ok s', sfs_device s') \<and> sfs_super s' = sfs_super s \<and> sfs_freemap s' = sfs_freemap s
        \<and> disk s' = disk s \<and> sfs_pool s' = (\<lambda>_. None) \<and> sfs_vnodes s' = \<lparr>anum = 0, amax = 0, av = NULL\<rparr> \<and> dev_good s'
        \<and> d_blocks (sfs_device s') = d_blocks (sfs_device s) \<and> \<not> sfs_superdirty s' \<and> \<not> sfs_freemapdirty s')"
proof (cases "mem sizeof_sfs_fs \<and> mem sizeof_array")
  case False
  then show ?thesis using assms(1) by (auto simp: sfs_domount_def array_create_def space_ok_def dev_good_def dev_ok_def)
next
  case True
  let ?vs = "\<lparr>anum = 0, amax = 0, av = NULL\<rparr> :: nat parray"
  let ?s0 = "junk\<lparr>sfs_vnodes := ?vs, sfs_pool := (\<lambda>_. None), sfs_device := sfs_device s\<rparr>"
  let ?nb = "SFS_BITMAPSIZE (nblk s)" and ?n = "SFS_BITBLOCKS (nblk s)"
  have n22: "nblk s < 2 ^ 22" using assms(1) by (auto simp: space_ok_def dest: dev_goodD(2))
  note bb = bitblocks [OF n22]
  have bs: "d_blocksize (sfs_device s) = 512" using assms(1) by (simp add: space_ok_def dev_good_def dev_ok_def)
  have g0: "dev_good ?s0" "disk ?s0 = disk s" "0 < d_blocks (sfs_device ?s0)" "2 + ?n \<le> d_blocks (sfs_device ?s0)"
    using assms(1,2) by (auto simp: space_ok_def dev_good_def meta_ok_def)
  obtain s1 where s1: "sfs_rblock 0 ?s0 = Some (Ok (disk ?s0 0), s1)" "dev_moves ?s0 (disk ?s0) s1" using sfs_rblock_ok [OF g0(1,3)] by blast
  note f1 = dev_moves_fields [OF s1(2)]
  have lm: "sp_magic (load_super bs) = sp_magic (bytes_super bs)" for bs by (simp add: load_super_def Let_def)
  have ls: "load_super (disk s 0) = sfs_super s" using assms(2,3) by (simp add: meta_ok_def)
  then have lsm: "sp_magic (bytes_super (disk s 0)) = SFS_MAGIC" using assms(2) lm [of "disk s 0"] by (simp add: meta_ok_def)
  let ?mem = "mem sizeof_bitmap \<and> mem (DIVROUNDUP ?nb BITS_PER_WORD)"
  show ?thesis
  proof (cases ?mem)
    case False
    then have "sfs_domount mem junk (sfs_device s) = Some (Err ENOMEM, sfs_device s1)"
      using True bs s1(1) ls lsm g0(2) by (auto simp: sfs_domount_def array_create_def bitmap_create_def Let_def)
    then show ?thesis using False by blast
  next
    case m: True
    have w: "DIVROUNDUP ?nb 8 = 512 * ?n" "?nb div 8 = 512 * ?n" using bb(1,2) by (simp_all add: DIVROUNDUP_8)
    let ?bm = "\<lparr>bm_nbits = ?nb, bm_v = replicate (512 * ?n) 0\<rparr>"
    have bc: "bitmap_create True True ?nb = Some (Some ?bm)" using w by (simp add: bitmap_create_def)
    define s2 where "s2 = s1\<lparr>sfs_super := sfs_super s, sfs_freemap := ?bm\<rparr>"
    have g2: "dev_good s2" "2 + ?n \<le> d_blocks (sfs_device s2)" "length (bm_v (sfs_freemap s2)) = 512 * ?n" "disk s2 = disk s"
      using f1 g0(2,4) by (simp_all add: s2_def dev_good_def)
    obtain s3 where s3: "dev_moves s2 (disk s2) s3" "mapio_loop UIO_READ [0..<?n] s2
      = Some (Ok (), s3\<lparr>sfs_freemap := (sfs_freemap s2)\<lparr>bm_v := concat (map (\<lambda>j. disk s2 (2 + j)) [0..<?n])\<rparr>\<rparr>)"
      using mapio_read [OF g2(1-3), of 0] by auto
    have "concat (map (\<lambda>j. disk s2 (2 + j)) [0..<?n]) = concat (map (\<lambda>j. take 512 (drop (512 * j) (bm_v (sfs_freemap s)))) [0..<?n])"
      by (rule arg_cong [where f = concat], rule map_cong [OF refl]) (use assms(2,4) g2(4) in \<open>auto simp: meta_ok_def map_block_def\<close>)
    also have "\<dots> = bm_v (sfs_freemap s)" by (rule map_blocks [OF map_length [OF assms(2,1)]])
    finally have "(sfs_freemap s2)\<lparr>bm_v := concat (map (\<lambda>j. disk s2 (2 + j)) [0..<?n])\<rparr> = sfs_freemap s"
      using assms(2) by (simp add: s2_def meta_ok_def)
    then have rd: "sfs_mapio UIO_READ s2 = Some (Ok (), s3\<lparr>sfs_freemap := sfs_freemap s\<rparr>)" using s3(2) by (simp add: sfs_mapio_def s2_def)
    note f3 = dev_moves_fields [OF s3(1)]
    let ?s' = "s3\<lparr>sfs_freemap := sfs_freemap s, sfs_superdirty := False, sfs_freemapdirty := False\<rparr>"
    have "sfs_domount mem junk (sfs_device s) = Some (Ok ?s', sfs_device ?s')"
      using True m bs s1(1) ls lsm g0(2) bc rd by (simp add: sfs_domount_def array_create_def Let_def s2_def)
    moreover have "disk ?s' = disk s" "sfs_super ?s' = sfs_super s" "sfs_pool ?s' = (\<lambda>_. None)" "sfs_vnodes ?s' = ?vs" "dev_good ?s'"
      "d_blocks (sfs_device ?s') = d_blocks (sfs_device s)"
      using f3 f1 g2(4) by (simp_all add: s2_def dev_good_def)
    ultimately show ?thesis by (intro disjI2 exI [of _ ?s']) simp
  qed
qed

lemma mount_fs_ok:
  assumes "fs_ok s I" "\<And>sv. sv \<in> ran (sfs_pool s) \<Longrightarrow> \<not> sv_dirty sv" "\<not> sfs_superdirty s" "\<not> sfs_freemapdirty s"
    and s': "sfs_super s' = sfs_super s" "sfs_freemap s' = sfs_freemap s" "disk s' = disk s" "sfs_pool s' = (\<lambda>_. None)"
      "sfs_vnodes s' = \<lparr>anum = 0, amax = 0, av = NULL\<rparr>" "dev_good s'" "d_blocks (sfs_device s') = d_blocks (sfs_device s)" "J \<subseteq> I"
  shows "fs_ok s' J" "j \<in> I \<Longrightarrow> same_inode s s' j"
proof -
  note p = fs_okD(2) [OF assms(1)]
  have p': "pool_ok s'" using s'(4,5) by (simp add: pool_ok_def array_ok_def a_list_def block_def)
  have "cur s j = bytes_inode (disk s j)" for j
  proof (cases "vnode_of s j")
    case (Some v)
    then obtain sv where sv: "sfs_pool s v = Some sv" "sv_ino sv = j" using vnode_of_Some [OF p] by auto
    then have "\<not> sv_dirty sv" using assms(2) by (auto simp: ran_def)
    then show ?thesis using pool_okD(4) [OF p sv(1)] cur_loaded [OF p sv(1)] sv(2) by (simp add: sv_ok_def)
  qed (simp add: cur_def)
  moreover have "cur s' j = bytes_inode (disk s' j)" for j using s'(4,5) by (simp add: cur_def vnode_of_def a_list_def)
  ultimately have "cur s' j = cur s j" for j using s'(3) by simp
  then show same: "same_inode s s' j" if "j \<in> I" for j using same_inodeI [OF assms(1) that] s'(3) by simp
  have "space_ok s'" using fs_okD(1) [OF assms(1)] s' by (simp add: space_ok_def sysblocks_def)
  moreover have "meta_ok s'" using fs_okD(6) [OF assms(1)] assms(3,4) s' by (simp add: meta_ok_def)
  moreover have "set (iown s j) \<subseteq> used s'" if "j \<in> I" for j using inode_ok_used(5) [OF assms(1) that] s'(2) by simp
  ultimately show "fs_ok s' J"
    by (intro fs_ok_change [OF assms(1) _ p', where X = "{}"]) (use s'(1,4,8) same in auto)
qed


lemma sync_tree:
  assumes "tree_ok s" "cleaned s (inodes s) (dom (sfs_pool s)) s'"
  shows "tree_ok s'" "names s' = names s" "inodes s' = inodes s" "j \<in> inodes s \<Longrightarrow> j \<noteq> rooti \<Longrightarrow> files s' j = files s j"
proof -
  have p: "sfs_pool s' = (\<lambda>v. map_option (\<lambda>sv. sv\<lparr>sv_dirty := False\<rparr>) (sfs_pool s v))"
    using assms(2) by (auto simp: cleaned_def fun_eq_iff domIff)
  then have "dom (sfs_pool s') = dom (sfs_pool s)" by (auto simp: dom_def)
  moreover have "fino s' v = fino s v" if "v \<in> dom (sfs_pool s)" for v using that p by auto
  ultimately have l: "linos s' = linos s" unfolding linos_def by (simp cong: image_cong)
  note t = keep_tree [OF assms(1) _ _ _ l]
  show "tree_ok s'" "names s' = names s" "inodes s' = inodes s" "j \<in> inodes s \<Longrightarrow> j \<noteq> rooti \<Longrightarrow> files s' j = files s j"
    using t assms(2) by (simp_all add: cleaned_def)
qed

lemma mount_tree:
  assumes "tree_ok s" "\<And>sv. sv \<in> ran (sfs_pool s) \<Longrightarrow> \<not> sv_dirty sv" "\<not> sfs_superdirty s" "\<not> sfs_freemapdirty s"
    and s': "sfs_super s' = sfs_super s" "sfs_freemap s' = sfs_freemap s" "disk s' = disk s" "sfs_pool s' = (\<lambda>_. None)"
      "sfs_vnodes s' = \<lparr>anum = 0, amax = 0, av = NULL\<rparr>" "dev_good s'" "d_blocks (sfs_device s') = d_blocks (sfs_device s)"
  shows "tree_ok s'" "names s' = names s" "names s n = Some i \<Longrightarrow> files s' i = files s i"
proof -
  let ?J = "insert rooti (ran (names s))"
  note b = tree_okD(1) [OF assms(1)]
  have J: "?J \<subseteq> inodes s" by (auto simp: inodes_def)
  note m = mount_fs_ok [OF baseD(1) [OF b] assms(2-4) s' J]
  have sm: "\<forall>j \<in> ?J. same_inode s s' j" using m(2) J by blast
  note bs = base_same [OF b m(1) J _ sm]
  have l: "linos s' = {}" using s'(4) by (simp add: linos_def)
  then have I: "inodes s' = ?J" using bs(2) by (simp add: inodes_def)
  have "lc s' j = nlinks (names s') j" if "j \<in> ?J - {rooti}" for j
    using bs(2,3) that assms(1) J by (auto simp: tree_ok_def)
  then show "tree_ok s'" using bs(1,2) I assms(1) by (auto simp: tree_ok_def)
  show "names s' = names s" using bs(2) by simp
  assume "names s n = Some i"
  then have si: "same_inode s s' i" using sm by (auto simp: ran_def)
  show "files s' i = files s i" unfolding files_def same_inodeD(3) [OF si] by (simp only: same_inodeD(1) [OF si])
qed

subsection \<open>Properties\<close>

text \<open>
  C9. \<^verbatim>\<open>sfs_sync\<close> writes everything back: it always succeeds, changes neither names nor files, and mounting the resulting
  disk again (which can fail only for lack of memory) yields a consistent file system with the same names, the same sizes
  and contents of all named files, and the same free map and superblock.
\<close>

theorem sfs_sync_remount:
  assumes "tree_ok s"
  shows "\<exists>s1. sfs_sync s = Some (Ok (), s1) \<and> tree_ok s1 \<and> names s1 = names s \<and> (\<forall>i \<in> inodes s - {rooti}. files s1 i = files s i)
    \<and> ((\<exists>n. \<not> mem n) \<and> (\<exists>dev. sfs_domount mem junk (sfs_device s1) = Some (Err ENOMEM, dev))
       \<or> (\<exists>s2. sfs_domount mem junk (sfs_device s1) = Some (Ok s2, sfs_device s2) \<and> tree_ok s2 \<and> names s2 = names s
            \<and> (\<forall>n i. names s n = Some i \<longrightarrow> files s2 i = files s i) \<and> used s2 = used s \<and> sfs_super s2 = sfs_super s))"
proof -
  note fs = baseD(1) [OF tree_okD(1) [OF assms]]
  obtain s1 where s1: "sfs_sync s = Some (Ok (), s1)" "cleaned s (inodes s) (dom (sfs_pool s)) s1" "\<not> sfs_superdirty s1" "\<not> sfs_freemapdirty s1"
    using sfs_sync_ok [OF fs] by blast
  note t1 = sync_tree [OF assms s1(2)]
  have cl: "\<not> sv_dirty sv" if "sv \<in> ran (sfs_pool s1)" for sv
    using that s1(2) by (auto simp: cleaned_def ran_def dom_def split: if_splits)
  have u: "used s1 = used s" "sfs_super s1 = sfs_super s" using s1(2) by (simp_all add: cleaned_def)
  note fs1 = baseD(1) [OF tree_okD(1) [OF t1(1)]]
  from domount_result [OF fs_okD(1,6) [OF fs1] s1(3,4), of mem junk] have
    "(\<exists>n. \<not> mem n) \<and> (\<exists>dev. sfs_domount mem junk (sfs_device s1) = Some (Err ENOMEM, dev))
       \<or> (\<exists>s2. sfs_domount mem junk (sfs_device s1) = Some (Ok s2, sfs_device s2) \<and> tree_ok s2 \<and> names s2 = names s
            \<and> (\<forall>n i. names s n = Some i \<longrightarrow> files s2 i = files s i) \<and> used s2 = used s \<and> sfs_super s2 = sfs_super s)"
  proof (elim disjE exE conjE)
    fix s2
    assume s2: "sfs_domount mem junk (sfs_device s1) = Some (Ok s2, sfs_device s2)" "sfs_super s2 = sfs_super s1" "sfs_freemap s2 = sfs_freemap s1"
      "disk s2 = disk s1" "sfs_pool s2 = (\<lambda>_. None)" "sfs_vnodes s2 = \<lparr>anum = 0, amax = 0, av = NULL\<rparr>" "dev_good s2"
      "d_blocks (sfs_device s2) = d_blocks (sfs_device s1)"
    note t2 = mount_tree [OF t1(1) cl s1(3,4) s2(2-8)]
    have "files s2 i = files s i" if "names s n = Some i" for n i
      using t2(3) [of n i] t1(2,4) tree_okD(2) [OF assms that] that by simp
    then show ?thesis using s2(1-3) t2(1,2) t1(2) u by (intro disjI2 exI [of _ s2]) simp
  qed blast
  then show ?thesis using s1(1) t1 by (intro exI [of _ s1]) simp
qed

theorem sfs_sync_remount_witness:
  "\<exists>s1 s2. sfs_sync sample_root = Some (Ok (), s1) \<and> sfs_domount (\<lambda>_. True) sample_root (sfs_device s1) = Some (Ok s2, sfs_device s2)
     \<and> tree_ok s2 \<and> names s2 = Map.empty"
  using sfs_sync_remount [OF sample_root_ok(1), of "\<lambda>_. True" sample_root] by (auto simp: sample_root_ok(4))

end
