(* ===== verification/Libc.thy ===== *)
theory Libc
  imports Uio
begin

section \<open>The C library's memory and string functions\<close>

text \<open>
  Model of the functions of \<^verbatim>\<open>lib/libc\<close> that the kernel and the user programs share:
  \<^verbatim>\<open>memcpy.c\<close>, \<^verbatim>\<open>memmove.c\<close>, \<^verbatim>\<open>memset.c\<close>, \<^verbatim>\<open>bzero.c\<close>, \<^verbatim>\<open>memcmp.c\<close>, \<^verbatim>\<open>strlen.c\<close>, \<^verbatim>\<open>strcpy.c\<close>,
  \<^verbatim>\<open>strcat.c\<close>, \<^verbatim>\<open>strcmp.c\<close>, \<^verbatim>\<open>strchr.c\<close>, \<^verbatim>\<open>strrchr.c\<close>, \<^verbatim>\<open>strtok_r.c\<close>, \<^verbatim>\<open>strtok.c\<close> and \<^verbatim>\<open>atoi.c\<close>.

  They run on a \<^typ>\<open>memory\<close>. Reading or writing an address without a byte is \<open>None\<close>, and so is
  a loop that does not end. A \<^verbatim>\<open>long\<close> is four bytes, a plain \<^verbatim>\<open>char\<close> is signed, and a region never
  wraps around the top of memory, as the comment in \<^verbatim>\<open>memmove.c\<close> has it. String literals are
  memories of their own (\<open>mem_of\<close>), which start at address 0.
\<close>

definition lit :: "string \<Rightarrow> byte list" where
  "lit s = map of_char s"

definition str_lit :: "string \<Rightarrow> memory" where
  "str_lit s = mem_of (lit s @ [0])"

definition rd :: "memory \<Rightarrow> nat \<Rightarrow> byte run" where
  "rd m a = m a"

definition wr :: "memory \<Rightarrow> nat \<Rightarrow> byte \<Rightarrow> memory run" where
  "wr m a c = (case m a of None \<Rightarrow> None | Some _ \<Rightarrow> Some (m(a \<mapsto> c)))"

subsection \<open>Copying and filling\<close>

text \<open>
  \<open>copy_units sz is m dst src\<close> is the loop \<^verbatim>\<open>d[i] = s[i]\<close> on elements of \<open>sz\<close> bytes for the indices
  \<open>is\<close> in their order.
\<close>

fun copy_units :: "nat \<Rightarrow> nat list \<Rightarrow> memory \<Rightarrow> nat \<Rightarrow> nat \<Rightarrow> memory run" where
  "copy_units sz [] m dst src = Some m"
| "copy_units sz (i # is) m dst src = do {
     v \<leftarrow> kload m (src + i * sz) sz;
     m \<leftarrow> kstore m (dst + i * sz) v;
     copy_units sz is m dst src
   }"

fun fill_units :: "nat \<Rightarrow> byte \<Rightarrow> nat list \<Rightarrow> memory \<Rightarrow> nat \<Rightarrow> memory run" where
  "fill_units sz c [] m dst = Some m"
| "fill_units sz c (i # is) m dst = do {
     m \<leftarrow> kstore m (dst + i * sz) (replicate sz c);
     fill_units sz c is m dst
   }"

definition memcpy :: "memory \<Rightarrow> nat \<Rightarrow> nat \<Rightarrow> nat \<Rightarrow> memory run" where
  "memcpy m dst src len =
     (if dst mod 4 = 0 \<and> src mod 4 = 0 \<and> len mod 4 = 0
      then copy_units 4 [0..<len div 4] m dst src
      else copy_units 1 [0..<len] m dst src)"

definition memmove :: "memory \<Rightarrow> nat \<Rightarrow> nat \<Rightarrow> nat \<Rightarrow> memory run" where
  "memmove m dst src len =
     (if dst < src then memcpy m dst src len
      else if dst mod 4 = 0 \<and> src mod 4 = 0 \<and> len mod 4 = 0
      then copy_units 4 (rev [0..<len div 4]) m dst src
      else copy_units 1 (rev [0..<len]) m dst src)"

definition memset :: "memory \<Rightarrow> nat \<Rightarrow> int \<Rightarrow> nat \<Rightarrow> memory run" where
  "memset m ptr ch len = fill_units 1 (word_of_int ch) [0..<len] m ptr"

definition bzero :: "memory \<Rightarrow> nat \<Rightarrow> nat \<Rightarrow> memory run" where
  "bzero m vblock len =
     (if vblock mod 4 = 0 \<and> len mod 4 = 0 then fill_units 4 0 [0..<len div 4] m vblock
      else fill_units 1 0 [0..<len] m vblock)"

function memcmp_from :: "memory \<Rightarrow> nat \<Rightarrow> nat \<Rightarrow> nat \<Rightarrow> nat \<Rightarrow> int run" where
  "memcmp_from m a b len i =
     (if i < len then do {
        x \<leftarrow> rd m (a + i);
        y \<leftarrow> rd m (b + i);
        if x \<noteq> y then Some (uint x - uint y) else memcmp_from m a b len (i + 1)
      } else Some 0)"
  by pat_completeness auto
termination by (relation "measure (\<lambda>(_, _, _, len, i). len - i)") auto

declare memcmp_from.simps [simp del]

definition memcmp :: "memory \<Rightarrow> nat \<Rightarrow> nat \<Rightarrow> nat \<Rightarrow> int run" where
  "memcmp m a b len = memcmp_from m a b len 0"

subsection \<open>Strings\<close>

partial_function (option) strlen_from :: "memory \<Rightarrow> nat \<Rightarrow> nat \<Rightarrow> nat run" where
  "strlen_from m s ret = do {
     c \<leftarrow> rd m (s + ret);
     if c \<noteq> 0 then strlen_from m s (ret + 1) else Some ret
   }"

definition strlen :: "memory \<Rightarrow> nat \<Rightarrow> nat run" where
  "strlen m s = strlen_from m s 0"

partial_function (option) strcpy_from :: "memory \<Rightarrow> nat \<Rightarrow> nat \<Rightarrow> nat \<Rightarrow> memory run" where
  "strcpy_from m dest src i = do {
     c \<leftarrow> rd m (src + i);
     if c \<noteq> 0 then do { m \<leftarrow> wr m (dest + i) c; strcpy_from m dest src (i + 1) }
     else wr m (dest + i) 0
   }"

definition strcpy :: "memory \<Rightarrow> nat \<Rightarrow> nat \<Rightarrow> memory run" where
  "strcpy m dest src = strcpy_from m dest src 0"

definition strcat :: "memory \<Rightarrow> nat \<Rightarrow> nat \<Rightarrow> memory run" where
  "strcat m dest src = do { offset \<leftarrow> strlen m dest; strcpy m (dest + offset) src }"

text \<open>The two strings of \<open>strcmp\<close> may be in two memories, one of them that of a literal.\<close>

partial_function (option) strcmp_from :: "memory \<Rightarrow> nat \<Rightarrow> memory \<Rightarrow> nat \<Rightarrow> nat \<Rightarrow> int run" where
  "strcmp_from am a bm b i = do {
     x \<leftarrow> rd am (a + i);
     y \<leftarrow> rd bm (b + i);
     if x \<noteq> 0 \<and> x = y then strcmp_from am a bm b (i + 1)
     else if sint x > sint y then Some 1
     else if x = y then Some 0
     else Some (- 1)
   }"

definition strcmp :: "memory \<Rightarrow> nat \<Rightarrow> memory \<Rightarrow> nat \<Rightarrow> int run" where
  "strcmp am a bm b = strcmp_from am a bm b 0"

partial_function (option) strchr :: "memory \<Rightarrow> nat \<Rightarrow> int \<Rightarrow> nat ptr run" where
  "strchr m s ch = do {
     c \<leftarrow> rd m s;
     if c \<noteq> 0 then (if sint c = ch then Some (Some s) else strchr m (s + 1) ch)
     else if sint c = ch then Some (Some s)
     else Some NULL
   }"

fun strrchr_from :: "memory \<Rightarrow> nat \<Rightarrow> int \<Rightarrow> nat \<Rightarrow> nat ptr run" where
  "strrchr_from m s ch 0 = Some NULL"
| "strrchr_from m s ch (Suc i) = do {
     c \<leftarrow> rd m (s + i);
     if sint c = ch then Some (Some (s + i)) else strrchr_from m s ch i
   }"

definition strrchr :: "memory \<Rightarrow> nat \<Rightarrow> int \<Rightarrow> nat ptr run" where
  "strrchr m s ch = do { n \<leftarrow> strlen m s; strrchr_from m s ch (n + 1) }"

text \<open>
  The two loops of \<^verbatim>\<open>strtok_r\<close>: \<open>tok_scan want\<close> advances over the characters for which the search
  among the separators succeeds (\<open>want\<close>) or fails. The separators are read in the memory \<open>sm\<close>, which
  is \<open>m\<close> itself or that of a literal; they are read only before \<open>m\<close> changes.
\<close>

partial_function (option) tok_scan :: "bool \<Rightarrow> memory \<Rightarrow> nat \<Rightarrow> memory \<Rightarrow> nat \<Rightarrow> nat run" where
  "tok_scan want sm seps m p = do {
     c \<leftarrow> rd m p;
     if c = 0 then Some p
     else do {
       w \<leftarrow> strchr sm seps (sint c);
       if (w \<noteq> NULL) = want then tok_scan want sm seps m (p + 1) else Some p
     }
   }"

definition strtok_r :: "memory \<Rightarrow> nat ptr \<Rightarrow> memory \<Rightarrow> nat \<Rightarrow> nat ptr \<Rightarrow> (nat ptr \<times> nat ptr \<times> memory) run" where
  "strtok_r m string sm seps ctx =
     (let ctx = (if string \<noteq> NULL then string else ctx) in
      case ctx of
        None \<Rightarrow> Some (NULL, NULL, m)
      | Some head \<Rightarrow> do {
          head \<leftarrow> tok_scan True sm seps m head;
          c \<leftarrow> rd m head;
          if c = 0 then Some (NULL, NULL, m)
          else do {
            tail \<leftarrow> tok_scan False sm seps m head;
            c \<leftarrow> rd m tail;
            if c = 0 then Some (Some head, NULL, m)
            else do { m \<leftarrow> wr m tail 0; Some (Some head, Some (tail + 1), m) }
          }
        })"

text \<open>\<open>strtok\<close> keeps the context in the static variable \<^verbatim>\<open>__strtok_context\<close>, here an argument and a result.\<close>

definition strtok :: "memory \<Rightarrow> nat ptr \<Rightarrow> memory \<Rightarrow> nat \<Rightarrow> nat ptr \<Rightarrow> (nat ptr \<times> nat ptr \<times> memory) run" where
  "strtok m str sm seps strtok_context = strtok_r m str sm seps strtok_context"

subsection \<open>\<^verbatim>\<open>atoi\<close>\<close>

definition digits10 :: memory where
  "digits10 = str_lit ''0123456789''"

partial_function (option) skip_blanks :: "memory \<Rightarrow> nat \<Rightarrow> nat run" where
  "skip_blanks m s = do {
     c \<leftarrow> rd m s;
     if c = of_char (CHR '' '') \<or> c = of_char (CHR 0x09) then skip_blanks m (s + 1) else Some s
   }"

partial_function (option) atoi_digits :: "memory \<Rightarrow> nat \<Rightarrow> nat \<Rightarrow> nat run" where
  "atoi_digits m s val = do {
     c \<leftarrow> rd m s;
     if c = 0 then Some val
     else do {
       w \<leftarrow> strchr digits10 0 (sint c);
       case w of
         None \<Rightarrow> Some val
       | Some digit \<Rightarrow> atoi_digits m (s + 1) (u32 (val * 10 + digit))
     }
   }"

definition atoi :: "memory \<Rightarrow> nat \<Rightarrow> int run" where
  "atoi m s = do {
     s \<leftarrow> skip_blanks m s;
     c \<leftarrow> rd m s;
     let neg = (c = of_char (CHR ''-''));
     let s = (if neg \<or> c = of_char (CHR ''+'') then s + 1 else s);
     val \<leftarrow> atoi_digits m s 0;
     Some (if neg then s32 (- int val) else s32 (int val))
   }"

subsection \<open>Copying and filling: lemmas\<close>

lemma copy_units_append:
  "copy_units sz (xs @ ys) m d s = Option.bind (copy_units sz xs m d s) (\<lambda>m. copy_units sz ys m d s)"
  by (induction xs arbitrary: m) (simp_all add: bind_assoc)

lemma put_before: "put (put m (a + length xs) ys) a xs = put m a (xs @ ys)"
  by (rule ext) (auto simp: put_def nth_append)

lemma copy_forward:
  assumes "d \<le> s \<or> s + n * sz \<le> d" "mapped m s (n * sz)" "mapped m d (n * sz)"
  shows "copy_units sz [0..<n] m d s = Some (put m d (bytes_at m s (n * sz)))"
  using assms
proof (induction n)
  case (Suc n)
  let ?m = "put m d (bytes_at m s (n * sz))"
  have mapped: "mapped m (s + n * sz) sz" "mapped m (d + n * sz) sz" "mapped m s (n * sz)" "mapped m d (n * sz)"
    using Suc.prems(2,3) by (simp_all add: add.commute [of sz] mapped_add)
  have "bytes_at ?m (s + n * sz) sz = bytes_at m (s + n * sz) sz"
    using Suc.prems(1) by (intro bytes_at_put_other) auto
  then have "copy_units sz [n] ?m d s = Some (put ?m (d + n * sz) (bytes_at m (s + n * sz) sz))"
    using mapped by (simp add: kload_def kstore_def)
  moreover have "put ?m (d + n * sz) (bytes_at m (s + n * sz) sz) = put m d (bytes_at m s (Suc n * sz))"
    using put_append [of m d "bytes_at m s (n * sz)"] by (simp add: add.commute [of sz] bytes_at_add)
  ultimately show ?case
    using Suc.IH mapped Suc.prems(1) by (auto simp: copy_units_append)
qed simp

lemma copy_backward:
  assumes "s \<le> d" "mapped m s (n * sz)" "mapped m d (n * sz)"
  shows "copy_units sz (rev [0..<n]) m d s = Some (put m d (bytes_at m s (n * sz)))"
  using assms
proof (induction n arbitrary: m)
  case (Suc n)
  let ?m = "put m (d + n * sz) (bytes_at m (s + n * sz) sz)"
  have mapped: "mapped m (s + n * sz) sz" "mapped m (d + n * sz) sz" "mapped m s (n * sz)" "mapped m d (n * sz)"
    using Suc.prems(2,3) by (simp_all add: add.commute [of sz] mapped_add)
  have "bytes_at ?m s (n * sz) = bytes_at m s (n * sz)"
    using Suc.prems(1) by (intro bytes_at_put_other) auto
  moreover have "put ?m d (bytes_at m s (n * sz)) = put m d (bytes_at m s (Suc n * sz))"
    using put_before [of m d "bytes_at m s (n * sz)"] by (simp add: add.commute [of sz] bytes_at_add)
  ultimately show ?case
    using Suc.IH [of ?m] mapped Suc.prems(1) by (simp add: kload_def kstore_def)
qed simp

lemma fill_units_append:
  "fill_units sz c (xs @ ys) m d = Option.bind (fill_units sz c xs m d) (\<lambda>m. fill_units sz c ys m d)"
  by (induction xs arbitrary: m) (simp_all add: bind_assoc)

lemma fill_forward:
  assumes "mapped m d (n * sz)"
  shows "fill_units sz c [0..<n] m d = Some (put m d (replicate (n * sz) c))"
  using assms
proof (induction n)
  case (Suc n)
  have "mapped m (d + n * sz) sz" "mapped m d (n * sz)"
    using Suc.prems by (simp_all add: add.commute [of sz] mapped_add)
  with Suc.IH put_append [of m d "replicate (n * sz) c" "replicate sz c"] show ?case
    by (simp add: fill_units_append kstore_def add.commute [of sz] replicate_add)
qed simp

lemma words_times [simp]: "(n::nat) mod 4 = 0 \<Longrightarrow> n div 4 * 4 = n"
  by (simp add: mod_eq_0_iff_dvd)

lemma memcpy_copies:
  assumes "d \<le> s \<or> s + n \<le> d" "mapped m s n" "mapped m d n"
  shows "memcpy m d s n = Some (put m d (bytes_at m s n))"
  using assms copy_forward [of d s "n div 4" 4 m] copy_forward [of d s n 1 m] by (simp add: memcpy_def)

lemma memset_fills: "mapped m a n \<Longrightarrow> memset m a ch n = Some (put m a (replicate n (word_of_int ch)))"
  using fill_forward [of m a n 1] by (simp add: memset_def)

lemma bzero_fills: "mapped m a n \<Longrightarrow> bzero m a n = Some (put m a (replicate n 0))"
  using fill_forward [of m a "n div 4" 4] fill_forward [of m a n 1] by (simp add: bzero_def)

subsection \<open>Strings: lemmas\<close>

lemma sint_byte_eq [simp]: "sint (x :: byte) = sint y \<longleftrightarrow> x = y"
  by (metis injD inj_signed)

lemma sint_byte_eq_0 [simp]: "sint (x :: byte) = 0 \<longleftrightarrow> x = 0"
  using sint_byte_eq [of x 0] by (simp del: sint_byte_eq)

lemmas cstring_simps = cstring_at_Nil cstring_at_Cons rd_def

lemma cstring_at_mem_of: "0 \<notin> set bs \<Longrightarrow> cstring_at (mem_of (bs @ [0])) 0 bs"
  by (simp add: cstring_at_def bytes_at_mem_of)

lemma strlen_from_cstring: "cstring_at m (s + i) bs \<Longrightarrow> strlen_from m s i = Some (i + length bs)"
  by (induction bs arbitrary: i; subst strlen_from.simps) (simp_all add: cstring_simps)

lemma strlen_cstring: "cstring_at m s bs \<Longrightarrow> strlen m s = Some (length bs)"
  by (simp add: strlen_def strlen_from_cstring [of _ _ 0, simplified])

lemma cstring_at_upd: "cstring_at m a bs \<Longrightarrow> x < a \<or> a + length bs < x \<Longrightarrow> cstring_at (m(x \<mapsto> c)) a bs"
  by (induction bs arbitrary: a) (auto simp: cstring_simps)

lemma strcpy_from_copies:
  assumes "cstring_at m (src + i) bs" "mapped m (dest + i) (length bs + 1)"
    "dest < src \<or> src + i + length bs < dest"
  shows "strcpy_from m dest src i = Some (put m (dest + i) (bs @ [0]))"
  using assms
proof (induction bs arbitrary: m i)
  case Nil
  then show ?case
    using put_Cons [of m "dest + i" 0 "[]"]
    by (auto simp: cstring_simps strcpy_from.simps wr_def mapped_Suc split: option.split)
next
  case (Cons b bs)
  let ?m = "m(dest + i \<mapsto> b)"
  have mp: "mapped ?m (dest + Suc i) (length bs + 1)"
    using Cons.prems(2) by (auto simp: mapped_iff subset_iff)
  have cs: "cstring_at ?m (src + Suc i) bs"
    using Cons.prems by (intro cstring_at_upd) (auto simp: cstring_simps)
  have "strcpy_from ?m dest src (Suc i) = Some (put ?m (dest + Suc i) (bs @ [0]))"
    using Cons.prems(3) by (intro Cons.IH [OF cs mp]) auto
  then show ?case
    using Cons.prems(1,2) put_Cons [of m "dest + i" b "bs @ [0]"]
    by (auto simp: cstring_simps strcpy_from.simps [of m] wr_def mapped_Suc split: option.split)
qed

lemma strcpy_copies:
  assumes "cstring_at m src bs" "mapped m dest (length bs + 1)" "dest < src \<or> src + length bs < dest"
  shows "strcpy m dest src = Some (put m dest (bs @ [0]))"
  using assms strcpy_from_copies [of m src 0 bs dest] by (simp add: strcpy_def)

lemma strcat_appends:
  assumes "cstring_at m dest as" "cstring_at m src bs" "mapped m dest (length as + length bs + 1)"
    "dest + length as < src \<or> src + length bs < dest"
  shows "strcat m dest src = Some (put m dest (as @ bs @ [0]))"
proof -
  have as: "as = bytes_at m dest (length as)"
    using assms(1) bytes_at_add [of m dest "length as" 1] by (auto simp: cstring_at_def)
  have "put m dest as x = m x" for x
    using assms(3) arg_cong [OF as, of "\<lambda>l. l ! (x - dest)"]
    by (auto simp: put_def mapped_iff subset_iff)
  then have "put m dest as = m" ..
  then have "put m (dest + length as) (bs @ [0]) = put m dest (as @ bs @ [0])"
    using put_append [of m dest as "bs @ [0]"] by simp
  with assms show ?thesis
    using mapped_add [of m dest "length as" "length bs + 1"]
    by (auto simp: strcat_def strlen_cstring strcpy_copies add.assoc)
qed

fun str_order :: "byte list \<Rightarrow> byte list \<Rightarrow> int" where
  "str_order [] [] = 0"
| "str_order [] (b # bs) = (if sint b < 0 then 1 else - 1)"
| "str_order (a # as) [] = (if sint a > 0 then 1 else - 1)"
| "str_order (a # as) (b # bs) =
     (if a = b then str_order as bs else if sint a > sint b then 1 else - 1)"

lemma str_order_eq_0: "str_order as bs = 0 \<longleftrightarrow> as = bs"
  by (induction as bs rule: str_order.induct) auto

lemma strcmp_from_order:
  "cstring_at am (a + i) as \<Longrightarrow> cstring_at bm (b + i) bs \<Longrightarrow> strcmp_from am a bm b i = Some (str_order as bs)"
  by (induction as bs arbitrary: i rule: str_order.induct; subst strcmp_from.simps)
    (auto simp: cstring_simps)

lemma strcmp_order:
  "cstring_at am a as \<Longrightarrow> cstring_at bm b bs \<Longrightarrow> strcmp am a bm b = Some (str_order as bs)"
  by (simp add: strcmp_def strcmp_from_order [of _ _ 0, simplified])

lemma strchr_first:
  assumes "cstring_at m s bs"
  shows "strchr m s (sint c) =
    Some (if c \<in> set bs \<or> c = 0 then Some (s + length (takeWhile (\<lambda>b. b \<noteq> c) bs)) else NULL)"
  using assms by (induction bs arbitrary: s; subst strchr.simps) (auto simp: cstring_simps)

lemma strrchr_from_last:
  assumes "mapped m s n"
  shows "\<exists>r. strrchr_from m s (sint c) n = Some r \<and>
    (case r of None \<Rightarrow> c \<notin> set (bytes_at m s n)
     | Some p \<Rightarrow> s \<le> p \<and> p < s + n \<and> m p = Some c \<and> c \<notin> set (bytes_at m (p + 1) (s + n - (p + 1))))"
  using assms
proof (induction n)
  case (Suc n)
  obtain b where b: "m (s + n) = Some b" "mapped m s n"
    using Suc.prems mapped_add [of m s n 1] by (auto simp: mapped_Suc)
  have snoc: "bytes_at m a (Suc k) = bytes_at m a k @ [the (m (a + k))]" for a k
    by (simp add: bytes_at_def)
  have snoc': "bytes_at m (Suc x) (s + n - x) = bytes_at m (Suc x) (s + n - Suc x) @ [the (m (s + n))]"
    if "x < s + n" for x
  proof -
    have "Suc (s + n - Suc x) = s + n - x" "Suc x + (s + n - Suc x) = s + n" using that by auto
    with snoc [of "Suc x" "s + n - Suc x"] show ?thesis by (simp only:)
  qed
  show ?case
  proof (cases "b = c")
    case True
    with b show ?thesis by (simp add: rd_def)
  next
    case False
    from Suc.IH [OF b(2)] obtain r where r: "strrchr_from m s (sint c) n = Some r"
      "case r of None \<Rightarrow> c \<notin> set (bytes_at m s n)
       | Some p \<Rightarrow> s \<le> p \<and> p < s + n \<and> m p = Some c \<and> c \<notin> set (bytes_at m (p + 1) (s + n - (p + 1)))"
      by blast
    from r(2) b False
    have "case r of None \<Rightarrow> c \<notin> set (bytes_at m s (Suc n))
       | Some p \<Rightarrow> s \<le> p \<and> p < s + Suc n \<and> m p = Some c \<and> c \<notin> set (bytes_at m (p + 1) (s + Suc n - (p + 1)))"
      by (auto simp: snoc snoc' split: option.splits)
    with r(1) b False show ?thesis by (simp add: rd_def)
  qed
qed simp

lemma strrchr_last:
  assumes "cstring_at m s bs"
  shows "\<exists>r. strrchr m s (sint c) = Some r \<and>
    (case r of None \<Rightarrow> c \<notin> set (bs @ [0])
     | Some p \<Rightarrow> s \<le> p \<and> p \<le> s + length bs \<and> m p = Some c
         \<and> c \<notin> set (bytes_at m (p + 1) (s + length bs - p)))"
  using strrchr_from_last [of m s "length bs + 1" c] assms
  by (auto simp: strrchr_def strlen_cstring cstring_at_def split: option.splits)

lemma tok_scan_stops:
  assumes "cstring_at m p bs" "cstring_at sm seps ss"
  shows "tok_scan want sm seps m p = Some (p + length (takeWhile (\<lambda>c. (c \<in> set ss) = want) bs))"
  using assms(1)
  by (induction bs arbitrary: p; subst tok_scan.simps)
    (auto simp: cstring_simps strchr_first [OF assms(2)])

lemma cstring_at_drop: "cstring_at m a (as @ bs) \<Longrightarrow> cstring_at m (a + length as) bs"
  by (induction as arbitrary: a) (auto simp: cstring_at_Cons simp flip: add_Suc)

lemma cstring_at_cut: "cstring_at m a (as @ b # bs) \<Longrightarrow> cstring_at (m(a + length as \<mapsto> 0)) a as"
  by (induction as arbitrary: a) (auto simp: cstring_simps simp flip: add_Suc)

lemma cstring_at_0 [simp]: "cstring_at m a bs \<Longrightarrow> 0 \<notin> set bs"
  by (simp add: cstring_at_def)

text \<open>The next word of a string, what stands before it and what follows it.\<close>

definition tok_lead :: "byte set \<Rightarrow> byte list \<Rightarrow> byte list" where
  "tok_lead S bs = takeWhile (\<lambda>c. c \<in> S) bs"

definition tok_word :: "byte set \<Rightarrow> byte list \<Rightarrow> byte list" where
  "tok_word S bs = takeWhile (\<lambda>c. c \<notin> S) (dropWhile (\<lambda>c. c \<in> S) bs)"

definition tok_rest :: "byte set \<Rightarrow> byte list \<Rightarrow> byte list" where
  "tok_rest S bs = dropWhile (\<lambda>c. c \<notin> S) (dropWhile (\<lambda>c. c \<in> S) bs)"

lemmas tok_defs = tok_lead_def tok_word_def tok_rest_def

lemma tok_split: "bs = tok_lead S bs @ tok_word S bs @ tok_rest S bs"
  by (simp add: tok_defs)

lemma tok_rest_shorter: "tok_word S bs \<noteq> [] \<Longrightarrow> length (tok_rest S bs) < length bs"
  using arg_cong [OF tok_split [of bs S], of length] by (cases "tok_word S bs") auto

lemma tok_word_Nil: "tok_word S bs = [] \<longleftrightarrow> dropWhile (\<lambda>c. c \<in> S) bs = []"
proof
  assume *: "tok_word S bs = []"
  show "dropWhile (\<lambda>c. c \<in> S) bs = []"
  proof (rule ccontr)
    assume "dropWhile (\<lambda>c. c \<in> S) bs \<noteq> []"
    with hd_dropWhile [OF this] * show False
      by (cases "dropWhile (\<lambda>c. c \<in> S) bs") (auto simp: tok_defs)
  qed
qed (simp add: tok_word_def del: dropWhile_eq_Nil_conv)

text \<open>
  One call of \<^verbatim>\<open>strtok_r\<close> on a string \<open>bs\<close> at \<open>h\<close>, given as argument or as context: it returns NULL when
  there is no word left; otherwise the word, with a NUL over the separator that follows it, and
  the next context.
\<close>

lemma strtok_r_word:
  assumes bs: "cstring_at m h bs" and ss: "cstring_at sm seps ss"
    and start: "str = Some h \<or> str = NULL \<and> ctx = Some h"
  defines "w \<equiv> tok_word (set ss) bs" and "head \<equiv> h + length (tok_lead (set ss) bs)"
  shows "strtok_r m str sm seps ctx =
    (if w = [] then Some (NULL, NULL, m)
     else if tok_rest (set ss) bs = [] then Some (Some head, NULL, m)
     else Some (Some head, Some (head + length w + 1), m(head + length w \<mapsto> 0)))"
proof -
  let ?S = "set ss"
  have s1: "tok_scan True sm seps m h = Some head"
    using tok_scan_stops [OF bs ss, of True] by (simp add: head_def tok_lead_def)
  have at: "cstring_at m head (w @ tok_rest ?S bs)"
    using cstring_at_drop [of m h "tok_lead ?S bs" "w @ tok_rest ?S bs"] bs tok_split [of bs ?S]
    by (simp add: head_def w_def)
  have "w @ tok_rest ?S bs = dropWhile (\<lambda>c. c \<in> ?S) bs" by (simp add: w_def tok_defs)
  then have s2: "tok_scan False sm seps m head = Some (head + length w)"
    using tok_scan_stops [OF at ss, of False] by (simp add: w_def tok_word_def)
  have at2: "cstring_at m (head + length w) (tok_rest ?S bs)" using at by (rule cstring_at_drop)
  have nil: "w = [] \<Longrightarrow> tok_rest ?S bs = []"
    by (simp add: w_def tok_word_Nil tok_rest_def del: dropWhile_eq_Nil_conv)
  have hd: "rd m head = Some (hd (w @ tok_rest ?S bs @ [0]))" "w \<noteq> [] \<Longrightarrow> hd w \<noteq> 0"
    using at by (cases w; cases "tok_rest ?S bs"; auto simp: cstring_simps)+
  have tl: "rd m (head + length w) = Some (hd (tok_rest ?S bs @ [0]))"
    "tok_rest ?S bs \<noteq> [] \<Longrightarrow> hd (tok_rest ?S bs) \<noteq> 0"
    using at2 by (cases "tok_rest ?S bs"; auto simp: cstring_simps)+
  have "strtok_r m str sm seps ctx = strtok_r m (Some h) sm seps ctx"
    using start by (auto simp: strtok_r_def)
  then show ?thesis
    using s1 s2 hd tl nil by (auto simp: strtok_r_def wr_def rd_def Let_def split: option.split)
qed

lemma memmove_copies:
  assumes "mapped m src len" and "mapped m dst len"
  shows "memmove m dst src len = Some (put m dst (bytes_at m src len))"
proof (cases "dst < src")
  case True
  then show ?thesis using assms by (simp add: memmove_def memcpy_copies)
next
  case False
  then show ?thesis
    using assms copy_backward [of src dst m "len div 4" 4] copy_backward [of src dst m len 1]
    by (simp add: memmove_def)
qed

subsection \<open>Faults while copying\<close>

lemma mapped_put_eq: "mapped m a (length bs) \<Longrightarrow> mapped (put m a bs) b n = mapped m b n"
  by (auto simp: mapped_iff dom_put)

lemma copy_units_faults:
  assumes "i \<in> set is" "\<not> mapped m (s + i * sz) sz \<or> \<not> mapped m (d + i * sz) sz"
  shows "copy_units sz is m d s = None"
  using assms
proof (induction "is" arbitrary: m)
  case (Cons j js)
  show ?case
  proof (cases "mapped m (s + j * sz) sz \<and> mapped m (d + j * sz) sz")
    case True
    with Cons.prems have "i \<in> set js" by auto
    with Cons True show ?thesis by (simp add: kload_def kstore_def mapped_put_eq)
  next
    case False
    then show ?thesis by (auto simp: kload_def kstore_def)
  qed
qed simp

lemma mapped_units: "mapped m a (n * sz) \<longleftrightarrow> (\<forall>i < n. mapped m (a + i * sz) sz)"
proof (induction n)
  case (Suc n)
  have "mapped m a (Suc n * sz) \<longleftrightarrow> mapped m a (n * sz) \<and> mapped m (a + n * sz) sz"
    by (simp add: mapped_add add.commute [of sz])
  with Suc show ?case by (auto simp: less_Suc_eq)
qed simp

lemma copy_units_all_faults:
  assumes "\<not> mapped m s (n * sz) \<or> \<not> mapped m d (n * sz)" "set is = {0..<n}"
  shows "copy_units sz is m d s = None"
proof -
  obtain i where "i < n" "\<not> mapped m (s + i * sz) sz \<or> \<not> mapped m (d + i * sz) sz"
    using assms(1) by (auto simp: mapped_units)
  then show ?thesis using assms(2) by (intro copy_units_faults [of i]) auto
qed

lemma memmove_faults:
  assumes "\<not> mapped m src len \<or> \<not> mapped m dst len"
  shows "memmove m dst src len = None"
proof -
  have "copy_units 1 is m dst src = None" if "set is = {0..<len}" for "is"
    using copy_units_all_faults [of m src len 1 dst "is"] assms that by simp
  moreover have "copy_units 4 is m dst src = None" if "len mod 4 = 0" "set is = {0..<len div 4}" for "is"
    using copy_units_all_faults [of m src "len div 4" 4 dst "is"] assms that by simp
  ultimately show ?thesis by (auto simp: memmove_def memcpy_def)
qed

text \<open>
  C23. \<^verbatim>\<open>memmove\<close> is the simultaneous copy, however the two regions overlap and whichever of its
  four loops it takes (words or bytes, upwards through \<^verbatim>\<open>memcpy\<close> or downwards): it behaves as if it first read
  the whole source and then wrote the whole destination, and it faults exactly when one of
  these accesses would.
\<close>

theorem memmove_snapshot:
  "memmove m dst src len = Option.bind (kload m src len) (\<lambda>bs. kstore m dst bs)"
  by (cases "mapped m src len \<and> mapped m dst len")
    (auto simp: memmove_copies memmove_faults kload_def kstore_def)

end
