(* ===== verification/Printf.thy ===== *)
theory Printf
  imports Libc
begin

section \<open>Formatted output\<close>

text \<open>
  Model of \<^verbatim>\<open>lib/libc/__printf.c\<close>, the formatter behind \<^verbatim>\<open>kprintf\<close>, \<^verbatim>\<open>printf\<close> and \<^verbatim>\<open>snprintf\<close>, and of
  \<^verbatim>\<open>lib/libc/snprintf.c\<close>.

  The argument list is the list of 32-bit words that \<^verbatim>\<open>va_arg\<close> takes one by one; to take one that was
  not passed is undefined (\<open>None\<close>). A string argument is an address in the memory \<open>m\<close>, which also
  holds the format; the output goes elsewhere. The callback \<^verbatim>\<open>sendfunc\<close> is the argument \<open>send\<close>, and the
  data it works on (\<^verbatim>\<open>clientdata\<close>) is threaded beside the formatter's state. \<^verbatim>\<open>INTTYPE\<close> is \<^verbatim>\<open>long\<close>.
\<close>

subsection \<open>The formatter\<close>

datatype pf_size = INTSZ | LONGSZ

record pf =
  ap :: "nat list"
  charcount :: int
  in_pct :: bool
  pfsize :: pf_size
  num :: nat
  sign :: bool
  spacing :: int
  rightspc :: bool
  fillchar :: byte
  base :: nat
  baseprefix :: bool
  altformat :: bool

type_synonym 's out = "pf \<times> 's"
type_synonym 's sendfunc = "'s \<Rightarrow> byte list \<Rightarrow> 's run"

definition NUMBER_BUF_SIZE :: nat where "NUMBER_BUF_SIZE = 4 * 8 div 3 + 2"

abbreviation asc :: "char \<Rightarrow> byte" where "asc c \<equiv> of_char c"

definition pf_print :: "'s sendfunc \<Rightarrow> byte list \<Rightarrow> 's out \<Rightarrow> 's out run" where
  "pf_print send txt = (\<lambda>(pf, s). do {
     s \<leftarrow> send s txt;
     Some (pf\<lparr>charcount := s32 (charcount pf + int (length txt))\<rparr>, s)
   })"

definition pf_endfield :: "pf \<Rightarrow> pf" where
  "pf_endfield pf = pf\<lparr>in_pct := False, pfsize := INTSZ, num := 0, sign := False, spacing := 0,
     rightspc := False, fillchar := asc (CHR '' ''), base := 0, baseprefix := False, altformat := False\<rparr>"

definition pf_modifier :: "byte \<Rightarrow> pf \<Rightarrow> pf run" where
  "pf_modifier ch pf =
     (if ch = asc (CHR ''#'') then Some (pf\<lparr>altformat := True\<rparr>)
      else if ch = asc (CHR ''-'') then Some (pf\<lparr>rightspc := True\<rparr>)
      else if ch = asc (CHR ''l'') then Some (if pfsize pf = LONGSZ then pf else pf\<lparr>pfsize := LONGSZ\<rparr>)
      else if ch = asc (CHR ''q'') then Some (pf\<lparr>pfsize := LONGSZ\<rparr>)
      else if ch = asc (CHR ''0'') then
        Some (if spacing pf > 0 then pf\<lparr>spacing := s32 (spacing pf * 10)\<rparr>
              else pf\<lparr>fillchar := asc (CHR ''0'')\<rparr>)
      else do {
        kassert (sint ch > sint (asc (CHR ''0'')) \<and> sint ch \<le> sint (asc (CHR ''9'')));
        Some (pf\<lparr>spacing := s32 (spacing pf * 10 + (sint ch - sint (asc (CHR ''0''))))\<rparr>)
      })"

definition va_arg :: "pf \<Rightarrow> (nat \<times> pf) run" where
  "va_arg pf = (case ap pf of [] \<Rightarrow> None | w # ws \<Rightarrow> Some (u32 w, pf\<lparr>ap := ws\<rparr>))"

definition pf_getnum :: "byte \<Rightarrow> pf \<Rightarrow> pf run" where
  "pf_getnum ch pf = do {
     (w, pf) \<leftarrow> va_arg pf;
     if ch = asc (CHR ''d'') then
       let signednum = s32 (int w) in
       if signednum < 0 then Some (pf\<lparr>sign := True, num := nat (- signednum mod 2 ^ 32)\<rparr>)
       else Some (pf\<lparr>num := nat signednum\<rparr>)
     else Some (pf\<lparr>num := w\<rparr>)
   }"

definition pf_setbase :: "byte \<Rightarrow> pf \<Rightarrow> pf" where
  "pf_setbase ch pf =
     (let pf = (if ch \<in> {asc (CHR ''d''), asc (CHR ''u'')} then pf\<lparr>base := 10\<rparr>
                else if ch \<in> {asc (CHR ''x''), asc (CHR ''p'')} then pf\<lparr>base := 16\<rparr>
                else if ch = asc (CHR ''o'') then pf\<lparr>base := 8\<rparr>
                else pf) in
      if altformat pf \<or> ch = asc (CHR ''p'') then pf\<lparr>baseprefix := True\<rparr> else pf)"

fun pf_fill :: "'s sendfunc \<Rightarrow> nat \<Rightarrow> 's out \<Rightarrow> 's out run" where
  "pf_fill send 0 st = Some st"
| "pf_fill send (Suc n) st = do { st \<leftarrow> pf_print send [fillchar (fst st)] st; pf_fill send n st }"

definition pf_printstuff ::
    "'s sendfunc \<Rightarrow> byte list \<Rightarrow> byte list \<Rightarrow> byte list \<Rightarrow> 's out \<Rightarrow> 's out run" where
  "pf_printstuff send prefix prefix2 stuff st =
     (let len = s32 (int (length prefix + length prefix2 + length stuff));
          spc = (if spacing (fst st) > len then spacing (fst st) - len else 0);
          right = rightspc (fst st);
          zero = (fillchar (fst st) = asc (CHR ''0'')) in
      do {
        st \<leftarrow> if spc > 0 \<and> \<not> right \<and> \<not> zero then pf_fill send (nat spc) st else Some st;
        st \<leftarrow> pf_print send prefix st;
        st \<leftarrow> pf_print send prefix2 st;
        st \<leftarrow> if spc > 0 \<and> \<not> right \<and> zero then pf_fill send (nat spc) st else Some st;
        st \<leftarrow> pf_print send stuff st;
        if spc > 0 \<and> right then pf_fill send (nat spc) st else Some st
      })"

text \<open>
  The conversion of a number works from right to left in \<^verbatim>\<open>buf\<close>; a store outside the buffer and a
  division by a base of 0 are \<open>None\<close>. The index \<open>x\<close> stands for the pointer, and is \<open>-1\<close> when the
  buffer is full.
\<close>

definition store_at :: "byte list \<Rightarrow> int \<Rightarrow> byte \<Rightarrow> byte list run" where
  "store_at buf x c = (if x < 0 then None else upd_run buf (nat x) c)"

partial_function (option) digit_loop :: "nat \<Rightarrow> nat \<Rightarrow> byte list \<Rightarrow> int \<Rightarrow> (int \<times> byte list) run" where
  "digit_loop b xnum buf x = do {
     kassert (b \<noteq> 0);
     d \<leftarrow> nth_run (lit ''0123456789abcdef'') (xnum mod b);
     buf \<leftarrow> store_at buf x d;
     if xnum div b > 0 then digit_loop b (xnum div b) buf (x - 1) else Some (x - 1, buf)
   }"

definition pf_printnum :: "'s sendfunc \<Rightarrow> byte list \<Rightarrow> 's out \<Rightarrow> 's out run" where
  "pf_printnum send junk st = do {
     kassert (length junk = NUMBER_BUF_SIZE);
     let x = int NUMBER_BUF_SIZE - 1;
     buf \<leftarrow> store_at junk x 0;
     (x, buf) \<leftarrow> digit_loop (base (fst st)) (num (fst st)) buf (x - 1);
     let stuff = takeWhile (\<lambda>c. c \<noteq> 0) (drop (nat (x + 1)) buf);
     let bprefix = (if baseprefix (fst st) \<and> base (fst st) = 16 then lit ''0x''
                    else if baseprefix (fst st) \<and> base (fst st) = 8 then lit ''0'' else []);
     let sprefix = (if sign (fst st) then lit ''-'' else []);
     pf_printstuff send sprefix bprefix stuff st
   }"

text \<open>The string at an address, as \<^verbatim>\<open>strlen\<close> and the output loops read it.\<close>

definition string_at :: "memory \<Rightarrow> nat \<Rightarrow> byte list run" where
  "string_at m a = do { n \<leftarrow> strlen m a; kload m a n }"

definition pf_string :: "memory \<Rightarrow> 's sendfunc \<Rightarrow> 's out \<Rightarrow> 's out run" where
  "pf_string m send = (\<lambda>(pf, s). do {
     (str, pf) \<leftarrow> va_arg pf;
     txt \<leftarrow> if str = 0 then Some (lit ''(null)'') else string_at m str;
     (pf, s) \<leftarrow> pf_printstuff send [] [] txt (pf, s);
     Some (pf_endfield pf, s)
   })"

definition pf_number :: "byte \<Rightarrow> 's sendfunc \<Rightarrow> byte list \<Rightarrow> 's out \<Rightarrow> 's out run" where
  "pf_number ch send junk = (\<lambda>(pf, s). do {
     pf \<leftarrow> pf_getnum ch pf;
     (pf, s) \<leftarrow> pf_printnum send junk (pf_setbase ch pf, s);
     Some (pf_endfield pf, s)
   })"

text \<open>\<^verbatim>\<open>%c\<close>, \<^verbatim>\<open>%%\<close> and every other character; the two-byte string ends early when the character is NUL.\<close>

definition pf_char :: "byte \<Rightarrow> 's sendfunc \<Rightarrow> 's out \<Rightarrow> 's out run" where
  "pf_char ch send = (\<lambda>(pf, s). do {
     (c, pf) \<leftarrow> if ch = asc (CHR ''c'')
               then (case va_arg pf of None \<Rightarrow> None | Some (w, pf) \<Rightarrow> Some (of_nat w, pf))
               else Some (ch, pf);
     (pf, s) \<leftarrow> pf_printstuff send [] [] (takeWhile (\<lambda>b. b \<noteq> 0) [c]) (pf, s);
     Some (pf_endfield pf, s)
   })"

definition pf_send :: "memory \<Rightarrow> 's sendfunc \<Rightarrow> byte list \<Rightarrow> byte \<Rightarrow> 's out \<Rightarrow> 's out run" where
  "pf_send m send junk ch = (\<lambda>(pf, s). do {
     kassert (ch \<noteq> 0);
     modifier \<leftarrow> strchr (str_lit ''#-ql0123456789'') 0 (sint ch);
     integer \<leftarrow> strchr (str_lit ''doupx'') 0 (sint ch);
     if \<not> in_pct pf \<and> ch \<noteq> asc (CHR ''%'') then pf_print send [ch] (pf, s)
     else if \<not> in_pct pf then Some (pf\<lparr>in_pct := True\<rparr>, s)
     else if modifier \<noteq> NULL then do { pf \<leftarrow> pf_modifier ch pf; Some (pf, s) }
     else if integer \<noteq> NULL then pf_number ch send junk (pf, s)
     else if ch = asc (CHR ''s'') then pf_string m send (pf, s)
     else pf_char ch send (pf, s)
   })"

partial_function (option) vprintf_loop ::
    "memory \<Rightarrow> 's sendfunc \<Rightarrow> byte list \<Rightarrow> nat \<Rightarrow> 's out \<Rightarrow> 's out run" where
  "vprintf_loop m send junk p st = do {
     c \<leftarrow> rd m p;
     if c = 0 then Some st
     else do { st \<leftarrow> pf_send m send junk c st; vprintf_loop m send junk (p + 1) st }
   }"

definition pf_init :: "nat list \<Rightarrow> pf" where
  "pf_init args = pf_endfield \<lparr>ap = args, charcount = 0, in_pct = False, pfsize = INTSZ, num = 0,
     sign = False, spacing = 0, rightspc = False, fillchar = 0, base = 0, baseprefix = False,
     altformat = False\<rparr>"

definition vprintf :: "memory \<Rightarrow> 's sendfunc \<Rightarrow> byte list \<Rightarrow> 's \<Rightarrow> nat \<Rightarrow> nat list \<Rightarrow> (int \<times> 's) run" where
  "vprintf m func junk clientdata format args = do {
     (pf, s) \<leftarrow> vprintf_loop m func junk format (pf_init args, clientdata);
     Some (charcount pf, s)
   }"

subsection \<open>\<^verbatim>\<open>snprintf\<close>\<close>

record snp =
  snp_buf :: "byte list"
  buflen :: nat
  bufpos :: nat

fun snprintf_send :: "snp \<Rightarrow> byte list \<Rightarrow> snp run" where
  "snprintf_send snp [] = Some snp"
| "snprintf_send snp (c # cs) =
     (if bufpos snp < buflen snp then do {
        buf \<leftarrow> upd_run (snp_buf snp) (bufpos snp) c;
        snprintf_send (snp\<lparr>snp_buf := buf, bufpos := bufpos snp + 1\<rparr>) cs
      }
      else snprintf_send snp cs)"

definition vsnprintf :: "memory \<Rightarrow> byte list \<Rightarrow> byte list \<Rightarrow> nat \<Rightarrow> nat \<Rightarrow> nat list \<Rightarrow> (int \<times> byte list) run" where
  "vsnprintf m junk buf len fmt args = do {
     let snp = \<lparr>snp_buf = buf, buflen = if len = 0 then 0 else len - 1, bufpos = 0\<rparr>;
     (chars, snp) \<leftarrow> vprintf m snprintf_send junk snp fmt args;
     buf \<leftarrow> if len > 0 then upd_run (snp_buf snp) (bufpos snp) 0 else Some (snp_buf snp);
     Some (chars, buf)
   }"

definition snprintf :: "memory \<Rightarrow> byte list \<Rightarrow> byte list \<Rightarrow> nat \<Rightarrow> nat \<Rightarrow> nat list \<Rightarrow> (int \<times> byte list) run" where
  "snprintf m junk buf len fmt args = vsnprintf m junk buf len fmt args"

subsection \<open>The formatter does not depend on where its output goes\<close>

lemma rel_option_bindI:
  "rel_option A x y \<Longrightarrow> (\<And>a b. A a b \<Longrightarrow> rel_option B (f a) (g b)) \<Longrightarrow>
   rel_option B (Option.bind x f) (Option.bind y g)"
  by (cases x; cases y) auto

lemma rel_option_bind_same:
  "(\<And>a. rel_option B (f a) (g a)) \<Longrightarrow> rel_option B (Option.bind x f) (Option.bind x g)"
  by (cases x) auto

locale sends =
  fixes send1 :: "'s sendfunc" and send2 :: "'t sendfunc" and R :: "'s \<Rightarrow> 't \<Rightarrow> bool"
  assumes step: "R s t \<Longrightarrow> rel_option R (send1 s txt) (send2 t txt)"
begin

abbreviation Rp :: "pf \<times> 's \<Rightarrow> pf \<times> 't \<Rightarrow> bool" where "Rp \<equiv> rel_prod (=) R"

lemma Rp_fst: "Rp a b \<Longrightarrow> fst a = fst b"
  by (cases a; cases b) simp

lemma print_rel: "Rp a b \<Longrightarrow> rel_option Rp (pf_print send1 txt a) (pf_print send2 txt b)"
  by (cases a; cases b) (auto simp: pf_print_def intro!: rel_option_bindI [OF step])

lemma fill_rel: "Rp a b \<Longrightarrow> rel_option Rp (pf_fill send1 n a) (pf_fill send2 n b)"
proof (induction n arbitrary: a b)
  case (Suc n)
  have "fst a = fst b" using Suc.prems by (rule Rp_fst)
  with Suc show ?case by (auto intro!: rel_option_bindI [OF print_rel])
qed simp

lemma printstuff_rel:
  assumes "Rp a b"
  shows "rel_option Rp (pf_printstuff send1 x y z a) (pf_printstuff send2 x y z b)"
proof -
  have "fst a = fst b" using assms by (rule Rp_fst)
  then show ?thesis using assms
    by (auto simp: pf_printstuff_def Let_def intro!: rel_option_bindI [OF print_rel] rel_option_bindI [OF fill_rel] fill_rel print_rel)
qed

lemma printnum_rel: "Rp a b \<Longrightarrow> rel_option Rp (pf_printnum send1 junk a) (pf_printnum send2 junk b)"
proof -
  assume r: "Rp a b"
  then have "fst a = fst b" by (rule Rp_fst)
  then show ?thesis using printstuff_rel [OF r]
    by (auto simp: pf_printnum_def Let_def intro!: rel_option_bind_same)
qed

lemma end_rel:
  "rel_option Rp x y \<Longrightarrow>
   rel_option Rp (Option.bind x (\<lambda>(pf, s). Some (pf_endfield pf, s))) (Option.bind y (\<lambda>(pf, s). Some (pf_endfield pf, s)))"
  by (erule rel_option_bindI) auto

lemma send_rel: "Rp a b \<Longrightarrow> rel_option Rp (pf_send m send1 junk c a) (pf_send m send2 junk c b)"
proof -
  assume "Rp a b"
  then obtain pf s t where ab: "a = (pf, s)" "b = (pf, t)" "R s t" by (cases a; cases b) auto
  have Rp: "Rp (q, s) (q, t)" for q using ab(3) by simp
  have "rel_option Rp (pf_number c send1 junk a) (pf_number c send2 junk b)"
    using ab by (auto simp: pf_number_def intro!: rel_option_bind_same end_rel printnum_rel)
  moreover have "rel_option Rp (pf_string m send1 a) (pf_string m send2 b)"
    using ab by (auto simp: pf_string_def intro!: rel_option_bind_same end_rel printstuff_rel split: prod.split)
  moreover have "rel_option Rp (pf_char c send1 a) (pf_char c send2 b)"
    using ab by (auto simp: pf_char_def intro!: rel_option_bind_same end_rel printstuff_rel split: prod.split)
  moreover have "rel_option Rp (pf_print send1 [c] a) (pf_print send2 [c] b)"
    using ab by (auto intro: print_rel)
  ultimately show ?thesis
    using ab by (auto simp: pf_send_def intro!: rel_option_bind_same)
qed

lemma loop_rel:
  "cstring_at m p f \<Longrightarrow> Rp a b \<Longrightarrow>
   rel_option Rp (vprintf_loop m send1 junk p a) (vprintf_loop m send2 junk p b)"
  by (induction f arbitrary: p a b; subst (1 2) vprintf_loop.simps)
    (auto simp: cstring_simps simp del: rel_prod_sel intro!: rel_option_bindI [OF send_rel])

lemma vprintf_rel:
  "cstring_at m fmt f \<Longrightarrow> R s t \<Longrightarrow>
   rel_option (rel_prod (=) R) (vprintf m send1 junk s fmt args) (vprintf m send2 junk t fmt args)"
  by (auto simp: vprintf_def intro!: rel_option_bindI [OF loop_rel])

end

subsection \<open>The text that is sent\<close>

definition collect :: "byte list sendfunc" where
  "collect s txt = Some (s @ txt)"

text \<open>The digits of a number in a base, the most significant first.\<close>

definition digit_char :: "nat \<Rightarrow> byte" where
  "digit_char d = lit ''0123456789abcdef'' ! d"

function digs :: "nat \<Rightarrow> nat \<Rightarrow> nat list" where
  "digs b n = (if b < 2 \<or> n < b then [n] else digs b (n div b) @ [n mod b])"
  by pat_completeness auto
termination by (relation "measure snd") (auto intro: div_less_dividend)

declare digs.simps [simp del]

lemma digs_less: "2 \<le> b \<Longrightarrow> d \<in> set (digs b n) \<Longrightarrow> d < b"
proof (induction b n rule: digs.induct)
  case (1 b n)
  then show ?case by (cases "n < b") (auto simp: digs.simps [of b n])
qed

lemma digs_length: "2 \<le> b \<Longrightarrow> 0 < k \<Longrightarrow> n < b ^ k \<Longrightarrow> length (digs b n) \<le> k"
proof (induction k arbitrary: n)
  case (Suc k)
  show ?case
  proof (cases "n < b")
    case True
    then show ?thesis by (simp add: digs.simps [of b n])
  next
    case False
    then have "n div b < b ^ k" "0 < k"
      using Suc.prems by (auto simp: less_mult_imp_div_less mult.commute intro: Nat.gr0I)
    with Suc False show ?thesis by (simp add: digs.simps [of b n])
  qed
qed simp

lemma digs_value: "2 \<le> b \<Longrightarrow> foldl (\<lambda>v d. v * b + d) 0 (digs b n) = n"
proof (induction b n rule: digs.induct)
  case (1 b n)
  then show ?case by (cases "n < b") (auto simp: digs.simps [of b n])
qed

lemma length_lit_digits: "length (lit ''0123456789abcdef'') = 16"
  by (simp add: lit_def)

lemma digit_loop_fills:
  assumes "2 \<le> b" "b \<le> 16" "length (digs b n) \<le> length pre"
  shows "digit_loop b n (pre @ suf) (int (length pre) - 1)
       = Some (int (length pre - length (digs b n)) - 1,
               take (length pre - length (digs b n)) pre @ map digit_char (digs b n) @ suf)"
  using assms
proof (induction b n arbitrary: pre suf rule: digs.induct)
  case (1 b n)
  have "digs b n \<noteq> []" by (simp add: digs.simps [of b n])
  then have "pre \<noteq> []" using "1.prems"(3) by auto
  then obtain ys y where pre: "pre = ys @ [y]" by (cases pre rule: rev_cases) auto
  have "n mod b < 16" using "1.prems"(1,2) by (auto intro: order_less_le_trans [OF mod_less_divisor])
  then have step: "digit_loop b n (pre @ suf) (int (length pre) - 1) =
     (if n div b > 0 then digit_loop b (n div b) (ys @ digit_char (n mod b) # suf) (int (length ys) - 1)
      else Some (int (length ys) - 1, ys @ digit_char (n mod b) # suf))"
    using "1.prems"(1) pre
    by (subst digit_loop.simps) (simp add: store_at_def digit_char_def length_lit_digits)
  show ?case
  proof (cases "n < b")
    case True
    then show ?thesis using step "1.prems"(1) pre by (simp add: digs.simps [of b n])
  next
    case False
    with "1.prems" have "\<not> (b < 2 \<or> n < b)" "n div b > 0" by (simp_all add: div_greater_zero_iff)
    with 1(1) [of ys "digit_char (n mod b) # suf"] step "1.prems" pre False show ?thesis
      by (simp add: digs.simps [of b n])
  qed
qed

lemma s32_add [simp]: "s32 (s32 a + b) = s32 (a + b)"
proof -
  have "(a + 2 ^ 31) mod 2 ^ 32 - 2 ^ 31 + b + 2 ^ 31 = (a + 2 ^ 31) mod 2 ^ 32 + b" by simp
  then show ?thesis by (simp add: s32_def mod_add_left_eq add.assoc add.commute [of b])
qed

lemma print_collect:
  "pf_print collect txt (pf, s) = Some (pf\<lparr>charcount := s32 (charcount pf + int (length txt))\<rparr>, s @ txt)"
  by (simp add: pf_print_def collect_def)

lemma fill_collect:
  "charcount pf = s32 k \<Longrightarrow> pf_fill collect n (pf, s) =
   Some (pf\<lparr>charcount := s32 (k + int n)\<rparr>, s @ replicate n (fillchar pf))"
  by (induction n arbitrary: pf s k) (simp_all add: print_collect replicate_append_same add.assoc)

definition field :: "pf \<Rightarrow> byte list \<Rightarrow> byte list \<Rightarrow> byte list \<Rightarrow> byte list" where
  "field pf x y z =
     (let len = s32 (int (length x + length y + length z));
          pad = replicate (nat (spacing pf - len)) (fillchar pf) in
      if rightspc pf then x @ y @ z @ pad
      else if fillchar pf = asc (CHR ''0'') then x @ y @ pad @ z
      else pad @ x @ y @ z)"

lemma printstuff_collect:
  assumes "charcount pf = s32 k"
  shows "pf_printstuff collect x y z (pf, s) =
    Some (pf\<lparr>charcount := s32 (k + int (length (field pf x y z)))\<rparr>, s @ field pf x y z)"
  using assms
  by (auto simp: pf_printstuff_def Let_def field_def print_collect fill_collect add.assoc)

definition number_text :: "pf \<Rightarrow> byte list" where
  "number_text pf = field pf (if sign pf then lit ''-'' else [])
     (if baseprefix pf \<and> base pf = 16 then lit ''0x'' else if baseprefix pf \<and> base pf = 8 then lit ''0'' else [])
     (map digit_char (digs (base pf) (num pf)))"

lemma digit_char_nonzero: "d < 16 \<Longrightarrow> digit_char d \<noteq> 0"
proof -
  assume "d < 16"
  then have "digit_char d \<in> set (lit ''0123456789abcdef'')"
    by (simp add: digit_char_def length_lit_digits)
  moreover have "0 \<notin> set (lit ''0123456789abcdef'')" by (simp add: lit_def)
  ultimately show ?thesis by metis
qed

lemma printnum_collect:
  assumes "length junk = NUMBER_BUF_SIZE" "base pf \<in> {8, 10, 16}" "num pf < 2 ^ 32" "charcount pf = s32 k"
  shows "pf_printnum collect junk (pf, s) =
    Some (pf\<lparr>charcount := s32 (k + int (length (number_text pf)))\<rparr>, s @ number_text pf)"
proof -
  let ?b = "base pf" and ?d = "digs (base pf) (num pf)"
  have b: "2 \<le> ?b" "?b \<le> 16" using assms(2) by auto
  have "(2::nat) ^ 32 \<le> 8 ^ 11" "(8::nat) ^ 11 \<le> ?b ^ 11" using assms(2) by auto
  then have "num pf < ?b ^ 11" using assms(3) by simp
  then have len: "length ?d \<le> 11" using digs_length [OF b(1)] by simp
  obtain pre c where junk: "junk = pre @ [c]" "length pre = 11"
    using assms(1) by (cases junk rule: rev_cases) (auto simp: NUMBER_BUF_SIZE_def)
  have "store_at junk 11 0 = Some (pre @ [0])" using junk list_update_length [of pre c "[]" 0] by (simp add: store_at_def upd_run_def)
  moreover have "digit_loop ?b (num pf) (pre @ [0]) 10 =
      Some (int (11 - length ?d) - 1, take (11 - length ?d) pre @ map digit_char ?d @ [0])"
    using digit_loop_fills [OF b, of "num pf" pre "[0]"] len junk(2) by simp
  moreover have "drop (nat (int (11 - length ?d) - 1 + 1))
      (take (11 - length ?d) pre @ map digit_char ?d @ [0]) = map digit_char ?d @ [0]"
    using junk(2) by simp
  moreover have "takeWhile (\<lambda>c. c \<noteq> 0) (map digit_char ?d @ [0]) = map digit_char ?d"
  proof -
    have "\<forall>c \<in> set (map digit_char ?d). c \<noteq> 0"
      using digs_less [OF b(1)] b(2) digit_char_nonzero by fastforce
    then show ?thesis unfolding takeWhile_append by simp
  qed
  ultimately show ?thesis
    using assms(1) printstuff_collect [OF assms(4)]
    by (simp add: pf_printnum_def Let_def NUMBER_BUF_SIZE_def number_text_def)
qed

abbreviation modifiers :: "byte list" where "modifiers \<equiv> lit ''#-ql0123456789''"
abbreviation integers :: "byte list" where "integers \<equiv> lit ''doupx''"

lemma strchr_lit:
  assumes "0 \<notin> set (lit t)" "c \<noteq> 0"
  shows "\<exists>r. strchr (str_lit t) 0 (sint c) = Some r \<and> (r \<noteq> NULL \<longleftrightarrow> c \<in> set (lit t))"
  using strchr_first [OF cstring_at_mem_of [OF assms(1)], of c] assms(2) by (simp add: str_lit_def)

lemma no_nul: "0 \<notin> set modifiers" "0 \<notin> set integers"
  by (simp_all add: lit_def)

lemma pf_send_cases:
  assumes "c \<noteq> 0"
  shows "pf_send m send junk c (pf, s) =
    (if \<not> in_pct pf \<and> c \<noteq> asc (CHR ''%'') then pf_print send [c] (pf, s)
     else if \<not> in_pct pf then Some (pf\<lparr>in_pct := True\<rparr>, s)
     else if c \<in> set modifiers then do { pf \<leftarrow> pf_modifier c pf; Some (pf, s) }
     else if c \<in> set integers then pf_number c send junk (pf, s)
     else if c = asc (CHR ''s'') then pf_string m send (pf, s)
     else pf_char c send (pf, s))"
proof -
  obtain r where r: "strchr (str_lit ''#-ql0123456789'') 0 (sint c) = Some r" "r \<noteq> NULL \<longleftrightarrow> c \<in> set modifiers"
    using strchr_lit [OF no_nul(1) assms] by blast
  obtain q where q: "strchr (str_lit ''doupx'') 0 (sint c) = Some q" "q \<noteq> NULL \<longleftrightarrow> c \<in> set integers"
    using strchr_lit [OF no_nul(2) assms] by blast
  show ?thesis
    using assms unfolding pf_send_def by (simp only: prod.case r q kassert_simps bind.simps not_False_eq_True)
qed

text \<open>The assertion of \<^verbatim>\<open>__pf_modifier\<close> never fails.\<close>

lemma modifier_ok:
  assumes "c \<in> set modifiers"
  shows "\<exists>pf'. pf_modifier c pf = Some pf' \<and> ap pf' = ap pf \<and> in_pct pf' = in_pct pf \<and> charcount pf' = charcount pf"
  using assms by (auto simp: lit_def pf_modifier_def)

lemma endfield_simps [simp]:
  "ap (pf_endfield pf) = ap pf" "in_pct (pf_endfield pf) = False" "charcount (pf_endfield pf) = charcount pf"
  by (simp_all add: pf_endfield_def)

lemma getnum_setbase:
  assumes "c \<in> set integers" "ap pf = w # ws"
  shows "\<exists>pf'. pf_getnum c pf = Some pf' \<and> ap pf' = ws \<and> charcount pf' = charcount pf \<and> num pf' < 2 ^ 32
     \<and> base (pf_setbase c pf') \<in> {8, 10, 16}"
proof -
  have u: "u32 w < 2 ^ 32" by (rule u32_less)
  have s: "nat (- s32 x mod 2 ^ 32) < 2 ^ 32" "\<not> s32 x < 0 \<Longrightarrow> nat (s32 x) < 2 ^ 32" for x
    by (auto simp: nat_less_iff s32_def intro: order_less_le_trans [of _ "2 ^ 31"])
  show ?thesis
    using assms u s [of "int (u32 w)"]
    by (auto simp: pf_getnum_def va_arg_def Let_def pf_setbase_def lit_def)
qed

lemma setbase_simps [simp]:
  "ap (pf_setbase c pf) = ap pf" "charcount (pf_setbase c pf) = charcount pf" "num (pf_setbase c pf) = num pf"
  by (simp_all add: pf_setbase_def Let_def)

text \<open>The arguments that a format needs: one for each conversion, a string or NULL for \<^verbatim>\<open>%s\<close>.\<close>

fun args_ok :: "memory \<Rightarrow> bool \<Rightarrow> byte list \<Rightarrow> nat list \<Rightarrow> bool" where
  "args_ok m pct [] ws = True"
| "args_ok m pct (c # f) ws =
     (if \<not> pct then args_ok m (c = asc (CHR ''%'')) f ws
      else if c \<in> set modifiers then args_ok m True f ws
      else if c \<in> set integers \<or> c = asc (CHR ''c'') then ws \<noteq> [] \<and> args_ok m False f (tl ws)
      else if c = asc (CHR ''s'') then
        ws \<noteq> [] \<and> (u32 (hd ws) = 0 \<or> (\<exists>bs. cstring_at m (u32 (hd ws)) bs)) \<and> args_ok m False f (tl ws)
      else args_ok m False f ws)"

definition sent_ok :: "memory \<Rightarrow> byte list \<Rightarrow> pf \<Rightarrow> byte list \<Rightarrow> (pf \<times> byte list) run \<Rightarrow> bool" where
  "sent_ok m f pf s r \<longleftrightarrow> (\<exists>pf' t. r = Some (pf', s @ t) \<and> charcount pf' = s32 (charcount pf + int (length t))
      \<and> args_ok m (in_pct pf') f (ap pf'))"

lemma string_at_cstring: "cstring_at m a bs \<Longrightarrow> string_at m a = Some bs"
proof -
  assume c: "cstring_at m a bs"
  then have "bytes_at m a (length bs) = bs" "mapped m a (length bs)"
    using bytes_at_add [of m a "length bs" 1] by (auto simp: cstring_at_def intro: mapped_mono)
  with c show ?thesis by (simp add: string_at_def strlen_cstring kload_def)
qed

lemma number_ok:
  assumes "c \<in> set integers" "ap pf = w # ws" "args_ok m False f ws" "charcount pf = s32 k" "length junk = NUMBER_BUF_SIZE"
  shows "sent_ok m f pf s (pf_number c collect junk (pf, s))"
proof -
  obtain pf' where pf': "pf_getnum c pf = Some pf'" "ap pf' = ws" "charcount pf' = s32 k" "num pf' < 2 ^ 32"
      "base (pf_setbase c pf') \<in> {8, 10, 16}"
    using getnum_setbase [OF assms(1,2)] assms(4) by auto
  from printnum_collect [OF assms(5) pf'(5), of k s] pf' show ?thesis
    using assms(3,4) by (auto simp: sent_ok_def pf_number_def)
qed

lemma string_ok:
  assumes "ap pf = w # ws" "u32 w = 0 \<or> (\<exists>bs. cstring_at m (u32 w) bs)" "args_ok m False f ws" "charcount pf = s32 k"
  shows "sent_ok m f pf s (pf_string m collect (pf, s))"
proof -
  obtain t where "(if u32 w = 0 then Some (lit ''(null)'') else string_at m (u32 w)) = Some t"
    using assms(2) string_at_cstring by fastforce
  then show ?thesis using assms(1,3,4) printstuff_collect [of "pf\<lparr>ap := ws\<rparr>" k "[]" "[]" t s]
    by (auto simp: sent_ok_def pf_string_def va_arg_def)
qed

lemma char_ok:
  assumes "c = asc (CHR ''c'') \<Longrightarrow> ap pf = w # ws" "c \<noteq> asc (CHR ''c'') \<Longrightarrow> ws = ap pf" "args_ok m False f ws"
    "charcount pf = s32 k"
  shows "sent_ok m f pf s (pf_char c collect (pf, s))"
  using assms printstuff_collect [of "pf\<lparr>ap := ws\<rparr>" k "[]" "[]" _ s] printstuff_collect [of pf k "[]" "[]" _ s]
  by (cases "c = asc (CHR ''c'')") (auto simp: sent_ok_def pf_char_def va_arg_def)

lemma pf_send_ok:
  assumes "args_ok m (in_pct pf) (c # f) (ap pf)" "c \<noteq> 0" "charcount pf = s32 k" "length junk = NUMBER_BUF_SIZE"
  shows "sent_ok m f pf s (pf_send m collect junk c (pf, s))"
proof -
  consider (plain) "\<not> in_pct pf" | (modifier) "in_pct pf" "c \<in> set modifiers"
    | (integer) "in_pct pf" "c \<notin> set modifiers" "c \<in> set integers"
    | (str) "in_pct pf" "c \<notin> set modifiers" "c \<notin> set integers" "c = asc (CHR ''s'')"
    | (other) "in_pct pf" "c \<notin> set modifiers" "c \<notin> set integers" "c \<noteq> asc (CHR ''s'')" by blast
  then show ?thesis
  proof cases
    case plain
    with assms show ?thesis by (auto simp: pf_send_cases sent_ok_def print_collect)
  next
    case modifier
    with assms(1) have a: "args_ok m True f (ap pf)" by simp
    from modifier_ok [OF modifier(2), of pf] obtain pf' where
      "pf_modifier c pf = Some pf'" "ap pf' = ap pf" "in_pct pf' = in_pct pf" "charcount pf' = charcount pf" by blast
    with a modifier assms(2,3) show ?thesis
      by (auto simp: pf_send_cases sent_ok_def simp del: args_ok.simps)
  next
    case integer
    with assms(1) obtain w ws where ws: "ap pf = w # ws" "args_ok m False f ws" by (cases "ap pf") auto
    from number_ok [OF integer(3) ws assms(3,4)] integer assms(2) show ?thesis by (simp add: pf_send_cases)
  next
    case str
    with assms(1) obtain w ws where ws: "ap pf = w # ws" "u32 w = 0 \<or> (\<exists>bs. cstring_at m (u32 w) bs)" "args_ok m False f ws"
      by (cases "ap pf") (auto simp: lit_def)
    from string_ok [OF ws assms(3)] str assms(2) show ?thesis by (simp add: pf_send_cases)
  next
    case other
    show ?thesis
    proof (cases "c = asc (CHR ''c'')")
      case True
      with other assms(1) obtain w ws where ws: "ap pf = w # ws" "args_ok m False f ws" by (cases "ap pf") auto
      have "sent_ok m f pf s (pf_char c collect (pf, s))"
        by (rule char_ok [of c pf w ws m f k]) (use True ws assms(3) in simp_all)
      with other assms(2) show ?thesis by (simp add: pf_send_cases)
    next
      case False
      with other assms(1) have a: "args_ok m False f (ap pf)" by simp
      have "sent_ok m f pf s (pf_char c collect (pf, s))"
        by (rule char_ok [of c pf 0 "ap pf" m f k]) (use False a assms(3) in simp_all)
      with other assms(2) show ?thesis by (simp add: pf_send_cases)
    qed
  qed
qed

lemma vprintf_loop_ok:
  assumes "cstring_at m p f" "args_ok m (in_pct pf) f (ap pf)" "charcount pf = s32 k" "length junk = NUMBER_BUF_SIZE"
  shows "\<exists>pf' t. vprintf_loop m collect junk p (pf, s) = Some (pf', s @ t) \<and> charcount pf' = s32 (k + int (length t))"
  using assms
proof (induction f arbitrary: p pf s k)
  case Nil
  then show ?case by (subst vprintf_loop.simps) (auto simp: cstring_simps)
next
  case (Cons c f)
  have c: "m p = Some c" "c \<noteq> 0" "cstring_at m (p + 1) f" using Cons.prems(1) by (auto simp: cstring_simps)
  from pf_send_ok [OF Cons.prems(2) c(2) Cons.prems(3,4), of s] Cons.prems(3) obtain pf' t where
    t: "pf_send m collect junk c (pf, s) = Some (pf', s @ t)" "charcount pf' = s32 (k + int (length t))"
      "args_ok m (in_pct pf') f (ap pf')"
    by (auto simp: sent_ok_def)
  from Cons.IH [OF c(3) t(3,2) Cons.prems(4), of "s @ t"] t(1) c(1,2) show ?case
    by (subst vprintf_loop.simps) (fastforce simp: rd_def add.assoc)
qed

lemma vprintf_ok:
  assumes "cstring_at m fmt f" "args_ok m False f args" "length junk = NUMBER_BUF_SIZE"
  shows "\<exists>out. vprintf m collect junk [] fmt args = Some (s32 (int (length out)), out)"
  using vprintf_loop_ok [OF assms(1), of "pf_init args" 0 junk "[]"] assms(2,3)
  by (auto simp: vprintf_def pf_init_def pf_endfield_def)

subsection \<open>The buffer of \<^verbatim>\<open>snprintf\<close>\<close>

definition snp_rel :: "byte list \<Rightarrow> nat \<Rightarrow> byte list \<Rightarrow> snp \<Rightarrow> bool" where
  "snp_rel buf n out snp \<longleftrightarrow> n \<le> length buf \<and>
     snp = \<lparr>snp_buf = take n out @ drop (min (length out) n) buf, buflen = n, bufpos = min (length out) n\<rparr>"

lemma upd_at_join:
  assumes "length xs = k" "k < length buf"
  shows "upd_run (xs @ drop k buf) k c = Some (xs @ c # drop (k + 1) buf)"
  using assms list_update_length [of xs "buf ! k" "drop (Suc k) buf" c]
  by (simp add: upd_run_def Cons_nth_drop_Suc)

lemma snprintf_send_rel: "snp_rel buf n out snp \<Longrightarrow> \<exists>snp'. snprintf_send snp t = Some snp' \<and> snp_rel buf n (out @ t) snp'"
proof (induction t arbitrary: out snp)
  case (Cons c cs)
  show ?case
  proof (cases "length out < n")
    case True
    with Cons.prems upd_at_join [of out "length out" buf c]
    have "upd_run (snp_buf snp) (bufpos snp) c = Some (take n (out @ [c]) @ drop (min (length (out @ [c])) n) buf)"
      by (simp add: snp_rel_def min_absorb1)
    with True Cons show ?thesis
      using Cons.IH [of "out @ [c]"] by (auto simp: snp_rel_def min_absorb1)
  next
    case False
    then have "snp_rel buf n (out @ [c]) snp" using Cons.prems by (simp add: snp_rel_def min_absorb2)
    from Cons.IH [OF this] False Cons.prems show ?thesis by (simp add: snp_rel_def)
  qed
qed simp

interpretation to_buffer: sends collect snprintf_send "snp_rel buf n" for buf n
proof
  fix out snp and t :: "byte list"
  assume "snp_rel buf n out snp"
  from snprintf_send_rel [OF this, of t] show "rel_option (snp_rel buf n) (collect out t) (snprintf_send snp t)"
    by (auto simp: collect_def)
qed

lemma vsnprintf_collect:
  assumes "cstring_at m fmt f" and "len \<le> length buf" and out: "vprintf m collect junk [] fmt args = Some (k, out)"
  shows "vsnprintf m junk buf len fmt args = Some (k,
    if len = 0 then buf else take (len - 1) out @ [0] @ drop (min (length out) (len - 1) + 1) buf)"
proof -
  let ?n = "if len = 0 then 0 else len - 1"
  let ?snp = "\<lparr>snp_buf = buf, buflen = ?n, bufpos = 0\<rparr>"
  have "snp_rel buf ?n [] ?snp" using assms(2) by (auto simp: snp_rel_def)
  from to_buffer.vprintf_rel [OF assms(1) this, of junk args] out obtain snp where
    snp: "vprintf m snprintf_send junk ?snp fmt args = Some (k, snp)" "snp_rel buf ?n out snp"
    by (auto simp: option_rel_Some1)
  have "upd_run (snp_buf snp) (bufpos snp) 0 = Some (take (len - 1) out @ [0] @ drop (min (length out) (len - 1) + 1) buf)"
    if "len \<noteq> 0"
    using that snp(2) assms(2) upd_at_join [of "take (len - 1) out" "min (length out) (len - 1)" buf 0]
    by (simp add: snp_rel_def)
  moreover have "snp_buf snp = buf" if "len = 0" using that snp(2) by (simp add: snp_rel_def)
  ultimately show ?thesis
    using snp(1) by (cases "len = 0") (simp_all add: vsnprintf_def)
qed

text \<open>
  C11. \<^verbatim>\<open>vsnprintf\<close> always returns and never writes outside its buffer. For every format and arguments
  that fit it, the formatter produces some output \<open>out\<close>; with a buffer of \<open>len\<close> bytes, \<^verbatim>\<open>vsnprintf\<close> returns
  the length of the whole text (as an \<^verbatim>\<open>int\<close>), the buffer holds the first \<open>len - 1\<close> characters
  of it and a terminator, and its other bytes are as before; with \<open>len = 0\<close> nothing is written. Neither
  the assertions of the formatter nor the conversion of a number in its 12-byte buffer fails.
\<close>

theorem vsnprintf_bounded:
  assumes "cstring_at m fmt f" and "args_ok m False f args"
    and "length junk = NUMBER_BUF_SIZE" and "len \<le> length buf"
  shows "\<exists>out. vprintf m collect junk [] fmt args = Some (s32 (int (length out)), out)
    \<and> vsnprintf m junk buf len fmt args = Some (s32 (int (length out)),
        if len = 0 then buf else take (len - 1) out @ [0] @ drop (min (length out) (len - 1) + 1) buf)"
  using vprintf_ok [OF assms(1-3)] vsnprintf_collect [OF assms(1,4)] by blast

theorem vsnprintf_bounded_witness:
  "\<exists>out. vprintf (str_lit ''%d!'') collect (replicate 12 0) [] 0 [42] = Some (s32 (int (length out)), out)
    \<and> vsnprintf (str_lit ''%d!'') (replicate 12 0) [7, 7] 2 0 [42] = Some (s32 (int (length out)),
        take 1 out @ [0] @ drop (min (length out) 1 + 1) [7, 7])"
proof -
  have c: "cstring_at (str_lit ''%d!'') 0 (lit ''%d!'')"
    unfolding str_lit_def by (rule cstring_at_mem_of) (simp add: lit_def)
  have a: "args_ok (str_lit ''%d!'') False (lit ''%d!'') [42]" by (simp add: lit_def)
  from vsnprintf_bounded [OF c a, of "replicate 12 0" 2 "[7, 7]"] show ?thesis
    by (simp add: NUMBER_BUF_SIZE_def)
qed

subsection \<open>Printing and reading numbers\<close>

lemma digits10_cstring: "cstring_at digits10 0 (lit ''0123456789'')"
  unfolding digits10_def str_lit_def by (rule cstring_at_mem_of) (simp add: lit_def)

lemma strchr_digit:
  assumes "d < 10"
  shows "strchr digits10 0 (sint (digit_char d)) = Some (Some d)"
proof -
  have "d \<in> {0, 1, 2, 3, 4, 5, 6, 7, 8, 9}" using assms by auto
  then show ?thesis
    using strchr_first [OF digits10_cstring, of "digit_char d"] by (auto simp: digit_char_def lit_def)
qed

lemma atoi_digits_value:
  assumes "cstring_at m s (map digit_char ds)" "\<forall>d \<in> set ds. d < 10"
  shows "atoi_digits m s (u32 v) = Some (u32 (foldl (\<lambda>v d. v * 10 + d) v ds))"
  using assms
proof (induction ds arbitrary: s v)
  case Nil
  then show ?case by (subst atoi_digits.simps) (simp add: cstring_simps)
next
  case (Cons d ds)
  have "u32 (u32 v * 10 + d) = u32 (v * 10 + d)" by (metis u32_def mod_add_left_eq mod_mult_left_eq)
  with Cons.IH [of "Suc s" "v * 10 + d"] Cons.prems strchr_digit [of d] show ?case
    by (subst atoi_digits.simps) (simp add: cstring_simps)
qed

lemma digit_char_other:
  assumes "d < 10"
  shows "digit_char d \<notin> set (lit '' -+'')" "digit_char d \<noteq> asc (CHR 0x09)"
proof -
  have "d \<in> {0, 1, 2, 3, 4, 5, 6, 7, 8, 9}" using assms by auto
  then show "digit_char d \<notin> set (lit '' -+'')" "digit_char d \<noteq> asc (CHR 0x09)"
    by (auto simp: digit_char_def lit_def)
qed

definition decimal :: "int \<Rightarrow> byte list" where
  "decimal x = (if x < 0 then lit ''-'' else []) @ map digit_char (digs 10 (nat \<bar>x\<bar>))"

lemma atoi_decimal:
  assumes "cstring_at m a (decimal x)" "- (2 ^ 31) \<le> x" "x < 2 ^ 31"
  shows "atoi m a = Some x"
proof -
  let ?n = "nat \<bar>x\<bar>"
  have small: "d < 10" if "d \<in> set (digs 10 ?n)" for d using that digs_less [of 10] by simp
  have read: "atoi_digits m s 0 = Some ?n" if "cstring_at m s (map digit_char (digs 10 ?n))" for s
    using atoi_digits_value [OF that, of 0] small digs_value [of 10 ?n] assms(2,3) by simp
  obtain d ds where d: "digs 10 ?n = d # ds" by (cases "digs 10 ?n") (auto simp: digs.simps [of 10 ?n] split: if_splits)
  show ?thesis
  proof (cases "x < 0")
    case True
    then have m: "m a = Some (asc (CHR ''-''))" "cstring_at m (a + 1) (map digit_char (digs 10 ?n))"
      using assms(1) by (simp_all add: decimal_def lit_def cstring_simps)
    have "skip_blanks m a = Some a" using m(1) by (subst skip_blanks.simps) (simp add: rd_def)
    with True m read [OF m(2)] assms(2) show ?thesis by (simp add: atoi_def rd_def)
  next
    case False
    then have c: "cstring_at m a (map digit_char (digs 10 ?n))" using assms(1) by (simp add: decimal_def)
    then have m: "m a = Some (digit_char d)" using d by (simp add: cstring_simps)
    have ne: "digit_char d \<noteq> asc (CHR '' '')" "digit_char d \<noteq> asc (CHR 0x09)" "digit_char d \<noteq> asc (CHR ''-'')" "digit_char d \<noteq> asc (CHR ''+'')"
      using digit_char_other [of d] small d by (simp_all add: lit_def)
    have "skip_blanks m a = Some a" using m ne by (subst skip_blanks.simps) (simp add: rd_def)
    with False m ne read [OF c] assms(3) show ?thesis by (simp add: atoi_def rd_def)
  qed
qed

lemma decimal_length: "- (2 ^ 31) \<le> x \<Longrightarrow> x < 2 ^ 31 \<Longrightarrow> length (decimal x) \<le> 11"
proof -
  assume "- (2 ^ 31) \<le> x" "x < 2 ^ 31"
  then have "nat \<bar>x\<bar> < 10 ^ 10" by (simp add: nat_less_iff abs_less_iff)
  from digs_length [OF _ _ this] have "length (digs 10 (nat \<bar>x\<bar>)) \<le> 10" by simp
  then show ?thesis by (cases "x < 0") (simp_all add: decimal_def lit_def)
qed

lemma decimal_nonzero: "0 \<notin> set (decimal x)"
  using digs_less [of 10] digit_char_nonzero by (fastforce simp: decimal_def lit_def)

lemma vprintf_loop_step:
  "m p = Some c \<Longrightarrow> c \<noteq> 0 \<Longrightarrow> pf_send m send junk c st = Some st' \<Longrightarrow>
   vprintf_loop m send junk p st = vprintf_loop m send junk (Suc p) st'"
  by (subst vprintf_loop.simps) (simp add: rd_def)

lemma vprintf_loop_end: "m p = Some 0 \<Longrightarrow> vprintf_loop m send junk p st = Some st"
  by (subst vprintf_loop.simps) (simp add: rd_def)

lemma vprintf_d:
  assumes "length junk = NUMBER_BUF_SIZE"
  shows "\<exists>k. vprintf (str_lit ''%d'') collect junk [] 0 [w] = Some (k, decimal (s32 (int (u32 w))))"
proof -
  let ?m = "str_lit ''%d''" and ?x = "s32 (int (u32 w))"
  have m: "?m 0 = Some (asc (CHR ''%''))" "?m (Suc 0) = Some (asc (CHR ''d''))" "?m (Suc (Suc 0)) = Some 0"
    by (simp_all add: str_lit_def mem_of_def lit_def)
  let ?pf0 = "pf_init [w]"
  let ?pf1 = "?pf0\<lparr>in_pct := True\<rparr>"
  let ?pf2 = "?pf1\<lparr>ap := [], sign := ?x < 0, num := nat \<bar>?x\<bar>, base := 10\<rparr>"
  have x: "- (2 ^ 31) \<le> ?x" "?x < 2 ^ 31" by (simp_all add: s32_def)
  have d: "asc (CHR ''d'') \<notin> set modifiers" "asc (CHR ''d'') \<in> set integers" by (simp_all add: lit_def)
  have num: "pf_setbase (asc (CHR ''d'')) pf = ?pf2" if "pf_getnum (asc (CHR ''d'')) ?pf1 = Some pf" for pf
    using that x
    by (auto simp: pf_getnum_def va_arg_def pf_init_def pf_endfield_def pf_setbase_def Let_def split: if_splits)
  obtain pf where pf: "pf_getnum (asc (CHR ''d'')) ?pf1 = Some pf"
    using getnum_setbase [OF d(2), of ?pf1 w "[]"] by (auto simp: pf_init_def pf_endfield_def)
  have "number_text ?pf2 = decimal ?x"
    using decimal_length [OF x]
    by (auto simp: number_text_def field_def decimal_def pf_init_def pf_endfield_def Let_def lit_def)
  then have "pf_printnum collect junk (?pf2, []) = Some (?pf2\<lparr>charcount := s32 (0 + int (length (decimal ?x)))\<rparr>, [] @ decimal ?x)"
    using printnum_collect [OF assms, of ?pf2 0 "[]"] x by (simp add: pf_init_def pf_endfield_def nat_less_iff)
  then obtain pf' where "pf_send ?m collect junk (asc (CHR ''d'')) (?pf1, []) = Some (pf', decimal ?x)"
    using d pf num [OF pf] by (simp add: pf_send_cases pf_number_def)
  moreover have "pf_send ?m collect junk (asc (CHR ''%'')) (?pf0, []) = Some (?pf1, [])"
    by (simp add: pf_send_cases pf_init_def pf_endfield_def)
  ultimately have "vprintf_loop ?m collect junk 0 (?pf0, []) = Some (pf', decimal ?x)"
    using m by (simp add: vprintf_loop_step [of ?m 0 "asc (CHR ''%'')"]
      vprintf_loop_step [of ?m "Suc 0" "asc (CHR ''d'')"] vprintf_loop_end)
  then show ?thesis by (simp add: vprintf_def)
qed

text \<open>
  C24. Reading back a printed number gives the number: for every 32-bit word, the most negative
  \<^verbatim>\<open>int\<close> included, printing it with \<^verbatim>\<open>%d\<close> into a buffer of 12 bytes succeeds, and \<^verbatim>\<open>atoi\<close> of the buffer
  returns the word as a signed number.
\<close>

theorem printf_atoi_roundtrip:
  assumes "length junk = NUMBER_BUF_SIZE" and "length buf = 12"
  shows "\<exists>k buf'. vsnprintf (str_lit ''%d'') junk buf 12 0 [w] = Some (k, buf')
       \<and> atoi (mem_of buf') 0 = Some (s32 (int (u32 w)))"
proof -
  let ?x = "s32 (int (u32 w))"
  have x: "- (2 ^ 31) \<le> ?x" "?x < 2 ^ 31" by (simp_all add: s32_def)
  have fmt: "cstring_at (str_lit ''%d'') 0 (lit ''%d'')"
    unfolding str_lit_def by (rule cstring_at_mem_of) (simp add: lit_def)
  obtain k where "vprintf (str_lit ''%d'') collect junk [] 0 [w] = Some (k, decimal ?x)"
    using vprintf_d [OF assms(1)] ..
  then have "vsnprintf (str_lit ''%d'') junk buf 12 0 [w]
      = Some (k, decimal ?x @ [0] @ drop (length (decimal ?x) + 1) buf)"
    using vsnprintf_collect [OF fmt, of 12 buf junk "[w]"] assms(2) decimal_length [OF x] by (simp add: min_absorb1)
  moreover have "cstring_at (mem_of (decimal ?x @ [0] @ rest)) 0 (decimal ?x)" for rest
    using decimal_nonzero by (simp add: cstring_at_def bytes_at_mem_of)
  ultimately show ?thesis using atoi_decimal [OF _ x] by blast
qed

theorem printf_atoi_roundtrip_witness:
  "\<exists>k buf'. vsnprintf (str_lit ''%d'') (replicate 12 0) (replicate 12 0) 12 0 [2 ^ 31] = Some (k, buf')
     \<and> atoi (mem_of buf') 0 = Some (- (2 ^ 31))"
  using printf_atoi_roundtrip [of "replicate 12 0" "replicate 12 0" "2 ^ 31"]
  by (simp add: NUMBER_BUF_SIZE_def s32_def)


end
