(* ===== verification/Menu.thy ===== *)
theory Menu
  imports Libc
begin

section \<open>The kernel menu\<close>

text \<open>
  Model of the command interpreter of the kernel: \<^verbatim>\<open>kgets\<close> of \<^verbatim>\<open>kern/lib/kgets.c\<close>, which edits a line
  typed at the console, and \<^verbatim>\<open>getinterval\<close>, \<^verbatim>\<open>cmd_dispatch\<close>, \<^verbatim>\<open>menu_execute\<close> and the argument checks of
  the mount commands of \<^verbatim>\<open>kern/main/menu.c\<close>.

  The command line is a C string in a \<^typ>\<open>memory\<close>, which \<^verbatim>\<open>strtok_r\<close> cuts into words in place.
  The functions of the command table are the argument \<open>func\<close> of the dispatcher: \<open>func i args m s\<close> runs
  entry \<open>i\<close> on the words at the addresses \<open>args\<close> in a kernel whose other state is \<open>s\<close>. What is printed
  and the time measurement around the call are left out.
\<close>

subsection \<open>\<^verbatim>\<open>kgets\<close>\<close>

text \<open>
  The loop of \<^verbatim>\<open>kgets\<close> with the characters that \<^verbatim>\<open>getch\<close> will return; the loop does not return before
  the end of the line is typed. The word erase has two scans.
\<close>

fun erase_word :: "bool \<Rightarrow> byte list \<Rightarrow> nat \<Rightarrow> nat run" where
  "erase_word blank buf 0 = Some 0"
| "erase_word blank buf (Suc pos) = do {
     c \<leftarrow> nth_run buf pos;
     if (c = of_char (CHR '' '')) = blank then erase_word blank buf pos else Some (Suc pos)
   }"

fun kgets_loop :: "nat list \<Rightarrow> byte list \<Rightarrow> nat \<Rightarrow> nat \<Rightarrow> (nat \<times> byte list) run" where
  "kgets_loop [] buf maxlen pos = None"
| "kgets_loop (ch # chs) buf maxlen pos =
     (if ch = 10 \<or> ch = 13 then Some (pos, buf)
      else if 32 \<le> ch \<and> ch < 127 \<and> pos < u32 (maxlen + 2 ^ 32 - 1) then do {
        buf \<leftarrow> upd_run buf pos (of_nat ch);
        kgets_loop chs buf maxlen (pos + 1)
      }
      else if (ch = 8 \<or> ch = 127) \<and> pos > 0 then kgets_loop chs buf maxlen (pos - 1)
      else if ch = 3 then Some (0, buf)
      else if ch = 18 then do {
        buf \<leftarrow> upd_run buf pos 0;
        kgets_loop chs buf maxlen pos
      }
      else if ch = 21 then kgets_loop chs buf maxlen 0
      else if ch = 23 then do {
        pos \<leftarrow> erase_word True buf pos;
        pos \<leftarrow> erase_word False buf pos;
        kgets_loop chs buf maxlen pos
      }
      else kgets_loop chs buf maxlen pos)"

definition kgets :: "nat list \<Rightarrow> byte list \<Rightarrow> nat \<Rightarrow> byte list run" where
  "kgets chs buf maxlen = do {
     (pos, buf) \<leftarrow> kgets_loop chs buf maxlen 0;
     upd_run buf pos 0
   }"

subsection \<open>\<^verbatim>\<open>menu.c\<close>\<close>

definition getinterval :: "int \<Rightarrow> nat \<Rightarrow> int \<Rightarrow> nat \<Rightarrow> int \<times> nat" where
  "getinterval s1 ns1 s2 ns2 =
     (let (s2, ns2) = (if ns2 < ns1 then (s32 (s2 - 1), u32 (ns2 + 1000000000)) else (s2, ns2)) in
      (s32 (s2 - s1), u32 (ns2 + 2 ^ 32 - ns1)))"

text \<open>The colon that may follow a device name in \<^verbatim>\<open>mount\<close>, \<^verbatim>\<open>unmount\<close> and \<^verbatim>\<open>bootfs\<close>.\<close>

definition strip_colon :: "memory \<Rightarrow> nat \<Rightarrow> memory run" where
  "strip_colon m device = do {
     n \<leftarrow> strlen m device;
     kassert (0 < n);
     c \<leftarrow> rd m (device + (n - 1));
     if c = of_char (CHR '':'') then wr m (device + (n - 1)) 0 else Some m
   }"

definition cmd_mount :: "(nat \<Rightarrow> memory \<Rightarrow> 's \<Rightarrow> (unit res \<times> memory \<times> 's) run)
    \<Rightarrow> nat list \<Rightarrow> memory \<Rightarrow> 's \<Rightarrow> (unit res \<times> memory \<times> 's) run" where
  "cmd_mount do_sfs_mount args m s =
     (if length args \<noteq> 3 then Some (Err EINVAL, m, s)
      else do {
        fstype \<leftarrow> nth_run args 1;
        device \<leftarrow> nth_run args 2;
        m \<leftarrow> strip_colon m device;
        c \<leftarrow> strcmp (str_lit ''sfs'') 0 m fstype;
        if c = 0 then do_sfs_mount device m s else Some (Err EINVAL, m, s)
      })"

definition cmd_device :: "(nat \<Rightarrow> memory \<Rightarrow> 's \<Rightarrow> (unit res \<times> memory \<times> 's) run)
    \<Rightarrow> nat list \<Rightarrow> memory \<Rightarrow> 's \<Rightarrow> (unit res \<times> memory \<times> 's) run" where
  "cmd_device vfs_call args m s =
     (if length args \<noteq> 2 then Some (Err EINVAL, m, s)
      else do {
        device \<leftarrow> nth_run args 1;
        m \<leftarrow> strip_colon m device;
        vfs_call device m s
      })"

definition MAXMENUARGS :: nat where "MAXMENUARGS = 16"

definition blanks :: string where "blanks = [CHR '' '', CHR 0x09]"

text \<open>
  The first loop of \<^verbatim>\<open>cmd_dispatch\<close>, from the test on: \<open>word\<close> and \<open>ctx\<close> are what the last call of
  \<^verbatim>\<open>strtok_r\<close> returned and left.
\<close>

partial_function (option) word_loop ::
    "nat list \<Rightarrow> nat ptr \<Rightarrow> nat ptr \<Rightarrow> memory \<Rightarrow> (nat list res \<times> memory) run" where
  "word_loop args word ctx m =
     (case word of
        None \<Rightarrow> Some (Ok args, m)
      | Some w \<Rightarrow>
          if MAXMENUARGS \<le> length args then Some (Err E2BIG, m)
          else do {
            (word, ctx, m) \<leftarrow> strtok_r m NULL (str_lit blanks) 0 ctx;
            word_loop (args @ [w]) word ctx m
          })"

definition cmd_words :: "memory \<Rightarrow> nat \<Rightarrow> (nat list res \<times> memory) run" where
  "cmd_words m cmd = do {
     (word, ctx, m) \<leftarrow> strtok_r m (Some cmd) (str_lit blanks) 0 NULL;
     word_loop [] word ctx m
   }"

definition cmdtable :: "bool \<Rightarrow> bool \<Rightarrow> string list" where
  "cmdtable opt_synchprobs opt_net =
     [''?'', ''h'', ''help'', ''?o'', ''?t'', ''s'', ''p'', ''mount'', ''unmount'', ''bootfs'', ''pf'',
      ''cd'', ''pwd'', ''sync'', ''panic'', ''q'', ''exit'', ''halt'']
     @ (if opt_synchprobs then [''1a'', ''1b''] else [])
     @ [''kh'', ''at'', ''bt'', ''qt'', ''km1'', ''km2'']
     @ (if opt_net then [''net''] else [])
     @ [''tt1'', ''tt2'', ''tt3'', ''sy1'', ''sy2'', ''sy3'', ''fs1'', ''fs2'', ''fs3'', ''fs4'', ''fs5'']"

text \<open>The second loop: entry \<open>i\<close> of the table is compared with the first word.\<close>

fun find_cmd :: "string list \<Rightarrow> nat \<Rightarrow> memory \<Rightarrow> nat \<Rightarrow> nat ptr run" where
  "find_cmd [] i m a = Some NULL"
| "find_cmd (name # names) i m a =
     (if name = [] then find_cmd names (i + 1) m a
      else do {
        c \<leftarrow> strcmp m a (str_lit name) 0;
        if c = 0 then Some (Some i) else find_cmd names (i + 1) m a
      })"

definition cmd_dispatch ::
    "string list \<Rightarrow> (nat \<Rightarrow> nat list \<Rightarrow> memory \<Rightarrow> 's \<Rightarrow> (unit res \<times> memory \<times> 's) run)
     \<Rightarrow> nat \<Rightarrow> memory \<Rightarrow> 's \<Rightarrow> (unit res \<times> memory \<times> 's) run" where
  "cmd_dispatch table func cmd m s = do {
     (r, m) \<leftarrow> cmd_words m cmd;
     case r of
       Inl e \<Rightarrow> Some (Err e, m, s)
     | Inr [] \<Rightarrow> Some (Ok (), m, s)
     | Inr (a # as) \<Rightarrow> do {
         i \<leftarrow> find_cmd table 0 m a;
         case i of
           None \<Rightarrow> Some (Err EINVAL, m, s)
         | Some i \<Rightarrow> func i (a # as) m s
       }
   }"

partial_function (option) execute_loop ::
    "string list \<Rightarrow> (nat \<Rightarrow> nat list \<Rightarrow> memory \<Rightarrow> 's \<Rightarrow> (unit res \<times> memory \<times> 's) run) \<Rightarrow> bool
     \<Rightarrow> nat ptr \<Rightarrow> nat ptr \<Rightarrow> memory \<Rightarrow> 's \<Rightarrow> (memory \<times> 's) run" where
  "execute_loop table func isargs command ctx m s =
     (case command of
        None \<Rightarrow> Some (m, s)
      | Some cmd \<Rightarrow> do {
          (r, m, s) \<leftarrow> cmd_dispatch table func cmd m s;
          if isargs \<and> r \<noteq> Ok () then panic
          else do {
            (command, ctx, m) \<leftarrow> strtok_r m NULL (str_lit '';'') 0 ctx;
            execute_loop table func isargs command ctx m s
          }
        })"

definition menu_execute ::
    "string list \<Rightarrow> (nat \<Rightarrow> nat list \<Rightarrow> memory \<Rightarrow> 's \<Rightarrow> (unit res \<times> memory \<times> 's) run) \<Rightarrow> bool
     \<Rightarrow> nat \<Rightarrow> memory \<Rightarrow> 's \<Rightarrow> (memory \<times> 's) run" where
  "menu_execute table func isargs line m s = do {
     (command, ctx, m) \<leftarrow> strtok_r m (Some line) (str_lit '';'') 0 NULL;
     execute_loop table func isargs command ctx m s
   }"

subsection \<open>The words of a string\<close>

function toks :: "byte set \<Rightarrow> byte list \<Rightarrow> byte list list" where
  "toks S bs = (if tok_word S bs = [] then [] else tok_word S bs # toks S (drop 1 (tok_rest S bs)))"
  by pat_completeness auto
termination
proof (relation "measure (length \<circ> snd)")
  fix S bs
  assume "tok_word S bs \<noteq> []"
  from tok_rest_shorter [OF this] show "((S, drop 1 (tok_rest S bs)), S, bs) \<in> measure (length \<circ> snd)" by auto
qed simp

declare toks.simps [simp del]

lemma cstring_at_cong:
  "cstring_at m a bs \<Longrightarrow> (\<And>x. a \<le> x \<Longrightarrow> x \<le> a + length bs \<Longrightarrow> m' x = m x) \<Longrightarrow> cstring_at m' a bs"
  by (induction bs arbitrary: a) (auto simp: cstring_simps)

text \<open>
  What a context of \<^verbatim>\<open>strtok_r\<close> still has to deliver: the string \<open>bs\<close>, which lies between the addresses
  \<open>lo\<close> and \<open>e\<close>.
\<close>

definition pending :: "memory \<Rightarrow> nat \<Rightarrow> nat \<Rightarrow> nat ptr \<Rightarrow> byte list \<Rightarrow> bool" where
  "pending m lo e ctx bs \<longleftrightarrow>
     (case ctx of None \<Rightarrow> bs = [] | Some h \<Rightarrow> cstring_at m h bs \<and> lo \<le> h \<and> h + length bs = e)"

lemma pending_cong:
  "pending m lo e ctx bs \<Longrightarrow> (\<And>x. lo \<le> x \<Longrightarrow> x \<le> e \<Longrightarrow> m' x = m x) \<Longrightarrow> pending m' lo e ctx bs"
  by (auto simp: pending_def split: option.splits elim!: cstring_at_cong)

lemma strtok_next:
  assumes p: "pending m lo e ctx bs" and ss: "cstring_at sm seps ss"
  defines "w \<equiv> tok_word (set ss) bs"
  obtains (none) "w = []" "strtok_r m NULL sm seps ctx = Some (NULL, NULL, m)"
  | (word) a ctx' m' where "w \<noteq> []" "strtok_r m NULL sm seps ctx = Some (Some a, ctx', m')"
      "cstring_at m' a w" "lo \<le> a" "a + length w \<le> e"
      "pending m' (a + length w + 1) e ctx' (drop 1 (tok_rest (set ss) bs))"
      "\<And>x. m' x = m x \<or> x = a + length w \<and> x < e"
proof (cases ctx)
  case None
  with p none show ?thesis by (simp add: pending_def w_def tok_defs strtok_r_def)
next
  case (Some h)
  let ?S = "set ss"
  let ?a = "h + length (tok_lead ?S bs)"
  from p Some have h: "cstring_at m h bs" "lo \<le> h" "h + length bs = e" by (simp_all add: pending_def)
  note call = strtok_r_word [OF h(1) ss, of NULL ctx, folded w_def] and split = tok_split [of bs ?S, folded w_def]
  have at: "cstring_at m ?a (w @ tok_rest ?S bs)"
    using cstring_at_drop [of m h "tok_lead ?S bs"] h(1) split by simp
  have len: "?a + length w + length (tok_rest ?S bs) = e" using h(3) arg_cong [OF split, of length] by simp
  show ?thesis
  proof (cases "w = []")
    case True
    with call Some none show ?thesis by simp
  next
    case False
    show ?thesis
    proof (cases "tok_rest ?S bs")
      case Nil
      with False call Some at len h(2) show ?thesis
        by (intro word [of ?a NULL m]) (simp_all add: pending_def)
    next
      case (Cons c t)
      let ?m = "m(?a + length w \<mapsto> 0)"
      have "cstring_at ?m ?a w" using at Cons by (simp add: cstring_at_cut)
      moreover have "cstring_at ?m (?a + length w + 1) t"
        using cstring_at_drop [of m ?a "w @ [c]" t] at Cons by (intro cstring_at_upd) simp_all
      ultimately show ?thesis using False call Some Cons len h(2)
        by (intro word [of ?a "Some (?a + length w + 1)" ?m]) (simp_all add: pending_def)
    qed
  qed
qed

subsection \<open>The dispatcher\<close>

abbreviation blank_set :: "byte set" where "blank_set \<equiv> set (lit blanks)"

lemma lit_blanks: "cstring_at (str_lit blanks) 0 (lit blanks)"
  unfolding str_lit_def by (rule cstring_at_mem_of) (simp add: blanks_def lit_def)

lemma lit_semicolon: "cstring_at (str_lit '';'') 0 (lit '';'')"
  unfolding str_lit_def by (rule cstring_at_mem_of) (simp add: lit_def)

definition args_in :: "nat \<Rightarrow> nat \<Rightarrow> memory \<Rightarrow> nat list \<Rightarrow> byte list list \<Rightarrow> bool" where
  "args_in lo e m args ws \<longleftrightarrow> list_all2 (\<lambda>a w. cstring_at m a w \<and> lo \<le> a \<and> a + length w < e) args ws"

lemma args_in_weaken:
  assumes "args_in lo e m args ws" "e \<le> e'" "\<And>x. lo \<le> x \<Longrightarrow> x < e \<Longrightarrow> m' x = m x"
  shows "args_in lo e' m' args ws"
  using assms(1) unfolding args_in_def
  by (rule list_all2_mono) (use assms(2,3) in \<open>auto elim!: cstring_at_cong\<close>)

text \<open>
  The word loop from a context on, with the words before it already collected below \<open>lo\<close>.
\<close>

lemma word_loop_collects:
  assumes "pending m lo e ctx bs" "lo0 \<le> lo" "args_in lo0 lo m args ws \<and> lo \<le> e + 1" "length ws \<le> MAXMENUARGS"
  shows "\<exists>r m'. Option.bind (strtok_r m NULL (str_lit blanks) 0 ctx) (\<lambda>(word, ctx, m). word_loop args word ctx m) = Some (r, m')
       \<and> (if length ws + length (toks blank_set bs) \<le> MAXMENUARGS
          then \<exists>args'. r = Ok args' \<and> args_in lo0 (e + 1) m' args' (ws @ toks blank_set bs)
          else r = Err E2BIG)
       \<and> (\<forall>x. m' x = m x \<or> lo \<le> x \<and> x < e)"
  using assms
proof (induction "blank_set" bs arbitrary: m lo ctx args ws rule: toks.induct)
  case (1 bs)
  have len: "length args = length ws" using "1.prems"(3) by (auto simp: args_in_def dest: list_all2_lengthD)
  from "1.prems"(1) lit_blanks show ?case
  proof (cases rule: strtok_next)
    case none
    then have t: "toks blank_set bs = []" by (simp add: toks.simps [of blank_set bs])
    have "args_in lo0 (e + 1) m args ws" using "1.prems"(3) by (auto intro: args_in_weaken)
    with none(2) t "1.prems"(4) show ?thesis by (simp add: word_loop.simps [of args])
  next
    case (word a ctx' m')
    let ?w = "tok_word blank_set bs" and ?bs = "drop 1 (tok_rest blank_set bs)"
    have t: "toks blank_set bs = ?w # toks blank_set ?bs"
      using word(1) by (simp add: toks.simps [of blank_set bs])
    have ch: "m' x = m x \<or> lo \<le> x \<and> x < e" for x using word(4) word(7) [of x] by auto
    show ?thesis
    proof (cases "MAXMENUARGS \<le> length ws")
      case True
      with word(2) ch t len "1.prems"(4) show ?thesis by (auto simp: word_loop.simps [of args])
    next
      case False
      have ch': "x < lo \<Longrightarrow> m' x = m x" for x using ch [of x] by auto
      have "args_in lo0 (a + length ?w + 1) m' args ws"
        using "1.prems"(3) by (rule args_in_weaken [OF conjunct1]) (use word(4) ch' in auto)
      then have "args_in lo0 (a + length ?w + 1) m' (args @ [a]) (ws @ [?w])"
        using word(3,4) "1.prems"(2) by (auto simp: args_in_def intro: list_all2_appendI)
      with 1(1) [OF word(1) word(6), of "args @ [a]" "ws @ [?w]"] False word(4,5) "1.prems"(2)
      obtain r m'' where "Option.bind (strtok_r m' NULL (str_lit blanks) 0 ctx') (\<lambda>(word, ctx, m). word_loop (args @ [a]) word ctx m) = Some (r, m'')"
        "if length (ws @ [?w]) + length (toks blank_set ?bs) \<le> MAXMENUARGS
          then \<exists>args'. r = Ok args' \<and> args_in lo0 (e + 1) m'' args' ((ws @ [?w]) @ toks blank_set ?bs)
          else r = Err E2BIG" "\<forall>x. m'' x = m' x \<or> a + length ?w + 1 \<le> x \<and> x < e"
        by auto
      moreover have "\<forall>x. m'' x = m x \<or> lo \<le> x \<and> x < e"
      proof
        fix x
        from calculation(3) have "m'' x = m' x \<or> a + length ?w + 1 \<le> x \<and> x < e" ..
        with ch [of x] word(4) show "m'' x = m x \<or> lo \<le> x \<and> x < e" by auto
      qed
      ultimately show ?thesis using word(2) False len t
        by (auto simp: word_loop.simps [of args])
    qed
  qed
qed

lemma cmd_words_spec:
  assumes "cstring_at m cmd bs"
  defines "ws \<equiv> toks blank_set bs"
  obtains (ok) args m' where "length ws \<le> MAXMENUARGS" "cmd_words m cmd = Some (Ok args, m')"
      "args_in cmd (cmd + length bs + 1) m' args ws" "\<And>x. m' x = m x \<or> cmd \<le> x \<and> x < cmd + length bs"
  | (many) m' where "MAXMENUARGS < length ws" "cmd_words m cmd = Some (Err E2BIG, m')"
      "\<And>x. m' x = m x \<or> cmd \<le> x \<and> x < cmd + length bs"
proof -
  have "strtok_r m (Some cmd) (str_lit blanks) 0 NULL = strtok_r m NULL (str_lit blanks) 0 (Some cmd)"
    by (simp add: strtok_r_def)
  moreover have "pending m cmd (cmd + length bs) (Some cmd) bs" using assms(1) by (simp add: pending_def)
  ultimately show ?thesis
    using word_loop_collects [of m cmd "cmd + length bs" "Some cmd" bs cmd "[]" "[]"] ok many
    by (auto simp: args_in_def cmd_words_def ws_def split: if_splits)
qed

text \<open>The table lookup and the dispatcher on strings instead of memory.\<close>

definition lookup_cmd :: "string list \<Rightarrow> byte list \<Rightarrow> nat ptr" where
  "lookup_cmd table w = find (\<lambda>i. lit (table ! i) = w) [0..<length table]"

definition run_words ::
    "string list \<Rightarrow> (nat \<Rightarrow> byte list list \<Rightarrow> 's \<Rightarrow> unit res \<times> 's) \<Rightarrow> byte list list \<Rightarrow> 's \<Rightarrow> unit res \<times> 's" where
  "run_words table g ws s =
     (if ws = [] then (Ok (), s)
      else if MAXMENUARGS < length ws then (Err E2BIG, s)
      else case lookup_cmd table (hd ws) of None \<Rightarrow> (Err EINVAL, s) | Some i \<Rightarrow> g i ws s)"

definition table_ok :: "string list \<Rightarrow> bool" where
  "table_ok table \<longleftrightarrow> list_all (\<lambda>n. n \<noteq> [] \<and> 0 \<notin> set (lit n)) table"

lemma cmdtable_ok: "table_ok (cmdtable sp net)"
  by (simp add: table_ok_def cmdtable_def lit_def)

lemma find_map: "find P (map f xs) = map_option f (find (P \<circ> f) xs)"
  by (induction xs) auto

lemma find_cmd_lookup:
  assumes "table_ok table" "cstring_at m a w"
  shows "find_cmd table k m a = Some (map_option (\<lambda>i. k + i) (lookup_cmd table w))"
  using assms
proof (induction table arbitrary: k)
  case (Cons n ns)
  have "cstring_at (str_lit n) 0 (lit n)"
    using Cons.prems(1) unfolding str_lit_def by (intro cstring_at_mem_of) (simp add: table_ok_def)
  with Cons have "strcmp m a (str_lit n) 0 = Some (str_order w (lit n))" by (simp add: strcmp_order)
  moreover have "lookup_cmd (n # ns) w = (if lit n = w then Some 0 else map_option Suc (lookup_cmd ns w))"
    by (simp add: lookup_cmd_def upt_rec [of 0] map_Suc_upt [symmetric] find_map o_def del: upt_Suc)
  ultimately show ?case
    using Cons by (cases "lookup_cmd ns w") (auto simp: table_ok_def str_order_eq_0)
qed (simp add: lookup_cmd_def)

text \<open>
  A command function \<open>func\<close> behaves as \<open>g\<close> on the contents of its arguments when it returns what \<open>g\<close>
  returns and changes memory only inside its arguments' strings.
\<close>

definition cmds_as :: "(nat \<Rightarrow> nat list \<Rightarrow> memory \<Rightarrow> 's \<Rightarrow> (unit res \<times> memory \<times> 's) run)
    \<Rightarrow> (nat \<Rightarrow> byte list list \<Rightarrow> 's \<Rightarrow> unit res \<times> 's) \<Rightarrow> bool" where
  "cmds_as func g \<longleftrightarrow> (\<forall>i args ws m s lo e. args_in lo e m args ws \<longrightarrow>
     (\<exists>m'. func i args m s = Some (fst (g i ws s), m', snd (g i ws s))
         \<and> (\<forall>x. m' x = m x \<or> lo \<le> x \<and> x + 1 < e)))"

lemma cmd_dispatch_runs:
  assumes "cstring_at m cmd bs" "table_ok table" "cmds_as func g"
  obtains m' where "cmd_dispatch table func cmd m s =
      Some (fst (run_words table g (toks blank_set bs) s), m', snd (run_words table g (toks blank_set bs) s))"
    "\<And>x. m' x = m x \<or> cmd \<le> x \<and> x < cmd + length bs"
  using assms(1)
proof (cases rule: cmd_words_spec)
  case (many m')
  then show ?thesis by (intro that [of m']) (auto simp: cmd_dispatch_def run_words_def)
next
  case (ok args m')
  let ?ws = "toks blank_set bs"
  show ?thesis
  proof (cases args)
    case Nil
    with ok(3) have "?ws = []" by (simp add: args_in_def)
    with Nil ok show ?thesis by (intro that [of m']) (simp_all add: cmd_dispatch_def run_words_def)
  next
    case (Cons a as)
    with ok(3) obtain w ws where w: "?ws = w # ws" "cstring_at m' a w"
      by (auto simp: args_in_def list_all2_Cons1)
    note look = find_cmd_lookup [OF assms(2) w(2), of 0]
    show ?thesis
    proof (cases "lookup_cmd table w")
      case None
      with w ok Cons look show ?thesis by (intro that [of m']) (simp_all add: cmd_dispatch_def run_words_def)
    next
      case (Some i)
      from assms(3) ok(3) obtain m'' where m'': "func i args m' s = Some (fst (g i ?ws s), m'', snd (g i ?ws s))"
        "\<forall>x. m'' x = m' x \<or> cmd \<le> x \<and> x + 1 < cmd + length bs + 1"
        unfolding cmds_as_def by blast
      have "m'' x = m x \<or> cmd \<le> x \<and> x < cmd + length bs" for x
        using m''(2) [rule_format, of x] ok(4) [of x] by auto
      with w ok Cons look Some m''(1) show ?thesis
        by (intro that [of m'']) (simp_all add: cmd_dispatch_def run_words_def)
    qed
  qed
qed

fun run_line :: "string list \<Rightarrow> (nat \<Rightarrow> byte list list \<Rightarrow> 's \<Rightarrow> unit res \<times> 's) \<Rightarrow> bool
    \<Rightarrow> byte list list \<Rightarrow> 's \<Rightarrow> 's run" where
  "run_line table g isargs [] s = Some s"
| "run_line table g isargs (c # cs) s =
     (let (r, s') = run_words table g (toks blank_set c) s in
      if isargs \<and> r \<noteq> Ok () then panic else run_line table g isargs cs s')"

lemma run_line_typed: "run_line table g False cs s \<noteq> None"
  by (induction cs arbitrary: s) (auto simp: Let_def split: prod.split)

lemma execute_loop_runs:
  assumes "pending m lo e ctx bs" "table_ok table" "cmds_as func g"
  shows "map_option snd (Option.bind (strtok_r m NULL (str_lit '';'') 0 ctx)
           (\<lambda>(command, ctx, m). execute_loop table func isargs command ctx m s))
       = run_line table g isargs (toks (set (lit '';'')) bs) s"
  using assms(1)
proof (induction "set (lit '';'')" bs arbitrary: m lo ctx s rule: toks.induct)
  case (1 bs)
  from "1.prems" lit_semicolon show ?case
  proof (cases rule: strtok_next)
    case none
    then show ?thesis by (simp add: toks.simps [of _ bs] execute_loop.simps [of table])
  next
    case (word a ctx' m')
    let ?c = "tok_word (set (lit '';'')) bs"
    obtain m'' where m'': "cmd_dispatch table func a m' s =
        Some (fst (run_words table g (toks blank_set ?c) s), m'', snd (run_words table g (toks blank_set ?c) s))"
      "\<And>x. m'' x = m' x \<or> a \<le> x \<and> x < a + length ?c"
      using cmd_dispatch_runs [OF word(3) assms(2,3)] by blast
    have "pending m'' (a + length ?c + 1) e ctx' (drop 1 (tok_rest (set (lit '';'')) bs))"
    proof (rule pending_cong [OF word(6)])
      fix x assume "a + length ?c + 1 \<le> x"
      with m''(2) [of x] show "m'' x = m' x" by auto
    qed
    from 1(1) [OF word(1) this] word(1,2) m''(1) show ?thesis
      by (simp add: toks.simps [of _ bs] execute_loop.simps [of table] Let_def split_beta)
  qed
qed

subsection \<open>Typed lines\<close>

lemma erase_word_back: "pos \<le> length buf \<Longrightarrow> \<exists>p \<le> pos. erase_word blank buf pos = Some p"
proof (induction pos)
  case (Suc pos)
  then show ?case using le_SucI by (cases "(buf ! pos = of_char (CHR '' '')) = blank") auto
qed simp

lemma kgets_loop_bounds:
  assumes "ch \<in> set chs" "ch = 10 \<or> ch = 13" "maxlen = length buf" "pos < maxlen" "maxlen < 2 ^ 32"
  shows "\<exists>p buf'. kgets_loop chs buf maxlen pos = Some (p, buf') \<and> p < maxlen \<and> length buf' = maxlen"
  using assms
proof (induction chs arbitrary: buf pos)
  case (Cons c chs)
  have max: "u32 (4294967295 + maxlen) = maxlen - Suc 0"
    using u32_minus_1 [of maxlen] Cons.prems(4,5) by (simp add: add.commute)
  consider (eol) "c = 10 \<or> c = 13" | (eof) "c = 3" | (word) "c = 23" | (other) "\<not> (c = 10 \<or> c = 13)" "c \<noteq> 3" "c \<noteq> 23" by blast
  then show ?case
  proof cases
    case word
    obtain p where p: "erase_word True buf pos = Some p" "p \<le> pos"
      using erase_word_back [of pos buf True] Cons.prems(3,4) by auto
    moreover obtain q where "erase_word False buf p = Some q" "q \<le> p"
      using erase_word_back [of p buf False] Cons.prems(3,4) p(2) by auto
    ultimately show ?thesis using Cons.IH [of buf q] Cons.prems word by auto
  next
    case other
    then have "ch \<in> set chs" using Cons.prems(1,2) by auto
    note IH = Cons.IH [OF this Cons.prems(2) _ _ Cons.prems(5)]
    note [simp] = Cons.prems(3) [symmetric] Cons.prems(4) max less_imp_diff_less [OF Cons.prems(4)]
    have "0 < maxlen" using le0 Cons.prems(4) by (rule le_less_trans)
    with other show ?thesis by (simp add: IH less_diff_conv)
  qed (use Cons.prems in auto)
qed simp

text \<open>
  A line that ends is read into the buffer whatever its length and whatever control characters it
  contains, without an access outside the buffer, and is terminated there.
\<close>

lemma kgets_reads:
  assumes "10 \<in> set chs" "0 < length buf" "length buf < 2 ^ 32"
  shows "\<exists>buf'. kgets chs buf (length buf) = Some buf' \<and> length buf' = length buf \<and> 0 \<in> set buf'"
proof -
  obtain p buf' where "kgets_loop chs buf (length buf) 0 = Some (p, buf')" "p < length buf" "length buf' = length buf"
    using kgets_loop_bounds [of 10 chs "length buf" buf 0] assms by auto
  then show ?thesis by (simp add: kgets_def set_update_memI)
qed

lemma strip_colon_word:
  assumes "cstring_at m a w" "w \<noteq> []"
  shows "strip_colon m a = Some (if last w = of_char (CHR '':'') then m(a + length w - 1 \<mapsto> 0) else m)"
proof -
  from assms(2) obtain v c where v: "w = v @ [c]" by (cases w rule: rev_cases) auto
  then have "m (a + length v) = Some c"
    using cstring_at_drop [of m a v "[c]"] assms(1) by (simp add: cstring_at_Cons)
  then show ?thesis using assms v by (simp add: strip_colon_def strlen_cstring rd_def wr_def)
qed

lemma toks_nonempty: "w \<in> set (toks S bs) \<Longrightarrow> w \<noteq> []"
proof (induction S bs rule: toks.induct)
  case (1 S bs)
  then show ?case by (cases "tok_word S bs = []") (auto simp: toks.simps [of S bs])
qed




end
