(* ===== verification/Mksfs.thy ===== *)
theory Mksfs
  imports SfsFs Libc
begin

section \<open>Making a file system (\<^verbatim>\<open>sbin/mksfs/mksfs.c\<close>)\<close>

text \<open>
  The program \<^verbatim>\<open>mksfs\<close>, which writes an empty SFS onto a disk image. An image is a function from
  block numbers to blocks, and \<^verbatim>\<open>diskwrite\<close> of \<^verbatim>\<open>disk.c\<close> replaces one block; the loops there that repeat
  interrupted system calls of the host are not represented. On a little-endian host \<^verbatim>\<open>SWAPL\<close> and \<^verbatim>\<open>SWAPS\<close>
  make the words big-endian, on the target they are already, so that \<^const>\<open>super_bytes\<close> and
  \<^const>\<open>inode_bytes\<close> are the bytes written in both cases. \<open>None\<close> is an exit with an error message or
  a failed assertion.

  The lemmas show that what \<^verbatim>\<open>mksfs\<close> writes is what \<^verbatim>\<open>sfs_domount\<close> expects.
\<close>

type_synonym disk_image = "nat \<Rightarrow> byte list"

definition MAXBITBLOCKS :: nat where [simp]: "MAXBITBLOCKS = 32"

definition diskwrite :: "byte list \<Rightarrow> nat \<Rightarrow> disk_image \<Rightarrow> disk_image" where
  "diskwrite data b img = img(b := data)"

definition new_super :: "byte list \<Rightarrow> nat \<Rightarrow> sfs_super" where
  "new_super name nblocks = \<lparr>sp_magic = SFS_MAGIC, sp_nblocks = nblocks,
     sp_volname = name @ replicate (SFS_VOLNAME_SIZE - length name) 0, sp_reserved = replicate 118 0\<rparr>"

definition writesuper :: "memory \<Rightarrow> nat \<Rightarrow> nat \<Rightarrow> disk_image \<Rightarrow> disk_image run" where
  "writesuper m volname nblocks img = do {
     n \<leftarrow> strlen m volname;
     if n \<ge> SFS_VOLNAME_SIZE then None
     else do {
       name \<leftarrow> kload m volname n;
       Some (diskwrite (super_bytes (new_super name nblocks)) SFS_SB_LOCATION img)
     }
   }"

definition new_root :: sfs_inode where
  "new_root = \<lparr>sfi_size = 0, sfi_type = SFS_TYPE_DIR, sfi_linkcount = 1, sfi_direct = replicate 15 0,
     sfi_indirect = 0, sfi_waste = replicate 110 0\<rparr>"

definition writerootdir :: "disk_image \<Rightarrow> disk_image" where
  "writerootdir img = diskwrite (inode_bytes new_root) SFS_ROOT_LOCATION img"

definition bitbuf0 :: "byte list" where
  "bitbuf0 = replicate (MAXBITBLOCKS * SFS_BLOCKSIZE) 0"

definition doallocbit :: "nat \<Rightarrow> byte list \<Rightarrow> byte list run" where
  "doallocbit b bitbuf = do {
     w \<leftarrow> nth_run bitbuf (b div 8);
     kassert (w AND bit_mask (b mod 8) = 0);
     upd_run bitbuf (b div 8) (w OR bit_mask (b mod 8))
   }"

fun doallocbits :: "nat list \<Rightarrow> byte list \<Rightarrow> byte list run" where
  "doallocbits [] bitbuf = Some bitbuf"
| "doallocbits (b # bs) bitbuf = do { bitbuf \<leftarrow> doallocbit b bitbuf; doallocbits bs bitbuf }"

definition writebitmap :: "nat \<Rightarrow> disk_image \<Rightarrow> disk_image run" where
  "writebitmap fsblocks img =
     (let nbits = SFS_BITMAPSIZE fsblocks; nblocks = SFS_BITBLOCKS fsblocks in
      if nblocks > MAXBITBLOCKS then None
      else do {
        bitbuf \<leftarrow> doallocbit SFS_SB_LOCATION bitbuf0;
        bitbuf \<leftarrow> doallocbit SFS_ROOT_LOCATION bitbuf;
        bitbuf \<leftarrow> doallocbits (map (\<lambda>i. SFS_MAP_LOCATION + i) [0..<nblocks]) bitbuf;
        bitbuf \<leftarrow> doallocbits [fsblocks..<nbits] bitbuf;
        Some (fold (\<lambda>i. diskwrite (take SFS_BLOCKSIZE (drop (i * SFS_BLOCKSIZE) bitbuf)) (SFS_MAP_LOCATION + i))
                [0..<nblocks] img)
      })"

text \<open>\<^verbatim>\<open>main\<close>, on the volume name at \<open>volname\<close> and a disk of \<open>nblocks\<close> blocks.\<close>

definition mksfs :: "memory \<Rightarrow> nat \<Rightarrow> nat \<Rightarrow> disk_image \<Rightarrow> disk_image run" where
  "mksfs m volname nblocks img = do {
     s \<leftarrow> strchr m volname (sint (of_char (CHR '':'') :: byte));
     m \<leftarrow> (case s of
             None \<Rightarrow> Some m
           | Some s \<Rightarrow> do { n \<leftarrow> strlen m s; if n \<noteq> 1 then None else wr m s 0 });
     s \<leftarrow> strchr m volname (sint (of_char (CHR ''/'') :: byte));
     if s \<noteq> NULL then None
     else do {
       img \<leftarrow> writesuper m volname nblocks img;
       writebitmap nblocks (writerootdir img)
     }
   }"

subsection \<open>The free map\<close>

definition bitmap_of :: "byte list \<Rightarrow> bitmap" where
  "bitmap_of buf = \<lparr>bm_nbits = 8 * length buf, bm_v = buf\<rparr>"

lemma doallocbit_mark: "b < 8 * length buf \<Longrightarrow> doallocbit b buf = map_option bm_v (bitmap_mark (bitmap_of buf) b)"
  by (auto simp: doallocbit_def bitmap_mark_def bitmap_translate_def bitmap_of_def nth_run_def upd_run_def kassert_bind_if)

lemma bitmap_of_ok: "length buf < 2 ^ 28 \<Longrightarrow> bitmap_ok (bitmap_of buf)"
  by (simp add: bitmap_ok_def bitmap_of_def DIVROUNDUP_8)

lemma doallocbit_ok:
  assumes "length buf < 2 ^ 28" "b < 8 * length buf" "b \<notin> marked (bitmap_of buf)"
  shows "\<exists>buf'. doallocbit b buf = Some buf' \<and> length buf' = length buf
    \<and> marked (bitmap_of buf') = insert b (marked (bitmap_of buf))"
proof -
  let ?b = "set_bit_at (bitmap_of buf) b"
  note ok = bitmap_of_ok [OF assms(1)]
  have "bm_nbits ?b = 8 * length buf" "length (bm_v ?b) = length buf" by (simp_all add: set_bit_at_def bitmap_of_def)
  then have "?b = bitmap_of (bm_v ?b)" by (simp add: bitmap_of_def)
  then have "marked (bitmap_of (bm_v ?b)) = insert b (marked (bitmap_of buf))"
    using set_bit_at_ok [OF ok, of b] assms(2) by (simp add: bitmap_of_def)
  then show ?thesis
    using doallocbit_mark [OF assms(2)] bitmap_mark_eq [OF ok, of b] assms(2,3) \<open>length (bm_v ?b) = length buf\<close>
    by (simp add: bitmap_of_def)
qed

lemma doallocbits_ok:
  assumes "length buf < 2 ^ 28" "set bs \<subseteq> {..<8 * length buf}" "distinct bs" "set bs \<inter> marked (bitmap_of buf) = {}"
  shows "\<exists>buf'. doallocbits bs buf = Some buf' \<and> length buf' = length buf
    \<and> marked (bitmap_of buf') = marked (bitmap_of buf) \<union> set bs"
  using assms
proof (induction bs arbitrary: buf)
  case (Cons b bs)
  then obtain buf1 where b: "doallocbit b buf = Some buf1" "length buf1 = length buf"
    "marked (bitmap_of buf1) = insert b (marked (bitmap_of buf))"
    using doallocbit_ok [of buf b] by auto
  with Cons.IH [of buf1] Cons.prems show ?case by auto
qed auto

lemma map_sizes:
  assumes "3 \<le> n" "n \<le> 131072"
  shows "SFS_BITMAPSIZE n = 4096 * SFS_BITBLOCKS n" "SFS_BITBLOCKS n \<le> 32" "2 + SFS_BITBLOCKS n \<le> n" "n \<le> 4096 * SFS_BITBLOCKS n"
proof -
  have n: "n < 2 ^ 22" using assms(2) by simp
  have b: "SFS_BITBLOCKS n = (n + 4095) div 4096"
    using assms(2) by (simp add: SFS_BITBLOCKS_def SFS_BITMAPSIZE_def SFS_ROUNDUP_def)
  show "SFS_BITMAPSIZE n = 4096 * SFS_BITBLOCKS n" "n \<le> 4096 * SFS_BITBLOCKS n" using bitblocks [OF n] by simp_all
  show "SFS_BITBLOCKS n \<le> 32" using assms(2) b by simp
  have "(n + 4095) div 4096 < n - 1" using assms(1) by (intro less_mult_imp_div_less) linarith
  then show "2 + SFS_BITBLOCKS n \<le> n" using b by simp
qed

definition new_used :: "nat \<Rightarrow> nat set" where
  "new_used n = {0, 1} \<union> {2..<2 + SFS_BITBLOCKS n} \<union> {n..<SFS_BITMAPSIZE n}"

lemma write_map:
  "fold (\<lambda>i. diskwrite (f i) (2 + i)) [0..<k] img = (\<lambda>b. if 2 \<le> b \<and> b < 2 + k then f (b - 2) else img b)"
  by (induction k) (auto simp: diskwrite_def fun_eq_iff less_Suc_eq)

lemma bitbuf0: "length bitbuf0 = 16384" "marked (bitmap_of bitbuf0) = {}"
proof -
  show l: "length bitbuf0 = 16384" by (simp only: bitbuf0_def length_replicate) simp
  have "bitbuf0 ! k = 0" if "k < length bitbuf0" for k
    using that by (simp only: bitbuf0_def length_replicate nth_replicate)
  then show "marked (bitmap_of bitbuf0) = {}" using l by (auto simp: marked_def bit_at_def bitmap_of_def)
qed

lemma writebitmap_ok:
  assumes "3 \<le> n" "n \<le> 131072"
  shows "\<exists>buf. length buf = 16384 \<and> marked (bitmap_of buf) = new_used n
    \<and> writebitmap n img = Some (\<lambda>b. if 2 \<le> b \<and> b < 2 + SFS_BITBLOCKS n
        then take 512 (drop ((b - 2) * 512) buf) else img b)"
proof -
  note sz = map_sizes [OF assms]
  let ?nb = "SFS_BITBLOCKS n"
  obtain b0 where b0: "doallocbit 0 bitbuf0 = Some b0" "length b0 = 16384" "marked (bitmap_of b0) = {0}"
    using doallocbit_ok [of bitbuf0 0] bitbuf0 by auto
  obtain b1 where b1: "doallocbit 1 b0 = Some b1" "length b1 = 16384" "marked (bitmap_of b1) = {0, 1}"
    using doallocbit_ok [of b0 1] b0 by auto
  let ?ms = "map (\<lambda>i. 2 + i) [0..<?nb]"
  have ms: "set ?ms = {2..<2 + ?nb}" "distinct ?ms"
    by (simp_all only: set_map atLeastLessThan_upt [symmetric] image_add_atLeastLessThan distinct_map distinct_upt)
      (simp_all add: numeral_2_eq_2)
  have p2: "length b1 < 2 ^ 28" "set ?ms \<subseteq> {..<8 * length b1}" "set ?ms \<inter> marked (bitmap_of b1) = {}"
    unfolding ms(1) b1(2,3) using sz(2) by auto
  obtain b2 where b2: "doallocbits ?ms b1 = Some b2" "length b2 = length b1" "marked (bitmap_of b2) = marked (bitmap_of b1) \<union> set ?ms"
    using doallocbits_ok [OF p2(1,2) ms(2) p2(3)] by (elim exE conjE) (rule that)
  note m2 = b2(2,3) [unfolded b1(2,3) ms(1)]
  have p3: "length b2 < 2 ^ 28" "set [n..<4096 * ?nb] \<subseteq> {..<8 * length b2}" "set [n..<4096 * ?nb] \<inter> marked (bitmap_of b2) = {}"
    unfolding m2 set_upt using sz(2,3) by auto
  obtain b3 where b3: "doallocbits [n..<4096 * ?nb] b2 = Some b3" "length b3 = length b2"
      "marked (bitmap_of b3) = marked (bitmap_of b2) \<union> set [n..<4096 * ?nb]"
    using doallocbits_ok [OF p3(1,2) distinct_upt p3(3)] by (elim exE conjE) (rule that)
  note m3 = b3(2,3) [unfolded m2 set_upt]
  have "writebitmap n img = Some (\<lambda>b. if 2 \<le> b \<and> b < 2 + ?nb then take 512 (drop ((b - 2) * 512) b3) else img b)"
    using b0(1) b1(1) b2(1) b3(1) sz(1,2) write_map [of "\<lambda>i. take 512 (drop (i * 512) b3)"]
    by (simp add: writebitmap_def Let_def del: One_nat_def add_2_eq_Suc add_2_eq_Suc')
  with m3 sz(1) show ?thesis by (intro exI [of _ b3]) (simp add: new_used_def)
qed

subsection \<open>The image can be mounted\<close>

text \<open>What a disk image that \<^verbatim>\<open>mksfs\<close> wrote holds.\<close>

definition fresh_image :: "byte list \<Rightarrow> nat \<Rightarrow> disk_image \<Rightarrow> bool" where
  "fresh_image name n img \<longleftrightarrow> img 0 = super_bytes (new_super name n) \<and> img 1 = inode_bytes new_root
     \<and> (\<exists>buf. length buf = 16384 \<and> marked (bitmap_of buf) = new_used n
         \<and> (\<forall>j < SFS_BITBLOCKS n. img (2 + j) = take 512 (drop (j * 512) buf)))"

lemma strchr_absent:
  "cstring_at m v name \<Longrightarrow> c \<notin> set name \<Longrightarrow> c \<noteq> 0 \<Longrightarrow> strchr m v (sint c) = Some NULL"
  by (simp add: strchr_first)

lemma mksfs_image:
  assumes "cstring_at m v arg" "arg = name \<or> arg = name @ [of_char (CHR '':'')]"
    "of_char (CHR '':'') \<notin> set name" "of_char (CHR ''/'') \<notin> set name" "length name < 32" "3 \<le> n" "n \<le> 131072"
  shows "\<exists>img'. mksfs m v n img = Some img' \<and> fresh_image name n img' \<and> (\<forall>b \<ge> 2 + SFS_BITBLOCKS n. img' b = img b)"
proof -
  let ?colon = "of_char (CHR '':'') :: byte" and ?slash = "of_char (CHR ''/'') :: byte"
  have "\<exists>s m'. strchr m v (sint ?colon) = Some s \<and> (case s of None \<Rightarrow> Some m
      | Some s \<Rightarrow> do { k \<leftarrow> strlen m s; if k \<noteq> 1 then None else wr m s 0 }) = Some m' \<and> cstring_at m' v name"
    using assms(2)
  proof
    assume "arg = name"
    with strchr_absent [OF assms(1), of ?colon] assms(1,3) show ?thesis by simp
  next
    assume arg: "arg = name @ [?colon]"
    have "takeWhile (\<lambda>b. b \<noteq> ?colon) arg = name" using arg assms(3) by (auto simp: takeWhile_append)
    then have "strchr m v (sint ?colon) = Some (Some (v + length name))"
      using strchr_first [OF assms(1), of ?colon] arg by simp
    moreover have at: "cstring_at m (v + length name) [?colon]"
      using cstring_at_drop [of m v name "[?colon]"] assms(1) arg by simp
    moreover have "cstring_at (m(v + length name \<mapsto> 0)) v name" using cstring_at_cut [of m v name] assms(1) arg by simp
    ultimately show ?thesis using strlen_cstring [OF at] by (simp add: cstring_at_Cons wr_def)
  qed
  then obtain s m' where m': "strchr m v (sint ?colon) = Some s" "cstring_at m' v name"
    "(case s of None \<Rightarrow> Some m | Some s \<Rightarrow> do { k \<leftarrow> strlen m s; if k \<noteq> 1 then None else wr m s 0 }) = Some m'" by blast
  have sl: "strchr m' v (sint ?slash) = Some NULL" using strchr_absent [OF m'(2) assms(4)] by simp
  have "bytes_at m' v (length name) = name" "mapped m' v (length name)"
    using m'(2) bytes_at_add [of m' v "length name" 1] by (auto simp: cstring_at_def intro: mapped_mono)
  then have sup: "writesuper m' v n img = Some (img(0 := super_bytes (new_super name n)))"
    using assms(5) by (simp add: writesuper_def strlen_cstring [OF m'(2)] kload_def diskwrite_def)
  let ?img = "img(0 := super_bytes (new_super name n), 1 := inode_bytes new_root)"
  obtain buf where buf: "length buf = 16384" "marked (bitmap_of buf) = new_used n"
    "writebitmap n ?img = Some (\<lambda>b. if 2 \<le> b \<and> b < 2 + SFS_BITBLOCKS n then take 512 (drop ((b - 2) * 512) buf) else ?img b)"
    using writebitmap_ok [OF assms(6,7)] by blast
  then have "mksfs m v n img = writebitmap n ?img"
    using m' sl sup by (simp add: mksfs_def writerootdir_def diskwrite_def)
  with buf show ?thesis by (auto simp: fresh_image_def)
qed

text \<open>The state that mounting such an image is to produce, over the memory \<open>junk\<close> that \<^verbatim>\<open>kmalloc\<close> returns.\<close>

definition fresh_fs :: "byte list \<Rightarrow> nat \<Rightarrow> byte list \<Rightarrow> lhd_softc \<Rightarrow> sfs_fs \<Rightarrow> sfs_fs" where
  "fresh_fs name n buf dev junk = junk\<lparr>sfs_super := new_super name n,
     sfs_freemap := \<lparr>bm_nbits = SFS_BITMAPSIZE n, bm_v = take (512 * SFS_BITBLOCKS n) buf\<rparr>, sfs_device := dev,
     sfs_pool := (\<lambda>_. None), sfs_vnodes := \<lparr>anum = 0, amax = 0, av = NULL\<rparr>,
     sfs_superdirty := False, sfs_freemapdirty := False\<rparr>"

lemma new_super_wf: "length name < 32 \<Longrightarrow> n < 2 ^ 32 \<Longrightarrow> super_wf (new_super name n)"
  by (auto simp: super_wf_def new_super_def SFS_MAGIC_def)

lemma new_super_end: "length name < 32 \<Longrightarrow> sp_volname (new_super name n) ! 31 = 0"
  by (simp add: new_super_def nth_append)

lemma load_new_super:
  assumes "length name < 32" "n < 2 ^ 32"
  shows "load_super (super_bytes (new_super name n)) = new_super name n"
proof -
  have "(sp_volname (new_super name n))[31 := 0] = sp_volname (new_super name n)"
    using new_super_end [OF assms(1), of n] list_update_id [of "sp_volname (new_super name n)" 31] by simp
  then show ?thesis by (simp add: load_super_def bytes_super_bytes [OF new_super_wf [OF assms]])
qed

lemma fresh_fs_ok:
  assumes "length buf = 16384" "marked (bitmap_of buf) = new_used n"
    "\<forall>j < SFS_BITBLOCKS n. sectors dev (2 + j) = take 512 (drop (j * 512) buf)"
    "sectors dev 0 = super_bytes (new_super name n)"
    "dev_ok dev" "reliable dev" "n \<le> d_blocks dev" "3 \<le> n" "n \<le> 131072" "length name < 32"
  shows "space_ok (fresh_fs name n buf dev junk)" "meta_ok (fresh_fs name n buf dev junk)"
    "used (fresh_fs name n buf dev junk) = new_used n"
proof -
  let ?s = "fresh_fs name n buf dev junk" and ?nb = "SFS_BITBLOCKS n"
  note sz = map_sizes [OF assms(8,9)]
  have bit: "bit_at (sfs_freemap ?s) i = bit_at (bitmap_of buf) i" if "i < 4096 * ?nb" for i
    using that by (simp add: fresh_fs_def bit_at_def bitmap_of_def less_mult_imp_div_less)
  have fm: "bm_nbits (sfs_freemap ?s) = 4096 * ?nb" "length (bm_v (sfs_freemap ?s)) = 512 * ?nb"
    using assms(1) sz(1,2) by (simp_all add: fresh_fs_def)
  have ok: "bitmap_ok (sfs_freemap ?s)" using fm sz(2) by (simp add: bitmap_ok_def DIVROUNDUP_8)
  have "marked (sfs_freemap ?s) = marked (bitmap_of buf) \<inter> {..<4096 * ?nb}"
    using bit fm(1) assms(1) sz(2) by (auto simp: marked_def bitmap_of_def)
  moreover have "new_used n \<subseteq> {..<4096 * ?nb}" using sz assms(8) by (auto simp: new_used_def)
  ultimately show u: "used ?s = new_used n" using assms(2) by auto
  have sys: "sysblocks ?s = insert 0 {2..<2 + ?nb}" "nblk ?s = n"
    by (simp_all add: sysblocks_def fresh_fs_def new_super_def)
  show "space_ok ?s"
    unfolding space_ok_def u sys fm(1)
    using assms(5-7) ok sz by (auto simp: dev_good_def fresh_fs_def new_used_def)
  have "map_block (sfs_freemap ?s) j = take 512 (drop (j * 512) buf)" if "j < ?nb" for j
  proof -
    have "512 \<le> 512 * ?nb - 512 * j" using that by linarith
    then show ?thesis by (simp add: map_block_def fresh_fs_def drop_take min_def mult.commute)
  qed
  then show "meta_ok ?s"
    using assms(3,4,9,10) load_new_super [of name n] new_super_wf [of name n] new_super_end [of name n] fm(1) sz sys(2)
    by (simp add: meta_ok_def) (simp add: fresh_fs_def new_super_def)
qed

definition with_image :: "lhd_softc \<Rightarrow> disk_image \<Rightarrow> lhd_softc" where
  "with_image dev img = dev\<lparr>lh_disk := (lh_disk dev)\<lparr>dd_image := img\<rparr>\<rparr>"

lemma with_image_ok:
  assumes "dev_ok dev" "reliable dev" "\<forall>b. length (img b) = 512"
  shows "dev_ok (with_image dev img)" "reliable (with_image dev img)" "sectors (with_image dev img) = img"
    "d_blocks (with_image dev img) = d_blocks dev"
  using assms by (simp_all add: with_image_def dev_ok_def reliable_def)

lemma new_root_props:
  "inode_wf new_root" "sfi_type new_root = SFS_TYPE_DIR" "sfi_size new_root = 0" "sfi_linkcount new_root = 1"
  "own dk b new_root = [b]"
  by (simp_all add: new_root_def inode_wf_def own_def slots_def fmap_def id_words_def)

lemma fresh_image_lengths:
  assumes "fresh_image name n img'" "\<forall>b \<ge> 2 + SFS_BITBLOCKS n. img' b = img b" "\<forall>b. length (img b) = 512"
    "length name < 32" "3 \<le> n" "n \<le> 131072"
  shows "\<forall>b. length (img' b) = 512"
proof
  fix b
  note sz = map_sizes [OF assms(5,6)]
  consider "b = 0" | "b = 1" | j where "b = 2 + j" "j < SFS_BITBLOCKS n" | "2 + SFS_BITBLOCKS n \<le> b"
    using nat_le_iff_add [of 2 b] by (metis One_nat_def add_less_cancel_left less_2_cases not_le)
  then show "length (img' b) = 512"
  proof cases
    case 1
    then show ?thesis using assms(1,4,6) length_super_bytes [OF new_super_wf [of name n]] by (simp add: fresh_image_def)
  next
    case 2
    then show ?thesis using assms(1) length_inode_bytes [OF new_root_props(1)] by (simp add: fresh_image_def)
  next
    case 3
    then have "j * 512 + 512 \<le> 16384" using sz(2) by linarith
    with 3 assms(1) show ?thesis by (auto simp: fresh_image_def)
  qed (use assms(2,3) in simp)
qed

lemma fresh_tree:
  assumes "space_ok s" "meta_ok s" "sfs_pool s = (\<lambda>_. None)" "sfs_vnodes s = \<lparr>anum = 0, amax = 0, av = NULL\<rparr>"
    "disk s 1 = inode_bytes new_root" "used s = new_used n" "nblk s = n" "3 \<le> n" "n \<le> 131072"
  shows "tree_ok s" "names s = Map.empty" "nfree s = n - 2 - SFS_BITBLOCKS n"
proof -
  note sz = map_sizes [OF assms(8,9)]
  have c: "cur s 1 = new_root"
    using assms(4,5) bytes_inode_bytes [OF new_root_props(1)] by (simp add: cur_def vnode_of_def a_list_def)
  have sys: "sysblocks s = insert 0 {2..<2 + SFS_BITBLOCKS n}" using assms(7) by (simp add: sysblocks_def)
  have io: "inode_ok s 1"
    unfolding inode_ok_def c new_root_props(5) assms(6,7) sys
    using new_root_props assms(8) by (auto simp: new_used_def vop_table_for_def)
  have "pool_ok s" using assms(3,4) by (simp add: pool_ok_def array_ok_def a_list_def block_def)
  then have fs: "fs_ok s {1}" using assms(1-3) io by (simp add: fs_ok_def)
  have rd: "rdents s = []" using c new_root_props(3) by (simp add: rdents_def)
  then show nm: "names s = Map.empty" by (simp add: names_def dir_map_def slot_of_def fun_eq_iff)
  have "root_ok s" using c rd new_root_props by (simp add: root_ok_def names_ok_def)
  moreover have "inodes s = {1}" using nm assms(3) by (simp add: inodes_def linos_def)
  ultimately show "tree_ok s" using fs nm by (simp add: tree_ok_def base_def)
  have "{..<n} - new_used n = {2 + SFS_BITBLOCKS n..<n}" using sz assms(8) by (auto simp: new_used_def)
  then show "nfree s = n - 2 - SFS_BITBLOCKS n" using assms(6,7) by (simp add: nfree_def)
qed

subsection \<open>Properties\<close>

text \<open>
  C10. What \<^verbatim>\<open>mksfs\<close> makes can be mounted. On a disk of 3 to 131072 blocks, and for a volume name of fewer
  than 32 characters without colon and slash (a colon may follow it on the command line), \<^verbatim>\<open>mksfs\<close> succeeds, and
  \<^verbatim>\<open>sfs_domount\<close> of the disk it wrote fails only for lack of memory: otherwise the mounted file
  system is consistent, has the given volume name, no files, and all blocks free but the superblock, the root inode
  and the blocks of the free map.
\<close>

theorem mksfs_then_mount:
  assumes "cstring_at m v arg" and "arg = name \<or> arg = name @ [of_char (CHR '':'')]"
    and "of_char (CHR '':'') \<notin> set name" and "of_char (CHR ''/'') \<notin> set name" and "length name < 32"
    and "dev_ok dev" and "reliable dev" and "3 \<le> d_blocks dev" and "d_blocks dev \<le> 131072"
  shows "\<exists>img. mksfs m v (d_blocks dev) (sectors dev) = Some img \<and>
    ((\<exists>k. \<not> mem k) \<and> (\<exists>dev'. sfs_domount mem junk (with_image dev img) = Some (Err ENOMEM, dev'))
     \<or> (\<exists>s. sfs_domount mem junk (with_image dev img) = Some (Ok s, sfs_device s) \<and> tree_ok s \<and> names s = Map.empty
          \<and> sfs_getvolname s = name \<and> nfree s = d_blocks dev - 2 - SFS_BITBLOCKS (d_blocks dev)))"
proof -
  let ?n = "d_blocks dev"
  obtain img where img: "mksfs m v ?n (sectors dev) = Some img" "fresh_image name ?n img"
    "\<forall>b \<ge> 2 + SFS_BITBLOCKS ?n. img b = sectors dev b"
    using mksfs_image [OF assms(1-5,8,9)] by blast
  have "\<forall>b. length (sectors dev b) = 512" using assms(6) by (simp add: dev_ok_def)
  note d = with_image_ok [OF assms(6,7) fresh_image_lengths [OF img(2,3) this assms(5,8,9)]]
  obtain buf where buf: "length buf = 16384" "marked (bitmap_of buf) = new_used ?n"
      "\<forall>j < SFS_BITBLOCKS ?n. img (2 + j) = take 512 (drop (j * 512) buf)"
    and i01: "img 0 = super_bytes (new_super name ?n)" "img 1 = inode_bytes new_root"
    using img(2) by (auto simp: fresh_image_def)
  define s0 where "s0 = fresh_fs name ?n buf (with_image dev img) junk"
  have s0: "space_ok s0" "meta_ok s0" "used s0 = new_used ?n"
    using fresh_fs_ok [OF buf(1,2), of "with_image dev img" name junk] buf(3) i01 d assms(5,8,9) by (simp_all add: s0_def)
  have f0: "sfs_device s0 = with_image dev img" "\<not> sfs_superdirty s0" "\<not> sfs_freemapdirty s0" "sfs_super s0 = new_super name ?n"
    by (simp_all add: s0_def fresh_fs_def)
  have "tree_ok s \<and> names s = Map.empty \<and> sfs_getvolname s = name \<and> nfree s = ?n - 2 - SFS_BITBLOCKS ?n"
    if s: "sfs_super s = sfs_super s0" "sfs_freemap s = sfs_freemap s0" "disk s = disk s0" "sfs_pool s = (\<lambda>_. None)"
      "sfs_vnodes s = \<lparr>anum = 0, amax = 0, av = NULL\<rparr>" "dev_good s" "d_blocks (sfs_device s) = d_blocks (sfs_device s0)"
      "\<not> sfs_superdirty s" "\<not> sfs_freemapdirty s" for s
  proof -
    have "space_ok s" "meta_ok s" using s0 s f0 by (simp_all add: space_ok_def sysblocks_def meta_ok_def)
    moreover have "disk s 1 = inode_bytes new_root" "nblk s = ?n"
      using s(1,3) f0 d(3) i01(2) by (simp_all add: new_super_def)
    ultimately have "tree_ok s" "names s = Map.empty" "nfree s = ?n - 2 - SFS_BITBLOCKS ?n"
      using fresh_tree [of s ?n] s(2,4,5) s0(3) assms(8,9) by simp_all
    moreover have "0 \<notin> set name" using assms(1,2) cstring_at_0 by fastforce
    then have "sfs_getvolname s = name"
      using s(1) f0(4) by (auto simp: sfs_getvolname_def new_super_def takeWhile_append)
    ultimately show ?thesis by simp
  qed
  with domount_result [OF s0(1,2) f0(2,3), of mem junk] img(1) show ?thesis unfolding f0(1) by blast
qed

theorem mksfs_then_mount_witness:
  "\<exists>img s. mksfs (str_lit ''vol:'') 0 512 (sectors (sample_disk 512)) = Some img
     \<and> sfs_domount (\<lambda>_. True) sample_root (with_image (sample_disk 512) img) = Some (Ok s, sfs_device s)
     \<and> tree_ok s \<and> names s = Map.empty \<and> sfs_getvolname s = lit ''vol'' \<and> nfree s = 509"
proof -
  have c: "cstring_at (str_lit ''vol:'') 0 (lit ''vol:'')"
    unfolding str_lit_def by (rule cstring_at_mem_of) (simp add: lit_def)
  have d: "d_blocks (sample_disk 512) = 512" by (simp add: sample_disk_def)
  have "SFS_BITBLOCKS 512 = 1" by (simp add: SFS_BITBLOCKS_def SFS_BITMAPSIZE_def SFS_ROUNDUP_def)
  with mksfs_then_mount [OF c, of "lit ''vol''" "sample_disk 512" "\<lambda>_. True" sample_root] sample_disk_ok [of 512] show ?thesis
    unfolding d by (auto simp: lit_def)
qed


end
