(* ===== verification/Dumbvm.thy ===== *)
theory Dumbvm
  imports Libc
begin

section \<open>Physical memory and address spaces\<close>

text \<open>
  Model of \<^verbatim>\<open>kern/arch/mips/mips/ram.c\<close> and \<^verbatim>\<open>kern/arch/mips/mips/dumbvm.c\<close>, the virtual memory system
  that the configurations ASST0 to ASST2 use.

  Addresses and sizes are natural numbers below \<open>2 ^ 32\<close>, with the wrap-around written out. The
  state has the two bounds of the free physical memory, the TLB, and the contents of physical memory as the
  kernel sees them in kseg0. An entry of the TLB is given by its fields: \<open>te_vpage\<close> is the
  high word (a page address), \<open>te_ppage\<close>, \<open>te_dirty\<close> and \<open>te_valid\<close> are the parts of the low word that the kernel
  uses. Interrupt levels are not represented; \<^verbatim>\<open>vm_fault\<close> without an address space returns with interrupts
  off.
\<close>

definition PAGE_SIZE :: nat where [simp]: "PAGE_SIZE = 4096"
definition MIPS_KSEG0 :: nat where "MIPS_KSEG0 = 0x80000000"
definition USERSTACK :: nat where "USERSTACK = 0x80000000"
definition DUMBVM_STACKPAGES :: nat where [simp]: "DUMBVM_STACKPAGES = 12"
definition NUM_TLB :: nat where [simp]: "NUM_TLB = 64"

definition page_frame :: "nat \<Rightarrow> nat" where
  "page_frame a = a div PAGE_SIZE * PAGE_SIZE"

definition PADDR_TO_KVADDR :: "nat \<Rightarrow> nat" where
  "PADDR_TO_KVADDR pa = u32 (pa + MIPS_KSEG0)"

record tlb_entry =
  te_vpage :: nat
  te_ppage :: nat
  te_dirty :: bool
  te_valid :: bool

record vm =
  firstpaddr :: nat
  lastpaddr :: nat
  tlb :: "tlb_entry list"
  kmem :: memory

record addrspace =
  as_vbase1 :: nat
  as_pbase1 :: nat
  as_npages1 :: nat
  as_vbase2 :: nat
  as_pbase2 :: nat
  as_npages2 :: nat
  as_stackpbase :: nat

subsection \<open>\<^verbatim>\<open>ram.c\<close>\<close>

definition ram_bootstrap :: "nat \<Rightarrow> nat \<Rightarrow> vm \<Rightarrow> vm" where
  "ram_bootstrap ramsize firstfree vm =
     vm\<lparr>lastpaddr := (if ramsize > 508 * 1024 * 1024 then 508 * 1024 * 1024 else ramsize),
        firstpaddr := u32 (firstfree + 2 ^ 32 - MIPS_KSEG0)\<rparr>"

definition ram_stealmem :: "nat \<Rightarrow> vm \<Rightarrow> nat \<times> vm" where
  "ram_stealmem npages vm =
     (let bytes = u32 (npages * PAGE_SIZE) in
      if u32 (firstpaddr vm + bytes) > lastpaddr vm then (0, vm)
      else (firstpaddr vm, vm\<lparr>firstpaddr := u32 (firstpaddr vm + bytes)\<rparr>))"

definition ram_getsize :: "vm \<Rightarrow> (nat \<times> nat) \<times> vm" where
  "ram_getsize vm = ((firstpaddr vm, lastpaddr vm), vm\<lparr>firstpaddr := 0, lastpaddr := 0\<rparr>)"

subsection \<open>\<^verbatim>\<open>dumbvm.c\<close>\<close>

definition getppages :: "nat \<Rightarrow> vm \<Rightarrow> nat \<times> vm" where
  "getppages npages vm = ram_stealmem npages vm"

definition alloc_kpages :: "int \<Rightarrow> vm \<Rightarrow> nat \<times> vm" where
  "alloc_kpages npages vm =
     (let (pa, vm) = getppages (nat (npages mod 2 ^ 32)) vm in
      if pa = 0 then (0, vm) else (PADDR_TO_KVADDR pa, vm))"

definition free_kpages :: "nat \<Rightarrow> vm \<Rightarrow> vm" where
  "free_kpages addr vm = vm"

datatype faulttype = VM_FAULT_READ | VM_FAULT_WRITE | VM_FAULT_READONLY | Fault_other int

text \<open>The translation in \<^verbatim>\<open>vm_fault\<close>: the physical address of a page, when it lies in one of the three regions.\<close>

definition as_translate :: "addrspace \<Rightarrow> nat \<Rightarrow> nat option" where
  "as_translate as a =
     (let vbase1 = as_vbase1 as; vtop1 = u32 (vbase1 + as_npages1 as * PAGE_SIZE);
          vbase2 = as_vbase2 as; vtop2 = u32 (vbase2 + as_npages2 as * PAGE_SIZE);
          stackbase = USERSTACK - DUMBVM_STACKPAGES * PAGE_SIZE; stacktop = USERSTACK in
      if a \<ge> vbase1 \<and> a < vtop1 then Some (u32 (a - vbase1 + as_pbase1 as))
      else if a \<ge> vbase2 \<and> a < vtop2 then Some (u32 (a - vbase2 + as_pbase2 as))
      else if a \<ge> stackbase \<and> a < stacktop then Some (u32 (a - stackbase + as_stackpbase as))
      else None)"

text \<open>The first TLB entry that is not valid is overwritten.\<close>

definition tlb_load :: "nat \<Rightarrow> nat \<Rightarrow> tlb_entry list \<Rightarrow> tlb_entry list option" where
  "tlb_load va pa es =
     map_option (\<lambda>i. es[i := \<lparr>te_vpage = va, te_ppage = pa, te_dirty = True, te_valid = True\<rparr>])
       (find (\<lambda>i. \<not> te_valid (es ! i)) [0..<NUM_TLB])"

definition vm_fault :: "faulttype \<Rightarrow> nat \<Rightarrow> addrspace ptr \<Rightarrow> vm \<Rightarrow> (unit res \<times> vm) run" where
  "vm_fault faulttype faultaddress t_vmspace vm =
     (let faultaddress = page_frame faultaddress in
      case faulttype of
        VM_FAULT_READONLY \<Rightarrow> panic
      | Fault_other _ \<Rightarrow> Some (Err EINVAL, vm)
      | _ \<Rightarrow>
        (case t_vmspace of
           None \<Rightarrow> Some (Err EFAULT, vm)
         | Some as \<Rightarrow> do {
             kassert (as_vbase1 as \<noteq> 0 \<and> as_pbase1 as \<noteq> 0 \<and> as_npages1 as \<noteq> 0);
             kassert (as_vbase2 as \<noteq> 0 \<and> as_pbase2 as \<noteq> 0 \<and> as_npages2 as \<noteq> 0);
             kassert (as_stackpbase as \<noteq> 0);
             kassert (page_frame (as_vbase1 as) = as_vbase1 as \<and> page_frame (as_pbase1 as) = as_pbase1 as);
             kassert (page_frame (as_vbase2 as) = as_vbase2 as \<and> page_frame (as_pbase2 as) = as_pbase2 as);
             kassert (page_frame (as_stackpbase as) = as_stackpbase as);
             case as_translate as faultaddress of
               None \<Rightarrow> Some (Err EFAULT, vm)
             | Some paddr \<Rightarrow> do {
                 kassert (page_frame paddr = paddr);
                 case tlb_load faultaddress paddr (tlb vm) of
                   None \<Rightarrow> Some (Err EFAULT, vm)
                 | Some es \<Rightarrow> Some (Ok (), vm\<lparr>tlb := es\<rparr>)
               }
           }))"

definition as_create :: "bool \<Rightarrow> addrspace ptr" where
  "as_create got =
     (if \<not> got then NULL
      else Some \<lparr>as_vbase1 = 0, as_pbase1 = 0, as_npages1 = 0, as_vbase2 = 0, as_pbase2 = 0, as_npages2 = 0,
        as_stackpbase = 0\<rparr>)"

definition as_activate :: "vm \<Rightarrow> vm" where
  "as_activate vm = vm\<lparr>tlb := map (\<lambda>i. \<lparr>te_vpage = (0x80000 + i) * 4096, te_ppage = 0, te_dirty = False,
     te_valid = False\<rparr>) [0..<NUM_TLB]\<rparr>"

definition as_define_region :: "nat \<Rightarrow> nat \<Rightarrow> addrspace \<Rightarrow> unit res \<times> addrspace" where
  "as_define_region vaddr sz as =
     (let sz = u32 (sz + vaddr mod PAGE_SIZE);
          vaddr = page_frame vaddr;
          sz = page_frame (u32 (sz + PAGE_SIZE - 1));
          npages = sz div PAGE_SIZE in
      if as_vbase1 as = 0 then (Ok (), as\<lparr>as_vbase1 := vaddr, as_npages1 := npages\<rparr>)
      else if as_vbase2 as = 0 then (Ok (), as\<lparr>as_vbase2 := vaddr, as_npages2 := npages\<rparr>)
      else (Err EUNIMP, as))"

definition as_prepare_load :: "addrspace \<Rightarrow> vm \<Rightarrow> (unit res \<times> addrspace \<times> vm) run" where
  "as_prepare_load as vm = do {
     kassert (as_pbase1 as = 0);
     kassert (as_pbase2 as = 0);
     kassert (as_stackpbase as = 0);
     let (pa, vm) = getppages (as_npages1 as) vm;
     let as = as\<lparr>as_pbase1 := pa\<rparr>;
     if pa = 0 then Some (Err ENOMEM, as, vm)
     else do {
       let (pa, vm) = getppages (as_npages2 as) vm;
       let as = as\<lparr>as_pbase2 := pa\<rparr>;
       if pa = 0 then Some (Err ENOMEM, as, vm)
       else do {
         let (pa, vm) = getppages DUMBVM_STACKPAGES vm;
         let as = as\<lparr>as_stackpbase := pa\<rparr>;
         if pa = 0 then Some (Err ENOMEM, as, vm)
         else Some (Ok (), as, vm)
       }
     }
   }"

definition as_define_stack :: "addrspace \<Rightarrow> nat run" where
  "as_define_stack as = do { kassert (as_stackpbase as \<noteq> 0); Some USERSTACK }"

definition as_complete_load :: "addrspace \<Rightarrow> unit res" where
  "as_complete_load as = Ok ()"

text \<open>The copy of one region of pages in \<^verbatim>\<open>as_copy\<close>.\<close>

definition copy_region :: "nat \<Rightarrow> nat \<Rightarrow> nat \<Rightarrow> vm \<Rightarrow> vm run" where
  "copy_region new old npages vm = do {
     m \<leftarrow> memmove (kmem vm) (PADDR_TO_KVADDR new) (PADDR_TO_KVADDR old) (u32 (npages * PAGE_SIZE));
     Some (vm\<lparr>kmem := m\<rparr>)
   }"

definition as_copy :: "bool \<Rightarrow> addrspace \<Rightarrow> vm \<Rightarrow> (addrspace res \<times> vm) run" where
  "as_copy got old vm =
     (case as_create got of
        None \<Rightarrow> Some (Err ENOMEM, vm)
      | Some new \<Rightarrow> do {
          let new = new\<lparr>as_vbase1 := as_vbase1 old, as_npages1 := as_npages1 old,
                        as_vbase2 := as_vbase2 old, as_npages2 := as_npages2 old\<rparr>;
          (r, new, vm) \<leftarrow> as_prepare_load new vm;
          case r of
            Inl _ \<Rightarrow> Some (Err ENOMEM, vm)
          | Inr _ \<Rightarrow> do {
              kassert (as_pbase1 new \<noteq> 0);
              kassert (as_pbase2 new \<noteq> 0);
              kassert (as_stackpbase new \<noteq> 0);
              vm \<leftarrow> copy_region (as_pbase1 new) (as_pbase1 old) (as_npages1 old) vm;
              vm \<leftarrow> copy_region (as_pbase2 new) (as_pbase2 old) (as_npages2 old) vm;
              vm \<leftarrow> copy_region (as_stackpbase new) (as_stackpbase old) DUMBVM_STACKPAGES vm;
              Some (Ok new, vm)
            }
        })"

subsection \<open>Physical memory\<close>

definition frames :: "nat \<Rightarrow> nat \<Rightarrow> nat set" where
  "frames pa npages = {pa..<pa + npages * 4096}"

definition as_frames :: "addrspace \<Rightarrow> nat set" where
  "as_frames as = frames (as_pbase1 as) (as_npages1 as) \<union> frames (as_pbase2 as) (as_npages2 as)
     \<union> frames (as_stackpbase as) 12"

text \<open>The free memory is page-aligned and lies below the 508 megabytes that \<^verbatim>\<open>ram_bootstrap\<close> allows.\<close>

definition ram_ok :: "vm \<Rightarrow> bool" where
  "ram_ok vm \<longleftrightarrow> firstpaddr vm mod 4096 = 0 \<and> 0 < firstpaddr vm \<and> firstpaddr vm \<le> lastpaddr vm \<and> lastpaddr vm \<le> 0x1fc00000"

lemma ram_stealmem_cases:
  assumes "ram_ok vm" "n \<le> 2 ^ 19"
  obtains (full) "ram_stealmem n vm = (0, vm)" "lastpaddr vm < firstpaddr vm + n * 4096"
  | (got) vm' where "ram_stealmem n vm = (firstpaddr vm, vm')" "ram_ok vm'" "vm' = vm\<lparr>firstpaddr := firstpaddr vm + n * 4096\<rparr>"
proof -
  have small: "n * 4096 \<le> 2 ^ 31" "firstpaddr vm \<le> 0x1fc00000" using assms by (simp_all add: ram_ok_def)
  then have "u32 (n * 4096) = n * 4096" "u32 (firstpaddr vm + n * 4096) = firstpaddr vm + n * 4096" by simp_all
  then show ?thesis
    using that assms(1) by (cases "firstpaddr vm + n * 4096 > lastpaddr vm") (simp_all add: ram_stealmem_def ram_ok_def)
qed

text \<open>An address space as \<^verbatim>\<open>as_prepare_load\<close> sets it up: three disjoint regions in the memory handed out so far.\<close>

definition as_ok :: "vm \<Rightarrow> addrspace \<Rightarrow> bool" where
  "as_ok vm as \<longleftrightarrow> as_frames as \<subseteq> {..<firstpaddr vm}
     \<and> frames (as_pbase1 as) (as_npages1 as) \<inter> frames (as_pbase2 as) (as_npages2 as) = {}
     \<and> frames (as_pbase1 as) (as_npages1 as) \<inter> frames (as_stackpbase as) 12 = {}
     \<and> frames (as_pbase2 as) (as_npages2 as) \<inter> frames (as_stackpbase as) 12 = {}
     \<and> as_pbase1 as \<noteq> 0 \<and> as_pbase2 as \<noteq> 0 \<and> as_stackpbase as \<noteq> 0
     \<and> as_pbase1 as mod 4096 = 0 \<and> as_pbase2 as mod 4096 = 0 \<and> as_stackpbase as mod 4096 = 0
     \<and> as_npages1 as \<le> 2 ^ 19 \<and> as_npages2 as \<le> 2 ^ 19"

lemma as_prepare_load_cases:
  assumes "ram_ok vm" "as_npages1 as \<le> 2 ^ 19" "as_npages2 as \<le> 2 ^ 19"
    "as_pbase1 as = 0" "as_pbase2 as = 0" "as_stackpbase as = 0"
  obtains (nomem) as' vm' where "as_prepare_load as vm = Some (Err ENOMEM, as', vm')" "ram_ok vm'"
      "firstpaddr vm \<le> firstpaddr vm'" "tlb vm' = tlb vm" "kmem vm' = kmem vm" "lastpaddr vm' = lastpaddr vm"
  | (ok) p1 p2 p3 vm' where "as_prepare_load as vm = Some (Ok (), as\<lparr>as_pbase1 := p1, as_pbase2 := p2, as_stackpbase := p3\<rparr>, vm')"
      "ram_ok vm'" "tlb vm' = tlb vm" "kmem vm' = kmem vm"
      "p1 = firstpaddr vm" "p2 = p1 + as_npages1 as * 4096" "p3 = p2 + as_npages2 as * 4096" "firstpaddr vm' = p3 + 12 * 4096"
      "lastpaddr vm' = lastpaddr vm"
proof -
  note [simp] = as_prepare_load_def getppages_def assms(4-6)
  show ?thesis
    using assms(1,2)
  proof (cases rule: ram_stealmem_cases)
    case full
    with nomem [OF _ assms(1)] show ?thesis by simp
  next
    case v1: (got vm1)
    have nz1: "firstpaddr vm \<noteq> 0" using assms(1) by (simp add: ram_ok_def)
    from v1(2) assms(3) show ?thesis
    proof (cases rule: ram_stealmem_cases)
      case full
      with v1 nz1 nomem [OF _ v1(2)] show ?thesis by simp
    next
      case v2: (got vm2)
      from v2(2) have st: "(12::nat) \<le> 2 ^ 19" by simp
      from v2(2) st show ?thesis
      proof (cases rule: ram_stealmem_cases)
        case full
        with v1 v2 nz1 nomem [OF _ v2(2)] show ?thesis by simp
      next
        case v3: (got vm3)
        with v1 v2 nz1 ok [OF _ v3(2)] show ?thesis by simp
      qed
    qed
  qed
qed

lemma as_prepare_load_ok:
  assumes "as_prepare_load as vm = Some (Ok (), as', vm')" "ram_ok vm" "as_npages1 as \<le> 2 ^ 19" "as_npages2 as \<le> 2 ^ 19"
    "as_pbase1 as = 0" "as_pbase2 as = 0" "as_stackpbase as = 0"
  shows "as_ok vm' as'" "as_frames as' \<subseteq> {firstpaddr vm..<firstpaddr vm'}" "ram_ok vm'" "firstpaddr vm \<le> firstpaddr vm'"
    "tlb vm' = tlb vm" "kmem vm' = kmem vm" "lastpaddr vm' = lastpaddr vm"
proof -
  obtain p1 p2 p3 where p: "as' = as\<lparr>as_pbase1 := p1, as_pbase2 := p2, as_stackpbase := p3\<rparr>"
      "ram_ok vm'" "tlb vm' = tlb vm" "kmem vm' = kmem vm"
      "p1 = firstpaddr vm" "p2 = p1 + as_npages1 as * 4096" "p3 = p2 + as_npages2 as * 4096" "firstpaddr vm' = p3 + 12 * 4096"
      "lastpaddr vm' = lastpaddr vm"
    using assms(2-)
  proof (cases rule: as_prepare_load_cases)
    case (nomem as1 vm1)
    with assms(1) show ?thesis by simp
  next
    case (ok p1 p2 p3 vm1)
    with assms(1) that show ?thesis by simp
  qed
  show "ram_ok vm'" "tlb vm' = tlb vm" "kmem vm' = kmem vm" "lastpaddr vm' = lastpaddr vm" by (fact p)+
  show "firstpaddr vm \<le> firstpaddr vm'" using p(5-) by simp
  show "as_frames as' \<subseteq> {firstpaddr vm..<firstpaddr vm'}" using p by (auto simp: as_frames_def frames_def)
  have "p1 mod 4096 = 0" "p1 \<noteq> 0" using p(5) assms(2) by (simp_all add: ram_ok_def)
  then show "as_ok vm' as'" using p assms(3,4) by (auto simp: as_ok_def as_frames_def frames_def)
qed

subsection \<open>Translation\<close>

lemma page_frame_id: "page_frame a = a \<longleftrightarrow> a mod 4096 = 0"
  by (auto simp: page_frame_def) (metis mod_mult_self2_is_0)

lemma page_frame_aligned [simp]: "page_frame a mod 4096 = 0"
  by (simp add: page_frame_def)

text \<open>Both regions have been defined, with at least one page.\<close>

definition as_defined :: "addrspace \<Rightarrow> bool" where
  "as_defined as \<longleftrightarrow> as_vbase1 as \<noteq> 0 \<and> as_vbase1 as mod 4096 = 0 \<and> as_npages1 as \<noteq> 0
     \<and> as_vbase2 as \<noteq> 0 \<and> as_vbase2 as mod 4096 = 0 \<and> as_npages2 as \<noteq> 0"

lemma aligned_room:
  fixes a b n :: nat
  assumes "a mod 4096 = 0" "b mod 4096 = 0" "b \<le> a" "a < b + n * 4096"
  shows "(a - b) mod 4096 = 0" "a - b + 4096 \<le> n * 4096"
proof -
  obtain k l where "a = 4096 * k" "b = 4096 * l" using assms(1,2) by (auto simp: mod_eq_0_iff_dvd elim!: dvdE)
  moreover from this have "l \<le> k" "k < l + n" using assms(3,4) by simp_all
  then have "4096 * (k - l + 1) \<le> n * 4096" by simp
  ultimately show "(a - b) mod 4096 = 0" "a - b + 4096 \<le> n * 4096"
    by (simp_all add: diff_mult_distrib2 [symmetric])
qed

lemma region_page:
  assumes "a mod 4096 = 0" "vb mod 4096 = 0" "vb \<le> a" "a < vb + n * 4096" "pb mod 4096 = 0"
    "frames pb n \<subseteq> {..<lim}" "lim \<le> 0x1fc00000"
  shows "u32 (a - vb + pb) = a - vb + pb" "(a - vb + pb) mod 4096 = 0" "frames (a - vb + pb) 1 \<subseteq> frames pb n"
proof -
  note r = aligned_room [OF assms(1-4)]
  show "frames (a - vb + pb) 1 \<subseteq> frames pb n" using r(2) by (auto simp: frames_def)
  have "a - vb + pb \<in> frames pb n" using r(2) by (auto simp: frames_def)
  then show "u32 (a - vb + pb) = a - vb + pb" using assms(6,7) by fastforce
  show "(a - vb + pb) mod 4096 = 0" using r(1) assms(5) by (simp add: mod_add_eq [symmetric])
qed

lemma as_translate_page:
  assumes "as_translate as a = Some p" "a mod 4096 = 0" "as_defined as" "as_ok vm as" "ram_ok vm"
  shows "frames p 1 \<subseteq> as_frames as" "p mod 4096 = 0"
proof -
  let ?sb = "USERSTACK - DUMBVM_STACKPAGES * PAGE_SIZE"
  have top: "firstpaddr vm \<le> 0x1fc00000" using assms(5) by (simp add: ram_ok_def)
  have fr: "frames (as_pbase1 as) (as_npages1 as) \<subseteq> {..<firstpaddr vm}" "frames (as_pbase2 as) (as_npages2 as) \<subseteq> {..<firstpaddr vm}"
    "frames (as_stackpbase as) 12 \<subseteq> {..<firstpaddr vm}"
    using assms(4) by (auto simp: as_ok_def as_frames_def)
  have le: "u32 x \<le> x" for x by (simp add: u32_def)
  have sb: "?sb mod 4096 = 0" "?sb + 12 * 4096 = USERSTACK" by (simp_all add: USERSTACK_def)
  consider (one) "as_vbase1 as \<le> a" "a < as_vbase1 as + as_npages1 as * 4096" "p = u32 (a - as_vbase1 as + as_pbase1 as)"
    | (two) "as_vbase2 as \<le> a" "a < as_vbase2 as + as_npages2 as * 4096" "p = u32 (a - as_vbase2 as + as_pbase2 as)"
    | (stack) "?sb \<le> a" "a < ?sb + 12 * 4096" "p = u32 (a - ?sb + as_stackpbase as)"
    using assms(1) less_le_trans [OF _ le] sb(2)
    by (simp only: as_translate_def Let_def PAGE_SIZE_def split: if_splits) (metis option.inject option.distinct(1))+
  then have "frames p 1 \<subseteq> as_frames as \<and> p mod 4096 = 0"
  proof cases
    case one
    with region_page [OF assms(2) _ one(1,2) _ fr(1) top] assms(3,4) show ?thesis
      by (auto simp: as_defined_def as_ok_def as_frames_def)
  next
    case two
    with region_page [OF assms(2) _ two(1,2) _ fr(2) top] assms(3,4) show ?thesis
      by (auto simp: as_defined_def as_ok_def as_frames_def)
  next
    case stack
    with region_page [OF assms(2) sb(1) stack(1,2) _ fr(3) top] assms(4) show ?thesis
      by (auto simp: as_ok_def as_frames_def)
  qed
  then show "frames p 1 \<subseteq> as_frames as" "p mod 4096 = 0" by auto
qed

lemma vm_fault_cases:
  assumes "ft = VM_FAULT_READ \<or> ft = VM_FAULT_WRITE" "as_defined as" "as_ok vm as" "ram_ok vm"
  obtains (outside) "as_translate as (page_frame a) = None" "vm_fault ft a (Some as) vm = Some (Err EFAULT, vm)"
  | (full) p where "as_translate as (page_frame a) = Some p" "\<forall>i < NUM_TLB. te_valid (tlb vm ! i)"
      "vm_fault ft a (Some as) vm = Some (Err EFAULT, vm)"
  | (mapped) p i where "as_translate as (page_frame a) = Some p" "i < NUM_TLB" "\<not> te_valid (tlb vm ! i)"
      "vm_fault ft a (Some as) vm = Some (Ok (), vm\<lparr>tlb := (tlb vm)[i :=
         \<lparr>te_vpage = page_frame a, te_ppage = p, te_dirty = True, te_valid = True\<rparr>]\<rparr>)"
proof (cases "as_translate as (page_frame a)")
  case None
  with assms(1-3) outside show ?thesis
    by (auto simp: vm_fault_def Let_def page_frame_id as_defined_def as_ok_def)
next
  case (Some p)
  have "p mod 4096 = 0" using as_translate_page(2) [OF Some _ assms(2-4)] by simp
  then have f: "vm_fault ft a (Some as) vm = (case tlb_load (page_frame a) p (tlb vm) of
      None \<Rightarrow> Some (Err EFAULT, vm) | Some es \<Rightarrow> Some (Ok (), vm\<lparr>tlb := es\<rparr>))"
    using assms(1-3) Some by (auto simp: vm_fault_def Let_def page_frame_id as_defined_def as_ok_def)
  show ?thesis
  proof (cases "find (\<lambda>i. \<not> te_valid (tlb vm ! i)) [0..<NUM_TLB]")
    case None
    then have "tlb_load (page_frame a) p (tlb vm) = None" "\<forall>i < NUM_TLB. te_valid (tlb vm ! i)"
      by (simp_all add: tlb_load_def) (simp add: find_None_iff)
    with f full [OF Some] show ?thesis by simp
  next
    case i: (Some i)
    then have "i < NUM_TLB" "\<not> te_valid (tlb vm ! i)" by (auto simp: find_Some_iff)
    with mapped [OF Some] f i show ?thesis by (simp add: tlb_load_def)
  qed
qed

subsection \<open>Copying an address space\<close>

definition kmem_ok :: "vm \<Rightarrow> bool" where
  "kmem_ok vm \<longleftrightarrow> mapped (kmem vm) MIPS_KSEG0 (lastpaddr vm)"

abbreviation pbyte :: "vm \<Rightarrow> nat \<Rightarrow> byte option" where
  "pbyte vm x \<equiv> kmem vm (x + MIPS_KSEG0)"

lemma put_copy:
  "mapped m b n \<Longrightarrow> put m a (bytes_at m b n) x = (if a \<le> x \<and> x < a + n then m (x - a + b) else m x)"
proof (cases "a \<le> x \<and> x < a + n")
  case True
  assume "mapped m b n"
  moreover have "x - a + b \<in> {b..<b + n}" using True by auto
  ultimately have "m (x - a + b) \<noteq> None" unfolding mapped_iff by blast
  with True show ?thesis by (auto simp: put_def add.commute)
qed (auto simp: put_def)

lemma copy_region_ok:
  assumes "ram_ok vm" "kmem_ok vm" "n \<le> 2 ^ 19" "new + n * 4096 \<le> lastpaddr vm" "old + n * 4096 \<le> lastpaddr vm"
  obtains vm' where "copy_region new old n vm = Some vm'" "vm' = vm\<lparr>kmem := kmem vm'\<rparr>" "kmem_ok vm'"
    "\<And>x. pbyte vm' x = (if x \<in> frames new n then pbyte vm (x - new + old) else pbyte vm x)"
proof -
  have small: "lastpaddr vm \<le> 0x1fc00000" using assms(1) by (simp add: ram_ok_def)
  have sub: "mapped (kmem vm) (a + MIPS_KSEG0) (n * 4096)" if "a + n * 4096 \<le> lastpaddr vm" for a
    using assms(2) that by (auto simp: kmem_ok_def mapped_iff subset_iff)
  let ?m = "put (kmem vm) (new + MIPS_KSEG0) (bytes_at (kmem vm) (old + MIPS_KSEG0) (n * 4096))"
  have "PADDR_TO_KVADDR new = new + MIPS_KSEG0" "PADDR_TO_KVADDR old = old + MIPS_KSEG0" "u32 (n * 4096) = n * 4096"
    using assms(3-5) small by (simp_all add: PADDR_TO_KVADDR_def MIPS_KSEG0_def)
  then have "copy_region new old n vm = Some (vm\<lparr>kmem := ?m\<rparr>)"
    using memmove_copies [OF sub sub] assms(4,5) by (simp add: copy_region_def)
  moreover have "kmem_ok (vm\<lparr>kmem := ?m\<rparr>)"
    using assms(2) sub [OF assms(4)] by (simp add: kmem_ok_def mapped_put_eq)
  moreover have "pbyte (vm\<lparr>kmem := ?m\<rparr>) x = (if x \<in> frames new n then pbyte vm (x - new + old) else pbyte vm x)" for x
    using put_copy [OF sub [OF assms(5)], of "new + MIPS_KSEG0" "x + MIPS_KSEG0"] by (auto simp: frames_def add.assoc)
  ultimately show ?thesis by (intro that [of "vm\<lparr>kmem := ?m\<rparr>"]) simp_all
qed

definition as_copied :: "vm \<Rightarrow> addrspace \<Rightarrow> addrspace \<Rightarrow> vm \<Rightarrow> bool" where
  "as_copied vm old new vm' \<longleftrightarrow> (\<forall>x. pbyte vm' x =
     (if x \<in> frames (as_pbase1 new) (as_npages1 old) then pbyte vm (x - as_pbase1 new + as_pbase1 old)
      else if x \<in> frames (as_pbase2 new) (as_npages2 old) then pbyte vm (x - as_pbase2 new + as_pbase2 old)
      else if x \<in> frames (as_stackpbase new) 12 then pbyte vm (x - as_stackpbase new + as_stackpbase old)
      else pbyte vm x))"

lemma frames_end: "frames p n \<subseteq> {..<k} \<Longrightarrow> 0 < n \<Longrightarrow> p + n * 4096 \<le> k"
proof -
  assume "frames p n \<subseteq> {..<k}" "0 < n"
  moreover from this have "p + n * 4096 - 1 \<in> frames p n" by (simp add: frames_def)
  ultimately have "p + n * 4096 - 1 < k" by blast
  then show ?thesis by linarith
qed

lemma copies_compose:
  assumes "\<And>x. b1 x = (if x \<in> F1 then b0 (f1 x) else b0 x)" "\<And>x. b2 x = (if x \<in> F2 then b1 (f2 x) else b1 x)"
    "\<And>x. b3 x = (if x \<in> F3 then b2 (f3 x) else b2 x)"
    "F1 \<inter> F2 = {}" "F1 \<inter> F3 = {}" "F2 \<inter> F3 = {}" "\<And>x. x \<in> F2 \<Longrightarrow> f2 x \<notin> F1" "\<And>x. x \<in> F3 \<Longrightarrow> f3 x \<notin> F1 \<union> F2"
  shows "b3 x = (if x \<in> F1 then b0 (f1 x) else if x \<in> F2 then b0 (f2 x) else if x \<in> F3 then b0 (f3 x) else b0 x)"
  using assms by auto

lemma frames_shift: "p0 + n * 4096 \<le> lim \<Longrightarrow> x \<in> frames p n \<Longrightarrow> x - p + p0 < lim"
  by (auto simp: frames_def)

lemma as_copy_cases:
  assumes "ram_ok vm" "kmem_ok vm" "as_ok vm old" "as_defined old"
  obtains (nomem) vm' where "as_copy got old vm = Some (Err ENOMEM, vm')" "ram_ok vm'" "firstpaddr vm \<le> firstpaddr vm'"
      "tlb vm' = tlb vm" "kmem vm' = kmem vm" "lastpaddr vm' = lastpaddr vm"
  | (ok) new vm' where "as_copy got old vm = Some (Ok new, vm')" "ram_ok vm'" "kmem_ok vm'" "firstpaddr vm \<le> firstpaddr vm'"
      "tlb vm' = tlb vm" "as_ok vm' new" "as_frames new \<subseteq> {firstpaddr vm..<firstpaddr vm'}" "as_copied vm old new vm'"
      "as_vbase1 new = as_vbase1 old" "as_npages1 new = as_npages1 old" "as_vbase2 new = as_vbase2 old" "as_npages2 new = as_npages2 old"
proof -
  let ?new = "\<lparr>as_vbase1 = as_vbase1 old, as_pbase1 = 0, as_npages1 = as_npages1 old, as_vbase2 = as_vbase2 old,
    as_pbase2 = 0, as_npages2 = as_npages2 old, as_stackpbase = 0\<rparr>"
  show ?thesis
  proof (cases got)
    case False
    with nomem [OF _ assms(1)] show ?thesis by (simp add: as_copy_def as_create_def)
  next
    case True
    have np: "as_npages1 ?new \<le> 2 ^ 19" "as_npages2 ?new \<le> 2 ^ 19" using assms(3) by (simp_all add: as_ok_def)
    note z = addrspace.select_convs(2,5,7) [of "as_vbase1 old" 0 "as_npages1 old" "as_vbase2 old" 0 "as_npages2 old" 0 "()"]
    from assms(1) np z show ?thesis
    proof (cases rule: as_prepare_load_cases)
      case as: (nomem as' vm')
      then have "as_copy got old vm = Some (Err ENOMEM, vm')" using True by (simp add: as_copy_def as_create_def)
      with as nomem show ?thesis by simp
    next
      case as: (ok p1 p2 p3 vm0)
      let ?as = "?new\<lparr>as_pbase1 := p1, as_pbase2 := p2, as_stackpbase := p3\<rparr>"
      note ok0 = as_prepare_load_ok [OF as(1) assms(1) np z]
      have k0: "kmem_ok vm0" using assms(2) as(4,9) by (simp add: kmem_ok_def)
      have lim: "firstpaddr vm \<le> lastpaddr vm" "firstpaddr vm0 \<le> lastpaddr vm0" using assms(1) as(2) by (simp_all add: ram_ok_def)
      have old: "as_frames old \<subseteq> {..<firstpaddr vm}" using assms(3) by (simp add: as_ok_def)
      have e: "as_pbase1 old + as_npages1 old * 4096 \<le> firstpaddr vm" "as_pbase2 old + as_npages2 old * 4096 \<le> firstpaddr vm"
        "as_stackpbase old + 12 * 4096 \<le> firstpaddr vm"
        using old assms(4) frames_end [of _ _ "firstpaddr vm"] frames_end [of "as_stackpbase old" 12 "firstpaddr vm"]
        by (simp_all add: as_frames_def as_defined_def)
      obtain vm1 where 1: "copy_region p1 (as_pbase1 old) (as_npages1 old) vm0 = Some vm1" "vm1 = vm0\<lparr>kmem := kmem vm1\<rparr>" "kmem_ok vm1"
        "\<And>x. pbyte vm1 x = (if x \<in> frames p1 (as_npages1 old) then pbyte vm0 (x - p1 + as_pbase1 old) else pbyte vm0 x)"
        using copy_region_ok [OF as(2) k0, of "as_npages1 old" p1 "as_pbase1 old"] np e lim as by auto
      have f1: "firstpaddr vm1 = firstpaddr vm0" "lastpaddr vm1 = lastpaddr vm0" "tlb vm1 = tlb vm0" by (subst 1(2), simp)+
      then have r1: "ram_ok vm1" using as(2) by (simp add: ram_ok_def)
      obtain vm2 where 2: "copy_region p2 (as_pbase2 old) (as_npages2 old) vm1 = Some vm2" "vm2 = vm1\<lparr>kmem := kmem vm2\<rparr>" "kmem_ok vm2"
        "\<And>x. pbyte vm2 x = (if x \<in> frames p2 (as_npages2 old) then pbyte vm1 (x - p2 + as_pbase2 old) else pbyte vm1 x)"
        using copy_region_ok [OF r1 1(3), of "as_npages2 old" p2 "as_pbase2 old"] np e lim as f1 by auto
      have f2: "firstpaddr vm2 = firstpaddr vm0" "lastpaddr vm2 = lastpaddr vm0" "tlb vm2 = tlb vm0" using f1 by (subst 2(2), simp)+
      then have r2: "ram_ok vm2" using as(2) by (simp add: ram_ok_def)
      obtain vm3 where 3: "copy_region p3 (as_stackpbase old) 12 vm2 = Some vm3" "vm3 = vm2\<lparr>kmem := kmem vm3\<rparr>" "kmem_ok vm3"
        "\<And>x. pbyte vm3 x = (if x \<in> frames p3 12 then pbyte vm2 (x - p3 + as_stackpbase old) else pbyte vm2 x)"
        using copy_region_ok [OF r2 2(3), of 12 p3 "as_stackpbase old"] e lim as f2 by auto
      have f3: "firstpaddr vm3 = firstpaddr vm0" "lastpaddr vm3 = lastpaddr vm0" "tlb vm3 = tlb vm0" using f2 by (subst 3(2), simp)+
      have nz: "p1 \<noteq> 0" "p2 \<noteq> 0" "p3 \<noteq> 0" using as assms(1) by (auto simp: ram_ok_def)
      have "as_copy got old vm = Some (Ok ?as, vm3)"
        using True as(1) 1(1) 2(1) 3(1) nz by (simp add: as_copy_def as_create_def)
      moreover have "as_copied vm old ?as vm3"
      proof -
        have F: "frames p1 (as_npages1 old) \<inter> frames p2 (as_npages2 old) = {}" "frames p1 (as_npages1 old) \<inter> frames p3 12 = {}"
          "frames p2 (as_npages2 old) \<inter> frames p3 12 = {}" "y \<in> frames p1 (as_npages1 old) \<union> frames p2 (as_npages2 old) \<Longrightarrow> firstpaddr vm \<le> y" for y
          using as(5-8) by (auto simp: frames_def)
        have "pbyte vm3 x = (if x \<in> frames p1 (as_npages1 old) then pbyte vm0 (x - p1 + as_pbase1 old)
          else if x \<in> frames p2 (as_npages2 old) then pbyte vm0 (x - p2 + as_pbase2 old)
          else if x \<in> frames p3 12 then pbyte vm0 (x - p3 + as_stackpbase old) else pbyte vm0 x)" for x
          by (rule copies_compose [OF 1(4) 2(4) 3(4) F(1-3)]) (use frames_shift e F(4) in \<open>fastforce simp: not_less [symmetric]\<close>)+
        then show ?thesis using as(4) by (simp add: as_copied_def)
      qed
      moreover have "as_ok vm3 ?as" "ram_ok vm3" using ok0(1) f3 as(2) by (simp_all add: as_ok_def ram_ok_def)
      ultimately show ?thesis using ok [of ?as vm3] ok0(2,4,5) 3(3) f3 by simp
    qed
  qed
qed
subsection \<open>The system of address spaces\<close>

text \<open>
  The address spaces that exist, the current one, and the regions that \<^verbatim>\<open>alloc_kpages\<close> gave to the kernel heap. The steps
  are the calls that the rest of the kernel makes: loading a program (with two segments of at least one page each, as
  \<^verbatim>\<open>vm_fault\<close> asserts, and of at most \<open>2 ^ 19\<close> pages), copying and destroying a space, switching to a space, a TLB miss
  on a page that no valid entry maps, and allocating kernel pages.
\<close>

record vsys =
  vs_vm :: vm
  vs_as :: "nat \<Rightarrow> addrspace option"
  vs_cur :: "nat option"
  vs_kern :: "(nat \<times> nat) list"

definition as_loaded :: "nat \<Rightarrow> nat \<Rightarrow> nat \<Rightarrow> nat \<Rightarrow> addrspace \<Rightarrow> bool" where
  "as_loaded v1 z1 v2 z2 as \<longleftrightarrow>
     (case as_create True of None \<Rightarrow> False | Some a0 \<Rightarrow>
        fst (as_define_region v1 z1 a0) = Ok ()
        \<and> as_define_region v2 z2 (snd (as_define_region v1 z1 a0)) = (Ok (), as))
     \<and> as_defined as \<and> as_npages1 as \<le> 2 ^ 19 \<and> as_npages2 as \<le> 2 ^ 19"

inductive vm_step :: "vsys \<Rightarrow> vsys \<Rightarrow> bool" where
  load: "\<lbrakk>vs_as s i = None; as_loaded v1 z1 v2 z2 as; as_prepare_load as (vs_vm s) = Some (r, as', vm')\<rbrakk> \<Longrightarrow>
    vm_step s (s\<lparr>vs_vm := vm', vs_as := (vs_as s)(i := if r = Ok () then Some as' else None)\<rparr>)"
| copy: "\<lbrakk>vs_as s i = Some old; vs_as s j = None; as_copy got old (vs_vm s) = Some (r, vm')\<rbrakk> \<Longrightarrow>
    vm_step s (s\<lparr>vs_vm := vm', vs_as := (vs_as s)(j := (case r of Inr new \<Rightarrow> Some new | Inl _ \<Rightarrow> None))\<rparr>)"
| switch: "vs_as s i \<noteq> None \<Longrightarrow> vm_step s (s\<lparr>vs_vm := as_activate (vs_vm s), vs_cur := Some i\<rparr>)"
| destroy: "vs_cur s \<noteq> Some i \<Longrightarrow> vm_step s (s\<lparr>vs_as := (vs_as s)(i := None)\<rparr>)"
| fault: "\<lbrakk>vs_cur s = Some i; ft = VM_FAULT_READ \<or> ft = VM_FAULT_WRITE;
    \<forall>e \<in> set (tlb (vs_vm s)). te_valid e \<longrightarrow> te_vpage e \<noteq> page_frame a;
    vm_fault ft a (vs_as s i) (vs_vm s) = Some (r, vm')\<rbrakk> \<Longrightarrow> vm_step s (s\<lparr>vs_vm := vm'\<rparr>)"
| kpages: "\<lbrakk>n \<le> 2 ^ 19; alloc_kpages (int n) (vs_vm s) = (va, vm')\<rbrakk> \<Longrightarrow>
    vm_step s (s\<lparr>vs_vm := vm', vs_kern := (if va = 0 then [] else [(va - MIPS_KSEG0, n)]) @ vs_kern s\<rparr>)"

definition kern_frames :: "vsys \<Rightarrow> nat set" where
  "kern_frames s = (\<Union>(p, n) \<in> set (vs_kern s). frames p n)"

definition spaces_ok :: "vsys \<Rightarrow> bool" where
  "spaces_ok s \<longleftrightarrow> (\<forall>i as. vs_as s i = Some as \<longrightarrow> as_ok (vs_vm s) as \<and> as_defined as \<and> as_frames as \<inter> kern_frames s = {})
     \<and> (\<forall>i j as bs. vs_as s i = Some as \<longrightarrow> vs_as s j = Some bs \<longrightarrow> i \<noteq> j \<longrightarrow> as_frames as \<inter> as_frames bs = {})
     \<and> kern_frames s \<subseteq> {..<firstpaddr (vs_vm s)}"

definition entry_ok :: "vsys \<Rightarrow> tlb_entry \<Rightarrow> bool" where
  "entry_ok s e \<longleftrightarrow> (\<exists>i as. vs_cur s = Some i \<and> vs_as s i = Some as
     \<and> as_translate as (te_vpage e) = Some (te_ppage e) \<and> frames (te_ppage e) 1 \<subseteq> as_frames as)"

definition tlb_ok :: "vsys \<Rightarrow> bool" where
  "tlb_ok s \<longleftrightarrow> length (tlb (vs_vm s)) = NUM_TLB
     \<and> (\<forall>e \<in> set (tlb (vs_vm s)). te_valid e \<longrightarrow> entry_ok s e)
     \<and> (\<forall>k < NUM_TLB. \<forall>l < NUM_TLB. te_valid (tlb (vs_vm s) ! k) \<and> te_valid (tlb (vs_vm s) ! l)
          \<and> te_vpage (tlb (vs_vm s) ! k) = te_vpage (tlb (vs_vm s) ! l) \<longrightarrow> k = l)
     \<and> (\<forall>i. vs_cur s = Some i \<longrightarrow> vs_as s i \<noteq> None)"

definition vsys_ok :: "vsys \<Rightarrow> bool" where
  "vsys_ok s \<longleftrightarrow> ram_ok (vs_vm s) \<and> kmem_ok (vs_vm s) \<and> spaces_ok s \<and> tlb_ok s"

definition vsys_init :: "vsys \<Rightarrow> bool" where
  "vsys_init s \<longleftrightarrow> ram_ok (vs_vm s) \<and> kmem_ok (vs_vm s) \<and> vs_as s = (\<lambda>_. None) \<and> vs_cur s = None \<and> vs_kern s = []
     \<and> length (tlb (vs_vm s)) = NUM_TLB \<and> (\<forall>e \<in> set (tlb (vs_vm s)). \<not> te_valid e)"

lemma vsys_init_ok: "vsys_init s \<Longrightarrow> vsys_ok s"
  by (auto simp: vsys_init_def vsys_ok_def spaces_ok_def tlb_ok_def kern_frames_def)

lemma as_ok_grow: "as_ok vm as \<Longrightarrow> firstpaddr vm \<le> firstpaddr vm' \<Longrightarrow> as_ok vm' as"
  unfolding as_ok_def by (auto dest: order_trans)

text \<open>More physical memory in use, and one space more or less.\<close>

lemma spaces_grow:
  assumes "spaces_ok s" "firstpaddr (vs_vm s) \<le> firstpaddr vm'" "vs_as s j = None"
    "\<And>new. x = Some new \<Longrightarrow> as_ok vm' new \<and> as_defined new \<and> as_frames new \<subseteq> {firstpaddr (vs_vm s)..<firstpaddr vm'}"
  shows "spaces_ok (s\<lparr>vs_vm := vm', vs_as := (vs_as s)(j := x)\<rparr>)"
proof -
  let ?f = "firstpaddr (vs_vm s)"
  have k: "kern_frames (s\<lparr>vs_vm := vm', vs_as := (vs_as s)(j := x)\<rparr>) = kern_frames s" by (simp add: kern_frames_def)
  have old: "as_frames as \<subseteq> {..<?f}" "as_ok vm' as" if "vs_as s i = Some as" for i as
  proof -
    have "as_ok (vs_vm s) as" using assms(1) that by (simp add: spaces_ok_def)
    then show "as_frames as \<subseteq> {..<?f}" "as_ok vm' as" using as_ok_grow assms(2) by (simp_all add: as_ok_def)
  qed
  have kf: "kern_frames s \<subseteq> {..<?f}" using assms(1) by (simp add: spaces_ok_def)
  have new: "as_frames new \<inter> {..<?f} = {}" if "x = Some new" for new using assms(4) [OF that] by fastforce
  have d1: "as_frames new \<inter> as_frames as = {}" if "x = Some new" "vs_as s i = Some as" for new i as
    using new [OF that(1)] old(1) [OF that(2)] by blast
  have d2: "as_frames new \<inter> kern_frames s = {}" if "x = Some new" for new using new [OF that] kf by blast
  show ?thesis
    unfolding spaces_ok_def k
  proof (intro conjI allI impI)
    fix i as
    assume "vs_as (s\<lparr>vs_vm := vm', vs_as := (vs_as s)(j := x)\<rparr>) i = Some as"
    then consider "i = j" "x = Some as" | "vs_as s i = Some as" by (auto split: if_splits)
    then show "as_ok (vs_vm (s\<lparr>vs_vm := vm', vs_as := (vs_as s)(j := x)\<rparr>)) as" "as_defined as" "as_frames as \<inter> kern_frames s = {}"
      using assms(1,4) old(2) d2 by (cases; simp add: spaces_ok_def)+
  next
    fix i l as bs
    assume "vs_as (s\<lparr>vs_vm := vm', vs_as := (vs_as s)(j := x)\<rparr>) i = Some as"
      "vs_as (s\<lparr>vs_vm := vm', vs_as := (vs_as s)(j := x)\<rparr>) l = Some bs" "i \<noteq> l"
    then show "as_frames as \<inter> as_frames bs = {}"
      using assms(1) d1 [of as l bs] d1 [of bs i as] by (auto simp: spaces_ok_def split: if_splits)
  next
    show "kern_frames s \<subseteq> {..<firstpaddr (vs_vm (s\<lparr>vs_vm := vm', vs_as := (vs_as s)(j := x)\<rparr>))}"
      using kf assms(2) by auto
  qed
qed

lemma tlb_keep:
  assumes "tlb_ok s" "tlb (vs_vm s') = tlb (vs_vm s)" "vs_cur s' = vs_cur s" "\<And>i. vs_cur s = Some i \<Longrightarrow> vs_as s' i = vs_as s i"
  shows "tlb_ok s'"
proof -
  have "entry_ok s' e" if "entry_ok s e" for e
    using that assms(3,4) unfolding entry_ok_def by (metis (no_types, lifting))
  then show ?thesis using assms unfolding tlb_ok_def by simp
qed

lemma grow_ok:
  assumes "vsys_ok s" "ram_ok vm'" "kmem_ok vm'" "tlb vm' = tlb (vs_vm s)" "firstpaddr (vs_vm s) \<le> firstpaddr vm'" "vs_as s j = None"
    "\<And>new. x = Some new \<Longrightarrow> as_ok vm' new \<and> as_defined new \<and> as_frames new \<subseteq> {firstpaddr (vs_vm s)..<firstpaddr vm'}"
  shows "vsys_ok (s\<lparr>vs_vm := vm', vs_as := (vs_as s)(j := x)\<rparr>)"
proof -
  have "spaces_ok (s\<lparr>vs_vm := vm', vs_as := (vs_as s)(j := x)\<rparr>)"
    using assms(1) spaces_grow [OF _ assms(5-7)] by (simp add: vsys_ok_def)
  moreover have "tlb_ok (s\<lparr>vs_vm := vm', vs_as := (vs_as s)(j := x)\<rparr>)"
    by (rule tlb_keep [of s]) (use assms(1,4,6) in \<open>auto simp: vsys_ok_def tlb_ok_def\<close>)
  ultimately show ?thesis using assms(2,3) by (simp add: vsys_ok_def)
qed

lemma fault_ok:
  assumes "vsys_ok s" "vs_cur s = Some i" "ft = VM_FAULT_READ \<or> ft = VM_FAULT_WRITE"
    "\<forall>e \<in> set (tlb (vs_vm s)). te_valid e \<longrightarrow> te_vpage e \<noteq> page_frame a"
  shows "\<exists>r vm'. vm_fault ft a (vs_as s i) (vs_vm s) = Some (r, vm') \<and> vsys_ok (s\<lparr>vs_vm := vm'\<rparr>)"
proof -
  let ?vm = "vs_vm s"
  have ok: "ram_ok ?vm" "kmem_ok ?vm" "spaces_ok s" "tlb_ok s" using assms(1) by (simp_all add: vsys_ok_def)
  obtain as where as: "vs_as s i = Some as" using ok(4) assms(2) by (auto simp: tlb_ok_def)
  have aok: "as_ok ?vm as" "as_defined as" using ok(3) as by (simp_all add: spaces_ok_def)
  from assms(3) aok(2,1) ok(1) show ?thesis
  proof (cases rule: vm_fault_cases [where a = a])
    case (mapped p k)
    let ?e = "\<lparr>te_vpage = page_frame a, te_ppage = p, te_dirty = True, te_valid = True\<rparr>"
    let ?vm' = "?vm\<lparr>tlb := (tlb ?vm)[k := ?e]\<rparr>"
    have fr: "frames p 1 \<subseteq> as_frames as" using as_translate_page(1) [OF mapped(1) _ aok(2,1) ok(1)] by simp
    have len: "length (tlb ?vm) = NUM_TLB" using ok(4) by (simp add: tlb_ok_def)
    have eo: "entry_ok (s\<lparr>vs_vm := ?vm'\<rparr>) e = entry_ok s e" for e by (simp add: entry_ok_def)
    have ee: "entry_ok s ?e" using assms(2) as mapped(1) fr by (simp add: entry_ok_def)
    have miss: "te_vpage (tlb ?vm ! l) \<noteq> page_frame a" if "l < NUM_TLB" "te_valid (tlb ?vm ! l)" for l
      using assms(4) that len by auto
    have nth: "(tlb ?vm)[k := ?e] ! l = (if l = k then ?e else tlb ?vm ! l)" if "l < NUM_TLB" for l
      using that len by (auto simp: nth_list_update)
    have uq: "l = j" if "l < NUM_TLB" "j < NUM_TLB" "te_valid ((tlb ?vm)[k := ?e] ! l)" "te_valid ((tlb ?vm)[k := ?e] ! j)"
      "te_vpage ((tlb ?vm)[k := ?e] ! l) = te_vpage ((tlb ?vm)[k := ?e] ! j)" for l j
      using that ok(4) miss [of l] miss [of j] nth [of l] nth [of j] unfolding tlb_ok_def
      by (cases "l = k"; cases "j = k") auto
    have "tlb_ok (s\<lparr>vs_vm := ?vm'\<rparr>)"
      using ok(4) ee len uq set_update_subset_insert [of "tlb ?vm" k ?e] unfolding tlb_ok_def eo by auto
    moreover have "spaces_ok (s\<lparr>vs_vm := ?vm'\<rparr>)" using ok(3) by (simp add: spaces_ok_def as_ok_def kern_frames_def)
    ultimately have "vsys_ok (s\<lparr>vs_vm := ?vm'\<rparr>)" using ok(1,2) by (simp add: vsys_ok_def ram_ok_def kmem_ok_def)
    with mapped(4) as show ?thesis by auto
  qed (use as assms(1) in auto)
qed

lemma as_loaded_fresh:
  assumes "as_loaded v1 z1 v2 z2 as"
  shows "as_pbase1 as = 0" "as_pbase2 as = 0" "as_stackpbase as = 0" "as_defined as" "as_npages1 as \<le> 2 ^ 19" "as_npages2 as \<le> 2 ^ 19"
  using assms by (auto simp: as_loaded_def as_create_def as_define_region_def Let_def split: if_splits)

lemma load_ok:
  assumes "vsys_ok s" "vs_as s i = None" "as_loaded v1 z1 v2 z2 as" "as_prepare_load as (vs_vm s) = Some (r, as', vm')"
  shows "vsys_ok (s\<lparr>vs_vm := vm', vs_as := (vs_as s)(i := if r = Ok () then Some as' else None)\<rparr>)"
proof -
  note f = as_loaded_fresh [OF assms(3)]
  have ok: "ram_ok (vs_vm s)" "kmem_ok (vs_vm s)" using assms(1) by (simp_all add: vsys_ok_def)
  from ok(1) f(5,6,1-3) show ?thesis
  proof (cases rule: as_prepare_load_cases)
    case (nomem as1 vm1)
    with assms(4) have "kmem_ok vm'" "r \<noteq> Ok ()" "vm' = vm1" using ok(2) by (auto simp: kmem_ok_def)
    with nomem grow_ok [OF assms(1), of vm' i None] assms(2) show ?thesis by simp
  next
    case (ok p1 p2 p3 vm1)
    with assms(4) have r: "r = Ok ()" and p: "as_prepare_load as (vs_vm s) = Some (Ok (), as', vm')" by auto
    note p' = as_prepare_load_ok [OF p \<open>ram_ok (vs_vm s)\<close> f(5,6,1-3)]
    have "as_defined as'" using f(4) ok(1) p by (auto simp: as_defined_def)
    moreover have "kmem_ok vm'" using \<open>kmem_ok (vs_vm s)\<close> p'(6,7) by (simp add: kmem_ok_def)
    ultimately show ?thesis using r p' grow_ok [OF assms(1), of vm' i "Some as'"] assms(2) by simp
  qed
qed

lemma copy_ok:
  assumes "vsys_ok s" "vs_as s i = Some old" "vs_as s j = None" "as_copy got old (vs_vm s) = Some (r, vm')"
  shows "vsys_ok (s\<lparr>vs_vm := vm', vs_as := (vs_as s)(j := (case r of Inr new \<Rightarrow> Some new | Inl _ \<Rightarrow> None))\<rparr>)"
proof -
  have ok: "ram_ok (vs_vm s)" "kmem_ok (vs_vm s)" "as_ok (vs_vm s) old" "as_defined old"
    using assms(1,2) by (simp_all add: vsys_ok_def spaces_ok_def)
  then show ?thesis
  proof (cases rule: as_copy_cases [where got = got])
    case (nomem vm1)
    then have "kmem_ok vm1" using ok(2) by (simp add: kmem_ok_def)
    with nomem assms(3,4) grow_ok [OF assms(1), of vm1 j None] show ?thesis by auto
  next
    case new: (ok new vm1)
    then have "as_defined new" using ok(4) by (simp add: as_defined_def)
    with new assms(3,4) grow_ok [OF assms(1), of vm1 j "Some new"] show ?thesis by auto
  qed
qed

lemma kpages_ok:
  assumes "vsys_ok s" "n \<le> 2 ^ 19" "alloc_kpages (int n) (vs_vm s) = (va, vm')"
  shows "vsys_ok (s\<lparr>vs_vm := vm', vs_kern := (if va = 0 then [] else [(va - MIPS_KSEG0, n)]) @ vs_kern s\<rparr>)"
proof -
  have ok: "ram_ok (vs_vm s)" "kmem_ok (vs_vm s)" "spaces_ok s" "tlb_ok s" using assms(1) by (simp_all add: vsys_ok_def)
  have n: "nat (int n mod 2 ^ 32) = n" using assms(2) by simp
  from ok(1) assms(2) show ?thesis
  proof (cases rule: ram_stealmem_cases)
    case full
    then have "va = 0" "vm' = vs_vm s" using assms(3) n by (simp_all add: alloc_kpages_def getppages_def)
    then show ?thesis using assms(1) by simp
  next
    case (got vm1)
    let ?f = "firstpaddr (vs_vm s)"
    have f: "?f \<noteq> 0" "?f \<le> 0x1fc00000" using ok(1) by (simp_all add: ram_ok_def)
    then have v: "va = ?f + MIPS_KSEG0" "vm' = vm1" "va \<noteq> 0"
      using assms(3) n got by (simp_all add: alloc_kpages_def getppages_def PADDR_TO_KVADDR_def MIPS_KSEG0_def)
    let ?s = "s\<lparr>vs_vm := vm', vs_kern := (?f, n) # vs_kern s\<rparr>"
    have k: "kern_frames ?s = frames ?f n \<union> kern_frames s" by (simp add: kern_frames_def)
    have fn: "firstpaddr vm' = ?f + n * 4096" "frames ?f n \<inter> {..<?f} = {}" using got v by (auto simp: frames_def)
    have A: "as_ok vm' as \<and> as_frames as \<inter> kern_frames ?s = {}" if "vs_as s i = Some as" for i as
    proof -
      have a: "as_ok (vs_vm s) as" "as_frames as \<inter> kern_frames s = {}" using ok(3) that by (simp_all add: spaces_ok_def)
      then have "as_frames as \<subseteq> {..<?f}" by (simp add: as_ok_def)
      with a(2) fn(2) k have "as_frames as \<inter> kern_frames ?s = {}" by blast
      with as_ok_grow [OF a(1)] fn(1) show ?thesis by simp
    qed
    have kf: "kern_frames s \<subseteq> {..<?f}" using ok(3) by (simp add: spaces_ok_def)
    have B: "kern_frames ?s \<subseteq> {..<firstpaddr vm'}"
      unfolding k fn(1) frames_def using kf by (auto intro: order_less_le_trans)
    have "spaces_ok ?s" unfolding spaces_ok_def using A B ok(3) by (simp add: spaces_ok_def)
    moreover have "tlb_ok ?s" by (rule tlb_keep [OF ok(4)]) (use got v in simp_all)
    ultimately have "vsys_ok ?s" using got ok(2) v(2) by (simp add: vsys_ok_def kmem_ok_def)
    moreover have "(if va = 0 then [] else [(va - MIPS_KSEG0, n)]) = [(?f, n)]" using v(1,3) by simp
    ultimately show ?thesis by simp
  qed
qed

lemma vm_step_ok: "vm_step s s' \<Longrightarrow> vsys_ok s \<Longrightarrow> vsys_ok s'"
proof (induction rule: vm_step.induct)
  case (switch s i)
  then show ?case
    by (auto simp: vsys_ok_def tlb_ok_def spaces_ok_def as_ok_def ram_ok_def kmem_ok_def as_activate_def kern_frames_def)
next
  case (destroy s i)
  have "tlb_ok (s\<lparr>vs_as := (vs_as s)(i := None)\<rparr>)"
    by (rule tlb_keep [of s]) (use destroy in \<open>auto simp: vsys_ok_def\<close>)
  then show ?case using destroy by (simp add: vsys_ok_def spaces_ok_def kern_frames_def)
next
  case (fault s i ft a r vm')
  with fault_ok [OF fault(5,1,2,3)] show ?case by auto
qed (auto simp: load_ok copy_ok kpages_ok)

lemma vm_steps_ok: "vm_step\<^sup>*\<^sup>* s s' \<Longrightarrow> vsys_ok s \<Longrightarrow> vsys_ok s'"
  by (induction rule: rtranclp_induct) (auto intro: vm_step_ok)

text \<open>The region of a page: both segments and the stack as regions 0, 1 and 2.\<close>

definition rvbase :: "addrspace \<Rightarrow> nat \<Rightarrow> nat" where
  "rvbase as r = [as_vbase1 as, as_vbase2 as, USERSTACK - 12 * 4096] ! r"

definition rpbase :: "addrspace \<Rightarrow> nat \<Rightarrow> nat" where
  "rpbase as r = [as_pbase1 as, as_pbase2 as, as_stackpbase as] ! r"

definition rnpages :: "addrspace \<Rightarrow> nat \<Rightarrow> nat" where
  "rnpages as r = [as_npages1 as, as_npages2 as, 12] ! r"

lemmas region_defs = rvbase_def rpbase_def rnpages_def

lemma less_3: "r < 3 \<longleftrightarrow> r = 0 \<or> r = 1 \<or> r = (2::nat)"
  by auto

definition as_region :: "addrspace \<Rightarrow> nat \<Rightarrow> nat option" where
  "as_region as a = find (\<lambda>r. rvbase as r \<le> a \<and> a < u32 (rvbase as r + rnpages as r * 4096)) [0..<3]"

lemma as_translate_region: "as_translate as a = map_option (\<lambda>r. u32 (a - rvbase as r + rpbase as r)) (as_region as a)"
proof -
  have "[0..<3] = [0, 1, 2 :: nat]" by (simp add: upt_rec)
  then show ?thesis by (simp add: as_translate_def as_region_def region_defs Let_def USERSTACK_def)
qed

lemma as_region_bounds:
  assumes "as_region as a = Some r"
  shows "r < 3" "rvbase as r \<le> a" "a < rvbase as r + rnpages as r * 4096"
proof -
  have "u32 x \<le> x" for x by (simp add: u32_def)
  then show "r < 3" "rvbase as r \<le> a" "a < rvbase as r + rnpages as r * 4096"
    using assms by (auto simp: as_region_def find_Some_iff intro: less_le_trans)
qed

lemma region_frames:
  assumes "as_ok vm as" "as_defined as" "r < 3"
  shows "frames (rpbase as r) (rnpages as r) \<subseteq> {..<firstpaddr vm}" "rpbase as r mod 4096 = 0" "rvbase as r mod 4096 = 0"
  using assms unfolding less_3 by (auto simp: region_defs as_ok_def as_defined_def as_frames_def USERSTACK_def)

lemma copied_region:
  assumes "as_copied vm old new vm'" "as_ok vm' new" "as_npages1 new = as_npages1 old" "as_npages2 new = as_npages2 old" "r < 3"
    "x \<in> frames (rpbase new r) (rnpages new r)"
  shows "pbyte vm' x = pbyte vm (x - rpbase new r + rpbase old r)"
proof -
  have "frames (as_pbase1 new) (as_npages1 new) \<inter> frames (as_pbase2 new) (as_npages2 new) = {}"
    "frames (as_pbase1 new) (as_npages1 new) \<inter> frames (as_stackpbase new) 12 = {}"
    "frames (as_pbase2 new) (as_npages2 new) \<inter> frames (as_stackpbase new) 12 = {}"
    using assms(2) by (simp_all add: as_ok_def)
  then have "x \<notin> frames (rpbase new q) (rnpages new q)" if "q < r" for q
    using that assms(5,6) unfolding less_3 disjoint_iff by (auto simp: region_defs less_Suc_eq numeral_2_eq_2)
  from this [of 0] this [of 1] assms(1,3-6) show ?thesis
    unfolding less_3 as_copied_def by (auto simp: region_defs)
qed

text \<open>A page of the copy holds what the page of the original held.\<close>

lemma copied_page:
  assumes "as_copied vm old new vm'" "as_translate old a = Some p" "a mod 4096 = 0" "as_defined old" "as_ok vm old" "ram_ok vm"
    "as_ok vm' new" "ram_ok vm'" "as_vbase1 new = as_vbase1 old" "as_npages1 new = as_npages1 old"
    "as_vbase2 new = as_vbase2 old" "as_npages2 new = as_npages2 old"
  shows "\<exists>q. as_translate new a = Some q \<and> (\<forall>k < 4096. pbyte vm' (q + k) = pbyte vm (p + k))"
proof -
  have same: "rvbase new = rvbase old" "rnpages new = rnpages old" using assms(9-12) by (simp_all add: region_defs fun_eq_iff)
  obtain r where r: "as_region old a = Some r" "p = u32 (a - rvbase old r + rpbase old r)"
    using assms(2) by (auto simp: as_translate_region)
  note b = as_region_bounds [OF r(1)]
  have dn: "as_defined new" using assms(4,9-12) by (simp add: as_defined_def)
  have lim: "firstpaddr vm \<le> 0x1fc00000" "firstpaddr vm' \<le> 0x1fc00000" using assms(6,8) by (simp_all add: ram_ok_def)
  note fo = region_frames [OF assms(5,4) b(1)] and fn = region_frames [OF assms(7) dn b(1), unfolded same]
  note po = region_page [OF assms(3) fo(3) b(2,3) fo(2,1) lim(1)]
  note pn = region_page [OF assms(3) fo(3) b(2,3) fn(2,1) lim(2)]
  have "as_region new a = Some r" using r(1) by (simp add: as_region_def same)
  then have q: "as_translate new a = Some (a - rvbase old r + rpbase new r)" using pn(1) by (simp add: as_translate_region same)
  have "pbyte vm' (a - rvbase old r + rpbase new r + k) = pbyte vm (p + k)" if "k < 4096" for k
  proof -
    have "a - rvbase old r + rpbase new r + k \<in> frames (rpbase new r) (rnpages new r)"
      using pn(3) that unfolding same by (auto simp: frames_def)
    from copied_region [OF assms(1,7,10,12) b(1) this] r(2) po(1) show ?thesis by (simp add: ac_simps)
  qed
  with q show ?thesis by blast
qed

subsection \<open>Properties\<close>


definition sample_vsys :: vsys where
  "sample_vsys = \<lparr>vs_vm = \<lparr>firstpaddr = 0x40000, lastpaddr = 0x200000,
      tlb = replicate 64 \<lparr>te_vpage = 0, te_ppage = 0, te_dirty = False, te_valid = False\<rparr>, kmem = (\<lambda>_. Some 0)\<rparr>,
    vs_as = (\<lambda>_. None), vs_cur = None, vs_kern = []\<rparr>"

definition sample_as :: addrspace where
  "sample_as = \<lparr>as_vbase1 = 0x400000, as_pbase1 = 0, as_npages1 = 2, as_vbase2 = 0x10000000, as_pbase2 = 0,
     as_npages2 = 1, as_stackpbase = 0\<rparr>"

lemma sample_vsys_init: "vsys_init sample_vsys"
  by (simp add: vsys_init_def sample_vsys_def ram_ok_def kmem_ok_def mapped_def list_all_iff)

lemma sample_as_loaded: "as_loaded 0x400010 5000 0x10000000 100 sample_as"
  by (simp add: as_loaded_def as_create_def as_define_region_def page_frame_def sample_as_def as_defined_def)

text \<open>
  C22. \<^verbatim>\<open>as_copy\<close> makes an exact and separate copy: it fails only with \<^const>\<open>ENOMEM\<close>; otherwise every page of the old address
  space is a page of the new one with the same contents at the same virtual address, the two share no physical memory, and
  nothing outside the new space's memory changes.
\<close>

theorem as_copy_exact:
  assumes "ram_ok vm" and "kmem_ok vm" and "as_ok vm old" and "as_defined old"
  shows "(\<exists>vm'. as_copy got old vm = Some (Err ENOMEM, vm') \<and> kmem vm' = kmem vm)
    \<or> (\<exists>new vm'. as_copy got old vm = Some (Ok new, vm') \<and> as_ok vm' new \<and> as_defined new \<and> as_frames new \<inter> as_frames old = {}
        \<and> (\<forall>a p. a mod PAGE_SIZE = 0 \<and> as_translate old a = Some p \<longrightarrow>
              (\<exists>q. as_translate new a = Some q \<and> (\<forall>k < PAGE_SIZE. pbyte vm' (q + k) = pbyte vm (p + k))))
        \<and> (\<forall>x. x \<notin> as_frames new \<longrightarrow> pbyte vm' x = pbyte vm x))"
  using assms
proof (cases rule: as_copy_cases [where got = got])
  case (ok new vm')
  have "as_defined new" using assms(4) ok(9-12) by (simp add: as_defined_def)
  moreover have "as_frames old \<subseteq> {..<firstpaddr vm}" using assms(3) by (simp add: as_ok_def)
  then have "as_frames new \<inter> as_frames old = {}" using ok(7) by fastforce
  moreover have "pbyte vm' x = pbyte vm x" if "x \<notin> as_frames new" for x
    using ok(8,10,12) that by (simp add: as_copied_def as_frames_def)
  moreover note copied_page [OF ok(8) _ _ assms(4,3,1) ok(6,2,9-12)]
  ultimately show ?thesis using ok(1,6) by (intro disjI2 exI [of _ new] exI [of _ vm']) simp
qed auto

theorem as_copy_exact_witness:
  "let as = sample_as\<lparr>as_pbase1 := 0x30000, as_pbase2 := 0x32000, as_stackpbase := 0x33000\<rparr> in
   (\<exists>vm'. as_copy True as (vs_vm sample_vsys) = Some (Err ENOMEM, vm') \<and> kmem vm' = kmem (vs_vm sample_vsys))
   \<or> (\<exists>new vm'. as_copy True as (vs_vm sample_vsys) = Some (Ok new, vm') \<and> as_frames new \<inter> as_frames as = {})"
proof -
  let ?as = "sample_as\<lparr>as_pbase1 := 0x30000, as_pbase2 := 0x32000, as_stackpbase := 0x33000\<rparr>"
  have "as_ok (vs_vm sample_vsys) ?as" "as_defined ?as"
    by (auto simp: as_ok_def as_defined_def as_frames_def frames_def sample_as_def sample_vsys_def)
  moreover have "ram_ok (vs_vm sample_vsys)" "kmem_ok (vs_vm sample_vsys)" using sample_vsys_init by (simp_all add: vsys_init_def)
  ultimately show ?thesis unfolding Let_def using as_copy_exact [of "vs_vm sample_vsys" ?as True] by blast
qed

text \<open>
  The sum in \<^verbatim>\<open>ram_stealmem\<close> wraps around for requests near 4 gigabytes: the request succeeds, and the first free address becomes
  0, where the kernel is.
\<close>

lemma ram_stealmem_wraps:
  "ram_stealmem 0xfffc0 (vs_vm sample_vsys) = (0x40000, (vs_vm sample_vsys)\<lparr>firstpaddr := 0\<rparr>)"
  by (simp add: ram_stealmem_def sample_vsys_def u32_def)


end
