(* ===== verification/Spec2Isabelle.thy ===== *)
theory Spec2Isabelle
  imports Bitmap Queue Array Filetable Spl Scheduler Thread Uio Disk SfsDisk Lock Vnode Sfs SfsAlloc SfsIo SfsDir SfsVnode SfsTrunc SfsPool SfsName SfsTree SfsFs Libc Printf Menu Mksfs Dumbvm
begin

text \<open>
  This development models the OS/161 kernel of the tree \<^verbatim>\<open>src/os161-1.11\<close> and the programs around it: the
  kernel library, threads and scheduling, file tables, the disk and its driver, the file system SFS with its formatter, the
  memory system, the kernel menu, and the C library. File names below are relative to \<^verbatim>\<open>src/os161-1.11\<close>; \<^verbatim>\<open>kern/\<close> is
  the kernel. The disk hardware is that of \<^verbatim>\<open>src/sys161-1.14/bus/dev_disk.c\<close>.

  \<^bold>\<open>Conventions.\<close> A kernel computation is a function into an option type (\<open>run\<close>): \<open>None\<close> stands for a failed assertion, a
  panic, an access outside an object, or a loop that does not end. A theorem that says that an operation returns
  \<open>Some\<close> therefore says that it terminates and that none of its assertions fails. Error results are the left side of a sum (\<open>res\<close>),
  with the numbers of \<^verbatim>\<open>errno.h\<close> as a datatype. A pointer is an option, \<open>NULL\<close> being \<open>None\<close>; where several objects share
  a structure, they are in a map from addresses. The outcomes of \<^verbatim>\<open>kmalloc\<close> are arguments of
  the functions that allocate, so the theorems hold for every pattern of failures unless a hypothesis restricts it.
  Machine integers are natural numbers or integers with the wrap-around written out (\<open>u32\<close>, \<open>s32\<close>), or words where the code
  works on bits. The global variables of a component are a record; the thread system extends the
  record of the scheduler, which extends that of the interrupt levels.

  \<^bold>\<open>Parts.\<close>

  \<^item> \<^verbatim>\<open>Prelude\<close>: the types above, the macros of \<^verbatim>\<open>kern/include/lib.h\<close>, lemmas on lists, options and machine integers.

  \<^item> Kernel library. \<^verbatim>\<open>Bitmap\<close>, \<^verbatim>\<open>Queue\<close> and \<^verbatim>\<open>Array\<close> model \<^verbatim>\<open>kern/lib/bitmap.c\<close>, \<^verbatim>\<open>queue.c\<close> and \<^verbatim>\<open>array.c\<close>. Each has
  an invariant that its operations keep, an abstraction (a set of indices, a list), the effect of each operation on
  it in every branch, and a locale (\<open>index_pool\<close>, \<open>fifo\<close>, \<open>vector\<close>) that states the contract and is
  interpreted on the code's functions.

  \<^item> \<^verbatim>\<open>Filetable\<close>: \<^verbatim>\<open>kern/userprog/filetable.c\<close>, the tables of open files.

  \<^item> \<^verbatim>\<open>Spl\<close>, \<^verbatim>\<open>Scheduler\<close>, \<^verbatim>\<open>Thread\<close>: \<^verbatim>\<open>spl.c\<close>, the interrupt path of \<^verbatim>\<open>trap.c\<close> and \<^verbatim>\<open>interrupt.c\<close>, \<^verbatim>\<open>scheduler.c\<close>, and
  \<^verbatim>\<open>thread.c\<close> with \<^verbatim>\<open>pcb.c\<close>. A context switch stores a resume point in the process control block of the old thread
  and continues at that of the new one. The lemmas show the invariant \<open>kinv\<close> (every
  thread is in exactly one place, process ids are unique, reserved room suffices) for every operation,
  and from it that arbitrary sequences of operations and interrupts never stop the kernel; that the
  scheduler takes the highest priority first and yet starves no thread; what fork, sleep and wakeup do; that
  booting establishes the invariant.

  \<^item> \<^verbatim>\<open>Uio\<close>: \<^verbatim>\<open>kern/lib/copyinout.c\<close> and \<^verbatim>\<open>kern/userprog/uio.c\<close> over byte memories: user copies stay in user space and round trips
  of strings.

  \<^item> \<^verbatim>\<open>Disk\<close>: the registers and transfers of the simulated disk and the driver \<^verbatim>\<open>kern/dev/lamebus/lhd.c\<close>.

  \<^item> \<^verbatim>\<open>Lock\<close>, \<^verbatim>\<open>Vnode\<close>: \<^verbatim>\<open>synch.c\<close> without semaphores, and \<^verbatim>\<open>kern/fs/vfs/vnode.c\<close>.

  \<^item> SFS. \<^verbatim>\<open>SfsDisk\<close> has the structures of \<^verbatim>\<open>kern/include/kern/sfs.h\<close> and their byte layout, \<^verbatim>\<open>Sfs\<close> the block I/O of \<^verbatim>\<open>sfs_io.c\<close> with
  allocation, block mapping and file I/O of \<^verbatim>\<open>sfs_vnode.c\<close>, \<^verbatim>\<open>SfsDir\<close> its directory functions, \<^verbatim>\<open>SfsVnode\<close> the rest of its
  operations, \<^verbatim>\<open>SfsFs\<close> the mount, sync and unmount functions of \<^verbatim>\<open>sfs_fs.c\<close>. \<^verbatim>\<open>SfsAlloc\<close> and \<^verbatim>\<open>SfsPool\<close> state the invariants of the block space and of the loaded
  inodes; \<^verbatim>\<open>SfsIo\<close>, \<^verbatim>\<open>SfsTrunc\<close>, \<^verbatim>\<open>SfsName\<close> and \<^verbatim>\<open>SfsTree\<close> show that reads and writes refine a byte map, that the name operations refine
  a map from names to files, and that every run of operations is safe; \<^verbatim>\<open>SfsFs\<close> shows that a sync followed by a mount
  restores everything. \<^verbatim>\<open>Mksfs\<close> models \<^verbatim>\<open>sbin/mksfs/mksfs.c\<close> and shows that its output mounts as an empty file system.

  \<^item> \<^verbatim>\<open>Libc\<close> and \<^verbatim>\<open>Printf\<close>: the memory and string functions, \<^verbatim>\<open>strtok_r\<close> and \<^verbatim>\<open>atoi\<close> of \<^verbatim>\<open>lib/libc\<close>, and the formatter \<^verbatim>\<open>__printf.c\<close> with
  \<^verbatim>\<open>snprintf.c\<close>. The formatter is proved for every receiver of its output at once (locale \<open>sends\<close>) and interpreted on the
  bounded buffer of \<^verbatim>\<open>snprintf\<close>.

  \<^item> \<^verbatim>\<open>Menu\<close>: the line editor \<^verbatim>\<open>kern/lib/kgets.c\<close> and the command interpreter of \<^verbatim>\<open>kern/main/menu.c\<close>, over the string functions of \<^verbatim>\<open>Libc\<close>.

  \<^item> \<^verbatim>\<open>Dumbvm\<close>: \<^verbatim>\<open>ram.c\<close> and \<^verbatim>\<open>dumbvm.c\<close> of \<^verbatim>\<open>kern/arch/mips/mips\<close>: the allocation of physical pages, address spaces and the TLB. Every
  sequence of loads, copies, switches and faults keeps address spaces separate; copying an address space is exact.

  \<^bold>\<open>How the parts meet.\<close> \<^verbatim>\<open>Scheduler\<close> keeps its run queues with \<^verbatim>\<open>Queue\<close>; \<^verbatim>\<open>Thread\<close> uses \<^verbatim>\<open>Array\<close>, \<^verbatim>\<open>Queue\<close>, \<^verbatim>\<open>Filetable\<close> and
  \<^verbatim>\<open>Scheduler\<close>. SFS calls the driver of \<^verbatim>\<open>Disk\<close> through \<^verbatim>\<open>Uio\<close> and keeps its free map with \<^verbatim>\<open>Bitmap\<close> and its vnodes with \<^verbatim>\<open>Array\<close>;
  \<^verbatim>\<open>Mksfs\<close> writes what \<^verbatim>\<open>SfsFs\<close> reads. \<^verbatim>\<open>Dumbvm\<close> copies with \<^verbatim>\<open>memmove\<close> of \<^verbatim>\<open>Libc\<close>.

  \<^bold>\<open>Bounds and fuel.\<close> Loops with a bound in the code are recursions over the list of their indices. \<^verbatim>\<open>wakeup_from\<close> has as fuel the
  number of sleepers, of which every turn consumes one; \<^verbatim>\<open>print_queue\<close> the number of cells of the ring; the wait for the disk and the retry of
  \<^verbatim>\<open>sfs_rwblock\<close> the ten tries of the code. Loops without an evident bound (strings, token scans, linked lists) are partial functions into
  the option type, and the theorems show that they return. The functional theorems on SFS assume a disk without media errors; what
  happens with them is stated separately. Queues and arrays are below the sizes at which their size arithmetic wraps around (\<open>2 ^ 29\<close> cells).

  \<^bold>\<open>Not modelled.\<close> Assembler (\<^verbatim>\<open>start.S\<close>, \<^verbatim>\<open>switch.S\<close>, \<^verbatim>\<open>exception.S\<close>, the TLB and cache routines) and the ELF loader's control transfer to user
  mode have no counterpart in a model of C functions; the effect of \<^verbatim>\<open>mips_switch\<close> is that of the resume points. The device drivers other than the disk
  (console, serial line, screen, timer, random generator, the emulator file system), bus probing and \<^verbatim>\<open>kprintf\<close> only move
  characters and words between memory and device registers. The VFS layer above the file systems (device list, path lookup), system-call dispatch
  with \<^verbatim>\<open>file.c\<close>, program loading and semaphores are not modelled. \<^verbatim>\<open>kern/vm/addrspace.c\<close> and the synchronisation exercises in
  \<^verbatim>\<open>kern/asst1\<close> are skeletons. Test programs, user commands, the rest of the simulator and the second copy of
  the tree in \<^verbatim>\<open>src/asst1\<close> are not modelled. The state of interrupts inside the file system and memory system is left out: they
  run with interrupts off or without concurrency in this kernel, since its locks are empty.
\<close>

end
